(* ===== verification/Kernel_Prelude.thy ===== *)
theory Kernel_Prelude
  imports Main "HOL-Library.Word"
begin

unbundle bit_operations_syntax

text \<open>
  Types, collections of rewrite rules and generic lemmas that every component of the
  development shares: the machine integers of the C sources as words of fixed width,
  the flat byte memory of the kernel, and facts on words, lists and \<open>nat\<close> that are not
  about one component.
\<close>

section \<open>Types\<close>

type_synonym u8 = "8 word"
type_synonym u16 = "16 word"
type_synonym u32 = "32 word"
type_synonym u64 = "64 word"

text \<open>
  The kernel runs identity mapped, so a pointer is the number of a byte.  \<open>NULL\<close> is 0.
\<close>

type_synonym ptr = "64 word"
type_synonym mem = "64 word \<Rightarrow> 8 word"

abbreviation NULL :: ptr where "NULL \<equiv> 0"

section \<open>Collections\<close>

named_theorems mem_simps \<open>reads of the byte memory after writes\<close>
named_theorems word_bounds \<open>bounds of words read as natural numbers\<close>

section \<open>Words as natural numbers\<close>

lemma unat_add_small:
  fixes a b :: "'a::len word"
  assumes "unat a + unat b < 2 ^ LENGTH('a)"
  shows "unat (a + b) = unat a + unat b"
  using assms by (simp add: unat_word_ariths)

lemma unat_add_of_nat [word_bounds]:
  fixes a :: "'a::len word"
  assumes "unat a + n < 2 ^ LENGTH('a)"
  shows "unat (a + word_of_nat n) = unat a + n"
  using assms by (simp add: unat_word_ariths unat_of_nat mod_simps)

lemma unat_sub_le:
  fixes a b :: "'a::len word"
  assumes "unat b \<le> unat a"
  shows "unat (a - b) = unat a - unat b"
  using assms by (simp add: unat_sub word_le_nat_alt)

lemma unat_less_2p [word_bounds]: "unat (a :: 'a::len word) < 2 ^ LENGTH('a)"
  by simp

lemma unat_Suc_addr:
  fixes a :: "'a::len word"
  assumes "unat a + 1 < 2 ^ LENGTH('a)"
  shows "unat (a + 1) = unat a + 1"
  using unat_add_of_nat [of a 1] assms by simp

lemma unat_2pow: "k < LENGTH('a) \<Longrightarrow> unat (2 ^ k :: 'a::len word) = 2 ^ k"
  by (simp add: of_nat_inverse)

lemma word_neq_by_unat: "unat a \<noteq> unat b \<Longrightarrow> a \<noteq> b"
  by auto

lemma unat_0_iff [simp]: "unat (a :: 'a::len word) = 0 \<longleftrightarrow> a = 0"
  by (simp add: unat_eq_0)

section \<open>Rounding a word to a multiple of a power of two\<close>

lemma and_not_mask_nat:
  fixes n :: nat
  shows "push_bit k (drop_bit k n) = (n div 2 ^ k) * 2 ^ k"
  by (simp add: push_bit_eq_mult drop_bit_eq_div)

lemma word_and_not_mask:
  fixes w :: "'a::len word"
  shows "w AND NOT (mask k) = push_bit k (drop_bit k w)"
  by (rule bit_word_eqI) (auto simp: bit_simps)

lemma unat_and_not_mask:
  fixes w :: "'a::len word"
  assumes "k < LENGTH('a)"
  shows "unat (w AND NOT (mask k)) = (unat w div 2 ^ k) * 2 ^ k"
proof -
  have le: "(unat w div 2 ^ k) * 2 ^ k \<le> unat w"
    by (simp add: div_times_less_eq_dividend)
  then have "(unat w div 2 ^ k) * 2 ^ k < 2 ^ LENGTH('a)"
    by (rule le_less_trans) (rule unat_less_2p)
  moreover have "unat (w AND NOT (mask k)) = ((unat w div 2 ^ k) * 2 ^ k) mod 2 ^ LENGTH('a)"
    unfolding word_and_not_mask push_bit_eq_mult
    by (simp only: unat_word_ariths(2) unat_drop_bit_eq unat_2pow [OF assms])
      (simp add: drop_bit_eq_div)
  ultimately show ?thesis
    by simp
qed

section \<open>Lists\<close>

lemma map_upt_Suc_shift: "map f [0..<Suc n] = f 0 # map (\<lambda>i. f (Suc i)) [0..<n]"
  by (simp add: upt_conv_Cons map_Suc_upt [symmetric] del: upt_Suc)

lemma find_split:
  assumes "find P xs = Some x"
  obtains ys zs where "xs = ys @ x # zs" "P x" "\<forall>y\<in>set ys. \<not> P y"
proof -
  from assms obtain i where i: "i < length xs" "P (xs ! i)" "x = xs ! i" "\<forall>j<i. \<not> P (xs ! j)"
    by (auto simp: find_Some_iff)
  have "xs = take i xs @ x # drop (Suc i) xs"
    using i by (simp add: id_take_nth_drop)
  moreover have "\<forall>y\<in>set (take i xs). \<not> P y"
    using i by (auto simp: in_set_conv_nth)
  ultimately show thesis
    using i that by blast
qed

lemma find_in_set: "find P xs = Some x \<Longrightarrow> x \<in> set xs \<and> P x"
  by (auto elim!: find_split)

lemma find_append_None: "find P xs = None \<Longrightarrow> find P (xs @ ys) = find P ys"
  by (induction xs) (auto split: if_splits)

lemma find_map: "find P (map f xs) = map_option f (find (\<lambda>i. P (f i)) xs)"
  by (induction xs) simp_all

section \<open>Loops that look for an index\<close>

text \<open>\<open>for (i = a; i < n; i++) if (P (i)) return i;\<close>\<close>

function scan :: "(nat \<Rightarrow> bool) \<Rightarrow> nat \<Rightarrow> nat \<Rightarrow> nat option" where
  "scan P i n = (if i < n then if P i then Some i else scan P (Suc i) n else None)"
  by pat_completeness auto
termination by (relation "measure (\<lambda>(P, i, n). n - i)") auto

declare scan.simps [simp del]

lemma scan_SomeD:
  "scan P i n = Some j \<Longrightarrow> i \<le> j \<and> j < n \<and> P j \<and> (\<forall>k. i \<le> k \<longrightarrow> k < j \<longrightarrow> \<not> P k)"
proof (induction P i n rule: scan.induct)
  case (1 P i n)
  show ?case
  proof (cases "i < n \<and> \<not> P i")
    case True
    then have "scan P (Suc i) n = Some j" using "1.prems" by (simp add: scan.simps [of P i n])
    then have IH: "Suc i \<le> j \<and> j < n \<and> P j \<and> (\<forall>k. Suc i \<le> k \<longrightarrow> k < j \<longrightarrow> \<not> P k)"
      using "1.IH" True by blast
    have "\<not> P k" if "i \<le> k" "k < j" for k
      using IH True that by (cases "k = i") auto
    then show ?thesis using IH by auto
  next
    case False
    then show ?thesis using "1.prems" by (auto simp: scan.simps [of P i n] split: if_splits)
  qed
qed

lemma scan_None: "scan P i n = None \<longleftrightarrow> (\<forall>k. i \<le> k \<longrightarrow> k < n \<longrightarrow> \<not> P k)"
proof (induction P i n rule: scan.induct)
  case (1 P i n)
  have "(\<forall>k. i \<le> k \<longrightarrow> k < n \<longrightarrow> \<not> P k) \<longleftrightarrow> (i < n \<longrightarrow> \<not> P i \<and> (\<forall>k. Suc i \<le> k \<longrightarrow> k < n \<longrightarrow> \<not> P k))"
    using Suc_le_eq le_eq_less_or_eq by auto
  then show ?case using 1 by (simp add: scan.simps [of P i n])
qed

lemma scan_Some: "scan P i n = Some j \<longleftrightarrow> i \<le> j \<and> j < n \<and> P j \<and> (\<forall>k. i \<le> k \<longrightarrow> k < j \<longrightarrow> \<not> P k)"
proof
  assume r: "i \<le> j \<and> j < n \<and> P j \<and> (\<forall>k. i \<le> k \<longrightarrow> k < j \<longrightarrow> \<not> P k)"
  then have "scan P i n \<noteq> None" by (auto simp: scan_None)
  then obtain l where l: "scan P i n = Some l" by auto
  have "\<not> l < j" "\<not> j < l" using scan_SomeD [OF l] r by blast+
  then show "scan P i n = Some j" using l by simp
qed (rule scan_SomeD)

lemma scan_find: "scan P i n = find P [i..<n]"
proof (induction P i n rule: scan.induct)
  case (1 P i n)
  then show ?case by (subst scan.simps) (simp add: upt_rec [of i n])
qed

lemma scan_cong: "(\<And>k. i \<le> k \<Longrightarrow> k < n \<Longrightarrow> P k = Q k) \<Longrightarrow> scan P i n = scan Q i n"
proof (induction P i n rule: scan.induct)
  case (1 P i n)
  show ?case
    using 1 by (subst (1 2) scan.simps) auto
qed

end
