(* ===== verification/Memory.thy ===== *)
theory Memory
  imports Kernel_Prelude
begin

text \<open>
  The flat byte memory and the little-endian loads and stores that the compiler emits
  for the fields of the C structs and for the \<open>uint64_t\<close> cells of a saved register
  frame.  A load of \<open>n\<close> bytes at \<open>a\<close> reads \<open>a, a + 1, ...\<close>; the addresses wrap at
  \<open>2^64\<close> as pointer arithmetic does, and the lemmas ask that the range does not.
\<close>

section \<open>Loads and stores\<close>

fun load_le :: "mem \<Rightarrow> ptr \<Rightarrow> nat \<Rightarrow> int" where
  "load_le m a 0 = 0"
| "load_le m a (Suc n) = uint (m a) + 256 * load_le m (a + 1) n"

fun store_le :: "mem \<Rightarrow> ptr \<Rightarrow> nat \<Rightarrow> int \<Rightarrow> mem" where
  "store_le m a 0 v = m"
| "store_le m a (Suc n) v = store_le (m(a := word_of_int v)) (a + 1) n (v div 256)"

definition ld32 :: "mem \<Rightarrow> ptr \<Rightarrow> u32" where
  "ld32 m a = word_of_int (load_le m a 4)"

definition ld64 :: "mem \<Rightarrow> ptr \<Rightarrow> u64" where
  "ld64 m a = word_of_int (load_le m a 8)"

definition st32 :: "mem \<Rightarrow> ptr \<Rightarrow> u32 \<Rightarrow> mem" where
  "st32 m a v = store_le m a 4 (uint v)"

definition st64 :: "mem \<Rightarrow> ptr \<Rightarrow> u64 \<Rightarrow> mem" where
  "st64 m a v = store_le m a 8 (uint v)"

text \<open>The bytes of a range, and a range overwritten by given bytes.\<close>

fun ld_bytes :: "mem \<Rightarrow> ptr \<Rightarrow> nat \<Rightarrow> u8 list" where
  "ld_bytes m a 0 = []"
| "ld_bytes m a (Suc n) = m a # ld_bytes m (a + 1) n"

fun st_bytes :: "mem \<Rightarrow> ptr \<Rightarrow> u8 list \<Rightarrow> mem" where
  "st_bytes m a [] = m"
| "st_bytes m a (b # bs) = st_bytes (m(a := b)) (a + 1) bs"

section \<open>Ranges\<close>

text \<open>\<open>in_range x a n\<close>: the address \<open>x\<close> is one of the \<open>n\<close> bytes from \<open>a\<close>.\<close>

definition in_range :: "ptr \<Rightarrow> ptr \<Rightarrow> nat \<Rightarrow> bool" where
  "in_range x a n \<longleftrightarrow> unat a \<le> unat x \<and> unat x < unat a + n"

text \<open>Two memories that agree on \<open>n\<close> bytes from \<open>a\<close>.\<close>

definition same_on :: "mem \<Rightarrow> mem \<Rightarrow> ptr \<Rightarrow> nat \<Rightarrow> bool" where
  "same_on m m' a n \<longleftrightarrow> (\<forall>x. in_range x a n \<longrightarrow> m x = m' x)"

definition disjoint :: "ptr \<Rightarrow> nat \<Rightarrow> ptr \<Rightarrow> nat \<Rightarrow> bool" where
  "disjoint a n b k \<longleftrightarrow> unat a + n \<le> unat b \<or> unat b + k \<le> unat a"

lemma same_on_refl [simp]: "same_on m m a n"
  by (simp add: same_on_def)

lemma same_on_trans: "same_on m m' a n \<Longrightarrow> same_on m' m'' a n \<Longrightarrow> same_on m m'' a n"
  by (simp add: same_on_def)

lemma same_on_sym: "same_on m m' a n \<Longrightarrow> same_on m' m a n"
  by (simp add: same_on_def)

lemma same_on_sub:
  "same_on m m' a n \<Longrightarrow> unat a \<le> unat b \<Longrightarrow> unat b + k \<le> unat a + n \<Longrightarrow> same_on m m' b k"
  by (auto simp: same_on_def in_range_def)

lemma same_on_Suc:
  assumes "same_on m m' a (Suc n)" "unat a + Suc n \<le> 2 ^ 64"
  shows "m a = m' a" and "same_on m m' (a + 1) n"
proof -
  show "m a = m' a"
    using assms by (auto simp: same_on_def in_range_def)
  show "same_on m m' (a + 1) n"
  proof (cases "n = 0")
    case True
    then show ?thesis by (auto simp: same_on_def in_range_def)
  next
    case False
    with assms(2) have "unat (a + 1) = unat a + 1"
      by (intro unat_Suc_addr) simp
    then show ?thesis
      using assms(1) by (auto simp: same_on_def in_range_def)
  qed
qed

lemma disjoint_sym: "disjoint a n b k \<Longrightarrow> disjoint b k a n"
  by (auto simp: disjoint_def)

lemma disjoint_Suc:
  assumes "disjoint a (Suc n) b k" "unat a + Suc n \<le> 2 ^ 64"
  shows "disjoint (a + 1) n b k"
proof (cases "n = 0")
  case True
  then show ?thesis
    using assms by (cases "unat a + 1 = 2 ^ 64")
      (auto simp: disjoint_def unat_word_ariths)
next
  case False
  with assms(2) have "unat (a + 1) = unat a + 1"
    by (intro unat_Suc_addr) simp
  with assms(1) show ?thesis by (auto simp: disjoint_def)
qed

section \<open>Frame and round-trip lemmas\<close>

lemma ld_cong:
  "same_on m m' a n \<Longrightarrow> unat a + n \<le> 2 ^ 64 \<Longrightarrow> load_le m a n = load_le m' a n"
proof (induction n arbitrary: a)
  case 0
  then show ?case by simp
next
  case (Suc n)
  note sm = same_on_Suc [OF Suc.prems]
  have "load_le m (a + 1) n = load_le m' (a + 1) n"
  proof (cases "n = 0")
    case False
    with Suc.prems(2) have "unat (a + 1) = unat a + 1"
      by (intro unat_Suc_addr) simp
    with Suc sm show ?thesis by simp
  qed simp
  with sm show ?case by simp
qed

lemma st_outside:
  "\<not> in_range x a n \<Longrightarrow> unat a + n \<le> 2 ^ 64 \<Longrightarrow> store_le m a n v x = m x"
proof (induction n arbitrary: a m v)
  case 0
  then show ?case by simp
next
  case (Suc n)
  have neq: "x \<noteq> a"
    using Suc.prems by (auto simp: in_range_def)
  show ?case
  proof (cases "n = 0")
    case True
    with neq show ?thesis by simp
  next
    case False
    with Suc.prems(2) have e: "unat (a + 1) = unat a + 1"
      by (intro unat_Suc_addr) simp
    have "\<not> in_range x (a + 1) n"
      using Suc.prems(1) e by (auto simp: in_range_def)
    then show ?thesis
      using Suc.IH [of "a + 1"] Suc.prems(2) e neq by simp
  qed
qed

lemma same_on_st:
  assumes "disjoint a n b k" "unat a + n \<le> 2 ^ 64"
  shows "same_on m (store_le m a n v) b k"
  using assms st_outside [of _ a n m v]
  by (fastforce simp: same_on_def disjoint_def in_range_def)

lemma ld_st_same:
  "unat a + n \<le> 2 ^ 64 \<Longrightarrow> load_le (store_le m a n v) a n = v mod 256 ^ n"
proof (induction n arbitrary: a m v)
  case 0
  then show ?case by simp
next
  case (Suc n)
  have hd: "store_le (m(a := word_of_int v)) (a + 1) n (v div 256) a = word_of_int v"
  proof (cases "n = 0")
    case False
    with Suc.prems have e: "unat (a + 1) = unat a + 1"
      by (intro unat_Suc_addr) simp
    then have "\<not> in_range a (a + 1) n" by (simp add: in_range_def)
    then show ?thesis using Suc.prems e by (simp add: st_outside)
  qed simp
  have tl: "load_le (store_le (m(a := word_of_int v)) (a + 1) n (v div 256)) (a + 1) n
      = (v div 256) mod 256 ^ n"
  proof (cases "n = 0")
    case False
    with Suc.prems have "unat (a + 1) = unat a + 1"
      by (intro unat_Suc_addr) simp
    with Suc show ?thesis by simp
  qed simp
  show ?case
    using hd tl by (simp add: uint_word_of_int zmod_zmult2_eq)
qed

lemma ld32_st32 [mem_simps]: "unat a + 4 \<le> 2 ^ 64 \<Longrightarrow> ld32 (st32 m a v) a = v"
  using uint_bounded [of v] by (simp add: ld32_def st32_def ld_st_same)

lemma ld64_st64 [mem_simps]: "unat a + 8 \<le> 2 ^ 64 \<Longrightarrow> ld64 (st64 m a v) a = v"
  using uint_bounded [of v] by (simp add: ld64_def st64_def ld_st_same)

lemma ld32_cong: "same_on m m' a 4 \<Longrightarrow> unat a + 4 \<le> 2 ^ 64 \<Longrightarrow> ld32 m a = ld32 m' a"
  by (simp add: ld32_def ld_cong [of m m' a 4])

lemma ld64_cong: "same_on m m' a 8 \<Longrightarrow> unat a + 8 \<le> 2 ^ 64 \<Longrightarrow> ld64 m a = ld64 m' a"
  by (simp add: ld64_def ld_cong [of m m' a 8])

lemma same_on_st32: "disjoint a 4 b k \<Longrightarrow> unat a + 4 \<le> 2 ^ 64 \<Longrightarrow> same_on m (st32 m a v) b k"
  by (simp add: st32_def same_on_st)

lemma same_on_st64: "disjoint a 8 b k \<Longrightarrow> unat a + 8 \<le> 2 ^ 64 \<Longrightarrow> same_on m (st64 m a v) b k"
  by (simp add: st64_def same_on_st)

section \<open>Byte ranges\<close>

lemma length_ld_bytes [simp]: "length (ld_bytes m a n) = n"
  by (induction n arbitrary: a) simp_all

lemma ld_bytes_nth:
  "i < n \<Longrightarrow> ld_bytes m a n ! i = m (a + word_of_nat i)"
proof (induction n arbitrary: a i)
  case (Suc n)
  then show ?case by (cases i) (simp_all add: algebra_simps)
qed simp

lemma ld_bytes_eq_map: "ld_bytes m a n = map (\<lambda>i. m (a + word_of_nat i)) [0..<n]"
  by (rule nth_equalityI) (simp_all add: ld_bytes_nth)

lemma take_ld_bytes: "i \<le> n \<Longrightarrow> take i (ld_bytes m a n) = ld_bytes m a i"
  by (rule nth_equalityI) (simp_all add: ld_bytes_nth)

lemma ld_bytes_cong:
  assumes "same_on m m' a n" "unat a + n \<le> 2 ^ 64"
  shows "ld_bytes m a n = ld_bytes m' a n"
proof -
  have "m (a + word_of_nat i) = m' (a + word_of_nat i)" if "i < n" for i
  proof -
    have "unat (a + word_of_nat i) = unat a + i"
      using that assms(2) by (intro unat_add_of_nat) simp
    with that assms(1) show ?thesis by (simp add: same_on_def in_range_def)
  qed
  then show ?thesis by (simp add: ld_bytes_eq_map)
qed

lemma st_bytes_outside:
  "\<not> in_range x a (length bs) \<Longrightarrow> unat a + length bs \<le> 2 ^ 64 \<Longrightarrow> st_bytes m a bs x = m x"
proof (induction bs arbitrary: a m)
  case Nil
  then show ?case by simp
next
  case (Cons b bs)
  have neq: "x \<noteq> a"
    using Cons.prems by (auto simp: in_range_def)
  show ?case
  proof (cases "bs = []")
    case True
    with neq show ?thesis by simp
  next
    case False
    with Cons.prems(2) have e: "unat (a + 1) = unat a + 1"
      by (intro unat_Suc_addr) (cases bs; simp)
    have "\<not> in_range x (a + 1) (length bs)"
      using Cons.prems(1) e by (auto simp: in_range_def)
    then show ?thesis
      using Cons.IH [of "a + 1"] Cons.prems(2) e neq by simp
  qed
qed

lemma same_on_st_bytes:
  assumes "disjoint a (length bs) b k" "unat a + length bs \<le> 2 ^ 64"
  shows "same_on m (st_bytes m a bs) b k"
  using assms st_bytes_outside [of _ a bs m]
  by (fastforce simp: same_on_def disjoint_def in_range_def)

lemma ld_st_bytes:
  "unat a + length bs \<le> 2 ^ 64 \<Longrightarrow> ld_bytes (st_bytes m a bs) a (length bs) = bs"
proof (induction bs arbitrary: a m)
  case Nil
  then show ?case by simp
next
  case (Cons b bs)
  show ?case
  proof (cases "bs = []")
    case False
    with Cons.prems have e: "unat (a + 1) = unat a + 1"
      by (intro unat_Suc_addr) (cases bs; simp)
    then have "\<not> in_range a (a + 1) (length bs)" by (simp add: in_range_def)
    then show ?thesis using Cons e by (simp add: st_bytes_outside)
  qed simp
qed

lemma st_bytes_append:
  "st_bytes m a (xs @ ys) = st_bytes (st_bytes m a xs) (a + word_of_nat (length xs)) ys"
  by (induction xs arbitrary: m a) (simp_all add: algebra_simps)

lemma ld_bytes_append:
  "ld_bytes m a (i + j) = ld_bytes m a i @ ld_bytes m (a + word_of_nat i) j"
  by (induction i arbitrary: a) (simp_all add: algebra_simps)

end
