(* ===== verification/Block_Heap.thy ===== *)
theory Block_Heap
  imports Memory
begin

text \<open>
  The block headers that \<open>malloc/malloc.c\<close> and \<open>malloc/user_malloc.c\<close> keep in front of
  every payload, byte for byte in the flat memory, and the code that the two files share
  line by line: rounding, the pointer arithmetic between header and payload, first fit,
  splitting, merging with the neighbours, and the walk of the statistics.  The two files
  differ in their magic number, which is a parameter here.  The second half relates the
  linked headers to a list of blocks that tile the managed region; the two allocators are
  proved correct against that list.
\<close>

section \<open>The header and its fields\<close>

text \<open>
  \<open>block_header_t\<close> has the x86-64 layout \<open>magic\<close> at 0, \<open>size\<close> at 8, \<open>free\<close> at 16,
  \<open>prev\<close> at 24 and \<open>next\<close> at 32, 40 bytes in all.
\<close>

record block_header_t =
  h_magic :: u32
  h_size :: u64
  h_free :: u32
  h_prev :: ptr
  h_next :: ptr

abbreviation SIZEOF_HDR :: u64 where "SIZEOF_HDR \<equiv> 40"
abbreviation MIN_SPLIT_SIZE :: u64 where "MIN_SPLIT_SIZE \<equiv> SIZEOF_HDR + 8"

definition hdr :: "mem \<Rightarrow> ptr \<Rightarrow> block_header_t" where
  "hdr m h = \<lparr>h_magic = ld32 m h, h_size = ld64 m (h + 8), h_free = ld32 m (h + 16),
     h_prev = ld64 m (h + 24), h_next = ld64 m (h + 32)\<rparr>"

definition set_magic :: "mem \<Rightarrow> ptr \<Rightarrow> u32 \<Rightarrow> mem" where "set_magic m h v = st32 m h v"
definition set_size :: "mem \<Rightarrow> ptr \<Rightarrow> u64 \<Rightarrow> mem" where "set_size m h v = st64 m (h + 8) v"
definition set_free :: "mem \<Rightarrow> ptr \<Rightarrow> u32 \<Rightarrow> mem" where "set_free m h v = st32 m (h + 16) v"
definition set_prev :: "mem \<Rightarrow> ptr \<Rightarrow> ptr \<Rightarrow> mem" where "set_prev m h v = st64 m (h + 24) v"
definition set_next :: "mem \<Rightarrow> ptr \<Rightarrow> ptr \<Rightarrow> mem" where "set_next m h v = st64 m (h + 32) v"

abbreviation is_free :: "mem \<Rightarrow> ptr \<Rightarrow> bool" where "is_free m h \<equiv> h_free (hdr m h) \<noteq> 0"

section \<open>The operations the two allocators share\<close>

definition align_up :: "u64 \<Rightarrow> u64" where
  "align_up n = (n + 7) AND NOT 7"

definition header_to_payload :: "ptr \<Rightarrow> ptr" where
  "header_to_payload h = h + SIZEOF_HDR"

definition payload_to_header :: "ptr \<Rightarrow> ptr" where
  "payload_to_header p = p - SIZEOF_HDR"

text \<open>The walk follows \<open>next\<close> to \<open>NULL\<close>; on a cyclic list it does not return.\<close>

partial_function (option) blk_find_fit :: "mem \<Rightarrow> ptr \<Rightarrow> u64 \<Rightarrow> ptr option" where
  "blk_find_fit m cur sz =
     (if cur = NULL then Some NULL
      else if is_free m cur \<and> sz \<le> h_size (hdr m cur) then Some cur
      else blk_find_fit m (h_next (hdr m cur)) sz)"

text \<open>Both take the tail pointer of the file and return its new value.\<close>

definition blk_split :: "u32 \<Rightarrow> mem \<Rightarrow> ptr \<Rightarrow> ptr \<Rightarrow> u64 \<Rightarrow> mem \<times> ptr" where
  "blk_split K m tail h req =
     (if h_size (hdr m h) < req + MIN_SPLIT_SIZE then (m, tail)
      else
        let newh = header_to_payload h + req;
            m = set_magic m newh K;
            m = set_free m newh 1;
            m = set_size m newh (h_size (hdr m h) - req - SIZEOF_HDR);
            m = set_prev m newh h;
            m = set_next m newh (h_next (hdr m h));
            m = (if h_next (hdr m newh) \<noteq> NULL then set_prev m (h_next (hdr m newh)) newh else m);
            m = set_next m h newh;
            m = set_size m h req
        in (m, if tail = h then newh else tail))"

text \<open>The two halves of \<open>coalesce\<close>: absorb the next block, then be absorbed by the previous.\<close>

definition merge_next :: "mem \<Rightarrow> ptr \<Rightarrow> ptr \<Rightarrow> mem \<times> ptr" where
  "merge_next m tail h =
     (let n = h_next (hdr m h) in
      if n \<noteq> NULL \<and> is_free m n then
        let m = set_size m h (h_size (hdr m h) + SIZEOF_HDR + h_size (hdr m n));
            m = set_next m h (h_next (hdr m n));
            m = (if h_next (hdr m n) \<noteq> NULL then set_prev m (h_next (hdr m n)) h else m)
        in (m, if tail = n then h else tail)
      else (m, tail))"

definition merge_prev :: "mem \<Rightarrow> ptr \<Rightarrow> ptr \<Rightarrow> mem \<times> ptr" where
  "merge_prev m tail h =
     (let p = h_prev (hdr m h) in
      if p \<noteq> NULL \<and> is_free m p then
        let m = set_size m p (h_size (hdr m p) + SIZEOF_HDR + h_size (hdr m h));
            m = set_next m p (h_next (hdr m h));
            m = (if h_next (hdr m h) \<noteq> NULL then set_prev m (h_next (hdr m h)) p else m)
        in (m, if tail = h then p else tail)
      else (m, tail))"

definition blk_coalesce :: "mem \<Rightarrow> ptr \<Rightarrow> ptr \<Rightarrow> mem \<times> ptr" where
  "blk_coalesce m tail h =
     (if h = NULL then (m, tail)
      else let (m, tail) = merge_next m tail h in merge_prev m tail h)"

text \<open>The statistics that both files collect; all counters are \<open>size_t\<close> and wrap.\<close>

record malloc_stats_t =
  total_managed :: u64
  used_payload :: u64
  free_payload :: u64
  largest_free :: u64
  num_blocks :: u64
  num_used :: u64
  num_free :: u64

definition zero_stats :: malloc_stats_t where
  "zero_stats = \<lparr>total_managed = 0, used_payload = 0, free_payload = 0, largest_free = 0,
     num_blocks = 0, num_used = 0, num_free = 0\<rparr>"

definition stats_step :: "mem \<Rightarrow> ptr \<Rightarrow> malloc_stats_t \<Rightarrow> malloc_stats_t" where
  "stats_step m cur s =
     (let sz = h_size (hdr m cur);
          s = s\<lparr>num_blocks := num_blocks s + 1,
                total_managed := total_managed s + (SIZEOF_HDR + sz)\<rparr>
      in if is_free m cur then
           s\<lparr>num_free := num_free s + 1, free_payload := free_payload s + sz,
             largest_free := (if sz > largest_free s then sz else largest_free s)\<rparr>
         else s\<lparr>num_used := num_used s + 1, used_payload := used_payload s + sz\<rparr>)"

partial_function (option) blk_stats :: "mem \<Rightarrow> ptr \<Rightarrow> malloc_stats_t \<Rightarrow> malloc_stats_t option" where
  "blk_stats m cur s =
     (if cur = NULL then Some s
      else blk_stats m (h_next (hdr m cur)) (stats_step m cur s))"

declare blk_find_fit.simps [code] blk_stats.simps [code]

section \<open>Rounding and pointer arithmetic\<close>

lemma unat_align_up:
  assumes "unat n + 7 < 2 ^ 64"
  shows "unat (align_up n) = ((unat n + 7) div 8) * 8"
proof -
  have seven: "(7 :: u64) = mask 3"
    by (simp add: mask_eq_exp_minus_1)
  have "unat (n + 7) = unat n + 7"
    using assms by (intro unat_add_small [of n 7, simplified]) simp
  then show ?thesis
    unfolding align_up_def seven
    by (subst unat_and_not_mask) (simp_all add: mask_eq_exp_minus_1)
qed

lemma align_up_ge: "unat n + 7 < 2 ^ 64 \<Longrightarrow> unat n \<le> unat (align_up n)"
  by (simp only: unat_align_up)

lemma align_up_lt: "unat n + 7 < 2 ^ 64 \<Longrightarrow> unat (align_up n) < unat n + 8"
  by (simp only: unat_align_up)

lemma align_up_dvd: "unat n + 7 < 2 ^ 64 \<Longrightarrow> 8 dvd unat (align_up n)"
  by (simp only: unat_align_up) simp

lemma align_up_small: "unat n + 7 < 2 ^ 64 \<Longrightarrow> unat (align_up n) + 7 < 2 ^ 64"
proof -
  assume "unat n + 7 < 2 ^ 64"
  then obtain j where j: "unat (align_up n) = 8 * j"
    using align_up_dvd [of n] by (auto simp: dvd_def)
  have "unat (align_up n) < 2 ^ 64" using unat_less_2p [of "align_up n"] by simp
  with j show ?thesis by simp
qed

lemma payload_roundtrip [simp]:
  "payload_to_header (header_to_payload h) = h"
  "header_to_payload (payload_to_header p) = p"
  by (simp_all add: payload_to_header_def header_to_payload_def)

section \<open>Laws of the header fields\<close>

text \<open>
  Every header lies inside the address space, and two headers either coincide or do not
  overlap; these two facts, kept opaque, are the premises of all rewriting on headers.
\<close>

definition hdr_at :: "ptr \<Rightarrow> bool" where
  "hdr_at h \<longleftrightarrow> unat h + 40 \<le> 2 ^ 64"

definition hdr_disj :: "ptr \<Rightarrow> ptr \<Rightarrow> bool" where
  "hdr_disj g h \<longleftrightarrow> disjoint g 40 h 40"

lemma hdr_disj_sym: "hdr_disj g h \<Longrightarrow> hdr_disj h g"
  by (auto simp: hdr_disj_def intro: disjoint_sym)

lemma hdr_off:
  assumes "hdr_at h"
  shows "unat (h + 8) = unat h + 8" "unat (h + 16) = unat h + 16"
    "unat (h + 24) = unat h + 24" "unat (h + 32) = unat h + 32"
  using assms unat_add_of_nat [of h 8] unat_add_of_nat [of h 16]
    unat_add_of_nat [of h 24] unat_add_of_nat [of h 32]
  by (simp_all add: hdr_at_def)

lemma hdr_cong:
  assumes "hdr_at h" "same_on m m' h 40"
  shows "hdr m h = hdr m' h"
proof -
  note off = hdr_off [OF assms(1)]
  have "same_on m m' h 4" "same_on m m' (h + 8) 8" "same_on m m' (h + 16) 4"
    "same_on m m' (h + 24) 8" "same_on m m' (h + 32) 8"
    using off by (auto intro!: same_on_sub [OF assms(2)])
  then show ?thesis
    using assms(1) off
    by (simp add: hdr_def hdr_at_def ld32_cong [of m m'] ld64_cong [of m m'])
qed

lemma same_on_set_field:
  assumes "hdr_at g" "disjoint g 40 b k"
  shows "same_on m (set_magic m g v32) b k" "same_on m (set_size m g v) b k"
    "same_on m (set_free m g v32) b k" "same_on m (set_prev m g v) b k"
    "same_on m (set_next m g v) b k"
proof -
  note off = hdr_off [OF assms(1)]
  have "disjoint g 4 b k" "disjoint (g + 8) 8 b k" "disjoint (g + 16) 4 b k"
    "disjoint (g + 24) 8 b k" "disjoint (g + 32) 8 b k"
    using assms(2) off by (auto simp: disjoint_def)
  then show "same_on m (set_magic m g v32) b k" "same_on m (set_size m g v) b k"
    "same_on m (set_free m g v32) b k" "same_on m (set_prev m g v) b k"
    "same_on m (set_next m g v) b k"
    using assms(1) off
    by (simp_all add: set_magic_def set_size_def set_free_def set_prev_def set_next_def
        same_on_st32 same_on_st64 hdr_at_def)
qed

lemma hdr_set_other [mem_simps]:
  assumes "hdr_at g" "hdr_at h" "hdr_disj g h"
  shows "hdr (set_magic m g v32) h = hdr m h" "hdr (set_size m g v) h = hdr m h"
    "hdr (set_free m g v32) h = hdr m h" "hdr (set_prev m g v) h = hdr m h"
    "hdr (set_next m g v) h = hdr m h"
  using assms
  by (auto simp: hdr_disj_def intro!: hdr_cong [OF assms(2), symmetric] same_on_set_field)

lemma ld_st_fields [mem_simps]:
  assumes "hdr_at h"
  shows "ld64 (st32 m h v32) (h + 8) = ld64 m (h + 8)" "ld32 (st32 m h v32) (h + 16) = ld32 m (h + 16)"
    "ld64 (st32 m h v32) (h + 24) = ld64 m (h + 24)" "ld64 (st32 m h v32) (h + 32) = ld64 m (h + 32)"
    "ld32 (st64 m (h + 8) v64) h = ld32 m h" "ld32 (st64 m (h + 8) v64) (h + 16) = ld32 m (h + 16)"
    "ld64 (st64 m (h + 8) v64) (h + 24) = ld64 m (h + 24)" "ld64 (st64 m (h + 8) v64) (h + 32) = ld64 m (h + 32)"
    "ld32 (st32 m (h + 16) v32) h = ld32 m h" "ld64 (st32 m (h + 16) v32) (h + 8) = ld64 m (h + 8)"
    "ld64 (st32 m (h + 16) v32) (h + 24) = ld64 m (h + 24)" "ld64 (st32 m (h + 16) v32) (h + 32) = ld64 m (h + 32)"
    "ld32 (st64 m (h + 24) v64) h = ld32 m h" "ld64 (st64 m (h + 24) v64) (h + 8) = ld64 m (h + 8)"
    "ld32 (st64 m (h + 24) v64) (h + 16) = ld32 m (h + 16)" "ld64 (st64 m (h + 24) v64) (h + 32) = ld64 m (h + 32)"
    "ld32 (st64 m (h + 32) v64) h = ld32 m h" "ld64 (st64 m (h + 32) v64) (h + 8) = ld64 m (h + 8)"
    "ld32 (st64 m (h + 32) v64) (h + 16) = ld32 m (h + 16)" "ld64 (st64 m (h + 32) v64) (h + 24) = ld64 m (h + 24)"
  using assms hdr_off [OF assms]
  by (auto intro!: ld32_cong [symmetric] ld64_cong [symmetric] same_on_st32 same_on_st64
      simp: disjoint_def hdr_at_def)

lemma hdr_set_same [mem_simps]:
  assumes "hdr_at h"
  shows "hdr (set_magic m h v32) h = (hdr m h)\<lparr>h_magic := v32\<rparr>"
    "hdr (set_size m h v) h = (hdr m h)\<lparr>h_size := v\<rparr>"
    "hdr (set_free m h v32) h = (hdr m h)\<lparr>h_free := v32\<rparr>"
    "hdr (set_prev m h v) h = (hdr m h)\<lparr>h_prev := v\<rparr>"
    "hdr (set_next m h v) h = (hdr m h)\<lparr>h_next := v\<rparr>"
proof -
  have b: "unat h + 4 \<le> 2 ^ 64" "unat (h + 8) + 8 \<le> 2 ^ 64" "unat (h + 16) + 4 \<le> 2 ^ 64"
    "unat (h + 24) + 8 \<le> 2 ^ 64" "unat (h + 32) + 8 \<le> 2 ^ 64"
    using assms hdr_off [OF assms] by (simp_all add: hdr_at_def)
  note rt = ld32_st32 [OF b(1)] ld64_st64 [OF b(2)] ld32_st32 [OF b(3)]
    ld64_st64 [OF b(4)] ld64_st64 [OF b(5)]
  show "hdr (set_magic m h v32) h = (hdr m h)\<lparr>h_magic := v32\<rparr>"
    "hdr (set_size m h v) h = (hdr m h)\<lparr>h_size := v\<rparr>"
    "hdr (set_free m h v32) h = (hdr m h)\<lparr>h_free := v32\<rparr>"
    "hdr (set_prev m h v) h = (hdr m h)\<lparr>h_prev := v\<rparr>"
    "hdr (set_next m h v) h = (hdr m h)\<lparr>h_next := v\<rparr>"
    unfolding hdr_def set_magic_def set_size_def set_free_def set_prev_def set_next_def
    by (simp_all add: rt ld_st_fields [OF assms])
qed

end
