(* ===== verification/Block_List.thy ===== *)
theory Block_List
  imports Block_Heap
begin

text \<open>
  The abstract allocator: a list of blocks (header address, payload size, free flag) in
  address order, and the relation between such a list and the linked headers in memory.
  \<open>chain\<close> says that the headers are linked as the list has them, \<open>tiles\<close> that the blocks
  lie end to end and fill the managed region exactly.  The refinement lemmas show that the
  pointer operations of \<open>Block_Heap\<close> do to the headers what the list operations do to
  the list, and that they touch no byte outside the headers they name.
\<close>

section \<open>Abstract blocks\<close>

type_synonym blk = "ptr \<times> u64 \<times> bool"

abbreviation flag :: "bool \<Rightarrow> u32" where "flag f \<equiv> (if f then 1 else 0)"

fun hd_addr :: "blk list \<Rightarrow> ptr \<Rightarrow> ptr" where
  "hd_addr [] e = e"
| "hd_addr ((a, s, f) # bs) e = a"

fun last_addr :: "ptr \<Rightarrow> blk list \<Rightarrow> ptr" where
  "last_addr p [] = p"
| "last_addr p ((a, s, f) # bs) = last_addr a bs"

text \<open>The headers from \<open>p\<close>'s successor on are linked as the list, up to the pointer \<open>e\<close>.\<close>

fun chain :: "mem \<Rightarrow> u32 \<Rightarrow> ptr \<Rightarrow> blk list \<Rightarrow> ptr \<Rightarrow> bool" where
  "chain m K p [] e \<longleftrightarrow> True"
| "chain m K p ((a, s, f) # bs) e \<longleftrightarrow>
     hdr m a = \<lparr>h_magic = K, h_size = s, h_free = flag f, h_prev = p, h_next = hd_addr bs e\<rparr>
     \<and> chain m K a bs e"

text \<open>The blocks fill the addresses from \<open>lo\<close> to \<open>hi\<close>.\<close>

fun tiles :: "nat \<Rightarrow> blk list \<Rightarrow> nat \<Rightarrow> bool" where
  "tiles lo [] hi \<longleftrightarrow> lo = hi"
| "tiles lo ((a, s, f) # bs) hi \<longleftrightarrow> unat a = lo \<and> tiles (lo + 40 + unat s) bs hi"

text \<open>
  A well-formed heap: the region does not start at \<open>NULL\<close> and lies in the lower half of
  the address space, so that no sum of sizes and addresses wraps.
\<close>

definition heap_wf :: "mem \<Rightarrow> u32 \<Rightarrow> nat \<Rightarrow> blk list \<Rightarrow> nat \<Rightarrow> bool" where
  "heap_wf m K lo bs hi \<longleftrightarrow>
     chain m K NULL bs NULL \<and> tiles lo bs hi \<and> 0 < lo \<and> hi < 2 ^ 63"

section \<open>Facts on chains and tilings\<close>

lemma hd_addr_append [simp]: "hd_addr (xs @ ys) e = hd_addr xs (hd_addr ys e)"
  by (cases "(xs, e)" rule: hd_addr.cases) simp_all

lemma last_addr_append [simp]: "last_addr p (xs @ ys) = last_addr (last_addr p xs) ys"
  by (induction p xs rule: last_addr.induct) simp_all

lemma last_addr_in: "bs \<noteq> [] \<Longrightarrow> last_addr p bs \<in> fst ` set bs"
proof (induction bs arbitrary: p)
  case (Cons b bs)
  obtain a s f where "b = (a, s, f)" by (cases b) auto
  with Cons show ?case by (cases "bs = []") auto
qed simp

lemma chain_append [simp]:
  "chain m K p (xs @ ys) e \<longleftrightarrow>
     chain m K p xs (hd_addr ys e) \<and> chain m K (last_addr p xs) ys e"
  by (induction xs arbitrary: p) auto

lemma tiles_append:
  "tiles lo (xs @ ys) hi \<longleftrightarrow> (\<exists>mid. tiles lo xs mid \<and> tiles mid ys hi)"
  by (induction xs arbitrary: lo) auto

lemma tiles_le: "tiles lo bs hi \<Longrightarrow> lo \<le> hi"
  by (induction lo bs hi rule: tiles.induct) auto

lemma tiles_bounds:
  "tiles lo bs hi \<Longrightarrow> (a, s, f) \<in> set bs \<Longrightarrow> lo \<le> unat a \<and> unat a + 40 + unat s \<le> hi"
  by (induction lo bs hi rule: tiles.induct) (fastforce dest: tiles_le)+

lemma tiles_distinct: "tiles lo bs hi \<Longrightarrow> distinct (map fst bs)"
proof (induction lo bs hi rule: tiles.induct)
  case (2 lo a s f bs hi)
  then have "tiles (lo + 40 + unat s) bs hi" "unat a = lo" by simp_all
  then have "a \<notin> fst ` set bs"
    using tiles_bounds [of "lo + 40 + unat s" bs hi] by fastforce
  with 2 show ?case by simp
qed simp

lemma heap_wf_distinct: "heap_wf m K lo bs hi \<Longrightarrow> distinct (map fst bs)"
  unfolding heap_wf_def by (blast intro: tiles_distinct)

lemma heap_wf_nonnull: "heap_wf m K lo bs hi \<Longrightarrow> (a, s, f) \<in> set bs \<Longrightarrow> a \<noteq> NULL"
  unfolding heap_wf_def using tiles_bounds [of lo bs hi a s f] by auto

lemma heap_wf_no_null: "heap_wf m K lo bs hi \<Longrightarrow> NULL \<notin> fst ` set bs"
  using heap_wf_nonnull [of m K lo bs hi] by auto

text \<open>Where a block of the list splits it, the rest lies below and above it.\<close>

lemma tiles_split:
  assumes "tiles lo (pre @ (a, s, f) # post) hi"
  shows "tiles lo pre (unat a)" "tiles (unat a + 40 + unat s) post hi"
    "unat a + 40 + unat s \<le> hi" "lo \<le> unat a"
  using assms by (auto simp: tiles_append dest: tiles_le)

lemma tiles_hdr_at: "tiles lo bs hi \<Longrightarrow> hi < 2 ^ 63 \<Longrightarrow> (a, s, f) \<in> set bs \<Longrightarrow> hdr_at a"
  by (drule (1) tiles_bounds) (simp add: hdr_at_def)

lemma chain_frame:
  assumes "tiles lo bs hi" "hi < 2 ^ 63"
    and "\<And>a s f. (a, s, f) \<in> set bs \<Longrightarrow> same_on m m' a 40"
  shows "chain m K p bs e \<longleftrightarrow> chain m' K p bs e"
  using assms
proof (induction bs arbitrary: p lo)
  case (Cons b bs)
  obtain a s f where b: "b = (a, s, f)" by (cases b) auto
  have "hdr m a = hdr m' a"
    using Cons.prems b tiles_hdr_at [of lo "b # bs" hi a s f] by (intro hdr_cong) auto
  then show ?case
    using Cons.IH [of "lo + 40 + unat s" a] Cons.prems b by auto
qed simp

text \<open>
  \<open>only_hdrs m m' H\<close>: the memories differ at most in the headers at the addresses \<open>H\<close>.
\<close>

definition only_hdrs :: "mem \<Rightarrow> mem \<Rightarrow> ptr set \<Rightarrow> bool" where
  "only_hdrs m m' H \<longleftrightarrow> (\<forall>x. (\<forall>h\<in>H. \<not> in_range x h 40) \<longrightarrow> m' x = m x)"

lemma only_hdrs_refl [simp]: "only_hdrs m m H"
  by (simp add: only_hdrs_def)

lemma only_hdrs_trans:
  "only_hdrs m m' H \<Longrightarrow> only_hdrs m' m'' H' \<Longrightarrow> only_hdrs m m'' (H \<union> H')"
  by (simp add: only_hdrs_def)

lemma only_hdrs_mono: "only_hdrs m m' H \<Longrightarrow> H \<subseteq> H' \<Longrightarrow> only_hdrs m m' H'"
  by (auto simp: only_hdrs_def)

lemma only_hdrs_set_field:
  assumes "hdr_at g" "g \<in> H" "only_hdrs m m' H"
  shows "only_hdrs m (set_magic m' g v32) H" "only_hdrs m (set_size m' g v) H"
    "only_hdrs m (set_free m' g v32) H" "only_hdrs m (set_prev m' g v) H"
    "only_hdrs m (set_next m' g v) H"
proof -
  have d: "disjoint g 40 x 1" if "\<forall>h\<in>H. \<not> in_range x h 40" for x
    using assms(2) that by (auto simp: disjoint_def in_range_def)
  have keep: "only_hdrs m m'' H" if "\<And>x. disjoint g 40 x 1 \<Longrightarrow> same_on m' m'' x 1" for m''
    unfolding only_hdrs_def
  proof (intro allI impI)
    fix x assume x: "\<forall>h\<in>H. \<not> in_range x h 40"
    then have "m' x = m'' x"
      using that [OF d [OF x]] by (auto simp: same_on_def in_range_def)
    with assms(3) x show "m'' x = m x" by (simp add: only_hdrs_def)
  qed
  show "only_hdrs m (set_magic m' g v32) H" "only_hdrs m (set_size m' g v) H"
    "only_hdrs m (set_free m' g v32) H" "only_hdrs m (set_prev m' g v) H"
    "only_hdrs m (set_next m' g v) H"
    by (rule keep, rule same_on_set_field [OF assms(1)], assumption)+
qed

lemma only_hdrs_same_on:
  assumes "only_hdrs m m' H" "\<And>h. h \<in> H \<Longrightarrow> unat h + 40 \<le> unat a \<or> unat a + n \<le> unat h"
  shows "same_on m m' a n"
  unfolding same_on_def
proof (intro allI impI)
  fix x assume x: "in_range x a n"
  have "\<not> in_range x h 40" if "h \<in> H" for h
    using x assms(2) [OF that] by (auto simp: in_range_def)
  with assms(1) show "m x = m' x" by (simp add: only_hdrs_def)
qed

lemma chain_only_hdrs:
  assumes "only_hdrs m m' H" "tiles lo bs hi" "hi < 2 ^ 63"
    and "\<And>h. h \<in> H \<Longrightarrow> unat h + 40 \<le> lo \<or> hi \<le> unat h"
  shows "chain m' K p bs e \<longleftrightarrow> chain m K p bs e"
proof -
  have "same_on m m' a 40" if "(a, s, f) \<in> set bs" for a s f
    using tiles_bounds [OF assms(2) that] assms(4)
    by (intro only_hdrs_same_on [OF assms(1)]) fastforce
  then show ?thesis
    by (rule chain_frame [OF assms(2,3), symmetric])
qed

section \<open>First fit\<close>

fun fits :: "u64 \<Rightarrow> blk \<Rightarrow> bool" where
  "fits n (a, s, f) \<longleftrightarrow> f \<and> n \<le> s"

lemma blk_find_fit_list:
  assumes "chain m K p bs NULL" "NULL \<notin> fst ` set bs"
  shows "blk_find_fit m (hd_addr bs NULL) n =
    Some (case find (fits n) bs of None \<Rightarrow> NULL | Some b \<Rightarrow> fst b)"
  using assms
proof (induction bs arbitrary: p)
  case Nil
  then show ?case by (simp add: blk_find_fit.simps)
next
  case (Cons b bs)
  obtain a s f where b: "b = (a, s, f)" by (cases b) auto
  have "a \<noteq> NULL" using Cons.prems b by auto
  moreover have "blk_find_fit m (hd_addr bs NULL) n =
      Some (case find (fits n) bs of None \<Rightarrow> NULL | Some b \<Rightarrow> fst b)"
    using Cons.prems b by (intro Cons.IH [of a]) auto
  ultimately show ?case
    using Cons.prems b by (simp add: blk_find_fit.simps [of m a])
qed

lemma blk_find_fit_chain:
  assumes "chain m K p bs NULL" "tiles lo bs hi" "0 < lo"
  shows "blk_find_fit m (hd_addr bs NULL) n =
    Some (case find (fits n) bs of None \<Rightarrow> NULL | Some b \<Rightarrow> fst b)"
proof (rule blk_find_fit_list [OF assms(1)])
  show "NULL \<notin> fst ` set bs"
    using tiles_bounds [OF assms(2), of NULL] assms(3) by fastforce
qed

section \<open>Splitting\<close>

text \<open>The block \<open>a\<close> cut after \<open>r\<close> bytes of payload, where the rest can hold a block.\<close>

lemma unat_sub3: "unat r + 48 \<le> unat s \<Longrightarrow> unat (s - r - 40 :: u64) = unat s - unat r - 40"
  by (simp add: unat_sub_le)

lemma blk_split_small:
  assumes "h_size (hdr m a) = s" "unat s < unat r + 48" "unat r + 48 < 2 ^ 64"
  shows "blk_split K m t a r = (m, t)"
proof -
  have "unat (r + 48) = unat r + 48"
    using assms unat_add_of_nat [of r 48] by simp
  then show ?thesis
    using assms by (simp add: blk_split_def word_less_nat_alt)
qed

lemma blk_split_refines:
  assumes wf: "heap_wf m K lo (pre @ (a, s, f) # post) hi"
    and big: "unat r + 48 \<le> unat s"
    and n: "n = a + 40 + r"
    and res: "blk_split K m t a r = (m', t')"
  shows "heap_wf m' K lo (pre @ (a, r, f) # (n, s - r - 40, True) # post) hi"
    and "t' = (if t = a then n else t)"
    and "only_hdrs m m' ({a, n} \<union> fst ` set (take 1 post))"
proof -
  let ?H = "{a, n} \<union> fst ` set (take 1 post)"
  from wf have ch: "chain m K NULL pre a" "chain m K a post NULL"
      "hdr m a = \<lparr>h_magic = K, h_size = s, h_free = flag f, h_prev = last_addr NULL pre,
        h_next = hd_addr post NULL\<rparr>"
    and ti: "tiles lo (pre @ (a, s, f) # post) hi" and lo: "0 < lo" and hi: "hi < 2 ^ 63"
    by (auto simp: heap_wf_def)
  note sp = tiles_split [OF ti]
  have un: "unat n = unat a + 40 + unat r"
    using sp big hi unat_add_of_nat [of a 40] unat_add_small [of "a + 40" r] by (simp add: n)
  have r48: "unat (r + 48) = unat r + 48"
    using big sp hi unat_add_of_nat [of r 48] by simp
  have at: "hdr_at a" "hdr_at n"
    using sp un big hi by (simp_all add: hdr_at_def)
  have dis: "hdr_disj a n" "hdr_disj n a"
    using un by (simp_all add: hdr_disj_def disjoint_def)
  have go: "\<not> h_size (hdr m a) < r + 48"
    using big r48 ch by (simp add: word_less_nat_alt)
  have nn: "header_to_payload a + r = n" by (simp add: header_to_payload_def n)
  have key: "hdr m' a = \<lparr>h_magic = K, h_size = r, h_free = flag f, h_prev = last_addr NULL pre,
        h_next = n\<rparr> \<and>
      hdr m' n = \<lparr>h_magic = K, h_size = s - r - 40, h_free = 1, h_prev = a,
        h_next = hd_addr post NULL\<rparr> \<and>
      chain m' K n post NULL \<and> t' = (if t = a then n else t) \<and> only_hdrs m m' ?H"
  proof (cases post)
    case Nil
    then show ?thesis
      using res go ch at dis
      by (auto simp: blk_split_def nn Let_def mem_simps intro!: only_hdrs_set_field)
  next
    case (Cons c post')
    obtain b u g where c: "c = (b, u, g)" by (cases c) auto
    have ub: "unat b = unat a + 40 + unat s" using sp Cons c by auto
    have b0: "b \<noteq> NULL" using ub by auto
    have atb: "hdr_at b" and disb: "hdr_disj a b" "hdr_disj n b" "hdr_disj b a" "hdr_disj b n"
      using ub un big sp hi tiles_hdr_at [OF ti hi, of b u g] Cons c
      by (auto simp: hdr_disj_def disjoint_def)
    have hb: "hdr m b = \<lparr>h_magic = K, h_size = u, h_free = flag g, h_prev = a,
        h_next = hd_addr post' NULL\<rparr>" and ch': "chain m K b post' NULL"
      using ch Cons c by auto
    have m': "m' = set_size (set_next (set_prev (set_next (set_prev (set_size (set_free
        (set_magic m n K) n 1) n (s - r - 40)) n a) n b) b n) a n) a r"
      and t': "t' = (if t = a then n else t)"
      using res go ch at dis Cons c b0 atb disb
      by (auto simp: blk_split_def nn Let_def mem_simps)
    have oh: "only_hdrs m m' ?H"
      using Cons c at atb by (auto simp: m' intro!: only_hdrs_set_field)
    have "chain m' K b post' NULL"
      using ch' sp hi Cons c ub un big
      by (subst chain_only_hdrs [OF oh, of "unat b + 40 + unat u" _ hi]) auto
    then show ?thesis
      using oh t' ch at dis atb disb hb Cons c
      by (simp add: m' mem_simps)
  qed
  have oh: "only_hdrs m m' ?H" using key by blast
  have "chain m' K NULL pre a"
    using ch sp un hi
    by (subst chain_only_hdrs [OF oh, of lo _ "unat a"])
      (auto dest!: in_set_takeD dest: tiles_bounds)
  moreover have e: "unat a + 40 + unat r + 40 + unat (s - r - 40) = unat a + 40 + unat s"
    using big by (simp add: unat_sub3)
  have "tiles (unat a) ((a, r, f) # (n, s - r - 40, True) # post) hi"
    using sp(2) by (simp only: tiles.simps un e simp_thms)
  then have "tiles lo (pre @ (a, r, f) # (n, s - r - 40, True) # post) hi"
    using sp(1) tiles_append by blast
  ultimately show "heap_wf m' K lo (pre @ (a, r, f) # (n, s - r - 40, True) # post) hi"
    using key lo hi by (simp add: heap_wf_def)
  show "t' = (if t = a then n else t)"
    using key by blast
  show "only_hdrs m m' ?H" by (rule oh)
qed

section \<open>Setting the flag and merging\<close>

lemma set_free_refines:
  assumes wf: "heap_wf m K lo (pre @ (a, s, f) # post) hi"
  shows "heap_wf (set_free m a (flag g)) K lo (pre @ (a, s, g) # post) hi"
    and "only_hdrs m (set_free m a (flag g)) {a}"
proof -
  from wf have ch: "chain m K NULL pre a" "chain m K a post NULL"
      "hdr m a = \<lparr>h_magic = K, h_size = s, h_free = flag f, h_prev = last_addr NULL pre,
        h_next = hd_addr post NULL\<rparr>"
    and ti: "tiles lo (pre @ (a, s, f) # post) hi" and lo: "0 < lo" and hi: "hi < 2 ^ 63"
    by (auto simp: heap_wf_def)
  note sp = tiles_split [OF ti]
  have at: "hdr_at a" using sp hi by (simp add: hdr_at_def)
  show oh: "only_hdrs m (set_free m a (flag g)) {a}"
    using at by (rule only_hdrs_set_field) simp_all
  have "chain (set_free m a (flag g)) K NULL pre a"
    using ch(1) sp hi by (subst chain_only_hdrs [OF oh sp(1)]) auto
  moreover have "chain (set_free m a (flag g)) K a post NULL"
    using ch(2) sp hi by (subst chain_only_hdrs [OF oh sp(2)]) auto
  ultimately show "heap_wf (set_free m a (flag g)) K lo (pre @ (a, s, g) # post) hi"
    using ch at ti lo hi
    by (simp add: heap_wf_def mem_simps tiles_append del: word_neq_0_conv)
qed

text \<open>A block absorbs a free successor.\<close>

fun join :: "blk \<Rightarrow> blk list \<Rightarrow> blk list" where
  "join (a, s, f) ((b, u, True) # bs) = (a, s + 40 + u, f) # bs"
| "join x bs = x # bs"

lemma merge_next_refines:
  assumes wf: "heap_wf m K lo (pre @ (a, s, f) # (b, u, True) # post) hi"
    and res: "merge_next m t a = (m', t')"
  shows "heap_wf m' K lo (pre @ (a, s + 40 + u, f) # post) hi"
    and "t' = (if t = b then a else t)"
    and "only_hdrs m m' (insert a (fst ` set (take 1 post)))"
proof -
  let ?H = "insert a (fst ` set (take 1 post))"
  from wf have ch: "chain m K NULL pre a" "chain m K b post NULL"
      "hdr m a = \<lparr>h_magic = K, h_size = s, h_free = flag f, h_prev = last_addr NULL pre,
        h_next = b\<rparr>"
      "hdr m b = \<lparr>h_magic = K, h_size = u, h_free = 1, h_prev = a,
        h_next = hd_addr post NULL\<rparr>"
    and ti: "tiles lo (pre @ (a, s, f) # (b, u, True) # post) hi"
    and lo: "0 < lo" and hi: "hi < 2 ^ 63"
    by (auto simp: heap_wf_def)
  note sp = tiles_split [OF ti]
  have ub: "unat b = unat a + 40 + unat s" and post: "tiles (unat b + 40 + unat u) post hi"
    using sp by auto
  have top: "unat b + 40 + unat u \<le> hi" using tiles_le [OF post] .
  have us: "unat (s + 40 + u) = unat s + 40 + unat u"
    using ub top hi unat_add_of_nat [of s 40] unat_add_small [of "s + 40" u] by simp
  have at: "hdr_at a" "hdr_at b" and dis: "hdr_disj a b" "hdr_disj b a"
    using ub top hi by (auto simp: hdr_at_def hdr_disj_def disjoint_def)
  have b0: "b \<noteq> NULL" using ub by auto
  have key: "hdr m' a = \<lparr>h_magic = K, h_size = s + 40 + u, h_free = flag f,
        h_prev = last_addr NULL pre, h_next = hd_addr post NULL\<rparr> \<and>
      chain m' K a post NULL \<and> t' = (if t = b then a else t) \<and> only_hdrs m m' ?H"
  proof (cases post)
    case Nil
    then show ?thesis
      using res ch at dis b0
      by (auto simp: merge_next_def Let_def mem_simps intro!: only_hdrs_set_field)
  next
    case (Cons x post')
    obtain c v g where c: "x = (c, v, g)" by (cases x) auto
    have uc: "unat c = unat b + 40 + unat u" using post Cons c by auto
    have c0: "c \<noteq> NULL" using uc by auto
    have atc: "hdr_at c" and disc: "hdr_disj a c" "hdr_disj b c" "hdr_disj c a" "hdr_disj c b"
      using uc ub hi tiles_hdr_at [OF ti hi, of c v g] Cons c
      by (auto simp: hdr_disj_def disjoint_def)
    have hc: "hdr m c = \<lparr>h_magic = K, h_size = v, h_free = flag g, h_prev = b,
        h_next = hd_addr post' NULL\<rparr>" and ch': "chain m K c post' NULL"
      using ch Cons c by auto
    have m': "m' = set_prev (set_next (set_size m a (s + 40 + u)) a c) c a"
      and t': "t' = (if t = b then a else t)"
      using res ch at dis b0 c0 atc disc Cons c
      by (auto simp: merge_next_def Let_def mem_simps)
    have oh: "only_hdrs m m' ?H"
      using Cons c at atc by (auto simp: m' intro!: only_hdrs_set_field)
    have "chain m' K c post' NULL"
      using ch' post hi Cons c uc ub
      by (subst chain_only_hdrs [OF oh, of "unat c + 40 + unat v" _ hi]) auto
    then show ?thesis
      using oh t' ch at dis atc disc hc Cons c
      by (simp add: m' mem_simps)
  qed
  have oh: "only_hdrs m m' ?H" using key by blast
  have "chain m' K NULL pre a"
    using ch sp(1) post ub top hi
    by (subst chain_only_hdrs [OF oh, of lo _ "unat a"])
      (auto dest!: in_set_takeD dest: tiles_bounds)
  moreover have e: "unat a + 40 + unat (s + 40 + u) = unat b + 40 + unat u"
    by (simp add: us ub)
  have "tiles (unat a) ((a, s + 40 + u, f) # post) hi"
    using post by (simp only: tiles.simps e simp_thms)
  then have "tiles lo (pre @ (a, s + 40 + u, f) # post) hi"
    using sp(1) tiles_append by blast
  ultimately show "heap_wf m' K lo (pre @ (a, s + 40 + u, f) # post) hi"
    using key lo hi by (simp add: heap_wf_def)
  show "t' = (if t = b then a else t)" using key by blast
  show "only_hdrs m m' ?H" by (rule oh)
qed

lemma merge_next_none:
  assumes "heap_wf m K lo (pre @ (a, s, f) # post) hi"
    and "post = [] \<or> (\<exists>b u post'. post = (b, u, False) # post')"
  shows "merge_next m t a = (m, t)"
  using assms by (auto simp: heap_wf_def merge_next_def Let_def)

text \<open>Being absorbed by the previous block is the previous block absorbing this one.\<close>

lemma merge_prev_eq:
  assumes "h_prev (hdr m a) = p" "h_next (hdr m p) = a" "is_free m a" "a \<noteq> NULL"
  shows "merge_prev m t a = (if p \<noteq> NULL \<and> is_free m p then merge_next m t p else (m, t))"
  using assms by (simp add: merge_prev_def merge_next_def Let_def)

section \<open>Freeing a block\<close>

text \<open>
  The abstract \<open>free\<close>: mark the block, let it absorb a free successor, and let a free
  predecessor absorb the result.
\<close>

fun a_free :: "ptr \<Rightarrow> blk list \<Rightarrow> blk list" where
  "a_free p [] = []"
| "a_free p ((a, s, f) # bs) =
     (if a = p then join (a, s, True) bs
      else if f \<and> bs \<noteq> [] \<and> hd_addr bs NULL = p then join (a, s, f) (a_free p bs)
      else (a, s, f) # a_free p bs)"

lemma a_free_split:
  assumes "p \<notin> fst ` set pre"
  shows "a_free p (pre @ (p, s, f) # post) =
    (case rev pre of (q, u, True) # _ \<Rightarrow> butlast pre @ join (q, u, True) (join (p, s, True) post)
     | _ \<Rightarrow> pre @ join (p, s, True) post)"
  using assms
proof (induction pre)
  case (Cons x pre)
  obtain q u g where x: "x = (q, u, g)" by (cases x) auto
  have hd: "hd_addr (pre @ (p, s, f) # post) NULL = p \<longleftrightarrow> pre = []"
    using Cons.prems by (cases pre) auto
  show ?case
  proof (cases "pre = []")
    case True
    then show ?thesis using Cons.prems x by (cases g) auto
  next
    case False
    then obtain q' u' g' r where r: "rev pre = (q', u', g') # r"
      by (cases "rev pre") auto
    show ?thesis
      using Cons.IH Cons.prems x hd False r by (auto split: bool.splits)
  qed
qed simp

lemma join_Cons: "\<exists>s' bs'. join (a, s, f) bs = (a, s', f) # bs'"
  by (cases "((a, s, f), bs)" rule: join.cases) auto

lemma merge_next_join:
  assumes wf: "heap_wf m K lo (pre @ (a, s, f) # post) hi"
    and res: "merge_next m t a = (m', t')"
  shows "heap_wf m' K lo (pre @ join (a, s, f) post) hi"
    and "only_hdrs m m' (fst ` set (pre @ (a, s, f) # post))"
    and "t = last_addr NULL (pre @ (a, s, f) # post) \<Longrightarrow>
      t' = last_addr NULL (pre @ join (a, s, f) post)"
proof -
  have "heap_wf m' K lo (pre @ join (a, s, f) post) hi \<and>
    only_hdrs m m' (fst ` set (pre @ (a, s, f) # post)) \<and>
    (t = last_addr NULL (pre @ (a, s, f) # post) \<longrightarrow>
      t' = last_addr NULL (pre @ join (a, s, f) post))"
  proof (cases "\<exists>b u post'. post = (b, u, True) # post'")
    case True
    then obtain b u post' where post: "post = (b, u, True) # post'" by auto
    note r = merge_next_refines [OF wf [unfolded post] res]
    have "b \<notin> fst ` set post'"
      using heap_wf_distinct [OF wf] by (simp add: post)
    then have "post' \<noteq> [] \<Longrightarrow> last_addr b post' \<noteq> b"
      using last_addr_in [of post' b] by metis
    then have "t = last_addr NULL (pre @ (a, s, f) # post) \<longrightarrow>
        t' = last_addr NULL (pre @ join (a, s, f) post)"
      using r(2) by (cases "post' = []") (auto simp: post neq_Nil_conv)
    moreover have "only_hdrs m m' (fst ` set (pre @ (a, s, f) # post))"
      using r(3) by (rule only_hdrs_mono) (auto simp: post dest!: in_set_takeD)
    ultimately show ?thesis
      using r(1) by (simp add: post)
  next
    case False
    then have no: "post = [] \<or> (\<exists>b u post'. post = (b, u, False) # post')"
      by (cases post) auto
    then have "join (a, s, f) post = (a, s, f) # post" by auto
    then show ?thesis
      using merge_next_none [OF wf no, of t] res wf by simp
  qed
  then show "heap_wf m' K lo (pre @ join (a, s, f) post) hi"
    and "only_hdrs m m' (fst ` set (pre @ (a, s, f) # post))"
    and "t = last_addr NULL (pre @ (a, s, f) # post) \<Longrightarrow>
      t' = last_addr NULL (pre @ join (a, s, f) post)"
    by blast+
qed

lemma blk_free_refines:
  assumes wf: "heap_wf m K lo bs hi" and mem: "(p, s, f) \<in> set bs"
    and res: "blk_coalesce (set_free m p 1) t p = (m', t')"
  shows "heap_wf m' K lo (a_free p bs) hi"
    and "only_hdrs m m' (fst ` set bs)"
    and "t = last_addr NULL bs \<Longrightarrow> t' = last_addr NULL (a_free p bs)"
proof -
  obtain pre post where bs: "bs = pre @ (p, s, f) # post"
    using mem by (auto simp: in_set_conv_decomp)
  have pre: "p \<notin> fst ` set pre"
    using heap_wf_distinct [OF wf] by (auto simp: bs)
  let ?m1 = "set_free m p 1"
  have wf1: "heap_wf ?m1 K lo (pre @ (p, s, True) # post) hi" and oh1: "only_hdrs m ?m1 {p}"
    using set_free_refines [of m K lo pre p s f post hi True] wf by (simp_all add: bs)
  obtain m2 t2 where r2: "merge_next ?m1 t p = (m2, t2)" by force
  obtain s2 post2 where j: "join (p, s, True) post = (p, s2, True) # post2"
    using join_Cons by blast
  note n = merge_next_join [OF wf1 r2]
  have wf2: "heap_wf m2 K lo (pre @ (p, s2, True) # post2) hi" using n(1) by (simp add: j)
  have p0: "p \<noteq> NULL" using heap_wf_nonnull [OF wf mem] .
  have res': "merge_prev m2 t2 p = (m', t')"
    using res r2 p0 by (simp add: blk_coalesce_def)
  have oh2: "only_hdrs m m2 (fst ` set bs)"
    using only_hdrs_trans [OF oh1 n(2)] by (rule only_hdrs_mono) (auto simp: bs)
  have "heap_wf m' K lo (a_free p bs) hi \<and> only_hdrs m m' (fst ` set bs) \<and>
    (t = last_addr NULL bs \<longrightarrow> t' = last_addr NULL (a_free p bs))"
  proof (cases pre rule: rev_cases)
    case Nil
    then have "(m', t') = (m2, t2)"
      using wf2 res' by (auto simp: heap_wf_def merge_prev_def)
    then show ?thesis
      using n(1,3) oh2 Nil by (simp add: bs)
  next
    case (snoc pre' x)
    obtain q u g where x: "x = (q, u, g)" by (cases x) auto
    have q0: "q \<noteq> NULL" using heap_wf_nonnull [OF wf, of q u g] by (simp add: bs snoc x)
    have lk: "h_prev (hdr m2 p) = q" "h_next (hdr m2 q) = p" "is_free m2 p" "is_free m2 q = g"
      using wf2 by (auto simp: heap_wf_def snoc x)
    have r3: "(if g then merge_next m2 t2 q else (m2, t2)) = (m', t')"
      using res' merge_prev_eq [OF lk(1-3) p0, of t2] q0 lk(4) by auto
    show ?thesis
    proof (cases g)
      case True
      have wf2': "heap_wf m2 K lo (pre' @ (q, u, g) # (p, s2, True) # post2) hi"
        using wf2 by (simp add: snoc x)
      have r3': "merge_next m2 t2 q = (m', t')" using r3 True by simp
      note n3 = merge_next_join [OF wf2' r3']
      have fr: "a_free p bs = pre' @ join (q, u, g) ((p, s2, True) # post2)"
        using a_free_split [OF pre, of s f post] True by (simp add: bs snoc x j)
      have "only_hdrs m m' (fst ` set bs \<union> fst ` set (pre' @ (q, u, g) # (p, s2, True) # post2))"
        by (rule only_hdrs_trans [OF oh2 n3(2)])
      moreover have "set post2 \<subseteq> set post"
        using j by (cases "((p, s, True), post)" rule: join.cases) auto
      ultimately have "only_hdrs m m' (fst ` set bs)"
        by (rule_tac only_hdrs_mono) (auto simp: bs snoc x)
      then show ?thesis
        using n3(1,3) n(3) unfolding fr by (auto simp: bs snoc x j)
    next
      case False
      then have fr: "a_free p bs = pre @ join (p, s, True) post"
        using a_free_split [OF pre, of s f post] by (simp add: bs snoc x)
      show ?thesis
        using n(1,3) oh2 r3 False by (simp add: fr) (simp add: bs)
    qed
  qed
  then show "heap_wf m' K lo (a_free p bs) hi"
    and "only_hdrs m m' (fst ` set bs)"
    and "t = last_addr NULL bs \<Longrightarrow> t' = last_addr NULL (a_free p bs)"
    by blast+
qed

section \<open>Allocating a block\<close>

text \<open>
  The abstract first fit: the first free block that is large enough is marked used, and cut
  in two where the rest can hold a header and eight bytes.  The result is the address of
  the payload, or \<open>NULL\<close>.
\<close>

definition cut :: "u64 \<Rightarrow> ptr \<Rightarrow> u64 \<Rightarrow> bool \<Rightarrow> blk list" where
  "cut n a s f =
     (if unat s < unat n + 48 then [(a, s, f)]
      else [(a, n, f), (a + 40 + n, s - n - 40, True)])"

fun a_alloc :: "u64 \<Rightarrow> blk list \<Rightarrow> blk list \<times> ptr" where
  "a_alloc n [] = ([], NULL)"
| "a_alloc n ((a, s, f) # bs) =
     (if fits n (a, s, f) then (cut n a s False @ bs, a + 40)
      else let (bs', p) = a_alloc n bs in ((a, s, f) # bs', p))"

lemma a_alloc_none: "find (fits n) bs = None \<Longrightarrow> a_alloc n bs = (bs, NULL)"
  by (induction bs) (auto split: if_splits)

lemma a_alloc_split:
  "\<forall>b\<in>set pre. \<not> fits n b \<Longrightarrow> fits n (a, s, f) \<Longrightarrow>
     a_alloc n (pre @ (a, s, f) # post) = (pre @ cut n a s False @ post, a + 40)"
  by (induction pre) auto

lemma blk_split_cut:
  assumes wf: "heap_wf m K lo (pre @ (a, s, f) # post) hi" and le: "unat n \<le> unat s"
    and res: "blk_split K m t a n = (m', t')"
  shows "heap_wf m' K lo (pre @ cut n a s f @ post) hi"
    and "only_hdrs m m' (fst ` set (pre @ cut n a s f @ post))"
    and "t = last_addr NULL (pre @ (a, s, f) # post) \<Longrightarrow>
      t' = last_addr NULL (pre @ cut n a s f @ post)"
proof -
  have s63: "unat s < 2 ^ 63"
    using wf tiles_split(3) [of lo pre a s f post hi] by (simp add: heap_wf_def)
  have hs: "h_size (hdr m a) = s" using wf by (simp add: heap_wf_def)
  have "heap_wf m' K lo (pre @ cut n a s f @ post) hi \<and>
    only_hdrs m m' (fst ` set (pre @ cut n a s f @ post)) \<and>
    (t = last_addr NULL (pre @ (a, s, f) # post) \<longrightarrow>
      t' = last_addr NULL (pre @ cut n a s f @ post))"
  proof (cases "unat s < unat n + 48")
    case True
    then have "(m', t') = (m, t)"
      using res blk_split_small [OF hs True] le s63 by simp
    then show ?thesis using wf True by (simp add: cut_def)
  next
    case False
    then have big: "unat n + 48 \<le> unat s" by simp
    note r = blk_split_refines [OF wf big refl res]
    have "only_hdrs m m' (fst ` set (pre @ cut n a s f @ post))"
      using r(3) by (rule only_hdrs_mono) (auto simp: cut_def False dest!: in_set_takeD)
    moreover have "a \<notin> fst ` set post"
      using heap_wf_distinct [OF wf] by simp
    then have "post \<noteq> [] \<Longrightarrow> last_addr a post \<noteq> a"
      using last_addr_in [of post a] by metis
    then have "t = last_addr NULL (pre @ (a, s, f) # post) \<longrightarrow>
        t' = last_addr NULL (pre @ cut n a s f @ post)"
      using r(2) False by (cases "post = []") (auto simp: cut_def neq_Nil_conv)
    ultimately show ?thesis using r(1) False by (simp add: cut_def)
  qed
  then show "heap_wf m' K lo (pre @ cut n a s f @ post) hi"
    and "only_hdrs m m' (fst ` set (pre @ cut n a s f @ post))"
    and "t = last_addr NULL (pre @ (a, s, f) # post) \<Longrightarrow>
      t' = last_addr NULL (pre @ cut n a s f @ post)"
    by blast+
qed

lemma cut_flag: "\<exists>r. cut n a s f = (a, r, f) # (tl (cut n a s f)) \<and> cut n a s g = (a, r, g) # tl (cut n a s f)"
  by (simp add: cut_def)

text \<open>What both \<open>malloc\<close> functions do once a fit is found.\<close>

lemma blk_take_refines:
  assumes wf: "heap_wf m K lo bs hi" and fit: "find (fits n) bs = Some (a, s, f)"
    and res: "blk_split K m t a n = (m1, t')"
  shows "heap_wf (set_free m1 a 0) K lo (fst (a_alloc n bs)) hi"
    and "snd (a_alloc n bs) = header_to_payload a"
    and "only_hdrs m (set_free m1 a 0) (fst ` set (fst (a_alloc n bs)))"
    and "t = last_addr NULL bs \<Longrightarrow> t' = last_addr NULL (fst (a_alloc n bs))"
proof -
  obtain pre post where bs: "bs = pre @ (a, s, f) # post" and ft: "fits n (a, s, f)"
    and no: "\<forall>b\<in>set pre. \<not> fits n b"
    using find_split [OF fit] by metis
  have al: "a_alloc n bs = (pre @ cut n a s False @ post, a + 40)"
    unfolding bs by (rule a_alloc_split [OF no ft])
  have le: "unat n \<le> unat s" using ft by (simp add: word_le_nat_alt)
  note r = blk_split_cut [OF wf [unfolded bs] le res]
  obtain r' cs where c: "cut n a s f = (a, r', f) # cs" "cut n a s False = (a, r', False) # cs"
    using cut_flag by blast
  have wf1: "heap_wf m1 K lo (pre @ (a, r', f) # (cs @ post)) hi"
    using r(1) by (simp add: c)
  note sf = set_free_refines [OF wf1, of False]
  show "heap_wf (set_free m1 a 0) K lo (fst (a_alloc n bs)) hi"
    using sf(1) by (simp add: al c)
  show "snd (a_alloc n bs) = header_to_payload a"
    by (simp add: al header_to_payload_def)
  show "only_hdrs m (set_free m1 a 0) (fst ` set (fst (a_alloc n bs)))"
    using only_hdrs_trans [OF r(2) sf(2)] by (simp add: al c insert_absorb)
  show "t = last_addr NULL bs \<Longrightarrow> t' = last_addr NULL (fst (a_alloc n bs))"
    using r(3) al unfolding bs by (simp add: c)
qed

section \<open>Live payloads\<close>

text \<open>The payloads in use: their address and length.\<close>

definition live :: "blk list \<Rightarrow> (ptr \<times> nat) set" where
  "live bs = {(a + 40, unat s) | a s. (a, s, False) \<in> set bs}"

lemma live_simps [simp]:
  "live [] = {}" "live (xs @ ys) = live xs \<union> live ys"
  "live ((a, s, True) # bs) = live bs"
  "live ((a, s, False) # bs) = insert (a + 40, unat s) (live bs)"
  by (auto simp: live_def)

lemma tiles_payload:
  assumes "tiles lo bs hi" "hi < 2 ^ 63" "(a, s, f) \<in> set bs"
  shows "unat (a + 40) = unat a + 40"
  using tiles_bounds [OF assms(1,3)] assms(2) unat_add_of_nat [of a 40] by simp

text \<open>Two blocks of a tiling coincide or do not overlap.\<close>

lemma tiles_apart:
  assumes "tiles lo bs hi" "(a, s, f) \<in> set bs" "(b, u, g) \<in> set bs"
  shows "(a, s, f) = (b, u, g) \<or> unat a + 40 + unat s \<le> unat b \<or> unat b + 40 + unat u \<le> unat a"
  using assms
proof (induction lo bs hi rule: tiles.induct)
  case (2 lo c v h bs hi)
  have t: "tiles (lo + 40 + unat v) bs hi" and c: "unat c = lo" using 2 by simp_all
  have "lo + 40 + unat v \<le> unat a" if "(a, s, f) \<in> set bs"
    using tiles_bounds [OF t that] by simp
  moreover have "lo + 40 + unat v \<le> unat b" if "(b, u, g) \<in> set bs"
    using tiles_bounds [OF t that] by simp
  ultimately show ?case using 2 c t by auto
qed simp

lemma live_disjoint:
  assumes "heap_wf m K lo bs hi" "(p, k) \<in> live bs" "(q, l) \<in> live bs" "(p, k) \<noteq> (q, l)"
  shows "disjoint p k q l"
proof -
  from assms obtain a s b u where
    ab: "p = a + 40" "k = unat s" "(a, s, False) \<in> set bs"
      "q = b + 40" "l = unat u" "(b, u, False) \<in> set bs"
    by (auto simp: live_def)
  have ti: "tiles lo bs hi" and hi: "hi < 2 ^ 63" using assms(1) by (simp_all add: heap_wf_def)
  show ?thesis
    using tiles_apart [OF ti ab(3,6)] assms(4) ab tiles_payload [OF ti hi ab(3)]
      tiles_payload [OF ti hi ab(6)]
    by (auto simp: disjoint_def)
qed

text \<open>A change of headers alone leaves every live payload as it was.\<close>

lemma live_kept:
  assumes wf: "heap_wf m K lo bs hi" and oh: "only_hdrs m1 m2 (fst ` set bs)"
    and lv: "(p, k) \<in> live bs"
  shows "same_on m1 m2 p k"
proof (rule only_hdrs_same_on [OF oh])
  fix h assume "h \<in> fst ` set bs"
  then obtain u g where h: "(h, u, g) \<in> set bs" by auto
  from lv obtain a s where a: "p = a + 40" "k = unat s" "(a, s, False) \<in> set bs"
    by (auto simp: live_def)
  have ti: "tiles lo bs hi" and hi: "hi < 2 ^ 63" using wf by (simp_all add: heap_wf_def)
  show "unat h + 40 \<le> unat p \<or> unat p + k \<le> unat h"
    using tiles_apart [OF ti a(3) h] a tiles_payload [OF ti hi a(3)] by auto
qed

text \<open>What the abstract operations do to the live payloads.\<close>

lemma live_cut: "\<exists>k. live (cut n a s False) = {(a + 40, k)} \<and> (unat n \<le> unat s \<longrightarrow> unat n \<le> k)"
  by (auto simp: cut_def)

lemma live_alloc:
  assumes "find (fits n) bs = Some (a, s, f)"
  shows "\<exists>k. live (fst (a_alloc n bs)) = insert (a + 40, k) (live bs) \<and> unat n \<le> k"
proof -
  obtain pre post where bs: "bs = pre @ (a, s, f) # post" and ft: "fits n (a, s, f)"
    and no: "\<forall>b\<in>set pre. \<not> fits n b"
    using find_split [OF assms] by metis
  have "f" "unat n \<le> unat s" using ft by (auto simp: word_le_nat_alt)
  then show ?thesis
    unfolding bs a_alloc_split [OF no ft] using live_cut [of n a s] by auto
qed

lemma live_join: "live (join (a, s, True) bs) = live bs"
  by (cases "((a, s, True), bs)" rule: join.cases) auto

lemma live_free:
  assumes "distinct (map fst bs)" "(a, s, False) \<in> set bs"
  shows "live (a_free a bs) = live bs - {(a + 40, unat s)}"
proof -
  obtain pre post where bs: "bs = pre @ (a, s, False) # post"
    using assms(2) by (auto simp: in_set_conv_decomp)
  have pre: "a \<notin> fst ` set pre" and post: "a \<notin> fst ` set post" using assms(1) by (auto simp: bs)
  have no: "(a + 40, unat s) \<notin> live pre" "(a + 40, unat s) \<notin> live post"
    using pre post by (auto simp: live_def image_iff)
  have "live (a_free a bs) = live pre \<union> live post"
  proof (cases pre rule: rev_cases)
    case Nil
    then show ?thesis using a_free_split [OF pre, of s False post] by (simp add: bs live_join)
  next
    case (snoc pre' x)
    obtain q u g where x: "x = (q, u, g)" by (cases x) auto
    show ?thesis
      using a_free_split [OF pre, of s False post]
      by (cases g) (simp_all add: bs snoc x live_join)
  qed
  then show ?thesis using no by (auto simp: bs)
qed

section \<open>Writing into a payload\<close>

lemma payload_write:
  assumes wf: "heap_wf m K lo bs hi" and lv: "(p, k) \<in> live bs" and len: "length xs \<le> k"
  shows "heap_wf (st_bytes m p xs) K lo bs hi"
    and "ld_bytes (st_bytes m p xs) p (length xs) = xs"
    and "\<And>q l. (q, l) \<in> live bs \<Longrightarrow> (q, l) \<noteq> (p, k) \<Longrightarrow> same_on m (st_bytes m p xs) q l"
proof -
  from lv obtain a s where a: "p = a + 40" "k = unat s" "(a, s, False) \<in> set bs"
    by (auto simp: live_def)
  have ti: "tiles lo bs hi" and hi: "hi < 2 ^ 63" using wf by (simp_all add: heap_wf_def)
  have up: "unat p = unat a + 40" using tiles_payload [OF ti hi a(3)] a by simp
  have top: "unat p + length xs \<le> 2 ^ 64"
    using tiles_bounds [OF ti a(3)] up hi len a(2) by simp
  have "same_on m (st_bytes m p xs) h 40" if "(h, u, g) \<in> set bs" for h u g
    using tiles_apart [OF ti a(3) that] up len a(2) top
    by (intro same_on_st_bytes) (auto simp: disjoint_def)
  then show "heap_wf (st_bytes m p xs) K lo bs hi"
    using wf chain_frame [OF ti hi] unfolding heap_wf_def by blast
  show "ld_bytes (st_bytes m p xs) p (length xs) = xs"
    using top by (rule ld_st_bytes)
  show "same_on m (st_bytes m p xs) q l" if "(q, l) \<in> live bs" "(q, l) \<noteq> (p, k)" for q l
    using live_disjoint [OF wf lv that(1)] that(2) len top
    by (intro same_on_st_bytes) (auto simp: disjoint_def)
qed

lemma live_bounds:
  assumes "heap_wf m K lo bs hi" "(p, k) \<in> live bs"
  shows "lo + 40 \<le> unat p" "unat p + k \<le> hi" "unat p + k \<le> 2 ^ 64" "p \<noteq> NULL"
proof -
  from assms(2) obtain a s where a: "p = a + 40" "k = unat s" "(a, s, False) \<in> set bs"
    by (auto simp: live_def)
  have ti: "tiles lo bs hi" and hi: "hi < 2 ^ 63" using assms(1) by (simp_all add: heap_wf_def)
  show "lo + 40 \<le> unat p" and b: "unat p + k \<le> hi"
    using tiles_bounds [OF ti a(3)] tiles_payload [OF ti hi a(3)] a by auto
  then show "unat p + k \<le> 2 ^ 64" using hi by simp
  show "p \<noteq> NULL" using tiles_payload [OF ti hi a(3)] a by auto
qed

lemma live_unique:
  assumes "heap_wf m K lo bs hi" "(p, k) \<in> live bs" "(p, l) \<in> live bs"
  shows "k = l"
proof -
  have ti: "tiles lo bs hi" using assms(1) by (simp_all add: heap_wf_def)
  from assms(2,3) obtain a s u where "(a, s, False) \<in> set bs" "(a, u, False) \<in> set bs"
    "k = unat s" "l = unat u" by (auto simp: live_def)
  then show ?thesis using tiles_apart [OF ti, of a s False a u False] by auto
qed

lemma live_hdr:
  assumes "heap_wf m K lo bs hi" "(a + 40, unat s) \<in> live bs"
  shows "(a, s, False) \<in> set bs" "h_magic (hdr m a) = K" "h_size (hdr m a) = s" "h_free (hdr m a) = 0"
proof -
  show m: "(a, s, False) \<in> set bs"
    using assms(2) by (auto simp: live_def simp flip: word_unat_eq_iff)
  then obtain pre post where "bs = pre @ (a, s, False) # post"
    by (auto simp: in_set_conv_decomp)
  then show "h_magic (hdr m a) = K" "h_size (hdr m a) = s" "h_free (hdr m a) = 0"
    using assms(1) by (simp_all add: heap_wf_def)
qed

section \<open>Statistics\<close>

text \<open>The sums that the statistics collect, over the list.\<close>

definition stats_of :: "blk list \<Rightarrow> malloc_stats_t" where
  "stats_of bs = \<lparr>
     total_managed = (\<Sum>(a, s, f)\<leftarrow>bs. 40 + s),
     used_payload = (\<Sum>(a, s, f)\<leftarrow>bs. if f then 0 else s),
     free_payload = (\<Sum>(a, s, f)\<leftarrow>bs. if f then s else 0),
     largest_free = fold max (map (\<lambda>(a, s, f). if f then s else 0) bs) 0,
     num_blocks = word_of_nat (length bs),
     num_used = word_of_nat (length (filter (\<lambda>(a, s, f). \<not> f) bs)),
     num_free = word_of_nat (length (filter (\<lambda>(a, s, f). f) bs))\<rparr>"

definition plus_stats :: "malloc_stats_t \<Rightarrow> blk list \<Rightarrow> malloc_stats_t" where
  "plus_stats t bs = \<lparr>
     total_managed = total_managed t + total_managed (stats_of bs),
     used_payload = used_payload t + used_payload (stats_of bs),
     free_payload = free_payload t + free_payload (stats_of bs),
     largest_free = fold max (map (\<lambda>(a, s, f). if f then s else 0) bs) (largest_free t),
     num_blocks = num_blocks t + num_blocks (stats_of bs),
     num_used = num_used t + num_used (stats_of bs),
     num_free = num_free t + num_free (stats_of bs)\<rparr>"

lemma blk_stats_chain:
  assumes "chain m K p bs NULL" "tiles lo bs hi" "0 < lo"
  shows "blk_stats m (hd_addr bs NULL) t = Some (plus_stats t bs)"
  using assms
proof (induction bs arbitrary: p lo t)
  case Nil
  then show ?case by (simp add: blk_stats.simps plus_stats_def stats_of_def)
next
  case (Cons b bs)
  obtain a s f where b: "b = (a, s, f)" by (cases b) auto
  have "a \<noteq> NULL" using Cons.prems b by auto
  then have "blk_stats m (hd_addr (b # bs) NULL) t = blk_stats m (hd_addr bs NULL) (stats_step m a t)"
    using Cons.prems b by (subst blk_stats.simps) simp
  also have "\<dots> = Some (plus_stats (stats_step m a t) bs)"
    using Cons.prems b by (intro Cons.IH [of a "lo + 40 + unat s"]) auto
  also have "plus_stats (stats_step m a t) bs = plus_stats t (b # bs)"
    using Cons.prems b
    by (auto simp: plus_stats_def stats_of_def stats_step_def Let_def max_def algebra_simps)
  finally show ?case .
qed

lemma stats_of_split:
  "total_managed (stats_of bs) =
     used_payload (stats_of bs) + free_payload (stats_of bs) + 40 * num_blocks (stats_of bs)"
  "num_blocks (stats_of bs) = num_used (stats_of bs) + num_free (stats_of bs)"
  by (induction bs) (auto simp: stats_of_def algebra_simps)

lemma tiles_total: "tiles lo bs hi \<Longrightarrow> word_of_nat lo + (\<Sum>(a, s, f)\<leftarrow>bs. 40 + s) = (word_of_nat hi :: u64)"
proof (induction lo bs hi rule: tiles.induct)
  case (2 lo a s f bs hi)
  then have "word_of_nat (lo + 40 + unat s) + (\<Sum>(a, s, f)\<leftarrow>bs. 40 + s) = (word_of_nat hi :: u64)"
    by simp
  then show ?case by (simp add: algebra_simps)
qed simp

lemma blk_stats_wf:
  "heap_wf m K lo bs hi \<Longrightarrow> blk_stats m (hd_addr bs NULL) zero_stats = Some (plus_stats zero_stats bs)"
  unfolding heap_wf_def using blk_stats_chain by blast

lemma heap_wf_total: "heap_wf m K (unat lo) bs (unat hi) \<Longrightarrow> total_managed (stats_of bs) = hi - lo"
  using tiles_total [of "unat lo" bs "unat hi"] by (auto simp: heap_wf_def stats_of_def eq_diff_eq add.commute)

section \<open>Regions\<close>

text \<open>A heap depends on the bytes of its region only, and header changes stay inside it.\<close>

lemma heap_wf_region:
  assumes wf: "heap_wf m K lo bs hi" and same: "\<And>x. lo \<le> unat x \<Longrightarrow> unat x < hi \<Longrightarrow> m' x = m x"
  shows "heap_wf m' K lo bs hi"
proof -
  have ti: "tiles lo bs hi" and hi: "hi < 2 ^ 63" and ch: "chain m K NULL bs NULL" and lo: "0 < lo"
    using wf by (simp_all add: heap_wf_def)
  have "same_on m m' a 40" if "(a, s, f) \<in> set bs" for a s f
    using tiles_bounds [OF ti that] same by (auto simp: same_on_def in_range_def)
  then show ?thesis using chain_frame [OF ti hi, of m m' K NULL NULL] ch ti lo hi by (simp add: heap_wf_def)
qed

lemma only_hdrs_region:
  assumes "only_hdrs m m' (fst ` set bs)" "tiles lo bs hi" "unat x < lo \<or> hi \<le> unat x"
  shows "m' x = m x"
proof -
  have "\<not> in_range x h 40" if hh: "h \<in> fst ` set bs" for h
  proof -
    obtain b where b: "b \<in> set bs" "h = fst b" using hh by blast
    obtain u g where "b = (h, u, g)" using b(2) by (cases b) auto
    with b(1) have "(h, u, g) \<in> set bs" by simp
    from tiles_bounds [OF assms(2) this] show ?thesis using assms(3) by (auto simp: in_range_def)
  qed
  then show ?thesis using assms(1) by (simp add: only_hdrs_def)
qed

text \<open>Writes inside one payload in use keep the heap and every other payload.\<close>

lemma payload_change:
  assumes wf: "heap_wf m K lo bs hi" and lv: "(p, k) \<in> live bs"
    and same: "\<And>x. \<not> in_range x p k \<Longrightarrow> m' x = m x"
  shows "heap_wf m' K lo bs hi"
    and "\<And>q l. (q, l) \<in> live bs \<Longrightarrow> (q, l) \<noteq> (p, k) \<Longrightarrow> same_on m m' q l"
proof -
  from lv obtain a s where a: "p = a + 40" "k = unat s" "(a, s, False) \<in> set bs"
    by (auto simp: live_def)
  have ti: "tiles lo bs hi" and hi: "hi < 2 ^ 63" and ch: "chain m K NULL bs NULL" and lo: "0 < lo"
    using wf by (simp_all add: heap_wf_def)
  have up: "unat p = unat a + 40" using tiles_payload [OF ti hi a(3)] a(1) by simp
  have "same_on m m' b 40" if "(b, u, g) \<in> set bs" for b u g
    using tiles_apart [OF ti a(3) that] up a(2) same
    by (auto simp: same_on_def in_range_def intro!: same [symmetric])
  then show "heap_wf m' K lo bs hi"
    using chain_frame [OF ti hi, of m m' K NULL NULL] ch ti lo hi by (simp add: heap_wf_def)
  fix q l assume q: "(q, l) \<in> live bs" "(q, l) \<noteq> (p, k)"
  then have "disjoint q l p k" using live_disjoint [OF wf q(1) lv] by blast
  then show "same_on m m' q l"
    using same by (auto simp: same_on_def in_range_def disjoint_def intro!: same [symmetric])
qed

end
