(* ===== verification/Libc_String.thy ===== *)
theory Libc_String
  imports Memory
begin

text \<open>
  The memory and string functions of \<open>libc/string.c\<close> over the flat byte memory.  The
  functions bounded by a count are recursion on the count.  Those that run to a
  terminating zero are partial: on a memory without one the C loop does not stop, and the
  model returns \<open>None\<close>.
\<close>

section \<open>Definitions\<close>

fun memcpy_loop :: "mem \<Rightarrow> ptr \<Rightarrow> ptr \<Rightarrow> nat \<Rightarrow> mem" where
  "memcpy_loop m d s 0 = m"
| "memcpy_loop m d s (Suc n) = memcpy_loop (m(d := m s)) (d + 1) (s + 1) n"

definition memcpy :: "mem \<Rightarrow> ptr \<Rightarrow> ptr \<Rightarrow> u64 \<Rightarrow> mem" where
  "memcpy m dst src n = memcpy_loop m dst src (unat n)"

fun memset_loop :: "mem \<Rightarrow> ptr \<Rightarrow> u8 \<Rightarrow> nat \<Rightarrow> mem" where
  "memset_loop m p c 0 = m"
| "memset_loop m p c (Suc n) = memset_loop (m(p := c)) (p + 1) c n"

text \<open>The \<open>int\<close> argument is cut to an \<open>unsigned char\<close>.\<close>

definition memset :: "mem \<Rightarrow> ptr \<Rightarrow> u32 \<Rightarrow> u64 \<Rightarrow> mem" where
  "memset m s c n = memset_loop m s (ucast c) (unat n)"

partial_function (option) strlen_loop :: "mem \<Rightarrow> ptr \<Rightarrow> u64 \<Rightarrow> u64 option" where
  "strlen_loop m s len = (if m s = 0 then Some len else strlen_loop m (s + 1) (len + 1))"

definition strlen :: "mem \<Rightarrow> ptr \<Rightarrow> u64 option" where
  "strlen m s = strlen_loop m s 0"

text \<open>The copied byte is read before it is written, so source and target may overlap.\<close>

partial_function (option) strcpy_loop :: "mem \<Rightarrow> ptr \<Rightarrow> ptr \<Rightarrow> mem option" where
  "strcpy_loop m d s =
     (let c = m s; m' = m(d := c)
      in if c = 0 then Some m' else strcpy_loop m' (d + 1) (s + 1))"

definition strcpy :: "mem \<Rightarrow> ptr \<Rightarrow> ptr \<Rightarrow> mem option" where
  "strcpy m dst src = strcpy_loop m dst src"

text \<open>\<open>strncpy\<close> copies up to a zero or the count and fills the rest with zeros.\<close>

fun strncpy_loop :: "mem \<Rightarrow> ptr \<Rightarrow> ptr \<Rightarrow> nat \<Rightarrow> mem" where
  "strncpy_loop m d s 0 = m"
| "strncpy_loop m d s (Suc n) =
     (if m s \<noteq> 0 then strncpy_loop (m(d := m s)) (d + 1) (s + 1) n
      else memset_loop m d 0 (Suc n))"

definition strncpy :: "mem \<Rightarrow> ptr \<Rightarrow> ptr \<Rightarrow> u64 \<Rightarrow> mem" where
  "strncpy m dst src n = strncpy_loop m dst src (unat n)"

partial_function (option) str_end :: "mem \<Rightarrow> ptr \<Rightarrow> ptr option" where
  "str_end m d = (if m d = 0 then Some d else str_end m (d + 1))"

definition strcat :: "mem \<Rightarrow> ptr \<Rightarrow> ptr \<Rightarrow> mem option" where
  "strcat m dst src = Option.bind (str_end m dst) (\<lambda>d. strcpy_loop m d src)"

text \<open>The result is the difference of two \<open>unsigned char\<close> values.\<close>

partial_function (option) strcmp :: "mem \<Rightarrow> ptr \<Rightarrow> ptr \<Rightarrow> int option" where
  "strcmp m a b =
     (if m a \<noteq> 0 \<and> m a = m b then strcmp m (a + 1) (b + 1)
      else Some (uint (m a) - uint (m b)))"

fun strncmp_loop :: "mem \<Rightarrow> ptr \<Rightarrow> ptr \<Rightarrow> nat \<Rightarrow> int" where
  "strncmp_loop m a b 0 = 0"
| "strncmp_loop m a b (Suc n) =
     (if m a \<noteq> m b then uint (m a) - uint (m b)
      else if m a = 0 then 0
      else strncmp_loop m (a + 1) (b + 1) n)"

definition strncmp :: "mem \<Rightarrow> ptr \<Rightarrow> ptr \<Rightarrow> u64 \<Rightarrow> int" where
  "strncmp m a b n = strncmp_loop m a b (unat n)"

partial_function (option) strchr :: "mem \<Rightarrow> ptr \<Rightarrow> u8 \<Rightarrow> ptr option" where
  "strchr m s c =
     (if m s = 0 then Some NULL
      else if m s = c then Some s
      else strchr m (s + 1) c)"

partial_function (option) strrchr_loop :: "mem \<Rightarrow> ptr \<Rightarrow> u8 \<Rightarrow> ptr \<Rightarrow> ptr option" where
  "strrchr_loop m s c lst =
     (if m s = 0 then Some lst
      else strrchr_loop m (s + 1) c (if m s = c then s else lst))"

definition strrchr :: "mem \<Rightarrow> ptr \<Rightarrow> u8 \<Rightarrow> ptr option" where
  "strrchr m s c = strrchr_loop m s c NULL"

fun strncat_loop :: "mem \<Rightarrow> ptr \<Rightarrow> ptr \<Rightarrow> nat \<Rightarrow> mem" where
  "strncat_loop m d s 0 = m(d := 0)"
| "strncat_loop m d s (Suc n) =
     (if m s \<noteq> 0 then strncat_loop (m(d := m s)) (d + 1) (s + 1) n else m(d := 0))"

definition strncat :: "mem \<Rightarrow> ptr \<Rightarrow> ptr \<Rightarrow> u64 \<Rightarrow> mem option" where
  "strncat m dest src n =
     map_option (\<lambda>d. strncat_loop m d src (unat n)) (str_end m dest)"

declare strlen_loop.simps [code] strcpy_loop.simps [code] str_end.simps [code]
  strcmp.simps [code] strchr.simps [code] strrchr_loop.simps [code]

section \<open>Strings in memory\<close>

text \<open>\<open>cstr m s bs\<close>: at \<open>s\<close> lie the bytes \<open>bs\<close>, none of them zero, and a zero.\<close>

fun cstr :: "mem \<Rightarrow> ptr \<Rightarrow> u8 list \<Rightarrow> bool" where
  "cstr m s [] \<longleftrightarrow> m s = 0"
| "cstr m s (b # bs) \<longleftrightarrow> m s = b \<and> b \<noteq> 0 \<and> cstr m (s + 1) bs"

lemma cstr_bytes: "cstr m s bs \<longleftrightarrow> 0 \<notin> set bs \<and> ld_bytes m s (Suc (length bs)) = bs @ [0]"
  by (induction bs arbitrary: s) auto

lemma cstr_cong:
  assumes "same_on m m' s (Suc (length bs))" "unat s + Suc (length bs) \<le> 2 ^ 64"
  shows "cstr m s bs \<longleftrightarrow> cstr m' s bs"
  unfolding cstr_bytes using ld_bytes_cong [OF assms] by simp

section \<open>memcpy and memset\<close>

lemma memcpy_loop_disjoint:
  "disjoint d n s n \<Longrightarrow> unat d + n \<le> 2 ^ 64 \<Longrightarrow> unat s + n \<le> 2 ^ 64 \<Longrightarrow>
     memcpy_loop m d s n = st_bytes m d (ld_bytes m s n)"
proof (induction n arbitrary: m d s)
  case (Suc n)
  show ?case
  proof (cases "n = 0")
    case False
    have e: "unat (d + 1) = unat d + 1" "unat (s + 1) = unat s + 1"
      using Suc.prems False by (intro unat_Suc_addr; simp)+
    have dis: "disjoint (d + 1) n (s + 1) n"
      using Suc.prems(1) e by (auto simp: disjoint_def)
    have "same_on m (m(d := m s)) (s + 1) n"
      using Suc.prems(1) e by (auto simp: same_on_def in_range_def disjoint_def)
    then have "ld_bytes m (s + 1) n = ld_bytes (m(d := m s)) (s + 1) n"
      using Suc.prems(3) e by (intro ld_bytes_cong) simp_all
    then show ?thesis
      using Suc.IH [OF dis, of "m(d := m s)"] Suc.prems e by (simp add: fun_upd_def)
  qed simp
qed simp

lemma memcpy_disjoint:
  assumes "disjoint d (unat n) s (unat n)" "unat d + unat n \<le> 2 ^ 64" "unat s + unat n \<le> 2 ^ 64"
  shows "memcpy m d s n = st_bytes m d (ld_bytes m s (unat n))"
  unfolding memcpy_def by (rule memcpy_loop_disjoint [OF assms])

text \<open>A copy changes the target only, also when it overlaps the source.\<close>

lemma memcpy_loop_outside:
  "\<not> in_range x d n \<Longrightarrow> unat d + n \<le> 2 ^ 64 \<Longrightarrow> memcpy_loop m d s n x = m x"
proof (induction n arbitrary: m d s)
  case (Suc n)
  have d: "x \<noteq> d" using Suc.prems(1) by (auto simp: in_range_def)
  show ?case
  proof (cases "n = 0")
    case False
    have e: "unat (d + 1) = unat d + 1" using Suc.prems(2) False by (intro unat_Suc_addr) simp
    show ?thesis using Suc.IH [of "d + 1"] Suc.prems d e by (simp add: in_range_def)
  qed (use d in simp)
qed simp

lemma memcpy_outside: "\<not> in_range x d (unat n) \<Longrightarrow> unat d + unat n \<le> 2 ^ 64 \<Longrightarrow> memcpy m d s n x = m x"
  unfolding memcpy_def by (rule memcpy_loop_outside)

lemma memset_loop_eq: "memset_loop m p c n = st_bytes m p (replicate n c)"
  by (induction n arbitrary: m p) simp_all

lemma memset_eq: "memset m p c n = st_bytes m p (replicate (unat n) (ucast c))"
  by (simp add: memset_def memset_loop_eq)

section \<open>strlen, strcpy, strncpy\<close>

lemma strlen_loop_cstr:
  "cstr m s bs \<Longrightarrow> strlen_loop m s len = Some (len + word_of_nat (length bs))"
proof (induction bs arbitrary: s len)
  case (Cons b bs)
  then have "strlen_loop m s len = strlen_loop m (s + 1) (len + 1)"
    by (subst strlen_loop.simps) simp
  with Cons show ?case by simp
qed (simp add: strlen_loop.simps)

lemma strcpy_loop_cstr:
  "cstr m s bs \<Longrightarrow> disjoint d (Suc (length bs)) s (Suc (length bs)) \<Longrightarrow>
     unat d + Suc (length bs) \<le> 2 ^ 64 \<Longrightarrow> unat s + Suc (length bs) \<le> 2 ^ 64 \<Longrightarrow>
     strcpy_loop m d s = Some (st_bytes m d (bs @ [0]))"
proof (induction bs arbitrary: m d s)
  case Nil
  then show ?case by (subst strcpy_loop.simps) (simp add: Let_def fun_upd_def)
next
  case (Cons b bs)
  have e: "unat (d + 1) = unat d + 1" "unat (s + 1) = unat s + 1"
    using Cons.prems by (intro unat_Suc_addr; simp)+
  have dis: "disjoint (d + 1) (Suc (length bs)) (s + 1) (Suc (length bs))"
    using Cons.prems(2) e by (auto simp: disjoint_def)
  have "same_on m (m(d := b)) (s + 1) (Suc (length bs))"
    using Cons.prems(2) e by (auto simp: same_on_def in_range_def disjoint_def)
  then have "cstr (m(d := b)) (s + 1) bs"
    using Cons.prems(1,4) e by (subst cstr_cong [symmetric]) auto
  then have "strcpy_loop (m(d := b)) (d + 1) (s + 1) = Some (st_bytes (m(d := b)) (d + 1) (bs @ [0]))"
    using Cons.prems(3,4) e by (intro Cons.IH [OF _ dis]) (simp_all flip: fun_upd_def)
  moreover have "m s = b" "b \<noteq> 0" using Cons.prems(1) by simp_all
  ultimately show ?case
    by (subst strcpy_loop.simps) (simp add: Let_def flip: fun_upd_def)
qed

lemma str_end_cstr: "cstr m s bs \<Longrightarrow> str_end m s = Some (s + word_of_nat (length bs))"
proof (induction bs arbitrary: s)
  case (Cons b bs)
  then have "str_end m s = str_end m (s + 1)"
    by (subst str_end.simps) simp
  with Cons show ?case by (simp add: algebra_simps)
qed (simp add: str_end.simps)

text \<open>The bytes that \<open>strncpy\<close> leaves: the string cut or filled to exactly \<open>n\<close> bytes.\<close>

lemma strncpy_loop_cstr:
  "cstr m s bs \<Longrightarrow> disjoint d n s (Suc (length bs)) \<Longrightarrow>
     unat d + n \<le> 2 ^ 64 \<Longrightarrow> unat s + Suc (length bs) \<le> 2 ^ 64 \<Longrightarrow>
     strncpy_loop m d s n = st_bytes m d (take n bs @ replicate (n - length bs) 0)"
proof (induction n arbitrary: m d s bs)
  case (Suc n)
  show ?case
  proof (cases bs)
    case Nil
    then show ?thesis using Suc.prems by (simp add: memset_loop_eq)
  next
    case (Cons b bs')
    have es: "unat (s + 1) = unat s + 1"
      using Suc.prems(4) Cons by (intro unat_Suc_addr) simp
    have dis: "disjoint (d + 1) n (s + 1) (Suc (length bs'))"
      using disjoint_Suc [OF Suc.prems(2,3)] es Cons by (auto simp: disjoint_def)
    have "same_on m (m(d := b)) (s + 1) (Suc (length bs'))"
      using Suc.prems(2) es Cons by (auto simp: same_on_def in_range_def disjoint_def)
    then have c: "cstr (m(d := b)) (s + 1) bs'"
      using Suc.prems(1,4) es Cons by (subst cstr_cong [symmetric]) auto
    have "unat (d + 1) + n \<le> 2 ^ 64" if "n \<noteq> 0"
      using Suc.prems(3) that unat_Suc_addr [of d] by simp
    then have "strncpy_loop (m(d := b)) (d + 1) (s + 1) n =
        st_bytes (m(d := b)) (d + 1) (take n bs' @ replicate (n - length bs') 0)"
      using Suc.IH [OF c dis] Suc.prems(4) es Cons
      by (cases "n = 0") (simp_all flip: fun_upd_def)
    then show ?thesis using Suc.prems(1) Cons by simp
  qed
qed simp

section \<open>Comparing and searching\<close>

text \<open>The order of \<open>strcmp\<close>: the difference at the first place where the strings differ.\<close>

fun first_diff :: "u8 list \<Rightarrow> u8 list \<Rightarrow> int" where
  "first_diff [] [] = 0"
| "first_diff (x # xs) [] = uint x"
| "first_diff [] (y # ys) = - uint y"
| "first_diff (x # xs) (y # ys) = (if x = y then first_diff xs ys else uint x - uint y)"

lemma first_diff_0_iff:
  "0 \<notin> set xs \<Longrightarrow> 0 \<notin> set ys \<Longrightarrow> first_diff xs ys = 0 \<longleftrightarrow> xs = ys"
  by (induction xs ys rule: first_diff.induct) (auto simp: word_uint_eq_iff)

lemma cstr_no_zero: "cstr m s bs \<Longrightarrow> 0 \<notin> set bs"
  by (simp add: cstr_bytes)

lemma strcmp_cstr:
  "cstr m a xs \<Longrightarrow> cstr m b ys \<Longrightarrow> strcmp m a b = Some (first_diff xs ys)"
proof (induction xs ys arbitrary: a b rule: first_diff.induct)
  case (4 x xs y ys)
  then show ?case by (subst strcmp.simps) auto
qed (simp_all add: strcmp.simps)

lemma strchr_cstr:
  assumes "cstr m s bs" "c \<noteq> 0"
  shows "strchr m s c = Some (if c \<in> set bs
    then s + word_of_nat (length (takeWhile (\<lambda>b. b \<noteq> c) bs)) else NULL)"
  using assms
proof (induction bs arbitrary: s)
  case (Cons b bs)
  then show ?case by (subst strchr.simps) (auto simp: algebra_simps)
qed (simp add: strchr.simps)

text \<open>\<open>strncmp\<close> compares the first \<open>n\<close> bytes.\<close>

lemma strncmp_loop_cstr:
  "cstr m a xs \<Longrightarrow> cstr m b ys \<Longrightarrow> strncmp_loop m a b n = first_diff (take n xs) (take n ys)"
proof (induction xs ys arbitrary: a b n rule: first_diff.induct)
  case 1
  then show ?case by (cases n) simp_all
next
  case (2 x xs)
  then show ?case by (cases n) auto
next
  case (3 y ys)
  then show ?case by (cases n) auto
next
  case (4 x xs y ys)
  then show ?case by (cases n) auto
qed

lemma strrchr_loop_cstr:
  assumes "cstr m s bs"
  shows "strrchr_loop m s c l = Some (if c \<in> set bs
    then s + word_of_nat (length bs - 1 - length (takeWhile (\<lambda>b. b \<noteq> c) (rev bs))) else l)"
  using assms
proof (induction bs arbitrary: s l)
  case (Cons b bs)
  have step: "strrchr_loop m s c l = strrchr_loop m (s + 1) c (if b = c then s else l)"
    using Cons.prems by (subst strrchr_loop.simps) auto
  let ?k = "length (takeWhile (\<lambda>b. b \<noteq> c) (rev bs))"
  show ?case
  proof (cases "c \<in> set bs")
    case True
    have "takeWhile (\<lambda>b. b \<noteq> c) (rev bs) \<noteq> rev bs" using True by (auto simp: takeWhile_eq_all_conv)
    then have "?k \<noteq> length bs" using takeWhile_eq_take [of "\<lambda>b. b \<noteq> c" "rev bs"] by force
    then have "?k < length bs"
      using length_takeWhile_le [of "\<lambda>b. b \<noteq> c" "rev bs"] by simp
    then have "s + 1 + word_of_nat (length bs - 1 - ?k) = s + word_of_nat (length bs - ?k)"
      by (simp add: algebra_simps flip: of_nat_Suc)
    then show ?thesis using Cons True step by simp
  next
    case False
    then have "takeWhile (\<lambda>b. b \<noteq> c) (rev bs @ [b]) = rev bs @ takeWhile (\<lambda>b. b \<noteq> c) [b]"
      by (intro takeWhile_append2) auto
    then show ?thesis using Cons False step by auto
  qed
qed (simp add: strrchr_loop.simps)

lemma cstr_st_bytes:
  assumes "unat d + Suc (length bs) \<le> 2 ^ 64" "0 \<notin> set bs"
  shows "cstr (st_bytes m d (bs @ [0])) d bs"
  unfolding cstr_bytes using assms ld_st_bytes [of d "bs @ [0]" m] by simp

lemma strncat_loop_cstr:
  "cstr m s bs \<Longrightarrow> disjoint d (Suc (length bs)) s (Suc (length bs)) \<Longrightarrow>
     unat d + Suc (length bs) \<le> 2 ^ 64 \<Longrightarrow> unat s + Suc (length bs) \<le> 2 ^ 64 \<Longrightarrow>
     strncat_loop m d s n = st_bytes m d (take n bs @ [0])"
proof (induction bs arbitrary: m d s n)
  case Nil
  then show ?case by (cases n) simp_all
next
  case (Cons b bs)
  show ?case
  proof (cases n)
    case (Suc k)
    have e: "unat (d + 1) = unat d + 1" "unat (s + 1) = unat s + 1"
      using Cons.prems by (intro unat_Suc_addr; simp)+
    have dis: "disjoint (d + 1) (Suc (length bs)) (s + 1) (Suc (length bs))"
      using Cons.prems(2) e by (auto simp: disjoint_def)
    have "same_on m (m(d := b)) (s + 1) (Suc (length bs))"
      using Cons.prems(2) e by (auto simp: same_on_def in_range_def disjoint_def)
    then have "cstr (m(d := b)) (s + 1) bs"
      using Cons.prems(1,4) e by (subst cstr_cong [symmetric]) auto
    then have "strncat_loop (m(d := b)) (d + 1) (s + 1) k = st_bytes (m(d := b)) (d + 1) (take k bs @ [0])"
      using Cons.prems(3,4) e by (intro Cons.IH [OF _ dis]) (simp_all flip: fun_upd_def)
    then show ?thesis using Cons.prems(1) Suc by (simp flip: fun_upd_def)
  qed simp
qed

section \<open>Correctness of the string functions\<close>

text \<open>A memory with \<open>ab\<close> at 0x100 and \<open>c\<close> at 0x200 for the instances.\<close>

definition demo_str :: mem where
  "demo_str = (\<lambda>x. 0)(0x100 := 97, 0x101 := 98, 0x200 := 99)"

lemma demo_str_cstr: "cstr demo_str 0x100 [97, 98]" "cstr demo_str 0x200 [99]" "cstr demo_str 0x300 []"
  by (simp_all add: demo_str_def)

text \<open>
  Copying a string to a place that does not overlap it ends, leaves a copy there that
  \<open>strcmp\<close> finds equal and that has the same \<open>strlen\<close>, and changes no other byte.
\<close>

lemma strcpy_copies:
  assumes "cstr m s bs" "disjoint d (Suc (length bs)) s (Suc (length bs))"
    "unat d + Suc (length bs) \<le> 2 ^ 64" "unat s + Suc (length bs) \<le> 2 ^ 64"
  shows "\<exists>m'. strcpy m d s = Some m' \<and> cstr m' d bs \<and> strcmp m' d s = Some 0 \<and>
    strlen m' d = Some (word_of_nat (length bs)) \<and>
    (\<forall>x. \<not> in_range x d (Suc (length bs)) \<longrightarrow> m' x = m x)"
proof -
  let ?m = "st_bytes m d (bs @ [0])"
  have d: "cstr ?m d bs" using cstr_st_bytes [OF assms(3) cstr_no_zero [OF assms(1)]] .
  have "same_on m ?m s (Suc (length bs))"
    using assms by (intro same_on_st_bytes) simp_all
  then have s: "cstr ?m s bs" using cstr_cong [OF _ assms(4)] assms(1) by blast
  have "strcmp ?m d s = Some 0"
    using strcmp_cstr [OF d s] first_diff_0_iff [of bs bs] cstr_no_zero [OF assms(1)] by simp
  then show ?thesis
    using strcpy_loop_cstr [OF assms] d strlen_loop_cstr [OF d, of 0] st_bytes_outside [of _ d "bs @ [0]" m]
      assms(3) by (simp add: strcpy_def strlen_def)
qed

text \<open>
  On two strings \<open>strcmp\<close> ends and returns the difference of the first bytes that
  differ, which is 0 exactly for equal strings; \<open>strncmp\<close> does the same on the first
  \<open>n\<close> bytes.
\<close>

lemma strcmp_decides:
  assumes "cstr m a xs" "cstr m b ys"
  shows "strcmp m a b = Some (first_diff xs ys) \<and> (strcmp m a b = Some 0 \<longleftrightarrow> xs = ys) \<and>
    strncmp m a b n = first_diff (take (unat n) xs) (take (unat n) ys) \<and>
    (strncmp m a b n = 0 \<longleftrightarrow> take (unat n) xs = take (unat n) ys)"
proof -
  have z: "0 \<notin> set xs" "0 \<notin> set ys" using assms cstr_no_zero by blast+
  have "0 \<notin> set (take (unat n) xs)" "0 \<notin> set (take (unat n) ys)"
    using z in_set_takeD by fastforce+
  then show ?thesis
    using strcmp_cstr [OF assms] strncmp_loop_cstr [OF assms] first_diff_0_iff z
    by (simp add: strncmp_def)
qed

text \<open>
  \<open>strncpy\<close> stores exactly \<open>n\<close> bytes: the string cut to \<open>n\<close>, then zeros.  The result
  is a terminated copy exactly when the string is shorter than \<open>n\<close>.
\<close>

lemma strncpy_fills:
  assumes "cstr m s bs" "disjoint d (unat n) s (Suc (length bs))"
    "unat d + unat n \<le> 2 ^ 64" "unat s + Suc (length bs) \<le> 2 ^ 64"
  shows "ld_bytes (strncpy m d s n) d (unat n) = take (unat n) bs @ replicate (unat n - length bs) 0 \<and>
    (length bs < unat n \<longrightarrow> cstr (strncpy m d s n) d bs) \<and>
    (\<forall>x. \<not> in_range x d (unat n) \<longrightarrow> strncpy m d s n x = m x)"
proof -
  let ?xs = "take (unat n) bs @ replicate (unat n - length bs) 0"
  have len: "length ?xs = unat n" by simp
  have eq: "strncpy m d s n = st_bytes m d ?xs"
    unfolding strncpy_def by (rule strncpy_loop_cstr [OF assms])
  have ld: "ld_bytes (strncpy m d s n) d (unat n) = ?xs"
    unfolding eq using ld_st_bytes [of d ?xs m] assms(3) len by simp
  have "cstr (strncpy m d s n) d bs" if l: "length bs < unat n"
  proof -
    have "ld_bytes (strncpy m d s n) d (Suc (length bs)) = take (Suc (length bs)) ?xs"
      using take_ld_bytes [of "Suc (length bs)" "unat n" "strncpy m d s n" d] l ld by simp
    also have "\<dots> = bs @ [0]" using l by (simp add: take_Suc_conv_app_nth nth_append)
    finally show ?thesis using cstr_no_zero [OF assms(1)] by (simp add: cstr_bytes)
  qed
  then show ?thesis using ld st_bytes_outside [of _ d ?xs m] assms(3) len eq by simp
qed

text \<open>
  Appending one string to another ends and leaves their concatenation, \<open>strncat\<close> with at
  most \<open>n\<close> bytes of the second; the search functions return the first and the last place
  of a character, or \<open>NULL\<close>.
\<close>

lemma strcat_appends:
  assumes d: "cstr m d xs" and s: "cstr m s ys"
    and room: "unat d + length xs + Suc (length ys) \<le> 2 ^ 64" "unat s + Suc (length ys) \<le> 2 ^ 64"
      "disjoint d (length xs + Suc (length ys)) s (Suc (length ys))"
  shows "(\<exists>m'. strcat m d s = Some m' \<and> cstr m' d (xs @ ys)) \<and>
    (\<exists>m''. strncat m d s n = Some m'' \<and> cstr m'' d (xs @ take (unat n) ys)) \<and>
    (c \<noteq> 0 \<longrightarrow> strchr m d c = Some (if c \<in> set xs then d + word_of_nat (length (takeWhile (\<lambda>b. b \<noteq> c) xs)) else NULL)) \<and>
    strrchr m d c = Some (if c \<in> set xs
      then d + word_of_nat (length xs - 1 - length (takeWhile (\<lambda>b. b \<noteq> c) (rev xs))) else NULL)"
proof -
  let ?e = "d + word_of_nat (length xs)"
  have e: "unat ?e = unat d + length xs" using room(1) unat_add_of_nat [of d "length xs"] by simp
  have dis: "disjoint ?e (Suc (length ys)) s (Suc (length ys))"
    using room(3) e by (auto simp: disjoint_def)
  have end': "str_end m d = Some ?e" by (rule str_end_cstr [OF d])
  have join: "cstr (st_bytes m ?e (zs @ [0])) d (xs @ zs)"
    if "length zs \<le> length ys" "0 \<notin> set zs" for zs
  proof -
    let ?m = "st_bytes m ?e (zs @ [0])"
    have "same_on m ?m d (length xs)"
      using e that(1) room(1) by (intro same_on_st_bytes) (auto simp: disjoint_def)
    then have "ld_bytes ?m d (length xs) = ld_bytes m d (length xs)"
      using ld_bytes_cong [of m ?m d "length xs"] room(1) by simp
    also have "\<dots> = xs" using d take_ld_bytes [of "length xs" "Suc (length xs)" m d] by (simp add: cstr_bytes)
    finally have "ld_bytes ?m d (length xs) = xs" .
    moreover have "ld_bytes ?m ?e (Suc (length zs)) = zs @ [0]"
      using ld_st_bytes [of ?e "zs @ [0]" m] e that(1) room(1) by simp
    ultimately have "ld_bytes ?m d (length xs + Suc (length zs)) = xs @ zs @ [0]"
      by (simp only: ld_bytes_append)
    then show ?thesis using that(2) cstr_no_zero [OF d] by (simp add: cstr_bytes)
  qed
  have z: "0 \<notin> set ys" "0 \<notin> set (take (unat n) ys)"
    using cstr_no_zero [OF s] by (auto dest: in_set_takeD)
  have "strcat m d s = Some (st_bytes m ?e (ys @ [0]))"
    using strcpy_loop_cstr [OF s dis] end' e room by (simp add: strcat_def)
  moreover have "strncat m d s n = Some (st_bytes m ?e (take (unat n) ys @ [0]))"
    using strncat_loop_cstr [OF s dis, of "unat n"] end' e room by (simp add: strncat_def)
  moreover have "cstr (st_bytes m ?e (ys @ [0])) d (xs @ ys)"
    "cstr (st_bytes m ?e (take (unat n) ys @ [0])) d (xs @ take (unat n) ys)"
    using z by (auto intro!: join)
  ultimately have "\<exists>m'. strcat m d s = Some m' \<and> cstr m' d (xs @ ys)"
    "\<exists>m''. strncat m d s n = Some m'' \<and> cstr m'' d (xs @ take (unat n) ys)" by blast+
  moreover note strchr_cstr [OF d, of c] strrchr_loop_cstr [OF d, of c NULL, folded strrchr_def]
  ultimately show ?thesis by auto
qed

end
