(* ===== verification/Allocator_Spec.thy ===== *)
theory Allocator_Spec
  imports Block_List Libc_String
begin

text \<open>
  The contract that a client of \<open>malloc.c\<close> or \<open>user_malloc.c\<close> relies on: a state whose
  blocks are represented by a list, an allocation and a release that do to the list what
  the abstract first-fit allocator does, and that change no byte but headers.  The client
  lemmas (fresh and disjoint payloads, contents kept, whole runs of calls) are proved once
  from the contract; each allocator interprets it.
\<close>

section \<open>The abstract allocator\<close>

text \<open>A request of zero bytes is refused; any other is rounded up to a multiple of eight.\<close>

definition a_malloc :: "u64 \<Rightarrow> blk list \<Rightarrow> blk list \<times> ptr" where
  "a_malloc n bs = (if n = 0 then (bs, NULL) else a_alloc (align_up n) bs)"

text \<open>Sequences of calls: a size to allocate, or a payload to give back.\<close>

datatype call = Alloc u64 | Release ptr

fun run_calls ::
  "(u64 \<Rightarrow> 's \<Rightarrow> ('s \<times> ptr) option) \<Rightarrow> (ptr \<Rightarrow> 's \<Rightarrow> 's) \<Rightarrow> call list \<Rightarrow> 's \<Rightarrow> ('s \<times> ptr list) option"
where
  "run_calls al re [] s = Some (s, [])"
| "run_calls al re (Alloc n # cs) s =
     (case al n s of None \<Rightarrow> None
      | Some (s', p) \<Rightarrow> map_option (\<lambda>(t, ps). (t, p # ps)) (run_calls al re cs s'))"
| "run_calls al re (Release p # cs) s = run_calls al re cs (re p s)"

text \<open>
  The same calls on the list of blocks.  The run is defined while every request is
  admissible and every released pointer is a live payload.
\<close>

fun a_run :: "(blk list \<Rightarrow> u64 \<Rightarrow> bool) \<Rightarrow> call list \<Rightarrow> blk list \<Rightarrow> (blk list \<times> ptr list) option" where
  "a_run ok [] bs = Some (bs, [])"
| "a_run ok (Alloc n # cs) bs =
     (if ok bs n then
        let (bs', p) = a_malloc n bs in map_option (\<lambda>(t, ps). (t, p # ps)) (a_run ok cs bs')
      else None)"
| "a_run ok (Release p # cs) bs =
     (if p \<in> fst ` live bs then a_run ok cs (a_free (payload_to_header p) bs) else None)"

fun released :: "call list \<Rightarrow> ptr set" where
  "released [] = {}"
| "released (Alloc n # cs) = released cs"
| "released (Release p # cs) = insert p (released cs)"

lemma live_blocksE:
  assumes "p \<in> fst ` live bs"
  obtains s where "(payload_to_header p, s, False) \<in> set bs" "(p, unat s) \<in> live bs"
proof -
  from assms obtain a s where "p = a + 40" "(a, s, False) \<in> set bs"
    by (auto simp: live_def)
  then show thesis
    using that [of s] by (auto simp: live_def payload_to_header_def)
qed

lemma a_malloc_cases:
  obtains (none) "a_malloc n bs = (bs, NULL)"
  | (some) a s f where "n \<noteq> 0" "find (fits (align_up n)) bs = Some (a, s, f)"
      "a_malloc n bs = a_alloc (align_up n) bs"
proof (cases "n = 0")
  case True
  then show thesis using none by (simp add: a_malloc_def)
next
  case False
  show thesis
  proof (cases "find (fits (align_up n)) bs")
    case None
    then show thesis using none False a_alloc_none by (simp add: a_malloc_def)
  next
    case (Some x)
    then show thesis using some False by (cases x) (simp add: a_malloc_def)
  qed
qed

lemma live_apart:
  assumes "distinct (map fst (pre @ (a, s, f) # post))"
  shows "(a + 40, k) \<notin> live pre" "(a + 40, k) \<notin> live post"
  using assms by (auto simp: live_def image_iff)

text \<open>
  What a resize of the payload \<open>p\<close> (of \<open>k\<close> bytes) to \<open>n\<close> bytes promises when it returns
  \<open>q\<close>: the blocks are again well formed, the live payloads are those before with \<open>q\<close> in the place of
  \<open>p\<close>, \<open>q\<close> has at least \<open>n\<close> bytes, starts with the bytes of \<open>p\<close> and is \<open>p\<close> or fresh, and neither another live payload nor memory
  outside the region from \<open>lo\<close> to \<open>hi\<close> has changed.
\<close>

definition same_outside :: "nat \<Rightarrow> nat \<Rightarrow> mem \<Rightarrow> mem \<Rightarrow> bool" where
  "same_outside lo hi m m' \<longleftrightarrow> (\<forall>x. unat x < lo \<or> hi \<le> unat x \<longrightarrow> m' x = m x)"

lemma same_outside_trans: "same_outside lo hi m m' \<Longrightarrow> same_outside lo hi m' m'' \<Longrightarrow> same_outside lo hi m m''"
  by (simp add: same_outside_def)

lemma hdrs_outside: "only_hdrs m m' (fst ` set bs) \<Longrightarrow> tiles lo bs hi \<Longrightarrow> same_outside lo hi m m'"
  using only_hdrs_region by (simp add: same_outside_def)

definition realloc_post ::
  "(blk list \<Rightarrow> bool) \<Rightarrow> nat \<Rightarrow> nat \<Rightarrow> mem \<Rightarrow> mem \<Rightarrow> blk list \<Rightarrow> ptr \<Rightarrow> nat \<Rightarrow> ptr \<Rightarrow> u64 \<Rightarrow> bool"
where
  "realloc_post wf' lo hi m m' bs p k q n \<longleftrightarrow> same_outside lo hi m m' \<and>
     (\<exists>bs' k'. wf' bs' \<and> live bs' = insert (q, k') (live bs - {(p, k)}) \<and> (q = p \<or> q \<notin> fst ` live bs) \<and> unat n \<le> k' \<and>
        ld_bytes m' q (min k (unat n)) = ld_bytes m p (min k (unat n)) \<and>
        (\<forall>r l. (r, l) \<in> live bs \<longrightarrow> r \<noteq> p \<longrightarrow> same_on m m' r l))"

lemma same_bytes:
  assumes "same_on m m' p k" "i \<le> k" "unat p + k \<le> 2 ^ 64"
  shows "ld_bytes m' p i = ld_bytes m p i"
  using ld_bytes_cong [of m m' p i] same_on_sub [OF assms(1), of p i] assms(2,3) by simp

text \<open>The block \<open>a\<close> of \<open>bs\<close> resized in place by header changes alone.\<close>

lemma realloc_post_inplace:
  assumes wf: "heap_wf m K lo (pre @ (a, s, False) # post) hi"
    and wf2: "heap_wf m' K lo (pre @ cut n a s2 False @ post2) hi"
    and oh: "only_hdrs m m' (fst ` set (pre @ cut n a s2 False @ post2))"
    and lv: "live post2 = live post" and n: "unat n0 \<le> unat n" "unat n \<le> unat s2"
    and P: "wf' (pre @ cut n a s2 False @ post2)"
  shows "realloc_post wf' lo hi m m' (pre @ (a, s, False) # post) (a + 40) (unat s) (a + 40) n0"
proof -
  let ?bs' = "pre @ cut n a s2 False @ post2"
  obtain k where k: "live (cut n a s2 False) = {(a + 40, k)}" "unat n \<le> k"
    using live_cut [of n a s2] n by auto
  have q: "(a + 40, k) \<in> live ?bs'" by (simp add: k)
  have "same_on m m' (a + 40) k" using live_kept [OF wf2 oh q] .
  then have "ld_bytes m' (a + 40) (min (unat s) (unat n0)) = ld_bytes m (a + 40) (min (unat s) (unat n0))"
    using n k(2) live_bounds(3) [OF wf2 q] by (intro same_bytes) auto
  moreover have "same_on m m' r l"
    if "(r, l) \<in> live (pre @ (a, s, False) # post)" "r \<noteq> a + 40" for r l
    using that lv by (intro live_kept [OF wf2 oh]) auto
  moreover have "live ?bs' = insert (a + 40, k) (live (pre @ (a, s, False) # post) - {(a + 40, unat s)})"
    using lv live_apart [OF heap_wf_distinct [OF wf]] by (auto simp: k)
  ultimately show ?thesis
    unfolding realloc_post_def using P n k(2) hdrs_outside [OF oh] wf2
    by (intro conjI exI [of _ ?bs'] exI [of _ k]) (auto simp: heap_wf_def)
qed

text \<open>A block that has absorbed its successors, cut back to the size asked for.\<close>

lemma realloc_post_grown:
  assumes wf: "heap_wf m K lo (pre @ (a, s, False) # post) hi"
    and wf2: "heap_wf m2 K lo (pre @ (a, s2, False) # post2) hi"
    and oh2: "only_hdrs m m2 (insert a (fst ` set (take 1 post2)))"
    and sp: "blk_split K m2 t a n = (m', t')"
    and lv: "live post2 = live post" and n: "unat n0 \<le> unat n" "unat n \<le> unat s2"
    and P: "\<And>bs'. heap_wf (set_free m' a 0) K lo bs' hi \<Longrightarrow> wf' bs'"
  shows "realloc_post wf' lo hi m (set_free m' a 0) (pre @ (a, s, False) # post)
    (a + 40) (unat s) (a + 40) n0"
proof -
  note c = blk_split_cut [OF wf2 n(2) sp]
  obtain r cs where cu: "cut n a s2 False = (a, r, False) # cs"
    using cut_flag by blast
  have "heap_wf m' K lo (pre @ (a, r, False) # (cs @ post2)) hi" using c(1) by (simp add: cu)
  note f = set_free_refines [OF this, of False]
  have wf4: "heap_wf (set_free m' a 0) K lo (pre @ cut n a s2 False @ post2) hi"
    using f(1) by (simp add: cu)
  have "only_hdrs m (set_free m' a 0) (insert a (fst ` set (take 1 post2)) \<union>
      fst ` set (pre @ cut n a s2 False @ post2) \<union> {a})"
    using only_hdrs_trans [OF only_hdrs_trans [OF oh2 c(2)] f(2)] by simp
  then have oh: "only_hdrs m (set_free m' a 0) (fst ` set (pre @ cut n a s2 False @ post2))"
    by (rule only_hdrs_mono) (auto simp: cu dest!: in_set_takeD)
  show ?thesis by (rule realloc_post_inplace [where wf' = wf', OF wf wf4 oh lv n P [OF wf4]])
qed

section \<open>The contract\<close>

locale block_allocator =
  fixes rep :: "'s \<Rightarrow> blk list \<Rightarrow> bool"
    and memory :: "'s \<Rightarrow> mem"
    and with_mem :: "'s \<Rightarrow> mem \<Rightarrow> 's"
    and alloc :: "u64 \<Rightarrow> 's \<Rightarrow> ('s \<times> ptr) option"
    and release :: "ptr \<Rightarrow> 's \<Rightarrow> 's"
    and admissible :: "blk list \<Rightarrow> u64 \<Rightarrow> bool"
    and magic :: u32 and lo :: nat and hi :: nat
  assumes rep_wf: "rep s bs \<Longrightarrow> heap_wf (memory s) magic lo bs hi"
    and memory_with [simp]: "memory (with_mem s m) = m"
    and rep_with: "rep s bs \<Longrightarrow> heap_wf m magic lo bs hi \<Longrightarrow> rep (with_mem s m) bs"
    and admissible_small: "admissible bs n \<Longrightarrow> unat n + 7 < 2 ^ 64"
    and alloc_refines: "rep s bs \<Longrightarrow> admissible bs n \<Longrightarrow>
      \<exists>s'. alloc n s = Some (s', snd (a_malloc n bs)) \<and> rep s' (fst (a_malloc n bs)) \<and>
        only_hdrs (memory s) (memory s') (fst ` set (fst (a_malloc n bs)))"
    and release_refines: "rep s bs \<Longrightarrow> (a, z, False) \<in> set bs \<Longrightarrow>
      rep (release (header_to_payload a) s) (a_free a bs) \<and>
        only_hdrs (memory s) (memory (release (header_to_payload a) s)) (fst ` set bs)"
begin

text \<open>A successful request returns a payload that is large enough and overlaps no live one.\<close>

lemma alloc_fresh:
  assumes "rep s bs" "admissible bs n" "alloc n s = Some (s', p)" "p \<noteq> NULL"
  shows "\<exists>k. rep s' (fst (a_malloc n bs)) \<and> live (fst (a_malloc n bs)) = insert (p, k) (live bs) \<and>
    unat n \<le> k \<and> p \<notin> fst ` live bs \<and> (\<forall>(q, l) \<in> live bs. disjoint p k q l)"
proof -
  from alloc_refines [OF assms(1,2)] assms(3)
  have r: "rep s' (fst (a_malloc n bs))" "p = snd (a_malloc n bs)" by auto
  from assms(4) r(2) obtain a z f where
    al: "find (fits (align_up n)) bs = Some (a, z, f)" "a_malloc n bs = a_alloc (align_up n) bs"
    by (cases rule: a_malloc_cases [of n bs]) auto
  obtain k where k: "live (fst (a_malloc n bs)) = insert (a + 40, k) (live bs)"
      "unat (align_up n) \<le> k"
    using live_alloc [OF al(1)] al(2) by auto
  have p: "p = a + 40"
    using r(2) al blk_take_refines(2) [OF rep_wf [OF assms(1)] al(1)]
    by (metis header_to_payload_def surj_pair)
  have nl: "(a + 40, j) \<notin> live bs" for j
  proof
    assume "(a + 40, j) \<in> live bs"
    then obtain z' where "(a, z', False) \<in> set bs" by (auto simp: live_def)
    moreover have "(a, z, True) \<in> set bs"
      using al(1) by (auto elim!: find_split)
    moreover have "tiles lo bs hi" using rep_wf [OF assms(1)] by (simp add: heap_wf_def)
    ultimately show False using tiles_apart [of lo bs hi a z' False a z True] by auto
  qed
  have "disjoint p k q l" if "(q, l) \<in> live bs" for q l
    using live_disjoint [OF rep_wf [OF r(1)], of p k q l] that nl k p by auto
  then show ?thesis
    using r k p nl align_up_ge [OF admissible_small [OF assms(2)]]
    by (intro exI [of _ k]) auto
qed

lemma alloc_keeps:
  assumes "rep s bs" "admissible bs n" "alloc n s = Some (s', p)" "(q, l) \<in> live bs"
  shows "same_on (memory s) (memory s') q l" "(q, l) \<in> live (fst (a_malloc n bs))"
proof -
  from alloc_refines [OF assms(1,2)] assms(3)
  have r: "rep s' (fst (a_malloc n bs))"
    "only_hdrs (memory s) (memory s') (fst ` set (fst (a_malloc n bs)))" by auto
  show lv: "(q, l) \<in> live (fst (a_malloc n bs))"
    using assms(4) live_alloc [of "align_up n" bs] by (cases rule: a_malloc_cases [of n bs]) auto
  show "same_on (memory s) (memory s') q l"
    using live_kept [OF rep_wf [OF r(1)] r(2) lv] .
qed

lemma release_keeps:
  assumes "rep s bs" "p \<in> fst ` live bs" "(q, l) \<in> live bs" "q \<noteq> p"
  shows "same_on (memory s) (memory (release p s)) q l"
    "(q, l) \<in> live (a_free (payload_to_header p) bs)"
    "rep (release p s) (a_free (payload_to_header p) bs)"
proof -
  obtain z where z: "(payload_to_header p, z, False) \<in> set bs" "(p, unat z) \<in> live bs"
    using assms(2) by (rule live_blocksE)
  note r = release_refines [OF assms(1) z(1), simplified]
  show "rep (release p s) (a_free (payload_to_header p) bs)" using r by simp
  show "same_on (memory s) (memory (release p s)) q l"
    using live_kept [OF rep_wf [OF assms(1)] conjunct2 [OF r] assms(3)] .
  show "(q, l) \<in> live (a_free (payload_to_header p) bs)"
    using live_free [OF heap_wf_distinct [OF rep_wf [OF assms(1)]] z(1)] assms(3,4)
    by (simp add: payload_to_header_def)
qed

text \<open>
  The last resort of both \<open>realloc\<close> functions: a new payload, a copy of the old bytes into
  it, and the release of the old one.
\<close>

lemma resize_move:
  assumes rep: "rep s bs" and a: "(a, z, False) \<in> set bs"
    and n: "unat n0 \<le> unat n" "admissible bs n" "unat z < unat n"
    and al: "alloc n s = Some (s1, q)" "q \<noteq> NULL"
  defines "s3 \<equiv> release (a + 40) (with_mem s1 (memcpy (memory s1) q (a + 40) z))"
  shows "h_size (hdr (memory s1) a) = z"
    and "realloc_post (rep s3) lo hi (memory s) (memory s3) bs (a + 40) (unat z) q n0"
proof -
  let ?p = "a + 40" let ?b1 = "fst (a_malloc n bs)" let ?m1 = "memory s1"
  obtain k where rep1: "rep s1 ?b1" and lv1: "live ?b1 = insert (q, k) (live bs)"
      and k: "unat n \<le> k" "q \<notin> fst ` live bs" "\<forall>(r, l) \<in> live bs. disjoint q k r l"
    using alloc_fresh [OF rep n(2) al] by blast
  have p: "(?p, unat z) \<in> live bs" using a by (auto simp: live_def)
  then have qp: "q \<noteq> ?p" using k(2) by force
  note wf1 = rep_wf [OF rep1]
  have q1: "(q, k) \<in> live ?b1" and p1: "(?p, unat z) \<in> live ?b1" using lv1 p by auto
  show "h_size (hdr ?m1 a) = z" using live_hdr(3) [OF wf1 p1] .
  define m2 where "m2 = st_bytes ?m1 q (ld_bytes ?m1 ?p (unat z))"
  have cp: "memcpy ?m1 q ?p z = m2"
    unfolding m2_def using k(3) p n(3) k(1) live_bounds(3) [OF wf1 q1] live_bounds(3) [OF wf1 p1]
    by (intro memcpy_disjoint) (fastforce simp: disjoint_def)+
  have "length (ld_bytes ?m1 ?p (unat z)) \<le> k" using n(3) k(1) by simp
  note w = payload_write [OF wf1 q1 this, folded m2_def]
  have pin: "?p \<in> fst ` live ?b1" using p1 by force
  have s3: "s3 = release ?p (with_mem s1 m2)" by (simp add: s3_def cp)
  let ?b3 = "a_free (payload_to_header ?p) ?b1"
  note f = release_keeps [OF rep_with [OF rep1 w(1)] pin, folded s3, unfolded memory_with]
  let ?i = "min (unat z) (unat n0)"
  have "ld_bytes (memory s3) q ?i = ld_bytes m2 q ?i"
    using f(1) [OF q1 qp] live_bounds(3) [OF wf1 q1] n(3) k(1) by (intro same_bytes) auto
  also have "\<dots> = take ?i (ld_bytes ?m1 ?p (unat z))"
    using w(2) by (metis length_ld_bytes min.cobounded1 take_ld_bytes)
  also have "\<dots> = ld_bytes ?m1 ?p ?i" by (simp add: take_ld_bytes)
  also have "\<dots> = ld_bytes (memory s) ?p ?i"
    using alloc_keeps(1) [OF rep n(2) al(1) p] live_bounds(3) [OF wf1 p1]
    by (intro same_bytes) auto
  finally have bytes: "ld_bytes (memory s3) q ?i = ld_bytes (memory s) ?p ?i" .
  have "(a, z, False) \<in> set ?b1" by (rule live_hdr(1) [OF wf1 p1])
  then have lv3: "live ?b3 = insert (q, k) (live bs - {(?p, unat z)})"
    using live_free [OF heap_wf_distinct [OF wf1]] lv1 qp by (auto simp: payload_to_header_def)
  have others: "same_on (memory s) (memory s3) r l"
    if "(r, l) \<in> live bs" "r \<noteq> ?p" for r l
  proof -
    note kk = alloc_keeps [OF rep n(2) al(1) that(1)]
    have "(r, l) \<noteq> (q, k)" using that(1) k(2) by force
    then have "same_on ?m1 m2 r l" using w(3) kk(2) by blast
    then show ?thesis
      using kk f(1,2) [OF kk(2) that(2)] by (auto intro: same_on_trans)
  qed
  have out: "same_outside lo hi (memory s) (memory s3)"
  proof -
    have ti: "tiles lo ?b1 hi" using wf1 by (simp add: heap_wf_def)
    have "same_outside lo hi (memory s) ?m1"
      using alloc_refines [OF rep n(2)] al(1) by (auto intro: hdrs_outside [OF _ ti])
    moreover have "same_outside lo hi ?m1 m2"
      unfolding same_outside_def m2_def using live_bounds(1-3) [OF wf1 q1] n(3) k(1)
      by (auto intro!: st_bytes_outside simp: in_range_def)
    moreover have "same_outside lo hi m2 (memory s3)"
    proof -
      obtain z' where "(payload_to_header ?p, z', False) \<in> set ?b1" using pin by (rule live_blocksE)
      from release_refines [OF rep_with [OF rep1 w(1)] this]
      have "only_hdrs m2 (memory s3) (fst ` set ?b1)" by (simp add: s3)
      then show ?thesis by (rule hdrs_outside [OF _ ti])
    qed
    ultimately show ?thesis by (meson same_outside_trans)
  qed
  show "realloc_post (rep s3) lo hi (memory s) (memory s3) bs ?p (unat z) q n0"
    unfolding realloc_post_def
    using f(3) [OF q1 qp] lv3 bytes others n(1) k(1,2) out
    by (intro conjI exI [of _ ?b3] exI [of _ k]) auto
qed

text \<open>Whole runs: the concrete calls return what the abstract run returns.\<close>

lemma run_refines:
  assumes "rep s bs" "a_run admissible cs bs = Some (bs', ps)"
  shows "\<exists>s'. run_calls alloc release cs s = Some (s', ps) \<and> rep s' bs'"
  using assms
proof (induction cs arbitrary: s bs ps)
  case (Cons c cs)
  show ?case
  proof (cases c)
    case (Alloc n)
    obtain b1 p where m: "a_malloc n bs = (b1, p)" by force
    from Cons.prems(2) Alloc m obtain ps' where
      ps: "a_run admissible cs b1 = Some (bs', ps')" "ps = p # ps'" "admissible bs n"
      by (auto split: if_splits)
    obtain s1 where s1: "alloc n s = Some (s1, p)" "rep s1 b1"
      using alloc_refines [OF Cons.prems(1) ps(3)] m by auto
    then show ?thesis
      using Cons.IH [OF s1(2) ps(1)] Alloc ps(2) by auto
  next
    case (Release p)
    with Cons.prems(2) have r: "p \<in> fst ` live bs"
        "a_run admissible cs (a_free (payload_to_header p) bs) = Some (bs', ps)"
      by (auto split: if_splits)
    obtain z where z: "(payload_to_header p, z, False) \<in> set bs"
      using r(1) by (rule live_blocksE)
    have "rep (release p s) (a_free (payload_to_header p) bs)"
      using release_refines [OF Cons.prems(1) z] by simp
    then show ?thesis using Cons.IH [OF _ r(2)] Release by simp
  qed
qed simp

text \<open>A payload that the calls do not release stays live, and no call changes its bytes.\<close>

lemma run_keeps:
  assumes "rep s bs" "a_run admissible cs bs = Some (bs', ps)"
    "run_calls alloc release cs s = Some (s', ps)" "(q, l) \<in> live bs" "q \<notin> released cs"
  shows "(q, l) \<in> live bs' \<and> same_on (memory s) (memory s') q l"
  using assms
proof (induction cs arbitrary: s bs ps)
  case (Cons c cs)
  show ?case
  proof (cases c)
    case (Alloc n)
    obtain b1 p where m: "a_malloc n bs = (b1, p)" by force
    from Cons.prems(2) Alloc m obtain ps' where
      ps: "a_run admissible cs b1 = Some (bs', ps')" "ps = p # ps'" "admissible bs n"
      by (auto split: if_splits)
    obtain s1 where s1: "alloc n s = Some (s1, p)" "rep s1 b1"
      using alloc_refines [OF Cons.prems(1) ps(3)] m by auto
    note k = alloc_keeps [OF Cons.prems(1) ps(3) s1(1) Cons.prems(4)]
    have "run_calls alloc release cs s1 = Some (s', ps')"
      using Cons.prems(3) Alloc s1 ps(2) by auto
    then have "(q, l) \<in> live bs' \<and> same_on (memory s1) (memory s') q l"
      using Cons.IH [OF s1(2) ps(1)] k(2) m Cons.prems(5) Alloc by simp
    then show ?thesis using same_on_trans [OF k(1)] by blast
  next
    case (Release p)
    with Cons.prems(2) have r: "p \<in> fst ` live bs"
        "a_run admissible cs (a_free (payload_to_header p) bs) = Some (bs', ps)"
      by (auto split: if_splits)
    have "q \<noteq> p" using Cons.prems(5) Release by auto
    note k = release_keeps [OF Cons.prems(1) r(1) Cons.prems(4) this]
    have "(q, l) \<in> live bs' \<and> same_on (memory (release p s)) (memory s') q l"
      using Cons.IH [OF k(3) r(2) _ k(2)] Cons.prems(3,5) Release by simp
    then show ?thesis using same_on_trans [OF k(1)] by blast
  qed
qed simp

end

end
