(* ===== verification/User_Malloc.thy ===== *)
theory User_Malloc
  imports Allocator_Spec Libc_String
begin

text \<open>
  The allocator of the \<open>.user\<close> section, \<open>malloc/user_malloc.c\<close>.  Its state is the three
  file-level pointers and the byte memory; the linker symbols \<open>_user_start\<close> and
  \<open>_user_end\<close> are the arguments \<open>us\<close> and \<open>ue\<close>.  A call that walks the block list
  returns \<open>None\<close> where the C loop would not end.
\<close>

section \<open>State and operations\<close>

definition USER_MAGIC :: u32 where "USER_MAGIC = 0xC0FFEE00"

record uheap =
  user_head :: ptr
  user_tail :: ptr
  user_brk :: ptr

type_synonym ustate = "uheap \<times> mem"

definition user_malloc_init :: "ptr \<Rightarrow> ptr \<Rightarrow> ustate \<Rightarrow> ustate" where
  "user_malloc_init us ue = (\<lambda>(u, m).
     if user_head u \<noteq> NULL then (u, m)
     else
       let m = set_magic m us USER_MAGIC;
           m = set_size m us (ue - us - SIZEOF_HDR);
           m = set_free m us 1;
           m = set_next m us NULL;
           m = set_prev m us NULL
       in (\<lparr>user_head = us, user_tail = us, user_brk = ue\<rparr>, m))"

definition user_split_block :: "ustate \<Rightarrow> ptr \<Rightarrow> u64 \<Rightarrow> ustate" where
  "user_split_block = (\<lambda>(u, m) h req.
     let (m, t) = blk_split USER_MAGIC m (user_tail u) h req in (u\<lparr>user_tail := t\<rparr>, m))"

definition user_coalesce :: "ustate \<Rightarrow> ptr \<Rightarrow> ustate" where
  "user_coalesce = (\<lambda>(u, m) h.
     let (m, t) = blk_coalesce m (user_tail u) h in (u\<lparr>user_tail := t\<rparr>, m))"

definition user_find_fit :: "ustate \<Rightarrow> u64 \<Rightarrow> ptr option" where
  "user_find_fit = (\<lambda>(u, m) n. blk_find_fit m (user_head u) n)"

definition user_malloc :: "ptr \<Rightarrow> ptr \<Rightarrow> u64 \<Rightarrow> ustate \<Rightarrow> (ustate \<times> ptr) option" where
  "user_malloc us ue n st =
     (let st = (if user_head (fst st) = NULL then user_malloc_init us ue st else st)
      in if n = 0 then Some (st, NULL)
         else
           let n = align_up n
           in Option.bind (user_find_fit st n) (\<lambda>fit.
                if fit = NULL then Some (st, NULL)
                else
                  let (u, m) = user_split_block st fit n;
                      m = set_free m fit 0
                  in Some ((u, m), header_to_payload fit)))"

definition user_free :: "ptr \<Rightarrow> ustate \<Rightarrow> ustate" where
  "user_free p = (\<lambda>(u, m).
     if p = NULL then (u, m)
     else
       let h = payload_to_header p
       in if h_magic (hdr m h) \<noteq> USER_MAGIC \<or> is_free m h then (u, m)
          else user_coalesce (u, set_free m h 1) h)"

definition user_realloc :: "ptr \<Rightarrow> ptr \<Rightarrow> ptr \<Rightarrow> u64 \<Rightarrow> ustate \<Rightarrow> (ustate \<times> ptr) option" where
  "user_realloc us ue p n = (\<lambda>(u, m).
     if p = NULL then user_malloc us ue n (u, m)
     else if n = 0 then Some (user_free p (u, m), NULL)
     else
       let h = payload_to_header p
       in if h_magic (hdr m h) \<noteq> USER_MAGIC then Some ((u, m), NULL)
          else
            let n = align_up n; nx = h_next (hdr m h)
            in if n \<le> h_size (hdr m h) then Some (user_split_block (u, m) h n, p)
               else if nx \<noteq> NULL \<and> is_free m nx \<and>
                       n \<le> h_size (hdr m h) + SIZEOF_HDR + h_size (hdr m nx) then
                 let m = set_size m h (h_size (hdr m h) + (SIZEOF_HDR + h_size (hdr m nx)));
                     m = set_next m h (h_next (hdr m nx));
                     m = (if h_next (hdr m h) \<noteq> NULL then set_prev m (h_next (hdr m h)) h else m);
                     (u, m) = user_split_block (u, m) h n;
                     m = set_free m h 0
                 in Some ((u, m), p)
               else
                 Option.bind (user_malloc us ue n (u, m)) (\<lambda>((u, m), newp).
                   if newp = NULL then Some ((u, m), NULL)
                   else
                     let m = memcpy m newp p (h_size (hdr m h))
                     in Some (user_free p (u, m), newp)))"

definition get_usermalloc_stats :: "ustate \<Rightarrow> malloc_stats_t option" where
  "get_usermalloc_stats = (\<lambda>(u, m). blk_stats m (user_head u) zero_stats)"

section \<open>Representation\<close>

text \<open>
  An initialised allocator: the head is the start of the section and the blocks tile it.
\<close>

definition urep :: "ptr \<Rightarrow> ptr \<Rightarrow> ustate \<Rightarrow> blk list \<Rightarrow> bool" where
  "urep us ue st bs \<longleftrightarrow>
     user_head (fst st) = us \<and> unat us < unat ue \<and>
     heap_wf (snd st) USER_MAGIC (unat us) bs (unat ue)"

definition u_admissible :: "blk list \<Rightarrow> u64 \<Rightarrow> bool" where
  "u_admissible bs n \<longleftrightarrow> unat n + 7 < 2 ^ 64"

lemma urep_hd:
  assumes "urep us ue st bs"
  shows "hd_addr bs NULL = us" "us \<noteq> NULL"
proof -
  have t: "tiles (unat us) bs (unat ue)" "0 < unat us" "unat us < unat ue"
    using assms by (auto simp: urep_def heap_wf_def)
  then obtain a s f bs' where "bs = (a, s, f) # bs'" by (cases bs) auto
  then show "hd_addr bs NULL = us" using t by (auto simp: word_unat_eq_iff)
  show "us \<noteq> NULL" using t by auto
qed

lemma user_find_fit_rep:
  assumes "urep us ue st bs"
  shows "user_find_fit st n = Some (case find (fits n) bs of None \<Rightarrow> NULL | Some b \<Rightarrow> fst b)"
proof -
  have "chain (snd st) USER_MAGIC NULL bs NULL" "tiles (unat us) bs (unat ue)" "0 < unat us"
    "user_head (fst st) = us"
    using assms by (auto simp: urep_def heap_wf_def)
  then show ?thesis
    using blk_find_fit_chain [of "snd st" USER_MAGIC NULL bs "unat us" "unat ue" n] urep_hd(1) [OF assms]
    by (simp add: user_find_fit_def case_prod_beta)
qed

lemma user_malloc_refines:
  assumes rep: "urep us ue st bs"
  shows "\<exists>st'. user_malloc us ue n st = Some (st', snd (a_malloc n bs)) \<and>
    urep us ue st' (fst (a_malloc n bs)) \<and>
    only_hdrs (snd st) (snd st') (fst ` set (fst (a_malloc n bs)))"
proof -
  obtain u m where st: "st = (u, m)" by force
  have u: "user_head u = us" "us \<noteq> NULL" "unat us < unat ue"
      and wf: "heap_wf m USER_MAGIC (unat us) bs (unat ue)"
    using rep urep_hd(2) [OF rep] by (auto simp: urep_def st)
  note ff = user_find_fit_rep [OF rep, of "align_up n"]
  show ?thesis
  proof (cases "n = 0 \<or> find (fits (align_up n)) bs = None")
    case True
    then show ?thesis
      using u rep ff by (auto simp: user_malloc_def a_malloc_def st a_alloc_none)
  next
    case False
    then obtain a s f where fit: "find (fits (align_up n)) bs = Some (a, s, f)"
      by (metis not_None_eq prod_cases3)
    obtain m1 t' where sp: "blk_split USER_MAGIC m (user_tail u) a (align_up n) = (m1, t')"
      by force
    note tk = blk_take_refines [OF wf fit sp]
    have "a \<noteq> NULL"
      using heap_wf_nonnull [OF wf, of a s f] fit by (auto elim!: find_split)
    then have "user_malloc us ue n st = Some ((u\<lparr>user_tail := t'\<rparr>, set_free m1 a 0), header_to_payload a)"
      using False ff fit u sp by (simp add: user_malloc_def st user_split_block_def)
    then show ?thesis
      using False tk u by (simp add: a_malloc_def urep_def st)
  qed
qed

lemma user_malloc_null:
  assumes rep: "urep us ue st bs" and res: "user_malloc us ue n st = Some (st', NULL)"
  shows "st' = st"
proof -
  have u: "user_head (fst st) \<noteq> NULL" using rep urep_hd(2) [OF rep] by (auto simp: urep_def)
  have pl: "header_to_payload a \<noteq> NULL" if "find (fits l) bs = Some (a, s, f)" for a s f l
  proof -
    have "(a, s, f) \<in> set bs" using that by (auto elim!: find_split)
    moreover have "tiles (unat us) bs (unat ue)" "unat ue < 2 ^ 63"
      using rep by (auto simp: urep_def heap_wf_def)
    ultimately have "unat (a + 40) = unat a + 40" using tiles_payload by blast
    then show ?thesis by (auto simp: header_to_payload_def)
  qed
  show ?thesis
    using res u user_find_fit_rep [OF rep, of "align_up n"] pl [of "align_up n"]
    by (auto simp: user_malloc_def Let_def split: if_splits option.splits prod.splits)
qed

lemma user_free_refines:
  assumes rep: "urep us ue st bs" and mem: "(a, z, False) \<in> set bs"
  shows "urep us ue (user_free (header_to_payload a) st) (a_free a bs) \<and>
    only_hdrs (snd st) (snd (user_free (header_to_payload a) st)) (fst ` set bs)"
proof -
  obtain u m where st: "st = (u, m)" by force
  have wf: "heap_wf m USER_MAGIC (unat us) bs (unat ue)"
    using rep by (auto simp: urep_def st)
  obtain pre post where bs: "bs = pre @ (a, z, False) # post"
    using mem by (auto simp: in_set_conv_decomp)
  have h: "h_magic (hdr m a) = USER_MAGIC" "\<not> is_free m a"
    using wf by (auto simp: heap_wf_def bs)
  have p0: "header_to_payload a \<noteq> NULL"
  proof -
    have "tiles (unat us) bs (unat ue)" "unat ue < 2 ^ 63" using wf by (auto simp: heap_wf_def)
    then have "unat (a + 40) = unat a + 40" using mem by (rule tiles_payload)
    then show ?thesis by (auto simp: header_to_payload_def)
  qed
  obtain m' t' where co: "blk_coalesce (set_free m a 1) (user_tail u) a = (m', t')" by force
  have "user_free (header_to_payload a) st = (u\<lparr>user_tail := t'\<rparr>, m')"
    using h p0 co by (simp add: user_free_def st user_coalesce_def)
  then show ?thesis
    using blk_free_refines [OF wf mem co] rep by (simp add: urep_def st)
qed

interpretation um: block_allocator "urep us ue" snd "\<lambda>s m. (fst s, m)" "user_malloc us ue" user_free u_admissible
  USER_MAGIC "unat us" "unat ue" for us ue
proof unfold_locales
  fix s bs assume "urep us ue s bs"
  then show "heap_wf (snd s) USER_MAGIC (unat us) bs (unat ue)" by (simp add: urep_def)
next
  fix s :: ustate and m :: mem
  show "snd (fst s, m) = m" by simp
next
  fix s bs m assume "urep us ue s bs" "heap_wf m USER_MAGIC (unat us) bs (unat ue)"
  then show "urep us ue (fst s, m) bs" by (simp add: urep_def)
next
  fix bs n assume "u_admissible bs n"
  then show "unat n + 7 < 2 ^ 64" by (simp add: u_admissible_def)
next
  fix s bs n assume "urep us ue s bs" "u_admissible bs n"
  then show "\<exists>s'. user_malloc us ue n s = Some (s', snd (a_malloc n bs)) \<and>
      urep us ue s' (fst (a_malloc n bs)) \<and>
      only_hdrs (snd s) (snd s') (fst ` set (fst (a_malloc n bs)))"
    by (intro user_malloc_refines)
next
  fix s bs a z assume "urep us ue s bs" "(a, z, False) \<in> set bs"
  then show "urep us ue (user_free (header_to_payload a) s) (a_free a bs) \<and>
      only_hdrs (snd s) (snd (user_free (header_to_payload a) s)) (fst ` set bs)"
    by (rule user_free_refines)
qed

section \<open>Resizing\<close>

lemma user_realloc_shrink:
  assumes rep: "urep us ue (u, m) bs" and a: "(a, s, False) \<in> set bs"
    and n: "unat n0 \<le> unat n" "unat n \<le> unat s"
    and res: "user_split_block (u, m) a n = (u', m')"
  shows "realloc_post (urep us ue (u', m')) (unat us) (unat ue) m m' bs (a + 40) (unat s) (a + 40) n0"
proof -
  have wf: "heap_wf m USER_MAGIC (unat us) bs (unat ue)" using rep by (simp add: urep_def)
  obtain pre post where bs: "bs = pre @ (a, s, False) # post"
    using a by (auto simp: in_set_conv_decomp)
  obtain t' where sp: "blk_split USER_MAGIC m (user_tail u) a n = (m', t')" "u' = u\<lparr>user_tail := t'\<rparr>"
    using res by (auto simp: user_split_block_def split: prod.splits)
  note c = blk_split_cut [OF wf [unfolded bs] n(2) sp(1)]
  show ?thesis
    unfolding bs using rep sp(2) n
    by (intro realloc_post_inplace [OF wf [unfolded bs] c(1,2)]) (auto simp: urep_def c(1))
qed

text \<open>The header updates of the in-place extension are those of \<open>merge_next\<close>.\<close>

lemma user_grow_merge:
  assumes wf: "heap_wf m K lo (pre @ (a, s, False) # (b, z, True) # post) hi"
    and m1: "m1 = set_next (set_size m a (s + (40 + z))) a (hd_addr post NULL)"
    and m2: "m2 = (if hd_addr post NULL \<noteq> NULL then set_prev m1 (hd_addr post NULL) a else m1)"
  shows "h_next (hdr m1 a) = hd_addr post NULL" "m2 = fst (merge_next m t a)"
    "hdr (set_size m a (s + (40 + z))) b = hdr m b"
proof -
  have ti: "tiles lo (pre @ (a, s, False) # (b, z, True) # post) hi" and hi: "hi < 2 ^ 63"
    using wf by (simp_all add: heap_wf_def)
  have at: "hdr_at a" "hdr_at b" using tiles_hdr_at [OF ti hi] by auto
  have "unat b = unat a + 40 + unat s" using tiles_split(2) [OF ti] by simp
  then have dis: "hdr_disj a b" "b \<noteq> NULL" by (auto simp: hdr_disj_def disjoint_def)
  show eb: "hdr (set_size m a (s + (40 + z))) b = hdr m b" using at dis by (simp add: mem_simps)
  show "h_next (hdr m1 a) = hd_addr post NULL" using at by (simp add: m1 mem_simps)
  show "m2 = fst (merge_next m t a)"
    using wf at dis by (simp add: heap_wf_def merge_next_def Let_def m2 m1 mem_simps add.assoc)
qed

lemma user_realloc_grow:
  assumes rep: "urep us ue (u, m) bs" and bs: "bs = pre @ (a, s, False) # (b, z, True) # post"
    and n: "unat n0 \<le> unat n" "n \<le> s + 40 + z"
    and m2: "m2 = fst (merge_next m (user_tail u) a)"
    and res: "user_split_block (u, m2) a n = (u', m')"
  shows "realloc_post (urep us ue (u', set_free m' a 0)) (unat us) (unat ue) m (set_free m' a 0) bs
    (a + 40) (unat s) (a + 40) n0"
proof -
  have wf: "heap_wf m USER_MAGIC (unat us) bs (unat ue)" using rep by (simp add: urep_def)
  let ?s = "s + 40 + z"
  have le: "unat n \<le> unat ?s" using n(2) by (simp add: word_le_nat_alt)
  obtain t2 where mn: "merge_next m (user_tail u) a = (m2, t2)" by (metis m2 prod.collapse)
  note g = merge_next_refines [OF wf [unfolded bs] mn]
  obtain t' where sp: "blk_split USER_MAGIC m2 (user_tail u) a n = (m', t')" "u' = u\<lparr>user_tail := t'\<rparr>"
    using res by (auto simp: user_split_block_def split: prod.splits)
  show ?thesis
    unfolding bs using rep sp(2)
    by (intro realloc_post_grown [OF wf [unfolded bs] g(1,3) sp(1) _ n(1) le]) (auto simp: urep_def)
qed

lemma user_realloc_cases:
  assumes rep: "urep us ue (u, m) bs" and lv: "(p, k) \<in> live bs"
    and n: "n \<noteq> 0" "unat n + 7 < 2 ^ 64"
  obtains st' q where "user_realloc us ue p n (u, m) = Some (st', q)"
    "q = NULL \<Longrightarrow> st' = (u, m)"
    "q \<noteq> NULL \<Longrightarrow> realloc_post (urep us ue st') (unat us) (unat ue) m (snd st') bs p k q n"
proof -
  obtain a s where a: "p = a + 40" "k = unat s" "(a, s, False) \<in> set bs"
    using lv by (auto simp: live_def)
  have wf: "heap_wf m USER_MAGIC (unat us) bs (unat ue)" using rep by (simp add: urep_def)
  have p0: "p \<noteq> NULL" using live_bounds(4) [OF wf lv] .
  have h: "payload_to_header p = a" "header_to_payload a = p"
    by (simp_all add: a payload_to_header_def header_to_payload_def)
  note hd = live_hdr [OF wf lv [unfolded a(1,2)]]
  obtain pre post where bs: "bs = pre @ (a, s, False) # post"
    using a(3) by (auto simp: in_set_conv_decomp)
  have nx: "h_next (hdr m a) = hd_addr post NULL" using wf by (simp add: heap_wf_def bs)
  define l where "l = align_up n"
  have ln: "unat n \<le> unat l" "unat l + 7 < 2 ^ 64"
    using align_up_ge [OF n(2)] align_up_small [OF n(2)] by (simp_all add: l_def)
  consider (shrink) "l \<le> s"
    | (grow) b z post' where "\<not> l \<le> s" "post = (b, z, True) # post'" "l \<le> s + 40 + z"
    | (move) "\<not> l \<le> s" "\<not> (\<exists>b z post'. post = (b, z, True) # post' \<and> l \<le> s + 40 + z)"
    by blast
  then show thesis
  proof cases
    case shrink
    obtain u' m' where sp: "user_split_block (u, m) a l = (u', m')" by force
    have "user_realloc us ue p n (u, m) = Some ((u', m'), p)"
      using p0 n(1) hd shrink sp by (simp add: user_realloc_def h flip: l_def)
    moreover have "realloc_post (urep us ue (u', m')) (unat us) (unat ue) m m' bs p k p n"
      using user_realloc_shrink [OF rep a(3) ln(1) _ sp] shrink by (simp add: a word_le_nat_alt)
    ultimately show thesis using that p0 by fastforce
  next
    case grow
    have wfg: "heap_wf m USER_MAGIC (unat us) (pre @ (a, s, False) # (b, z, True) # post') (unat ue)"
      using wf by (simp add: bs grow(2))
    have b: "b \<noteq> NULL" "is_free m b" "h_size (hdr m b) = z" "h_next (hdr m b) = hd_addr post' NULL"
      using wfg heap_wf_nonnull [OF wfg, of b z True] by (auto simp: heap_wf_def)
    define m1 where "m1 = set_next (set_size m a (s + (40 + z))) a (hd_addr post' NULL)"
    define m2 where "m2 = (if hd_addr post' NULL \<noteq> NULL then set_prev m1 (hd_addr post' NULL) a else m1)"
    note g = user_grow_merge [OF wfg m1_def m2_def]
    obtain u' m' where sp: "user_split_block (u, m2) a l = (u', m')" by force
    have "user_realloc us ue p n (u, m) = Some ((u', set_free m' a 0), p)"
      using p0 n(1) hd grow b nx g(1,3) sp
      by (cases "hd_addr post' NULL = NULL")
        (simp_all add: user_realloc_def h Let_def m2_def m1_def flip: l_def)
    moreover have "realloc_post (urep us ue (u', set_free m' a 0)) (unat us) (unat ue) m (set_free m' a 0) bs p k p n"
      using user_realloc_grow [OF rep _ ln(1) grow(3) g(2) sp] by (simp add: a bs grow(2))
    ultimately show thesis using that p0 by fastforce
  next
    case move
    have nofit: "\<not> (hd_addr post NULL \<noteq> NULL \<and> is_free m (hd_addr post NULL) \<and>
        l \<le> s + 40 + h_size (hdr m (hd_addr post NULL)))"
    proof (cases post)
      case (Cons x post')
      obtain b z g where x: "x = (b, z, g)" by (cases x) auto
      show ?thesis using wf move(2) Cons x by (auto simp: heap_wf_def bs)
    qed simp
    obtain st1 q where al: "user_malloc us ue l (u, m) = Some (st1, q)"
      using user_malloc_refines [OF rep, of l] by blast
    obtain u1 m1 where st1: "st1 = (u1, m1)" by force
    have bind: "user_realloc us ue p n (u, m) =
        (if q = NULL then Some (st1, NULL)
         else Some (user_free p (u1, memcpy m1 q p (h_size (hdr m1 a))), q))"
      using p0 n(1) hd move(1) nx al
      by (simp add: user_realloc_def h st1 Let_def if_not_P [OF nofit] flip: l_def)
    show thesis
    proof (cases "q = NULL")
      case True
      then have "st1 = (u, m)"
        using user_malloc_null [OF rep] al by blast
      then show thesis using that bind True by simp
    next
      case False
      have "unat s < unat l" using move(1) by (simp add: word_le_nat_alt)
      then show thesis
        using that [OF bind [unfolded if_not_P [OF False]]] False
          um.resize_move [OF rep a(3) ln(1) _ _ al [unfolded st1] False] ln(2)
        by (simp add: a u_admissible_def)
    qed
  qed
qed

lemma urep_init:
  assumes "0 < unat us" "unat us + 40 \<le> unat ue" "unat ue < 2 ^ 63" "user_head u = NULL"
  shows "urep us ue (user_malloc_init us ue (u, m)) [(us, ue - us - 40, True)]"
proof -
  have at: "hdr_at us" using assms by (simp add: hdr_at_def)
  have "unat (ue - us - 40) = unat ue - unat us - 40"
    using assms by (simp add: unat_sub_le)
  then show ?thesis
    using assms at
    by (simp add: user_malloc_init_def Let_def urep_def heap_wf_def mem_simps)
qed

text \<open>A section of 4096 bytes for the concrete instances: as initialised, and after one call.\<close>

definition demo_u0 :: ustate where
  "demo_u0 = user_malloc_init 0x1000 0x2000
     (\<lparr>user_head = NULL, user_tail = NULL, user_brk = NULL\<rparr>, \<lambda>_. 0xFF)"

definition demo_u1 :: ustate where
  "demo_u1 = fst (the (user_malloc 0x1000 0x2000 24 demo_u0))"

lemma demo_u0_rep: "urep 0x1000 0x2000 demo_u0 [(0x1000, 0xFD8, True)]"
  using urep_init [of "0x1000" "0x2000" "\<lparr>user_head = NULL, user_tail = NULL, user_brk = NULL\<rparr>"]
  by (simp add: demo_u0_def)

lemma demo_a_malloc:
  "a_malloc 24 [(0x1000, 0xFD8, True)] = ([(0x1000, 24, False), (0x1040, 0xF98, True)], 0x1028)"
  by (simp add: a_malloc_def align_up_def cut_def)

lemma demo_u1_rep: "urep 0x1000 0x2000 demo_u1 [(0x1000, 24, False), (0x1040, 0xF98, True)]"
  using user_malloc_refines [OF demo_u0_rep, of 24] by (auto simp: demo_u1_def demo_a_malloc)

section \<open>Correctness of the user allocator\<close>

text \<open>
  The first call of \<open>user_malloc\<close> (or an explicit \<open>user_malloc_init\<close>) turns the
  \<open>.user\<close> section into one free block that covers it, whatever bytes the section held.
\<close>

lemma user_malloc_init_establishes:
  assumes "0 < unat us" "unat us + 40 \<le> unat ue" "unat ue < 2 ^ 63" "user_head u = NULL"
  shows "urep us ue (user_malloc_init us ue (u, m)) [(us, ue - us - 40, True)]"
  using assms by (rule urep_init)

text \<open>
  \<open>user_malloc\<close> on a well-formed heap always returns; if it returns a pointer, the
  payload has at least the requested number of bytes, was not in use, overlaps no payload
  in use, and every payload in use keeps its address, size and bytes.
\<close>

lemma user_malloc_correct:
  assumes "urep us ue st bs" "unat n + 7 < 2 ^ 64"
  shows "\<exists>st' p. user_malloc us ue n st = Some (st', p) \<and>
    (p = NULL \<longrightarrow> st' = st) \<and>
    (p \<noteq> NULL \<longrightarrow> (\<exists>bs' k. urep us ue st' bs' \<and> live bs' = insert (p, k) (live bs) \<and>
       unat n \<le> k \<and> p \<notin> fst ` live bs \<and>
       (\<forall>(q, l) \<in> live bs. disjoint p k q l \<and> same_on (snd st) (snd st') q l)))"
proof -
  have adm: "u_admissible bs n" using assms(2) by (simp add: u_admissible_def)
  obtain st' p where al: "user_malloc us ue n st = Some (st', p)"
    using user_malloc_refines [OF assms(1), of n] by blast
  have "p = NULL \<longrightarrow> st' = st" using user_malloc_null [OF assms(1)] al by blast
  moreover have "\<exists>bs' k. urep us ue st' bs' \<and> live bs' = insert (p, k) (live bs) \<and>
       unat n \<le> k \<and> p \<notin> fst ` live bs \<and>
       (\<forall>(q, l) \<in> live bs. disjoint p k q l \<and> same_on (snd st) (snd st') q l)" if "p \<noteq> NULL"
    using um.alloc_fresh [OF assms(1) adm al that] um.alloc_keeps(1) [OF assms(1) adm al] by blast
  ultimately show ?thesis using al by blast
qed

text \<open>
  C26: resizing a payload in use always returns.  A null result leaves the heap as it was;
  otherwise the payload returned is large enough, starts with the old bytes up to the
  smaller of the two sizes, and every other payload in use keeps its place and bytes.
\<close>

theorem user_realloc_correct:
  assumes "urep us ue (u, m) bs" "(p, k) \<in> live bs" "n \<noteq> 0" "unat n + 7 < 2 ^ 64"
  shows "\<exists>st' q. user_realloc us ue p n (u, m) = Some (st', q) \<and>
    (q = NULL \<longrightarrow> st' = (u, m)) \<and>
    (q \<noteq> NULL \<longrightarrow> realloc_post (urep us ue st') (unat us) (unat ue) m (snd st') bs p k q n)"
  using user_realloc_cases [OF assms] by metis

theorem user_realloc_correct_witness:
  "\<exists>st' q. user_realloc 0x1000 0x2000 0x1028 100 (fst demo_u1, snd demo_u1) = Some (st', q) \<and>
     (q = NULL \<and> st' = demo_u1 \<or>
      realloc_post (urep 0x1000 0x2000 st') 0x1000 0x2000 (snd demo_u1) (snd st')
        [(0x1000, 24, False), (0x1040, 0xF98, True)] 0x1028 24 q 100)"
  using user_realloc_correct [of "0x1000" "0x2000" "fst demo_u1" "snd demo_u1"
      "[(0x1000, 24, False), (0x1040, 0xF98, True)]" "0x1028" 24 100] demo_u1_rep
  by auto

text \<open>
  C27: any sequence of \<open>user_malloc\<close> and \<open>user_free\<close> calls that the abstract first-fit
  allocator accepts runs to its end, returns the pointers that the abstract allocator
  returns, and leaves a heap represented by the abstract result.
\<close>

theorem user_calls_refine:
  assumes "urep us ue st bs" "a_run u_admissible cs bs = Some (bs', ps)"
  shows "\<exists>st'. run_calls (user_malloc us ue) user_free cs st = Some (st', ps) \<and> urep us ue st' bs' \<and>
    (\<forall>q l. (q, l) \<in> live bs \<longrightarrow> q \<notin> released cs \<longrightarrow>
      (q, l) \<in> live bs' \<and> same_on (snd st) (snd st') q l)"
  using um.run_refines [OF assms] um.run_keeps [OF assms] by blast

theorem user_calls_refine_witness:
  "\<exists>st' bs'. run_calls (user_malloc 0x1000 0x2000) user_free
       [Alloc 24, Alloc 100, Release 0x1028, Alloc 8] demo_u0 = Some (st', [0x1028, 0x1068, 0x1028]) \<and>
     urep 0x1000 0x2000 st' bs'"
proof -
  have "\<exists>bs'. a_run u_admissible [Alloc 24, Alloc 100, Release 0x1028, Alloc 8] [(0x1000, 0xFD8, True)]
      = Some (bs', [0x1028, 0x1068, 0x1028])"
    by (simp add: a_malloc_def align_up_def cut_def u_admissible_def payload_to_header_def)
  then show ?thesis using user_calls_refine [OF demo_u0_rep] by blast
qed

text \<open>
  The statistics of the user heap: the walk returns, the managed total is the size of
  the section, and it splits into used payload, free payload and one header per block.
\<close>

lemma usermalloc_stats_total:
  assumes "urep us ue st bs"
  shows "\<exists>s. get_usermalloc_stats st = Some s \<and> total_managed s = ue - us \<and>
    total_managed s = used_payload s + free_payload s + 40 * num_blocks s \<and>
    num_blocks s = num_used s + num_free s"
proof -
  have wf: "heap_wf (snd st) USER_MAGIC (unat us) bs (unat ue)" and "user_head (fst st) = us"
    using assms by (simp_all add: urep_def)
  then have "get_usermalloc_stats st = Some (plus_stats zero_stats bs)"
    using blk_stats_wf [OF wf] urep_hd(1) [OF assms]
    by (simp add: get_usermalloc_stats_def case_prod_beta)
  then show ?thesis
    using stats_of_split [of bs] heap_wf_total [OF wf] by (simp add: plus_stats_def zero_stats_def)
qed

end
