(* ===== verification/Kernel_Malloc.thy ===== *)
theory Kernel_Malloc
  imports Allocator_Spec Libc_String
begin

text \<open>
  The kernel heap, \<open>malloc/malloc.c\<close>.  Its state is the four file-level pointers and the
  byte memory; the linker symbol \<open>_heap_start\<close>, which \<open>simple_morecore\<close> compares with, is
  the argument \<open>hs\<close>.  The list walks and the retry loop of \<open>malloc\<close> are partial
  functions: \<open>None\<close> where the C loop would not end.
\<close>

section \<open>State and operations\<close>

definition KERNEL_MAGIC :: u32 where "KERNEL_MAGIC = 0xB16B00B5"

record kheap =
  heap_head :: ptr
  heap_tail :: ptr
  managed_heap_end :: ptr
  brk_ptr :: ptr

type_synonym kstate = "kheap \<times> mem"

definition malloc_init :: "ptr \<Rightarrow> u64 \<Rightarrow> kstate \<Rightarrow> kstate" where
  "malloc_init heap_start heap_size = (\<lambda>(k, m).
     if heap_start = NULL \<or> heap_size < SIZEOF_HDR then (k, m)
     else
       let m = set_magic m heap_start KERNEL_MAGIC;
           m = set_size m heap_start (heap_size - SIZEOF_HDR);
           m = set_free m heap_start 1;
           m = set_next m heap_start NULL;
           m = set_prev m heap_start NULL
       in (\<lparr>heap_head = heap_start, heap_tail = heap_start,
            managed_heap_end = heap_start + heap_size, brk_ptr = heap_start + heap_size\<rparr>, m))"

text \<open>The break moves down from the top of the region.\<close>

definition simple_morecore :: "ptr \<Rightarrow> u64 \<Rightarrow> kheap \<Rightarrow> kheap \<times> ptr" where
  "simple_morecore hs bytes k =
     (let req = align_up bytes;
          new_brk = brk_ptr k - req
      in if new_brk < hs then (k, NULL) else (k\<lparr>brk_ptr := new_brk\<rparr>, new_brk))"

definition find_fit :: "kstate \<Rightarrow> u64 \<Rightarrow> ptr option" where
  "find_fit = (\<lambda>(k, m) n. blk_find_fit m (heap_head k) n)"

definition split_block :: "kstate \<Rightarrow> ptr \<Rightarrow> u64 \<Rightarrow> kstate" where
  "split_block = (\<lambda>(k, m) h req.
     if h = NULL then (k, m)
     else let (m, t) = blk_split KERNEL_MAGIC m (heap_tail k) h req in (k\<lparr>heap_tail := t\<rparr>, m))"

definition coalesce :: "kstate \<Rightarrow> ptr \<Rightarrow> kstate" where
  "coalesce = (\<lambda>(k, m) h.
     let (m, t) = blk_coalesce m (heap_tail k) h in (k\<lparr>heap_tail := t\<rparr>, m))"

definition heap_expand :: "ptr \<Rightarrow> u64 \<Rightarrow> kstate \<Rightarrow> kstate \<times> bool" where
  "heap_expand hs bytes = (\<lambda>(k, m).
     let need = align_up (bytes + SIZEOF_HDR);
         (k, h) = simple_morecore hs need k
     in if h = NULL then ((k, m), False)
        else
          let m = set_magic m h KERNEL_MAGIC;
              m = set_free m h 1;
              m = set_size m h (need - SIZEOF_HDR);
              m = set_prev m h (heap_tail k);
              m = set_next m h NULL;
              m = (if heap_tail k \<noteq> NULL then set_next m (heap_tail k) h else m);
              k = k\<lparr>heap_tail := h\<rparr>;
              k = (if heap_head k = NULL then k\<lparr>heap_head := h\<rparr> else k)
          in ((k, m), True))"

partial_function (option) malloc_loop :: "ptr \<Rightarrow> u64 \<Rightarrow> kstate \<Rightarrow> (kstate \<times> ptr) option" where
  "malloc_loop hs n st =
     Option.bind (find_fit st n) (\<lambda>fit.
       if fit \<noteq> NULL then Some (st, fit)
       else case heap_expand hs n st of
              (st', ok) \<Rightarrow> if ok then malloc_loop hs n st' else Some (st', NULL))"

definition malloc :: "ptr \<Rightarrow> u64 \<Rightarrow> kstate \<Rightarrow> (kstate \<times> ptr) option" where
  "malloc hs n st =
     (if n = 0 then Some (st, NULL)
      else
        let n = align_up n
        in Option.bind (malloc_loop hs n st) (\<lambda>(st, fit).
             if fit = NULL then Some (st, NULL)
             else
               let (k, m) = split_block st fit n;
                   m = set_free m fit 0
               in Some ((k, m), header_to_payload fit)))"

definition free :: "ptr \<Rightarrow> kstate \<Rightarrow> kstate" where
  "free p = (\<lambda>(k, m).
     if p = NULL then (k, m)
     else
       let h = payload_to_header p
       in if h_magic (hdr m h) \<noteq> KERNEL_MAGIC then (k, m)
          else if is_free m h then (k, m)
          else coalesce (k, set_free m h 1) h)"

text \<open>
  The two loops of the in-place extension of \<open>realloc\<close>: the first adds up the free
  successors until the sum is enough, the second absorbs them.
\<close>

partial_function (option) grow_sum :: "mem \<Rightarrow> u64 \<Rightarrow> ptr \<Rightarrow> u64 \<Rightarrow> u64 option" where
  "grow_sum m acc cur n =
     (if cur \<noteq> NULL \<and> is_free m cur \<and> acc < n
      then grow_sum m (acc + (SIZEOF_HDR + h_size (hdr m cur))) (h_next (hdr m cur)) n
      else Some acc)"

partial_function (option) grow_absorb :: "mem \<Rightarrow> ptr \<Rightarrow> ptr \<Rightarrow> u64 \<Rightarrow> (mem \<times> ptr) option" where
  "grow_absorb m h to n =
     (if to \<noteq> NULL \<and> is_free m to \<and> h_size (hdr m h) < n
      then let m' = set_size m h (h_size (hdr m h) + SIZEOF_HDR + h_size (hdr m to))
           in grow_absorb m' h (h_next (hdr m' to)) n
      else Some (m, to))"

definition realloc_grow :: "ptr \<Rightarrow> u64 \<Rightarrow> kstate \<Rightarrow> kstate option" where
  "realloc_grow h n = (\<lambda>(k, m).
     Option.bind (grow_absorb m h (h_next (hdr m h)) n) (\<lambda>(m, to).
       let m = set_next m h to;
           m = (if to \<noteq> NULL then set_prev m to h else m);
           (k, m) = split_block (k, m) h n;
           m = set_free m h 0
       in Some (k, m)))"

text \<open>The last part of \<open>realloc\<close>: a new payload, a copy, and the old one freed.\<close>

definition realloc_move :: "ptr \<Rightarrow> ptr \<Rightarrow> u64 \<Rightarrow> kstate \<Rightarrow> (kstate \<times> ptr) option" where
  "realloc_move hs p n st =
     Option.bind (malloc hs n st) (\<lambda>((k, m), newp).
       if newp = NULL then Some ((k, m), NULL)
       else
         let h = payload_to_header p;
             cp = (if h_size (hdr m h) < n then h_size (hdr m h) else n);
             m = memcpy m newp p cp
         in Some (free p (k, m), newp))"

definition realloc :: "ptr \<Rightarrow> ptr \<Rightarrow> u64 \<Rightarrow> kstate \<Rightarrow> (kstate \<times> ptr) option" where
  "realloc hs p n = (\<lambda>(k, m).
     if p = NULL then malloc hs n (k, m)
     else if n = 0 then Some (free p (k, m), NULL)
     else
       let h = payload_to_header p
       in if h_magic (hdr m h) \<noteq> KERNEL_MAGIC then Some ((k, m), NULL)
          else
            let n = align_up n; nx = h_next (hdr m h)
            in if n \<le> h_size (hdr m h) then Some (split_block (k, m) h n, p)
               else if nx \<noteq> NULL \<and> is_free m nx then
                 Option.bind (grow_sum m (h_size (hdr m h)) nx n) (\<lambda>acc.
                   if n \<le> acc then map_option (\<lambda>st. (st, p)) (realloc_grow h n (k, m))
                   else realloc_move hs p n (k, m))
               else realloc_move hs p n (k, m))"

declare malloc_loop.simps [code] grow_sum.simps [code] grow_absorb.simps [code]

definition get_kmalloc_stats :: "kstate \<Rightarrow> malloc_stats_t option" where
  "get_kmalloc_stats = (\<lambda>(k, m). blk_stats m (heap_head k) zero_stats)"

section \<open>Representation\<close>

text \<open>
  The heap from \<open>hs\<close> to \<open>he\<close> is tiled by the blocks of the list.  A request is admissible
  while a block fits it; then \<open>malloc\<close> does not enlarge the heap.
\<close>

definition krep :: "ptr \<Rightarrow> ptr \<Rightarrow> kstate \<Rightarrow> blk list \<Rightarrow> bool" where
  "krep hs he st bs \<longleftrightarrow>
     heap_head (fst st) = hs \<and> unat hs < unat he \<and>
     heap_wf (snd st) KERNEL_MAGIC (unat hs) bs (unat he)"

definition k_admissible :: "blk list \<Rightarrow> u64 \<Rightarrow> bool" where
  "k_admissible bs n \<longleftrightarrow> unat n + 7 < 2 ^ 64 \<and> (n = 0 \<or> find (fits (align_up n)) bs \<noteq> None)"

lemma krep_hd:
  assumes "krep hs he st bs"
  shows "hd_addr bs NULL = hs" "hs \<noteq> NULL"
proof -
  have t: "tiles (unat hs) bs (unat he)" "0 < unat hs" "unat hs < unat he"
    using assms by (auto simp: krep_def heap_wf_def)
  then obtain a s f bs' where "bs = (a, s, f) # bs'" by (cases bs) auto
  then show "hd_addr bs NULL = hs" using t by (auto simp: word_unat_eq_iff)
  show "hs \<noteq> NULL" using t by auto
qed

lemma find_fit_rep:
  assumes "krep hs he st bs"
  shows "find_fit st n = Some (case find (fits n) bs of None \<Rightarrow> NULL | Some b \<Rightarrow> fst b)"
proof -
  have "chain (snd st) KERNEL_MAGIC NULL bs NULL" "tiles (unat hs) bs (unat he)" "0 < unat hs"
    "heap_head (fst st) = hs"
    using assms by (auto simp: krep_def heap_wf_def)
  then show ?thesis
    using blk_find_fit_chain [of "snd st" KERNEL_MAGIC NULL bs "unat hs" "unat he" n] krep_hd(1) [OF assms]
    by (simp add: find_fit_def case_prod_beta)
qed

lemma malloc_refines:
  assumes rep: "krep hs he st bs" and adm: "k_admissible bs n"
  shows "\<exists>st'. malloc hs' n st = Some (st', snd (a_malloc n bs)) \<and>
    krep hs he st' (fst (a_malloc n bs)) \<and>
    only_hdrs (snd st) (snd st') (fst ` set (fst (a_malloc n bs)))"
proof (cases "n = 0")
  case True
  then show ?thesis using rep by (simp add: malloc_def a_malloc_def)
next
  case False
  obtain k m where st: "st = (k, m)" by force
  have k: "heap_head k = hs" "unat hs < unat he"
    and wf: "heap_wf m KERNEL_MAGIC (unat hs) bs (unat he)"
    using rep by (auto simp: krep_def st)
  obtain a s f where fit: "find (fits (align_up n)) bs = Some (a, s, f)"
    using adm False unfolding k_admissible_def by (metis not_None_eq prod_cases3)
  have a0: "a \<noteq> NULL"
    using heap_wf_nonnull [OF wf, of a s f] fit by (auto elim!: find_split)
  have lp: "malloc_loop hs' (align_up n) st = Some (st, a)"
    using find_fit_rep [OF rep, of "align_up n"] fit a0 by (subst malloc_loop.simps) simp
  obtain m1 t' where sp: "blk_split KERNEL_MAGIC m (heap_tail k) a (align_up n) = (m1, t')"
    by force
  note tk = blk_take_refines [OF wf fit sp]
  have "malloc hs' n st = Some ((k\<lparr>heap_tail := t'\<rparr>, set_free m1 a 0), header_to_payload a)"
    using False lp a0 sp by (simp add: malloc_def st split_block_def)
  then show ?thesis
    using False tk k by (simp add: a_malloc_def krep_def st)
qed

lemma free_refines:
  assumes rep: "krep hs he st bs" and mem: "(a, z, False) \<in> set bs"
  shows "krep hs he (free (header_to_payload a) st) (a_free a bs) \<and>
    only_hdrs (snd st) (snd (free (header_to_payload a) st)) (fst ` set bs)"
proof -
  obtain k m where st: "st = (k, m)" by force
  have wf: "heap_wf m KERNEL_MAGIC (unat hs) bs (unat he)"
    using rep by (auto simp: krep_def st)
  have lv: "(a + 40, unat z) \<in> live bs" using mem by (auto simp: live_def)
  note h = live_hdr [OF wf lv]
  have p0: "header_to_payload a \<noteq> NULL"
    using live_bounds(4) [OF wf lv] by (simp add: header_to_payload_def)
  obtain m' t' where co: "blk_coalesce (set_free m a 1) (heap_tail k) a = (m', t')" by force
  have "free (header_to_payload a) st = (k\<lparr>heap_tail := t'\<rparr>, m')"
    using h p0 co by (simp add: free_def st coalesce_def)
  then show ?thesis
    using blk_free_refines [OF wf mem co] rep by (simp add: krep_def st)
qed

interpretation km: block_allocator "krep hs he" snd "\<lambda>s m. (fst s, m)" "malloc hs" free k_admissible
  KERNEL_MAGIC "unat hs" "unat he" for hs he
proof unfold_locales
  fix s bs assume "krep hs he s bs"
  then show "heap_wf (snd s) KERNEL_MAGIC (unat hs) bs (unat he)" by (simp add: krep_def)
next
  fix s :: kstate and m :: mem
  show "snd (fst s, m) = m" by simp
next
  fix s bs m assume "krep hs he s bs" "heap_wf m KERNEL_MAGIC (unat hs) bs (unat he)"
  then show "krep hs he (fst s, m) bs" by (simp add: krep_def)
next
  fix bs n assume "k_admissible bs n"
  then show "unat n + 7 < 2 ^ 64" by (simp add: k_admissible_def)
next
  fix s bs n assume "krep hs he s bs" "k_admissible bs n"
  then show "\<exists>s'. malloc hs n s = Some (s', snd (a_malloc n bs)) \<and>
      krep hs he s' (fst (a_malloc n bs)) \<and>
      only_hdrs (snd s) (snd s') (fst ` set (fst (a_malloc n bs)))"
    by (rule malloc_refines)
next
  fix s bs a z assume "krep hs he s bs" "(a, z, False) \<in> set bs"
  then show "krep hs he (free (header_to_payload a) s) (a_free a bs) \<and>
      only_hdrs (snd s) (snd (free (header_to_payload a) s)) (fst ` set bs)"
    by (rule free_refines)
qed

section \<open>Resizing\<close>

text \<open>What the two loops do to the list: free successors are absorbed until the size is enough.\<close>

fun absorb :: "u64 \<Rightarrow> u64 \<Rightarrow> blk list \<Rightarrow> u64 \<times> blk list" where
  "absorb n s ((b, z, True) # post) =
     (if s < n then absorb n (s + 40 + z) post else (s, (b, z, True) # post))"
| "absorb n s post = (s, post)"

lemma absorb_suffix: "absorb n s post = (s', post') \<Longrightarrow> \<exists>mid. post = mid @ post'"
  by (induction n s post rule: absorb.induct) (auto split: if_splits)

lemma absorb_live: "absorb n s post = (s', post') \<Longrightarrow> live post' = live post"
  by (induction n s post rule: absorb.induct) (auto split: if_splits)

lemma absorb_tiles:
  assumes "absorb n s post = (s', post')" "tiles (base + unat s) post hi" "hi < 2 ^ 63"
  shows "tiles (base + unat s') post' hi"
  using assms
proof (induction n s post arbitrary: base rule: absorb.induct)
  case (1 n s b z post)
  have "tiles (base + unat s + 40 + unat z) post hi" using "1.prems"(2) by simp
  moreover from tiles_le [OF this] have "unat (s + 40 + z) = unat s + 40 + unat z"
    using "1.prems"(3) unat_add_of_nat [of s 40] unat_add_small [of "s + 40" z] by simp
  ultimately show ?case
    using 1 by (auto simp: add.assoc split: if_splits)
qed auto

lemma grow_sum_chain:
  assumes "chain m K p post NULL" "NULL \<notin> fst ` set post"
  shows "grow_sum m s (hd_addr post NULL) n = Some (fst (absorb n s post))"
  using assms
proof (induction n s post arbitrary: p rule: absorb.induct)
  case (1 n s b z post)
  then show ?case
    by (subst grow_sum.simps) (auto simp: add.assoc)
qed (subst grow_sum.simps; auto)+

lemma grow_absorb_chain:
  assumes "chain m K p post NULL" "tiles lo post hi" "hi < 2 ^ 63" "unat a + 40 \<le> lo"
    "h_size (hdr m a) = s"
  shows "\<exists>m'. grow_absorb m a (hd_addr post NULL) n = Some (m', hd_addr (snd (absorb n s post)) NULL) \<and>
    only_hdrs m m' {a} \<and> hdr m' a = (hdr m a)\<lparr>h_size := fst (absorb n s post)\<rparr>"
  using assms
proof (induction n s post arbitrary: p m lo rule: absorb.induct)
  case (1 n s b z post)
  have le: "unat b = lo" "lo + 40 + unat z \<le> hi" "tiles (lo + 40 + unat z) post hi"
    using "1.prems"(2) tiles_le by auto
  have at: "hdr_at a" "hdr_at b" "hdr_disj a b" "b \<noteq> NULL"
    using le "1.prems"(3,4) by (auto simp: hdr_at_def hdr_disj_def disjoint_def)
  have hb: "is_free m b" "h_size (hdr m b) = z" "h_next (hdr m b) = hd_addr post NULL"
    and ch: "chain m K b post NULL" using "1.prems"(1) by auto
  show ?case
  proof (cases "s < n")
    case True
    let ?m = "set_size m a (s + 40 + z)"
    have oh: "only_hdrs m ?m {a}" using at by (intro only_hdrs_set_field) simp_all
    have "chain ?m K b post NULL"
      using chain_only_hdrs [OF oh le(3) "1.prems"(3)] ch "1.prems"(4) by auto
    moreover have hs: "hdr ?m a = (hdr m a)\<lparr>h_size := s + 40 + z\<rparr>" "hdr ?m b = hdr m b"
      using at by (simp_all add: mem_simps)
    ultimately obtain m' where m': "grow_absorb ?m a (hd_addr post NULL) n =
        Some (m', hd_addr (snd (absorb n (s + 40 + z) post)) NULL)"
      "only_hdrs ?m m' {a}" "hdr m' a = (hdr ?m a)\<lparr>h_size := fst (absorb n (s + 40 + z) post)\<rparr>"
      using "1.IH" [OF True, of ?m b "lo + 40 + unat z"] le "1.prems"(3,4) by auto
    have "grow_absorb m a b n = grow_absorb ?m a (hd_addr post NULL) n"
      using True hb at hs "1.prems"(5) by (subst grow_absorb.simps) simp
    moreover have "only_hdrs m m' {a}" using only_hdrs_trans [OF oh m'(2)] by simp
    ultimately show ?thesis using m' hs True by simp
  next
    case False
    have "grow_absorb m a b n = Some (m, b)"
      using False "1.prems"(5) by (subst grow_absorb.simps) simp
    then show ?thesis using False "1.prems"(5) by auto
  qed
qed (subst grow_absorb.simps; auto)+

text \<open>The links after the second loop.\<close>

lemma grow_links_refines:
  assumes wf: "heap_wf m K lo (pre @ (a, s, f) # post) hi"
    and ab: "absorb n s post = (s', post')"
    and oh1: "only_hdrs m m1 {a}" and h1: "hdr m1 a = (hdr m a)\<lparr>h_size := s'\<rparr>"
    and to: "to = hd_addr post' NULL"
    and m3: "m3 = (if to \<noteq> NULL then set_prev (set_next m1 a to) to a else set_next m1 a to)"
  shows "heap_wf m3 K lo (pre @ (a, s', f) # post') hi"
    and "only_hdrs m m3 (insert a (fst ` set (take 1 post')))"
proof -
  let ?H = "insert a (fst ` set (take 1 post'))"
  from wf have ch: "chain m K NULL pre a" "chain m K a post NULL"
      "hdr m a = \<lparr>h_magic = K, h_size = s, h_free = flag f, h_prev = last_addr NULL pre,
        h_next = hd_addr post NULL\<rparr>"
    and ti: "tiles lo (pre @ (a, s, f) # post) hi"
    and lo: "0 < lo" and hi: "hi < 2 ^ 63"
    by (auto simp: heap_wf_def)
  note sp = tiles_split [OF ti]
  have at: "hdr_at a" using sp hi by (simp add: hdr_at_def)
  have post': "tiles (unat a + 40 + unat s') post' hi"
    using absorb_tiles [OF ab _ hi] sp(2) by simp
  have ti': "tiles lo (pre @ (a, s', f) # post') hi"
    using sp(1) post' by (auto simp: tiles_append)
  obtain mid where mid: "post = mid @ post'" using absorb_suffix [OF ab] by blast
  have ch': "chain m K (last_addr a mid) post' NULL" using ch(2) by (simp add: mid)
  have key: "only_hdrs m m3 ?H \<and> chain m3 K a post' NULL \<and>
      hdr m3 a = (hdr m a)\<lparr>h_size := s', h_next := to\<rparr>"
  proof (cases post')
    case Nil
    have "only_hdrs m (set_next m1 a NULL) {a}"
      using at oh1 by (intro only_hdrs_set_field) simp_all
    then show ?thesis using Nil to m3 at h1 by (simp add: mem_simps)
  next
    case (Cons x post2)
    obtain c v g where c: "x = (c, v, g)" by (cases x) auto
    have uc: "unat c = unat a + 40 + unat s'" using post' Cons c by auto
    have atc: "hdr_at c" and dis: "hdr_disj a c" "hdr_disj c a" "c \<noteq> NULL"
      using uc tiles_hdr_at [OF ti' hi, of c v g] Cons c
      by (auto simp: hdr_disj_def disjoint_def)
    have "hdr m1 c = hdr m c"
      using atc uc by (intro hdr_cong [symmetric] only_hdrs_same_on [OF oh1]) auto
    then have hc: "hdr m1 c = \<lparr>h_magic = K, h_size = v, h_free = flag g,
        h_prev = last_addr a mid, h_next = hd_addr post2 NULL\<rparr>" and ch2: "chain m K c post2 NULL"
      using ch' Cons c by auto
    have m3': "m3 = set_prev (set_next m1 a c) c a" using m3 to Cons c dis by simp
    have "only_hdrs m m1 ?H" using oh1 by (rule only_hdrs_mono) simp
    then have oh: "only_hdrs m m3 ?H"
      using Cons c at atc by (auto simp: m3' intro!: only_hdrs_set_field)
    have "chain m3 K c post2 NULL"
      using ch2 post' hi Cons c uc
      by (subst chain_only_hdrs [OF oh, of "unat c + 40 + unat v" _ hi]) auto
    then show ?thesis
      using oh hc h1 at atc dis Cons c to by (simp add: m3' mem_simps)
  qed
  then have oh: "only_hdrs m m3 ?H" by blast
  have "chain m3 K NULL pre a"
    using ch(1) sp(1) post' hi sp(3)
    by (subst chain_only_hdrs [OF oh, of lo _ "unat a"])
      (auto dest!: in_set_takeD dest: tiles_bounds)
  then show "heap_wf m3 K lo (pre @ (a, s', f) # post') hi"
    using key ch(3) ti' lo hi to by (simp add: heap_wf_def)
  show "only_hdrs m m3 ?H" by (rule oh)
qed

lemma k_split_block:
  "h \<noteq> NULL \<Longrightarrow> split_block (k, m) h n = (k', m') \<Longrightarrow>
     \<exists>t'. blk_split KERNEL_MAGIC m (heap_tail k) h n = (m', t') \<and> k' = k\<lparr>heap_tail := t'\<rparr>"
  by (auto simp: split_block_def split: prod.splits)

lemma realloc_shrink:
  assumes rep: "krep hs he (k, m) bs" and a: "(a, s, False) \<in> set bs"
    and n: "unat n0 \<le> unat n" "unat n \<le> unat s"
    and res: "split_block (k, m) a n = (k', m')"
  shows "realloc_post (krep hs he (k', m')) (unat hs) (unat he) m m' bs (a + 40) (unat s) (a + 40) n0"
proof -
  have wf: "heap_wf m KERNEL_MAGIC (unat hs) bs (unat he)" using rep by (simp add: krep_def)
  obtain pre post where bs: "bs = pre @ (a, s, False) # post"
    using a by (auto simp: in_set_conv_decomp)
  obtain t' where sp: "blk_split KERNEL_MAGIC m (heap_tail k) a n = (m', t')" "k' = k\<lparr>heap_tail := t'\<rparr>"
    using k_split_block [OF heap_wf_nonnull [OF wf a] res] by blast
  note c = blk_split_cut [OF wf [unfolded bs] n(2) sp(1)]
  show ?thesis
    unfolding bs using rep sp(2) n
    by (intro realloc_post_inplace [OF wf [unfolded bs] c(1,2)]) (auto simp: krep_def c(1))
qed

lemma realloc_grow_refines:
  assumes rep: "krep hs he (k, m) bs" and bs: "bs = pre @ (a, s, False) # post"
    and ab: "absorb n s post = (s', post')"
    and n: "unat n0 \<le> unat n" "n \<le> s'"
  shows "\<exists>st'. realloc_grow a n (k, m) = Some st' \<and>
    realloc_post (krep hs he st') (unat hs) (unat he) m (snd st') bs (a + 40) (unat s) (a + 40) n0"
proof -
  have wf: "heap_wf m KERNEL_MAGIC (unat hs) (pre @ (a, s, False) # post) (unat he)"
    using rep by (simp add: krep_def bs)
  then have ch: "chain m KERNEL_MAGIC a post NULL" "h_size (hdr m a) = s"
      "h_next (hdr m a) = hd_addr post NULL"
    and ti: "tiles (unat a + 40 + unat s) post (unat he)" and hi: "unat he < 2 ^ 63"
    by (auto simp: heap_wf_def dest: tiles_split)
  have a0: "a \<noteq> NULL" using heap_wf_nonnull [OF wf, of a s False] by simp
  obtain m1 where m1: "grow_absorb m a (hd_addr post NULL) n = Some (m1, hd_addr post' NULL)"
      "only_hdrs m m1 {a}" "hdr m1 a = (hdr m a)\<lparr>h_size := s'\<rparr>"
    using grow_absorb_chain [OF ch(1) ti hi _ ch(2), of n] ab by auto
  define m3 where "m3 = (if hd_addr post' NULL \<noteq> NULL
    then set_prev (set_next m1 a (hd_addr post' NULL)) (hd_addr post' NULL) a
    else set_next m1 a (hd_addr post' NULL))"
  note g = grow_links_refines [OF wf ab m1(2,3) refl m3_def]
  obtain k' m' where sp: "split_block (k, m3) a n = (k', m')" by force
  obtain t' where sp': "blk_split KERNEL_MAGIC m3 (heap_tail k) a n = (m', t')" "k' = k\<lparr>heap_tail := t'\<rparr>"
    using k_split_block [OF a0 sp] by blast
  have "realloc_grow a n (k, m) = Some (k', set_free m' a 0)"
    using m1 sp ch(3) by (auto simp: realloc_grow_def m3_def Let_def)
  moreover have "realloc_post (krep hs he (k', set_free m' a 0)) (unat hs) (unat he) m (set_free m' a 0) bs
      (a + 40) (unat s) (a + 40) n0"
    unfolding bs using rep sp'(2) n
    by (intro realloc_post_grown [OF wf g sp'(1) absorb_live [OF ab]])
      (auto simp: krep_def word_le_nat_alt)
  ultimately show ?thesis by auto
qed

lemma align_up_idem: "unat n + 7 < 2 ^ 64 \<Longrightarrow> align_up (align_up n) = align_up n"
proof -
  assume n: "unat n + 7 < 2 ^ 64"
  obtain j where j: "unat (align_up n) = 8 * j" using align_up_dvd [OF n] by (auto simp: dvd_def)
  have "unat (align_up (align_up n)) = (8 * j + 7) div 8 * 8"
    using unat_align_up [OF align_up_small [OF n]] j by simp
  also have "(8 * j + 7) div 8 = j" by simp
  finally have "unat (align_up (align_up n)) = unat (align_up n)" using j by simp
  then show ?thesis by (simp flip: word_unat_eq_iff)
qed

lemma a_malloc_nonnull:
  assumes "krep hs he st bs" "n \<noteq> 0" "k_admissible bs n"
  shows "snd (a_malloc n bs) \<noteq> NULL"
proof -
  obtain b z f where fit: "find (fits (align_up n)) bs = Some (b, z, f)"
    using assms unfolding k_admissible_def by (metis not_None_eq prod_cases3)
  have wf: "heap_wf (snd st) KERNEL_MAGIC (unat hs) bs (unat he)" using assms by (simp add: krep_def)
  have "snd (a_malloc n bs) = b + 40"
    using blk_take_refines(2) [OF wf fit] assms(2)
    by (metis a_malloc_def header_to_payload_def surj_pair)
  moreover have "(b, z, f) \<in> set bs" using fit by (auto elim!: find_split)
  ultimately show ?thesis
    using tiles_payload [of "unat hs" bs "unat he" b z f] wf by (auto simp: heap_wf_def)
qed

lemma realloc_move_refines:
  assumes rep: "krep hs he (k, m) bs" and a: "(a, s, False) \<in> set bs"
    and n: "unat n0 \<le> unat n" "unat s < unat n" and adm: "k_admissible bs n"
  shows "\<exists>st' q. realloc_move hs (a + 40) n (k, m) = Some (st', q) \<and> q \<noteq> NULL \<and>
    realloc_post (krep hs he st') (unat hs) (unat he) m (snd st') bs (a + 40) (unat s) q n0"
proof -
  let ?q = "snd (a_malloc n bs)"
  have n0: "n \<noteq> 0" using n(2) by auto
  obtain k1 m1 where al: "malloc hs n (k, m) = Some ((k1, m1), ?q)"
    using malloc_refines [OF rep adm, of hs] by fastforce
  have q0: "?q \<noteq> NULL" using rep n0 adm by (rule a_malloc_nonnull)
  note mv = km.resize_move [OF rep a n(1) adm n(2) al q0]
  have "\<not> n \<le> s" using n(2) by (simp add: word_le_nat_alt)
  then have "realloc_move hs (a + 40) n (k, m) = Some (free (a + 40) (k1, memcpy m1 ?q (a + 40) s), ?q)"
    using al q0 mv(1) by (simp add: realloc_move_def payload_to_header_def not_le)
  then show ?thesis using mv(2) q0 by simp
qed

lemma realloc_cases:
  assumes rep: "krep hs he (k, m) bs" and lv: "(p, j) \<in> live bs"
    and n: "n \<noteq> 0" "unat n + 7 < 2 ^ 64"
    and room: "unat (align_up n) \<le> j \<or> k_admissible bs n"
  shows "\<exists>st' q. realloc hs p n (k, m) = Some (st', q) \<and> q \<noteq> NULL \<and>
    realloc_post (krep hs he st') (unat hs) (unat he) m (snd st') bs p j q n"
proof -
  obtain a s where a: "p = a + 40" "j = unat s" "(a, s, False) \<in> set bs"
    using lv by (auto simp: live_def)
  have wf: "heap_wf m KERNEL_MAGIC (unat hs) bs (unat he)" using rep by (simp add: krep_def)
  have p0: "p \<noteq> NULL" using live_bounds(4) [OF wf lv] .
  have h: "payload_to_header p = a" by (simp add: a payload_to_header_def)
  note hd = live_hdr [OF wf lv [unfolded a(1,2)]]
  obtain pre post where bs: "bs = pre @ (a, s, False) # post"
    using a(3) by (auto simp: in_set_conv_decomp)
  have nx: "h_next (hdr m a) = hd_addr post NULL" and ch: "chain m KERNEL_MAGIC a post NULL"
    using wf by (simp_all add: heap_wf_def bs)
  have nn: "NULL \<notin> fst ` set post" using heap_wf_no_null [OF wf] by (simp add: bs image_Un)
  define l where "l = align_up n"
  have ln: "unat n \<le> unat l" using align_up_ge [OF n(2)] by (simp add: l_def)
  obtain s' post' where ab: "absorb l s post = (s', post')" by force
  have gs: "grow_sum m s (hd_addr post NULL) l = Some s'"
    using grow_sum_chain [OF ch nn, of s l] ab by simp
  have eq: "realloc hs p n (k, m) =
     (if l \<le> s then Some (split_block (k, m) a l, p)
      else if hd_addr post NULL \<noteq> NULL \<and> is_free m (hd_addr post NULL) \<and> l \<le> s'
      then map_option (\<lambda>st. (st, p)) (realloc_grow a l (k, m))
      else realloc_move hs p l (k, m))"
    using p0 n(1) hd gs nx by (simp add: realloc_def h Let_def flip: l_def)
  show ?thesis
  proof (cases "l \<le> s")
    case True
    obtain k' m' where sp: "split_block (k, m) a l = (k', m')" by force
    show ?thesis
      using realloc_shrink [OF rep a(3) ln _ sp] True eq p0 sp by (simp add: a word_le_nat_alt)
  next
    case False
    show ?thesis
    proof (cases "hd_addr post NULL \<noteq> NULL \<and> is_free m (hd_addr post NULL) \<and> l \<le> s'")
      case True
      then show ?thesis
        using realloc_grow_refines [OF rep bs ab ln] False eq p0 a by auto
    next
      case no: False
      have "k_admissible bs l"
        using room False n align_up_idem align_up_small
        by (auto simp: k_admissible_def a l_def word_le_nat_alt)
      moreover have "realloc hs p n (k, m) = realloc_move hs p l (k, m)"
        using eq unfolding if_not_P [OF False] if_not_P [OF no] .
      ultimately show ?thesis
        using realloc_move_refines [OF rep a(3) ln] False by (simp add: a word_le_nat_alt)
    qed
  qed
qed

lemma krep_init:
  assumes "0 < unat hs" "40 \<le> unat n" "unat hs + unat n < 2 ^ 63"
  shows "krep hs (hs + n) (malloc_init hs n (k, m)) [(hs, n - 40, True)]"
    "heap_tail (fst (malloc_init hs n (k, m))) = hs" "brk_ptr (fst (malloc_init hs n (k, m))) = hs + n"
proof -
  have at: "hdr_at hs" using assms by (simp add: hdr_at_def)
  have u: "unat (hs + n) = unat hs + unat n" "unat (n - 40) = unat n - 40"
    using assms unat_add_small [of hs n] by (simp_all add: unat_sub_le)
  have g: "hs \<noteq> NULL" "\<not> n < 40" using assms by (auto simp: word_less_nat_alt)
  show "krep hs (hs + n) (malloc_init hs n (k, m)) [(hs, n - 40, True)]"
    using assms at u g by (simp add: malloc_init_def Let_def krep_def heap_wf_def mem_simps)
  show "heap_tail (fst (malloc_init hs n (k, m))) = hs" "brk_ptr (fst (malloc_init hs n (k, m))) = hs + n"
    using g by (simp_all add: malloc_init_def Let_def)
qed

section \<open>Enlarging the heap\<close>

text \<open>
  \<open>malloc_init\<close> gives the whole region to one block and also leaves the break at its
  top, so a block that \<open>heap_expand\<close> takes below the break lies inside the last block.
\<close>

lemma align_up_hdr:
  assumes "unat n + 7 < 2 ^ 64" "unat (align_up n) + 48 < 2 ^ 64"
  shows "align_up (align_up n + 40) = align_up n + 40"
proof -
  obtain j where j: "unat (align_up n) = 8 * j" using align_up_dvd [OF assms(1)] by (auto simp: dvd_def)
  have u: "unat (align_up n + 40) = 8 * (j + 5)"
    using assms(2) unat_add_of_nat [of "align_up n" 40] j by simp
  have "unat (align_up (align_up n + 40)) = (8 * (j + 5) + 7) div 8 * 8"
    using unat_align_up [of "align_up n + 40"] u assms(2) j by simp
  also have "(8 * (j + 5) + 7) div 8 = j + 5" by simp
  finally have "unat (align_up (align_up n + 40)) = unat (align_up n + 40)" using u by simp
  then show ?thesis by (simp flip: word_unat_eq_iff)
qed

lemma heap_expand_inside:
  assumes rep: "krep hs he (k, m) (pre @ [(a, s, False)])"
    and tl: "heap_tail k = a" "brk_ptr k = he"
    and n: "unat n + 7 < 2 ^ 64" and l: "l = align_up n" "40 + unat l \<le> unat s"
  defines "h \<equiv> he - (l + 40)"
  shows "\<exists>k' m'. heap_expand hs l (k, m) = ((k', m'), True) \<and> heap_head k' = hs \<and>
    chain m' KERNEL_MAGIC NULL (pre @ [(a, s, False), (h, l, True)]) NULL"
    and "unat h + 40 + unat l = unat a + 40 + unat s" "hdr_at h" "h \<noteq> NULL"
proof -
  let ?K = KERNEL_MAGIC
  have wf: "heap_wf m ?K (unat hs) (pre @ [(a, s, False)]) (unat he)" and hh: "heap_head k = hs"
    and hs: "0 < unat hs" and hi: "unat he < 2 ^ 63"
    using rep by (auto simp: krep_def heap_wf_def)
  then have ch: "chain m ?K NULL pre a" "hdr m a = \<lparr>h_magic = ?K, h_size = s, h_free = 0,
      h_prev = last_addr NULL pre, h_next = NULL\<rparr>"
    and ti: "tiles (unat hs) pre (unat a)" "unat a + 40 + unat s = unat he" "unat hs \<le> unat a"
    by (auto simp: heap_wf_def tiles_append dest: tiles_le)
  have l40: "unat (l + 40) = unat l + 40"
    using l(2) ti(2) hi unat_add_of_nat [of l 40] by simp
  have uh: "unat h = unat he - (unat l + 40)"
    unfolding h_def using l40 l(2) ti(2) by (simp add: unat_sub_le)
  then show sum': "unat h + 40 + unat l = unat a + 40 + unat s" using ti(2) l(2) by simp
  have ah: "unat a + 40 \<le> unat h" using uh ti(2) l(2) by simp
  show at: "hdr_at h" and h0: "h \<noteq> NULL"
    using uh hi ah by (auto simp: hdr_at_def)
  have ata: "hdr_at a" "a \<noteq> NULL" "hdr_disj a h" "hdr_disj h a"
    using ah hi ti hs by (auto simp: hdr_at_def hdr_disj_def disjoint_def)
  have al: "align_up (l + 40) = l + 40"
    using align_up_hdr [OF n] l ti(2) hi by simp
  have mc: "simple_morecore hs (l + 40) k = (k\<lparr>brk_ptr := h\<rparr>, h)"
    using ah ti(3) al tl(2) by (simp add: simple_morecore_def word_less_nat_alt flip: h_def)
  define m1 where "m1 = set_next (set_prev (set_size (set_free (set_magic m h ?K) h 1) h l) h a) h NULL"
  define m' where "m' = set_next m1 a h"
  have ex: "heap_expand hs l (k, m) = ((k\<lparr>brk_ptr := h, heap_tail := h\<rparr>, m'), True)"
    using h0 tl ata(2) hh hs al mc
    by (auto simp: heap_expand_def Let_def m'_def m1_def)
  have oh: "only_hdrs m m' {a, h}"
    using at ata by (auto simp: m'_def m1_def intro!: only_hdrs_set_field)
  have "chain m' ?K NULL pre a"
    using ch(1) ah hi ti by (subst chain_only_hdrs [OF oh ti(1)]) auto
  then have "chain m' ?K NULL (pre @ [(a, s, False), (h, l, True)]) NULL"
    using at ata ch by (simp add: m'_def m1_def mem_simps)
  then show "\<exists>k' m'. heap_expand hs l (k, m) = ((k', m'), True) \<and> heap_head k' = hs \<and>
      chain m' ?K NULL (pre @ [(a, s, False), (h, l, True)]) NULL"
    using ex hh by auto
qed

lemma malloc_inside:
  assumes rep: "krep hs he (k, m) (pre @ [(a, s, False)])"
    and tl: "heap_tail k = a" "brk_ptr k = he"
    and n: "n \<noteq> 0" "unat n + 7 < 2 ^ 64" "40 + unat (align_up n) \<le> unat s"
    and no: "find (fits (align_up n)) (pre @ [(a, s, False)]) = None"
  shows "\<exists>st' q. malloc hs n (k, m) = Some (st', q) \<and> q \<noteq> NULL \<and> unat (a + 40) + 40 \<le> unat q \<and>
    unat q + unat (align_up n) = unat (a + 40) + unat s"
proof -
  define l where "l = align_up n"
  let ?K = KERNEL_MAGIC let ?bs = "pre @ [(a, s, False)]"
  define h where "h = he - (l + 40)"
  obtain k' m' where ex: "heap_expand hs l (k, m) = ((k', m'), True)" "heap_head k' = hs"
      and ch: "chain m' ?K NULL (?bs @ [(h, l, True)]) NULL"
    using heap_expand_inside(1) [OF rep tl n(2) l_def n(3) [folded l_def]]
    unfolding h_def append_assoc append.simps by blast
  note h = heap_expand_inside(2,3,4) [OF rep tl n(2) l_def n(3) [folded l_def], folded h_def]
  have wf: "heap_wf m ?K (unat hs) ?bs (unat he)" using rep by (simp add: krep_def)
  have "NULL \<notin> fst ` set ?bs" by (rule heap_wf_no_null [OF wf])
  then have nn: "NULL \<notin> fst ` set (?bs @ [(h, l, True)])" using h(3) by simp
  have fd: "find (fits l) (?bs @ [(h, l, True)]) = Some (h, l, True)"
    using find_append_None [OF no [folded l_def], of "[(h, l, True)]"] by simp
  have ff: "find_fit (k, m) l = Some NULL"
    using find_fit_rep [OF rep, of l] no by (simp add: l_def)
  have hd: "hd_addr (?bs @ [(h, l, True)]) NULL = hs"
    using krep_hd(1) [OF rep] by (cases pre) auto
  have ff': "find_fit (k', m') l = Some h"
    using blk_find_fit_list [OF ch nn, of l] ex(2) fd hd by (simp add: find_fit_def)
  have lp: "malloc_loop hs l (k, m) = Some ((k', m'), h)"
    using ff ff' ex h(3) by (simp add: malloc_loop.simps)
  have s63: "unat s < 2 ^ 63" "unat a + 40 < 2 ^ 64" "unat a + 40 + unat s < 2 ^ 64"
    using wf by (auto simp: heap_wf_def tiles_append)
  have szh: "h_size (hdr m' h) = l" using ch by simp
  have sp: "split_block (k', m') h l = (k', m')"
    using blk_split_small [OF szh, of l] s63(1) n(3) [folded l_def] h(3) by (simp add: split_block_def)
  have "malloc hs n (k, m) = Some ((k', set_free m' h 0), h + 40)"
    using n(1) lp h(3) sp by (simp add: malloc_def l_def header_to_payload_def)
  moreover have ua: "unat (a + 40) = unat a + 40" using s63(2) unat_add_of_nat [of a 40] by simp
  moreover have "unat h + 40 < 2 ^ 64" using h(1) s63(3) by linarith
  then have uh: "unat (h + 40) = unat h + 40" using unat_add_of_nat [of h 40] by simp
  moreover have "h + 40 \<noteq> NULL" using uh by auto
  ultimately show ?thesis using h(1) n(3) [folded l_def] unfolding l_def [symmetric] by auto
qed

section \<open>Concrete heaps\<close>

text \<open>A region of 4096 bytes: as initialised, after one call, and with no free block left.\<close>

definition demo_k0 :: kstate where
  "demo_k0 = malloc_init 0x1000 0x1000
     (\<lparr>heap_head = NULL, heap_tail = NULL, managed_heap_end = NULL, brk_ptr = NULL\<rparr>, \<lambda>_. 0xFF)"

definition demo_k1 :: kstate where
  "demo_k1 = fst (the (malloc 0x1000 24 demo_k0))"

definition demo_kfull :: kstate where
  "demo_kfull = fst (the (malloc 0x1000 0xFD8 demo_k0))"

lemma demo_k0_rep: "krep 0x1000 0x2000 demo_k0 [(0x1000, 0xFD8, True)]"
  using krep_init(1) [of "0x1000" "0x1000"
      "\<lparr>heap_head = NULL, heap_tail = NULL, managed_heap_end = NULL, brk_ptr = NULL\<rparr>"]
  by (simp add: demo_k0_def)

lemma demo_k_malloc:
  "a_malloc 24 [(0x1000, 0xFD8, True)] = ([(0x1000, 24, False), (0x1040, 0xF98, True)], 0x1028)"
  "a_malloc 0xFD8 [(0x1000, 0xFD8, True)] = ([(0x1000, 0xFD8, False)], 0x1028)"
  by (simp_all add: a_malloc_def align_up_def cut_def)

lemma demo_k_adm: "k_admissible [(0x1000, 0xFD8, True)] 24" "k_admissible [(0x1000, 0xFD8, True)] 0xFD8"
  by (simp_all add: k_admissible_def align_up_def)

lemma demo_k1_rep: "krep 0x1000 0x2000 demo_k1 [(0x1000, 24, False), (0x1040, 0xF98, True)]"
  using malloc_refines [OF demo_k0_rep demo_k_adm(1), of "0x1000"] by (auto simp: demo_k1_def demo_k_malloc)

lemma demo_kfull_rep: "krep 0x1000 0x2000 demo_kfull [(0x1000, 0xFD8, False)]"
  using malloc_refines [OF demo_k0_rep demo_k_adm(2), of "0x1000"]
  by (auto simp: demo_kfull_def demo_k_malloc)

lemma demo_kfull_ptrs: "heap_tail (fst demo_kfull) = 0x1000" "brk_ptr (fst demo_kfull) = 0x2000"
proof -
  obtain m where m: "demo_k0 = (\<lparr>heap_head = 0x1000, heap_tail = 0x1000, managed_heap_end = 0x2000,
      brk_ptr = 0x2000\<rparr>, m)"
    by (simp add: demo_k0_def malloc_init_def Let_def)
  have ff: "find_fit demo_k0 0xFD8 = Some 0x1000"
    using find_fit_rep [OF demo_k0_rep, of "0xFD8"] by simp
  have "h_size (hdr m 0x1000) = 0xFD8" using demo_k0_rep by (simp add: m krep_def heap_wf_def)
  then have sp: "split_block demo_k0 0x1000 0xFD8 = demo_k0"
    by (simp add: m split_block_def blk_split_def)
  have "malloc 0x1000 0xFD8 demo_k0 = Some ((fst demo_k0, set_free m 0x1000 0), 0x1028)"
    using ff sp by (simp add: malloc_def align_up_def malloc_loop.simps header_to_payload_def m)
  then show "heap_tail (fst demo_kfull) = 0x1000" "brk_ptr (fst demo_kfull) = 0x2000"
    by (simp_all add: demo_kfull_def m)
qed

section \<open>Correctness of the kernel allocator\<close>

text \<open>
  \<open>malloc_init\<close> turns the region into one free block that covers it, whatever bytes
  the region held.
\<close>

lemma malloc_init_establishes:
  assumes "0 < unat hs" "40 \<le> unat n" "unat hs + unat n < 2 ^ 63"
  shows "krep hs (hs + n) (malloc_init hs n (k, m)) [(hs, n - 40, True)]"
  using assms by (rule krep_init(1))

text \<open>
  While a free block is large enough, \<open>malloc\<close> returns a payload of at least the
  requested size that was not in use and overlaps no payload in use; every payload in use
  keeps its address, size and bytes.
\<close>

lemma malloc_correct:
  assumes "krep hs he st bs" "n \<noteq> 0" "k_admissible bs n"
  shows "\<exists>st' p bs' k. malloc hs n st = Some (st', p) \<and> p \<noteq> NULL \<and> krep hs he st' bs' \<and>
    live bs' = insert (p, k) (live bs) \<and> unat n \<le> k \<and> p \<notin> fst ` live bs \<and>
    (\<forall>(q, l) \<in> live bs. disjoint p k q l \<and> same_on (snd st) (snd st') q l)"
proof -
  obtain st' where al: "malloc hs n st = Some (st', snd (a_malloc n bs))"
    using malloc_refines [OF assms(1,3), of hs] by blast
  have p0: "snd (a_malloc n bs) \<noteq> NULL" using assms by (rule a_malloc_nonnull)
  show ?thesis
    using km.alloc_fresh [OF assms(1,3) al p0] km.alloc_keeps(1) [OF assms(1,3) al] al p0 by blast
qed

text \<open>
  C11: resizing a payload in use, when it fits already or some free block is large enough,
  returns a payload that is large enough and starts with the old bytes up to the smaller
  of the two sizes; every other payload in use keeps its place and bytes, and so does the
  memory outside the heap.  This holds for
  the shrinking, the in-place (several free successors absorbed) and the moving branch.
\<close>

theorem realloc_correct:
  assumes "krep hs he (k, m) bs" "(p, j) \<in> live bs" "n \<noteq> 0" "unat n + 7 < 2 ^ 64"
    "unat (align_up n) \<le> j \<or> k_admissible bs n"
  shows "\<exists>st' q. realloc hs p n (k, m) = Some (st', q) \<and> q \<noteq> NULL \<and>
    realloc_post (krep hs he st') (unat hs) (unat he) m (snd st') bs p j q n"
  using assms by (rule realloc_cases)

theorem realloc_correct_witness:
  "\<exists>st' q. realloc 0x1000 0x1028 100 (fst demo_k1, snd demo_k1) = Some (st', q) \<and> q \<noteq> NULL \<and>
     realloc_post (krep 0x1000 0x2000 st') 0x1000 0x2000 (snd demo_k1) (snd st')
       [(0x1000, 24, False), (0x1040, 0xF98, True)] 0x1028 24 q 100"
  using realloc_correct [of "0x1000" "0x2000" "fst demo_k1" "snd demo_k1"
      "[(0x1000, 24, False), (0x1040, 0xF98, True)]" "0x1028" 24 100] demo_k1_rep
  by (simp add: k_admissible_def align_up_def)

text \<open>
  C12: any sequence of \<open>malloc\<close> and \<open>free\<close> calls in which every request finds a free
  block runs to its end, returns the pointers of the abstract first-fit allocator, leaves
  a heap represented by the abstract result, and changes no byte of a payload that the
  sequence does not free.
\<close>

theorem kernel_calls_refine:
  assumes "krep hs he st bs" "a_run k_admissible cs bs = Some (bs', ps)"
  shows "\<exists>st'. run_calls (malloc hs) free cs st = Some (st', ps) \<and> krep hs he st' bs' \<and>
    (\<forall>q l. (q, l) \<in> live bs \<longrightarrow> q \<notin> released cs \<longrightarrow>
      (q, l) \<in> live bs' \<and> same_on (snd st) (snd st') q l)"
  using km.run_refines [OF assms] km.run_keeps [OF assms] by blast

theorem kernel_calls_refine_witness:
  "\<exists>st' bs'. run_calls (malloc 0x1000) free [Alloc 24, Alloc 100, Release 0x1028, Alloc 8] demo_k0
       = Some (st', [0x1028, 0x1068, 0x1028]) \<and> krep 0x1000 0x2000 st' bs'"
proof -
  have "\<exists>bs'. a_run k_admissible [Alloc 24, Alloc 100, Release 0x1028, Alloc 8] [(0x1000, 0xFD8, True)]
      = Some (bs', [0x1028, 0x1068, 0x1028])"
    by (simp add: a_malloc_def align_up_def cut_def k_admissible_def payload_to_header_def) blast
  then show ?thesis using kernel_calls_refine [OF demo_k0_rep] by blast
qed

text \<open>
  The statistics of the kernel heap: the walk returns, the managed total is the size
  of the region, and it splits into used payload, free payload and one header per block.
\<close>

lemma kmalloc_stats_rep:
  assumes "krep hs he st bs"
  shows "get_kmalloc_stats st = Some (plus_stats zero_stats bs)"
proof -
  have wf: "heap_wf (snd st) KERNEL_MAGIC (unat hs) bs (unat he)" and "heap_head (fst st) = hs" using assms by (simp_all add: krep_def)
  then show ?thesis using blk_stats_wf [OF wf] krep_hd(1) [OF assms] by (simp add: get_kmalloc_stats_def case_prod_beta)
qed

lemma kmalloc_stats_total:
  assumes "krep hs he st bs"
  shows "\<exists>s. get_kmalloc_stats st = Some s \<and> total_managed s = he - hs \<and>
    total_managed s = used_payload s + free_payload s + 40 * num_blocks s \<and>
    num_blocks s = num_used s + num_free s"
proof -
  have wf: "heap_wf (snd st) KERNEL_MAGIC (unat hs) bs (unat he)" using assms by (simp add: krep_def)
  show ?thesis
    using kmalloc_stats_rep [OF assms] stats_of_split [of bs] heap_wf_total [OF wf] by (simp add: plus_stats_def zero_stats_def)
qed

text \<open>
  C30: when no free block is large enough and the last block is in use and large enough,
  \<open>malloc\<close> still returns a pointer, and the new block (header and payload) lies inside the
  payload of that last block: the break starts at the top of the region that the first
  block already covers, so \<open>heap_expand\<close> hands out memory that is in use.
\<close>

theorem malloc_expand_overlaps:
  assumes "krep hs he (k, m) (pre @ [(a, s, False)])" "heap_tail k = a" "brk_ptr k = he"
    "n \<noteq> 0" "unat n + 7 < 2 ^ 64" "40 + unat (align_up n) \<le> unat s"
    "find (fits (align_up n)) (pre @ [(a, s, False)]) = None"
  shows "\<exists>st' q. malloc hs n (k, m) = Some (st', q) \<and> q \<noteq> NULL \<and> unat (a + 40) + 40 \<le> unat q \<and>
    unat q + unat (align_up n) = unat (a + 40) + unat s"
  using assms by (rule malloc_inside)

theorem malloc_expand_overlaps_witness:
  "\<exists>st' q. malloc 0x1000 24 (fst demo_kfull, snd demo_kfull) = Some (st', q) \<and>
     (0x1028, 0xFD8) \<in> live [(0x1000, 0xFD8, False)] \<and> 0x1028 \<le> unat q \<and> unat q + 24 = 0x2000"
  using malloc_expand_overlaps [of "0x1000" "0x2000" "fst demo_kfull" "snd demo_kfull" "[]" "0x1000"
      "0xFD8" 24] demo_kfull_rep demo_kfull_ptrs
  by (auto simp: align_up_def)

end
