(* ===== verification/Fat_Chain.thy ===== *)
theory Fat_Chain
  imports Libc_String
begin

text \<open>
  The lower half of \<open>fat16/fs.c\<close>: the allocation table, the cluster area of the RAM disk
  and the two transfer loops \<open>fs_read\<close> and \<open>fs_write\<close>.  The table is a function on the
  16-bit cluster numbers (the C array has \<open>FAT_ENTRIES\<close> cells; the lemmas show that a
  well-formed chain never leads outside it).  The disk and the buffers of the callers lie
  in the one byte memory; \<open>rd\<close> is the address that \<open>ramdisk_base\<close> returns.
\<close>

section \<open>Table and operations\<close>

type_synonym fat_table = "u16 \<Rightarrow> u16"

definition FAT_ENTRIES :: nat where "FAT_ENTRIES = 512 * 32"

definition RAMDISK_SIZE :: nat where "RAMDISK_SIZE = 64 * 1024 * 1024"

text \<open>The address of a cluster; \<open>cluster - 2\<close> may be negative, and then the sum wraps.\<close>

definition get_cluster :: "ptr \<Rightarrow> u16 \<Rightarrow> ptr" where
  "get_cluster rd cluster = rd + (1 + 2 * 32) * 512 + (ucast cluster - 2) * 1 * 512"

definition alloc_cluster :: "fat_table \<Rightarrow> fat_table \<times> u16" where
  "alloc_cluster f =
     (case scan (\<lambda>i. f (word_of_nat i) = 0) 2 FAT_ENTRIES of
        Some i \<Rightarrow> (f(word_of_nat i := 0xFFFF), word_of_nat i)
      | None \<Rightarrow> (f, 0))"

function free_chain_loop :: "fat_table \<Rightarrow> u16 \<Rightarrow> fat_table" where
  "free_chain_loop f cur =
     (if cur \<noteq> 0 \<and> unat cur < FAT_ENTRIES \<and> f cur \<noteq> 0 then
        let nx = f cur; f' = f(cur := 0)
        in if nx = 0xFFFF then f' else free_chain_loop f' nx
      else f)"
  by pat_completeness auto
termination
proof (relation "measure (\<lambda>(f :: fat_table, cur). card {c. f c \<noteq> 0})")
  fix f :: fat_table and cur x xa
  assume a: "cur \<noteq> 0 \<and> unat cur < FAT_ENTRIES \<and> f cur \<noteq> 0" "x = f cur" "xa = f(cur := 0)"
  have "{c. (f(cur := 0)) c \<noteq> 0} \<subset> {c. f c \<noteq> 0}" using a(1) by auto
  then have "card {c. (f(cur := 0)) c \<noteq> 0} < card {c. f c \<noteq> 0}" by (rule psubset_card_mono [rotated]) simp
  then show "((xa, x), (f, cur)) \<in> measure (\<lambda>(f, cur). card {c. f c \<noteq> 0})" using a by simp
qed simp

declare free_chain_loop.simps [simp del]

definition free_cluster_chain :: "fat_table \<Rightarrow> u16 \<Rightarrow> fat_table" where
  "free_cluster_chain f first =
     (if unat first < 2 \<or> FAT_ENTRIES \<le> unat first then f else free_chain_loop f first)"

text \<open>Every round of the two transfer loops moves at least one byte.\<close>

lemma transfer_less:
  fixes i n :: u64
  assumes "i < n"
  defines "k \<equiv> (if n - i > 512 then 512 else n - i)"
  shows "unat (i + k) = unat i + unat k" "0 < unat k" "unat k \<le> 512" "unat i + unat k \<le> unat n"
    "unat k = min 512 (unat n - unat i)" "unat n - unat (i + k) < unat n - unat i"
proof -
  have s: "unat (n - i) = unat n - unat i" "unat i < unat n"
    using assms(1) by (simp_all add: unat_sub_le word_less_nat_alt)
  then show k: "unat k = min 512 (unat n - unat i)"
    by (auto simp: k_def word_less_nat_alt)
  then show "0 < unat k" "unat k \<le> 512" and le: "unat i + unat k \<le> unat n" using s by auto
  have "unat n < 2 ^ LENGTH(64)" by (rule unat_less_2p)
  with le show e: "unat (i + k) = unat i + unat k" by (intro unat_add_small) simp
  show "unat n - unat (i + k) < unat n - unat i" unfolding e using \<open>0 < unat k\<close> s(2) by arith
qed

function fs_read_loop ::
  "ptr \<Rightarrow> fat_table \<Rightarrow> mem \<Rightarrow> u16 \<Rightarrow> ptr \<Rightarrow> u64 \<Rightarrow> u64 \<Rightarrow> mem \<times> u64"
where
  "fs_read_loop rd f m cur out rdn n =
     (if cur \<noteq> 0 \<and> unat cur < FAT_ENTRIES \<and> rdn < n then
        let clptr = get_cluster rd cur;
            to_copy = (if n - rdn > 512 then 512 else n - rdn);
            m' = memcpy m (out + rdn) clptr to_copy;
            rdn' = rdn + to_copy
        in if f cur = 0xFFFF then (m', rdn')
           else fs_read_loop rd f m' (f cur) out rdn' n
      else (m, rdn))"
  by pat_completeness auto
termination
proof (relation "measure (\<lambda>(rd, f, m, cur, out, rdn, n). unat n - unat rdn)")
  fix rd out :: ptr and f :: fat_table and m xb :: mem and cur :: u16 and rdn n xa xc :: u64
  assume "cur \<noteq> 0 \<and> unat cur < FAT_ENTRIES \<and> rdn < n"
    "xa = (if 512 < n - rdn then 512 else n - rdn)" "xc = rdn + xa"
  then show "((rd, f, xb, f cur, out, xc, n), (rd, f, m, cur, out, rdn, n))
      \<in> measure (\<lambda>(rd, f, m, cur, out, rdn, n). unat n - unat rdn)"
    using transfer_less(6) [of rdn n] by simp
qed simp

declare fs_read_loop.simps [simp del]

definition fs_read :: "ptr \<Rightarrow> fat_table \<Rightarrow> mem \<Rightarrow> u16 \<Rightarrow> ptr \<Rightarrow> u64 \<Rightarrow> mem \<times> u64" where
  "fs_read rd f m first buf n =
     (if unat first < 2 \<or> FAT_ENTRIES \<le> unat first then (m, 0)
      else fs_read_loop rd f m first buf 0 n)"

function fs_write_loop ::
  "ptr \<Rightarrow> fat_table \<Rightarrow> mem \<Rightarrow> u16 \<Rightarrow> ptr \<Rightarrow> u64 \<Rightarrow> u64 \<Rightarrow> fat_table \<times> mem \<times> u64"
where
  "fs_write_loop rd f m cur data wr n =
     (if wr < n then
        let clptr = get_cluster rd cur;
            to_write = (if n - wr > 512 then 512 else n - wr);
            m' = memcpy m clptr (data + wr) to_write;
            wr' = wr + to_write
        in if wr' < n then
             if f cur = 0xFFFF then
               let f' = fst (alloc_cluster f); nc = snd (alloc_cluster f)
               in if nc = 0 then (f'(cur := 0xFFFF), m', wr')
                  else fs_write_loop rd (f'(cur := nc)) m' nc data wr' n
             else fs_write_loop rd f m' (f cur) data wr' n
           else (f(cur := 0xFFFF), m', wr')
      else (f, m, wr))"
  by pat_completeness auto
termination
proof (relation "measure (\<lambda>(rd, f, m, cur, data, wr, n). unat n - unat wr)")
  fix rd data :: ptr and f xd :: fat_table and m xb :: mem and cur xe :: u16 and wr n xa xc :: u64
  assume "wr < n" "xa = (if 512 < n - wr then 512 else n - wr)" "xc = wr + xa"
  then have lt: "unat n - unat xc < unat n - unat wr"
    using transfer_less(6) [of wr n] by simp
  then show "((rd, xd(cur := xe), xb, xe, data, xc, n), (rd, f, m, cur, data, wr, n))
      \<in> measure (\<lambda>(rd, f, m, cur, data, wr, n). unat n - unat wr)" by simp
  from lt show "((rd, f, xb, f cur, data, xc, n), (rd, f, m, cur, data, wr, n))
      \<in> measure (\<lambda>(rd, f, m, cur, data, wr, n). unat n - unat wr)" by simp
qed simp

declare fs_write_loop.simps [simp del]

definition fs_write :: "ptr \<Rightarrow> fat_table \<Rightarrow> mem \<Rightarrow> u16 \<Rightarrow> ptr \<Rightarrow> u64 \<Rightarrow> fat_table \<times> mem \<times> u64" where
  "fs_write rd f m first buf n =
     (if unat first < 2 \<or> FAT_ENTRIES \<le> unat first then (f, m, 0)
      else fs_write_loop rd f m first buf 0 n)"

section \<open>Clusters on the disk\<close>

definition cluster_ok :: "u16 \<Rightarrow> bool" where
  "cluster_ok c \<longleftrightarrow> 2 \<le> unat c \<and> unat c < FAT_ENTRIES"

definition disk_ok :: "ptr \<Rightarrow> bool" where
  "disk_ok rd \<longleftrightarrow> unat rd + RAMDISK_SIZE \<le> 2 ^ 64"

definition cluster_bytes :: "ptr \<Rightarrow> mem \<Rightarrow> u16 \<Rightarrow> u8 list" where
  "cluster_bytes rd m c = ld_bytes m (get_cluster rd c) 512"

lemma cluster_ok_neq: "cluster_ok c \<Longrightarrow> c \<noteq> 0" "cluster_ok c \<Longrightarrow> c \<noteq> 0xFFFF"
  by (auto simp: cluster_ok_def FAT_ENTRIES_def)

lemma unat_get_cluster:
  assumes "disk_ok rd" "cluster_ok c"
  shows "unat (get_cluster rd c) = unat rd + 33280 + (unat c - 2) * 512"
    "unat rd \<le> unat (get_cluster rd c)" "unat (get_cluster rd c) + 512 \<le> unat rd + RAMDISK_SIZE"
proof -
  let ?k = "33280 + (unat c - 2) * 512"
  have c: "2 \<le> unat c" "unat c < 16384"
    using assms(2) by (simp_all add: cluster_ok_def FAT_ENTRIES_def)
  then have k: "?k + 512 \<le> RAMDISK_SIZE" "2 \<le> unat c" by (simp_all add: RAMDISK_SIZE_def)
  have "(ucast c :: u64) = word_of_nat (unat c)" by simp
  then have "get_cluster rd c = rd + word_of_nat ?k"
    using k(2) by (simp add: get_cluster_def of_nat_diff)
  moreover have "unat rd + ?k < 2 ^ 64" using k(1) assms(1) by (simp add: disk_ok_def)
  ultimately show u: "unat (get_cluster rd c) = unat rd + 33280 + (unat c - 2) * 512"
    using unat_add_of_nat [of rd ?k] by simp
  show "unat rd \<le> unat (get_cluster rd c)" "unat (get_cluster rd c) + 512 \<le> unat rd + RAMDISK_SIZE"
    using u k(1) by simp_all
qed

lemma clusters_disjoint:
  assumes "disk_ok rd" "cluster_ok c" "cluster_ok d" "c \<noteq> d"
  shows "disjoint (get_cluster rd c) 512 (get_cluster rd d) 512"
proof -
  have "unat c \<noteq> unat d" using assms(4) by (simp flip: word_unat_eq_iff)
  moreover have "2 \<le> unat c" "2 \<le> unat d" using assms by (simp_all add: cluster_ok_def)
  ultimately have "unat c - 2 + 1 \<le> unat d - 2 \<or> unat d - 2 + 1 \<le> unat c - 2" by arith
  then have "(unat c - 2) * 512 + 512 \<le> (unat d - 2) * 512 \<or> (unat d - 2) * 512 + 512 \<le> (unat c - 2) * 512"
    by auto
  then show ?thesis
    using unat_get_cluster(1) assms(1-3) by (auto simp: disjoint_def)
qed

lemma cluster_bytes_cong:
  assumes "disk_ok rd" "cluster_ok c" "same_on m m' (get_cluster rd c) 512"
  shows "cluster_bytes rd m' c = cluster_bytes rd m c"
  using ld_bytes_cong [OF assms(3)] unat_get_cluster [OF assms(1,2)] assms(1)
  by (simp add: cluster_bytes_def disk_ok_def)

section \<open>Chains\<close>

text \<open>The clusters of a file: linked in the table, each inside it, the last marked as the end.\<close>

fun cchain :: "fat_table \<Rightarrow> u16 list \<Rightarrow> bool" where
  "cchain f [] \<longleftrightarrow> False"
| "cchain f [c] \<longleftrightarrow> cluster_ok c \<and> f c = 0xFFFF"
| "cchain f (c # d # cs) \<longleftrightarrow> cluster_ok c \<and> f c = d \<and> c \<notin> set (d # cs) \<and> cchain f (d # cs)"

lemma cchain_ok: "cchain f cs \<Longrightarrow> c \<in> set cs \<Longrightarrow> cluster_ok c"
  by (induction f cs rule: cchain.induct) auto

lemma cchain_distinct: "cchain f cs \<Longrightarrow> distinct cs"
  by (induction f cs rule: cchain.induct) auto

lemma cchain_used: "cchain f cs \<Longrightarrow> c \<in> set cs \<Longrightarrow> f c \<noteq> 0"
proof (induction f cs rule: cchain.induct)
  case (3 f c' d cs)
  then show ?case using cluster_ok_neq(1) [of d] cchain_ok [of f "d # cs" d] by auto
qed auto

lemma cchain_cong: "(\<And>c. c \<in> set cs \<Longrightarrow> f' c = f c) \<Longrightarrow> cchain f cs \<Longrightarrow> cchain f' cs"
  by (induction f cs rule: cchain.induct) auto

lemma cchain_Cons:
  assumes "cchain f (c # cs)"
  shows "f c = 0xFFFF \<longleftrightarrow> cs = []" "cs \<noteq> [] \<Longrightarrow> f c = hd cs" "cs \<noteq> [] \<Longrightarrow> cchain f cs"
  using assms cchain_ok [of f cs "hd cs"] cluster_ok_neq(2) [of "hd cs"] by (cases cs; auto)+

lemma alloc_cluster_Some:
  assumes "alloc_cluster f = (f', c)" "c \<noteq> 0"
  shows "cluster_ok c" "f c = 0" "f' = f(c := 0xFFFF)"
proof -
  let ?s = "scan (\<lambda>i. f (word_of_nat i) = 0) 2 FAT_ENTRIES"
  have "?s \<noteq> None"
  proof
    assume "?s = None"
    then have "alloc_cluster f = (f, 0)" by (simp only: alloc_cluster_def option.case)
    then show False using assms by simp
  qed
  then obtain i where i1: "?s = Some i" by blast
  have "(f(word_of_nat i := 0xFFFF), word_of_nat i) = (f', c)"
    using assms(1) unfolding alloc_cluster_def i1 option.case .
  then have i: "?s = Some i" "f' = f(word_of_nat i := 0xFFFF)" "c = word_of_nat i" using i1 by blast+
  have r: "2 \<le> i" "i < FAT_ENTRIES" "f (word_of_nat i) = 0" using scan_SomeD [OF i(1)] by simp_all
  have u: "unat c = i" using i(3) r(2) by (simp add: unat_of_nat FAT_ENTRIES_def)
  show "cluster_ok c" using r u by (simp add: cluster_ok_def)
  show "f c = 0" "f' = f(c := 0xFFFF)" using r(3) i(2,3) by simp_all
qed

lemma alloc_cluster_None:
  assumes "alloc_cluster f = (f', 0)"
  shows "f' = f" "cluster_ok c \<Longrightarrow> f c \<noteq> 0"
proof -
  have n: "scan (\<lambda>i. f (word_of_nat i) = 0) 2 FAT_ENTRIES = None"
  proof (rule ccontr)
    assume "scan (\<lambda>i. f (word_of_nat i) = 0) 2 FAT_ENTRIES \<noteq> None"
    then obtain i where i: "scan (\<lambda>i. f (word_of_nat i) = 0) 2 FAT_ENTRIES = Some i" by auto
    have "unat (word_of_nat i :: u16) = i" "2 \<le> i"
      using scan_SomeD [OF i] by (simp_all add: unat_of_nat FAT_ENTRIES_def)
    moreover have "(word_of_nat i :: u16) = 0" using assms i by (simp add: alloc_cluster_def)
    ultimately show False by simp
  qed
  then show "f' = f" using assms by (simp add: alloc_cluster_def)
  assume "cluster_ok c"
  then show "f c \<noteq> 0"
    using n [unfolded scan_None, rule_format, of "unat c"] by (simp add: cluster_ok_def)
qed

text \<open>Freeing a chain clears its cells and no other.\<close>

lemma free_chain_loop_cchain:
  "cchain f cs \<Longrightarrow> free_chain_loop f (hd cs) = (\<lambda>c. if c \<in> set cs then 0 else f c)"
proof (induction cs arbitrary: f)
  case (Cons c cs)
  have ok: "cluster_ok c" "c \<noteq> 0" "f c \<noteq> 0" "unat c < FAT_ENTRIES"
    using Cons.prems cchain_ok [of f "c # cs" c] cchain_used [of f "c # cs" c] cluster_ok_neq(1) [of c]
    by (auto simp: cluster_ok_def)
  have dis: "c \<notin> set cs" using cchain_distinct [OF Cons.prems] by simp
  show ?case
  proof (cases "cs = []")
    case True
    then show ?thesis using Cons.prems ok by (subst free_chain_loop.simps) auto
  next
    case False
    have "cchain (f(c := 0)) cs"
      using cchain_Cons(3) [OF Cons.prems False] dis by (rule_tac cchain_cong [of cs "f(c := 0)" f]) auto
    then have "free_chain_loop (f(c := 0)) (hd cs) = (\<lambda>x. if x \<in> set cs then 0 else (f(c := 0)) x)"
      by (rule Cons.IH)
    then show ?thesis
      using ok cchain_Cons [OF Cons.prems] False
      by (subst free_chain_loop.simps) (auto simp: Let_def fun_eq_iff)
  qed
qed simp

lemma free_cluster_chain_cchain:
  assumes "cchain f cs"
  shows "free_cluster_chain f (hd cs) = (\<lambda>c. if c \<in> set cs then 0 else f c)"
proof -
  have "cluster_ok (hd cs)" using assms cchain_ok [of f cs "hd cs"] by (cases cs) auto
  then show ?thesis
    using free_chain_loop_cchain [OF assms] by (simp add: free_cluster_chain_def cluster_ok_def)
qed

section \<open>Reading a chain\<close>

definition file_bytes :: "ptr \<Rightarrow> mem \<Rightarrow> u16 list \<Rightarrow> u8 list" where
  "file_bytes rd m cs = concat (map (cluster_bytes rd m) cs)"

text \<open>A buffer of the caller that does not overlap the disk.\<close>

definition buf_ok :: "ptr \<Rightarrow> ptr \<Rightarrow> nat \<Rightarrow> bool" where
  "buf_ok rd b n \<longleftrightarrow> unat b + n \<le> 2 ^ 64 \<and> disjoint b n rd RAMDISK_SIZE"

lemma length_cluster_bytes [simp]: "length (cluster_bytes rd m c) = 512"
  by (simp add: cluster_bytes_def)

lemma length_file_bytes [simp]: "length (file_bytes rd m cs) = 512 * length cs"
  by (induction cs) (simp_all add: file_bytes_def)

lemma file_bytes_Cons: "file_bytes rd m (c # cs) = cluster_bytes rd m c @ file_bytes rd m cs"
  by (simp add: file_bytes_def)

lemma file_bytes_cong:
  assumes "disk_ok rd" "\<And>c. c \<in> set cs \<Longrightarrow> cluster_ok c \<and> same_on m m' (get_cluster rd c) 512"
  shows "file_bytes rd m' cs = file_bytes rd m cs"
  unfolding file_bytes_def
  using assms cluster_bytes_cong [OF assms(1)] by (intro arg_cong [of _ _ concat] map_cong) auto

text \<open>One round of a transfer: the part of the buffer that it touches.\<close>

lemma buf_part:
  assumes "buf_ok rd b (unat n)" "i < n"
  defines "k \<equiv> min 512 (unat n - unat i)"
  shows "unat (b + i) = unat b + unat i" "unat b + unat i + k \<le> unat b + unat n"
    "disk_ok rd \<Longrightarrow> cluster_ok c \<Longrightarrow> l \<le> 512 \<Longrightarrow> disjoint (b + i) k (get_cluster rd c) l"
proof -
  have i: "unat i < unat n" using assms(2) by (simp add: word_less_nat_alt)
  then have "unat b + unat i < 2 ^ LENGTH(64)" using assms(1) by (simp add: buf_ok_def)
  then show u: "unat (b + i) = unat b + unat i" by (rule unat_add_small)
  show le: "unat b + unat i + k \<le> unat b + unat n" using i by (simp add: k_def)
  show "disjoint (b + i) k (get_cluster rd c) l" if "disk_ok rd" "cluster_ok c" "l \<le> 512"
    using unat_get_cluster(2,3) [OF that(1,2)] that(3) u le assms(1)
    by (auto simp: buf_ok_def disjoint_def)
qed

lemma take_transfer:
  "k = min 512 l \<Longrightarrow> length xs = 512 \<Longrightarrow> take l (xs @ ys) = take k xs @ take (l - k) ys"
  by (cases "l \<le> 512") (auto simp: min_def)

lemma fs_read_loop_chain:
  assumes rd: "disk_ok rd" and buf: "buf_ok rd out (unat n)"
  shows "cchain f cs \<Longrightarrow> unat i \<le> unat n \<Longrightarrow> fs_read_loop rd f m (hd cs) out i n =
    (st_bytes m (out + i) (take (unat n - unat i) (file_bytes rd m cs)),
     word_of_nat (min (unat n) (unat i + 512 * length cs)))"
proof (induction cs arbitrary: m i)
  case (Cons c cs)
  have ok: "cluster_ok c" "c \<noteq> 0" "unat c < FAT_ENTRIES"
    using cchain_ok [OF Cons.prems(1), of c] cluster_ok_neq(1) [of c] by (auto simp: cluster_ok_def)
  show ?case
  proof (cases "i < n")
    case False
    then have "i = n" using Cons.prems(2) by (simp add: word_less_nat_alt flip: word_unat_eq_iff)
    then show ?thesis by (subst fs_read_loop.simps) simp
  next
    case True
    let ?g = "get_cluster rd c"
    define k where "k = (if n - i > 512 then 512 else n - i)"
    note tk = transfer_less [OF True, folded k_def]
    note bp = buf_part [OF buf True, folded tk(5)]
    define m' where "m' = memcpy m (out + i) ?g k"
    have sub: "unat ?g + 512 \<le> 2 ^ 64"
      using unat_get_cluster(3) [OF rd ok(1)] rd by (simp add: disk_ok_def)
    have m': "m' = st_bytes m (out + i) (take (unat k) (cluster_bytes rd m c))"
      unfolding m'_def cluster_bytes_def take_ld_bytes [OF tk(3)]
      using bp tk(3) sub buf rd ok(1) by (intro memcpy_disjoint) (auto simp: buf_ok_def)
    have same: "file_bytes rd m' ds = file_bytes rd m ds" if "\<forall>d\<in>set ds. cluster_ok d" for ds
      unfolding m' using that bp tk(3) buf rd
      by (intro file_bytes_cong same_on_st_bytes conjI) (auto simp: buf_ok_def)
    have le: "unat (i + k) \<le> unat n" using tk by simp
    have tot: "min (unat n) (unat i + 512 * length (c # cs)) = min (unat n) (unat (i + k) + 512 * length cs)"
      unfolding tk(1,5) by (cases "unat n - unat i \<le> 512") (auto simp: min_def)
    have split: "take (unat n - unat i) (file_bytes rd m (c # cs)) =
        take (unat k) (cluster_bytes rd m c) @ take (unat n - unat (i + k)) (file_bytes rd m cs)"
      unfolding file_bytes_Cons tk(1) diff_diff_left [symmetric] by (rule take_transfer [OF tk(5)]) simp
    have glue: "st_bytes m' (out + (i + k)) ys = st_bytes m (out + i) (take (unat k) (cluster_bytes rd m c) @ ys)"
      for ys using tk(3) by (simp add: m' st_bytes_append add.assoc)
    have step: "fs_read_loop rd f m c out i n =
        (if f c = 0xFFFF then (m', i + k) else fs_read_loop rd f m' (f c) out (i + k) n)"
      using ok True by (subst fs_read_loop.simps) (simp add: Let_def m'_def k_def)
    show ?thesis
    proof (cases "cs = []")
      case True
      then have "f c = 0xFFFF" using cchain_Cons(1) [OF Cons.prems(1)] by simp
      moreover have "word_of_nat (min (unat n) (unat (i + k))) = i + k" using le by (simp add: min_absorb2)
      ultimately show ?thesis
        using step split tot glue [of "[]"] True by (simp add: file_bytes_def)
    next
      case False
      have ch: "cchain f cs" "f c = hd cs" "f c \<noteq> 0xFFFF"
        using cchain_Cons [OF Cons.prems(1)] False by auto
      show ?thesis
        using Cons.IH [OF ch(1) le, of m'] ch step split tot
          same [of cs] cchain_ok [OF ch(1)] by (simp add: glue)
    qed
  qed
qed simp

lemma fs_read_chain:
  assumes "disk_ok rd" "buf_ok rd out (unat n)" "cchain f cs"
  shows "fs_read rd f m (hd cs) out n =
    (st_bytes m out (take (unat n) (file_bytes rd m cs)), word_of_nat (min (unat n) (512 * length cs)))"
proof -
  have "cluster_ok (hd cs)" using assms(3) cchain_ok [of f cs "hd cs"] by (cases cs) auto
  then show ?thesis
    using fs_read_loop_chain [OF assms(1,2,3), of 0 m] by (simp add: fs_read_def cluster_ok_def)
qed

text \<open>Whatever the table holds, reading writes only to the buffer.\<close>

lemma fs_read_loop_outside:
  assumes "unat out + unat n \<le> 2 ^ 64" "\<not> in_range x out (unat n)"
  shows "unat i \<le> unat n \<Longrightarrow> fst (fs_read_loop rd f m cur out i n) x = m x"
  using assms
proof (induction rd f m cur out i n rule: fs_read_loop.induct)
  case (1 rd f m cur out i n)
  show ?case
  proof (cases "cur \<noteq> 0 \<and> unat cur < FAT_ENTRIES \<and> i < n")
    case True
    define k where "k = (if n - i > 512 then 512 else n - i)"
    define m' where "m' = memcpy m (out + i) (get_cluster rd cur) k"
    note tk = transfer_less [OF conjunct2 [OF conjunct2 [OF True]], folded k_def]
    have o: "unat (out + i) = unat out + unat i" using "1.prems"(2) tk(2,4) by (intro unat_add_small) simp
    have "m' x = m x"
      unfolding m'_def using "1.prems"(2,3) tk(2,4) o by (intro memcpy_outside) (auto simp: in_range_def)
    moreover have "fst (fs_read_loop rd f m' (f cur) out (i + k) n) x = m' x" if "f cur \<noteq> 0xFFFF"
      using that True tk "1.prems" by (intro "1.IH") (simp_all add: k_def m'_def)
    moreover have "fs_read_loop rd f m cur out i n =
        (if f cur = 0xFFFF then (m', i + k) else fs_read_loop rd f m' (f cur) out (i + k) n)"
      using True by (subst fs_read_loop.simps) (simp add: Let_def m'_def k_def)
    ultimately show ?thesis by simp
  next
    case False
    then show ?thesis by (subst fs_read_loop.simps) auto
  qed
qed

section \<open>Writing a chain\<close>

definition off_clusters :: "ptr \<Rightarrow> mem \<Rightarrow> mem \<Rightarrow> u16 set \<Rightarrow> bool" where
  "off_clusters rd m m' S \<longleftrightarrow> (\<forall>x. (\<forall>c\<in>S. \<not> in_range x (get_cluster rd c) 512) \<longrightarrow> m' x = m x)"

lemma off_clusters_same:
  assumes "off_clusters rd m m' S" "\<And>c. c \<in> S \<Longrightarrow> disjoint (get_cluster rd c) 512 b k"
  shows "same_on m m' b k"
  unfolding same_on_def
proof (intro allI impI)
  fix x assume "in_range x b k"
  then have "\<not> in_range x (get_cluster rd c) 512" if "c \<in> S" for c
    using assms(2) [OF that] by (auto simp: in_range_def disjoint_def)
  then show "m x = m' x" using assms(1) by (simp add: off_clusters_def)
qed

lemma off_clusters_trans:
  "off_clusters rd m m1 S \<Longrightarrow> off_clusters rd m1 m' T \<Longrightarrow> off_clusters rd m m' (S \<union> T)"
  by (simp add: off_clusters_def)

text \<open>
  What writing from byte \<open>i\<close> on into the chain \<open>cur # cs\<close> leaves: a chain that starts
  with \<open>cur\<close>, extends the old one by free clusters only, and holds the written bytes; the
  other chains and the bytes outside the clusters of the new chain are as before; fewer
  bytes than asked for are written only when no cluster is free.
\<close>

definition write_post ::
  "ptr \<Rightarrow> fat_table \<Rightarrow> mem \<Rightarrow> u16 \<Rightarrow> u16 list \<Rightarrow> ptr \<Rightarrow> u64 \<Rightarrow> u64 \<Rightarrow> fat_table \<times> mem \<times> u64 \<Rightarrow> u16 list \<Rightarrow> bool"
where
  "write_post rd f m cur cs data i n = (\<lambda>(f', m', w) cs'.
     cchain f' (cur # cs') \<and> set cs' \<subseteq> set cs \<union> {c. f c = 0} \<and>
     (\<forall>c. c \<notin> set (cur # cs) \<longrightarrow> f c \<noteq> 0 \<longrightarrow> f' c = f c) \<and>
     off_clusters rd m m' (set (cur # cs')) \<and> unat i \<le> unat w \<and> unat w \<le> unat n \<and>
     take (unat w - unat i) (file_bytes rd m' (cur # cs')) = ld_bytes m (data + i) (unat w - unat i) \<and>
     unat w - unat i \<le> 512 * length (cur # cs') \<and>
     (w \<noteq> n \<longrightarrow> (\<forall>c. cluster_ok c \<longrightarrow> f' c \<noteq> 0)))"

lemma write_round:
  fixes m :: mem
  assumes rd: "disk_ok rd" and buf: "buf_ok rd data (unat n)" and lt: "i < n" and ok: "cluster_ok cur"
  defines "k \<equiv> (if n - i > 512 then 512 else n - i)"
  defines "m1 \<equiv> memcpy m (get_cluster rd cur) (data + i) k"
  shows "off_clusters rd m m1 {cur}" "take (unat k) (cluster_bytes rd m1 cur) = ld_bytes m (data + i) (unat k)"
    "\<And>j l. unat j + l \<le> unat n \<Longrightarrow> ld_bytes m1 (data + j) l = ld_bytes m (data + j) l"
proof -
  let ?g = "get_cluster rd cur"
  note tk = transfer_less [OF lt, folded k_def]
  note bp = buf_part [OF buf lt, folded tk(5)]
  note g = unat_get_cluster(2,3) [OF rd ok]
  have sub: "unat ?g + 512 \<le> 2 ^ 64" using g rd by (simp add: disk_ok_def)
  let ?xs = "ld_bytes m (data + i) (unat k)"
  have m1: "m1 = st_bytes m ?g ?xs"
    unfolding m1_def
  proof (rule memcpy_disjoint)
    show "disjoint ?g (unat k) (data + i) (unat k)" using bp(3) [OF rd ok tk(3)] by (rule disjoint_sym)
    show "unat ?g + unat k \<le> 2 ^ 64" using sub tk(3) by simp
    show "unat (data + i) + unat k \<le> 2 ^ 64" using bp(1,2) buf by (simp add: buf_ok_def)
  qed
  show "off_clusters rd m m1 {cur}"
    unfolding off_clusters_def m1 using tk(3) sub
    by (auto intro!: st_bytes_outside simp: in_range_def)
  show "take (unat k) (cluster_bytes rd m1 cur) = ?xs"
    unfolding cluster_bytes_def take_ld_bytes [OF tk(3)] m1
    using ld_st_bytes [of ?g ?xs m] tk(3) sub by simp
  fix j :: u64 and l :: nat assume j: "unat j + l \<le> unat n"
  show "ld_bytes m1 (data + j) l = ld_bytes m (data + j) l"
  proof (cases "l = 0")
    case False
    then have u: "unat (data + j) = unat data + unat j"
      using j buf by (intro unat_add_small) (auto simp: buf_ok_def)
    have "same_on m m1 (data + j) l"
      unfolding m1 using u j buf g tk(3) sub
      by (intro same_on_st_bytes) (auto simp: buf_ok_def disjoint_def)
    then show ?thesis
      using ld_bytes_cong [of m m1 "data + j" l] u j buf by (simp add: buf_ok_def)
  qed simp
qed

text \<open>One round that goes on to the next cluster, put before the rounds that follow.\<close>

lemma write_extend:
  fixes m :: mem and i :: u64
  assumes rd: "disk_ok rd" and buf: "buf_ok rd data (unat n)" and ok: "cluster_ok cur"
  defines "k \<equiv> (if n - i > 512 then 512 else n - i)"
  defines "m1 \<equiv> memcpy m (get_cluster rd cur) (data + i) k"
  assumes lt: "i < n" "i + k < n"
    and f1: "f1 cur = nx" "nx \<noteq> 0" "cur \<notin> set (nx # ds)" "set (nx # ds) \<subseteq> set cs \<union> {c. f c = 0}"
      "\<And>c. f1 c = 0 \<Longrightarrow> f c = 0" "\<And>c. c \<notin> set (cur # cs) \<Longrightarrow> f c \<noteq> 0 \<Longrightarrow> f1 c = f c"
    and cur: "f cur \<noteq> 0"
    and ih: "write_post rd f1 m1 nx ds data (i + k) n (f', m', w) cs'"
  shows "write_post rd f m cur cs data i n (f', m', w) (nx # cs')"
proof -
  note tk = transfer_less [OF lt(1), folded k_def]
  note rn = write_round [OF rd buf lt(1) ok, folded k_def, where m = m, folded m1_def]
  have "unat i + unat k < unat n" using tk(1) lt(2) by (simp add: word_less_nat_alt)
  then have k: "unat k = 512" unfolding tk(5) by linarith
  from ih have ch: "cchain f' (nx # cs')" and cs': "set cs' \<subseteq> set ds \<union> {c. f1 c = 0}"
    and fr: "\<And>c. c \<notin> set (nx # ds) \<Longrightarrow> f1 c \<noteq> 0 \<Longrightarrow> f' c = f1 c"
    and off: "off_clusters rd m1 m' (set (nx # cs'))"
    and w: "unat (i + k) \<le> unat w" "unat w \<le> unat n" "unat w - unat (i + k) \<le> 512 * length (nx # cs')"
    and by': "take (unat w - unat (i + k)) (file_bytes rd m' (nx # cs')) =
      ld_bytes m1 (data + (i + k)) (unat w - unat (i + k))"
    and full: "w \<noteq> n \<longrightarrow> (\<forall>c. cluster_ok c \<longrightarrow> f' c \<noteq> 0)"
    by (auto simp: write_post_def)
  have curnot: "cur \<notin> set (nx # cs')" using cs' f1 by auto
  have "f' cur = nx" using fr [OF f1(3)] f1(1,2) by simp
  then have chain: "cchain f' (cur # nx # cs')" using ch ok curnot by simp
  have sub: "set (nx # cs') \<subseteq> set cs \<union> {c. f c = 0}" using cs' f1(4,5) by auto
  have frame: "f' c = f c" if "c \<notin> set (cur # cs)" "f c \<noteq> 0" for c
  proof -
    have "f1 c = f c" "c \<notin> set (nx # ds)" using f1(4,6) that by auto
    then show ?thesis using fr [of c] that(2) by simp
  qed
  have mem: "off_clusters rd m m' (set (cur # nx # cs'))"
    using off_clusters_trans [OF rn(1) off] by (simp add: insert_commute)
  have same: "same_on m1 m' (get_cluster rd cur) 512"
  proof (rule off_clusters_same [OF off])
    fix c assume c: "c \<in> set (nx # cs')"
    then have "c \<noteq> cur" using curnot by auto
    then show "disjoint (get_cluster rd c) 512 (get_cluster rd cur) 512"
      using clusters_disjoint [OF rd cchain_ok [OF ch c] ok] by blast
  qed
  then have "cluster_bytes rd m' cur = cluster_bytes rd m1 cur" by (rule cluster_bytes_cong [OF rd ok])
  then have c0: "cluster_bytes rd m' cur = ld_bytes m (data + i) 512" using rn(2) k by simp
  define j where "j = unat w - unat (i + k)"
  have wj: "unat w - unat i = 512 + j" using w(1) tk(1) k by (simp add: j_def)
  have "ld_bytes m1 (data + (i + k)) j = ld_bytes m (data + (i + k)) j"
    using w(1,2) by (intro rn(3)) (simp add: j_def)
  moreover have "data + (i + k) = data + i + word_of_nat 512"
    unfolding k [symmetric] by (simp add: algebra_simps)
  ultimately have bytes: "take (unat w - unat i) (file_bytes rd m' (cur # nx # cs')) =
      ld_bytes m (data + i) (unat w - unat i)"
    using by' c0 unfolding wj ld_bytes_append j_def [symmetric]
    by (simp add: file_bytes_Cons [of _ _ cur] add.assoc del: of_nat_numeral)
  show ?thesis
    unfolding write_post_def
    using chain sub frame mem w tk(1) bytes full wj by (auto simp: j_def)
qed

lemma fs_write_loop_chain:
  assumes rd: "disk_ok rd" and buf: "buf_ok rd data (unat n)"
  shows "cchain f (cur # cs) \<Longrightarrow> i < n \<Longrightarrow>
    \<exists>cs'. write_post rd f m cur cs data i n (fs_write_loop rd f m cur data i n) cs'"
proof (induction "unat n - unat i" arbitrary: f m cur cs i rule: less_induct)
  case less
  define k where "k = (if n - i > 512 then 512 else n - i)"
  define m1 where "m1 = memcpy m (get_cluster rd cur) (data + i) k"
  note tk = transfer_less [OF less.prems(2), folded k_def]
  have ok: "cluster_ok cur" and fc: "f cur \<noteq> 0"
    using cchain_ok [OF less.prems(1), of cur] cchain_used [OF less.prems(1), of cur] by auto
  note rn = write_round [OF rd buf less.prems(2) ok, folded k_def, where m = m, folded m1_def]
  note ext = write_extend [OF rd buf ok, where i = i, folded k_def, where m = m, folded m1_def,
      OF less.prems(2)]
  have stop: "write_post rd f m cur cs data i n (f(cur := 0xFFFF), m1, i + k) []"
    if "i + k \<noteq> n \<longrightarrow> (\<forall>c. cluster_ok c \<longrightarrow> f c \<noteq> 0)"
    unfolding write_post_def using that ok rn tk by (auto simp: file_bytes_def)
  have step: "fs_write_loop rd f m cur data i n =
      (if i + k < n then
         if f cur = 0xFFFF then
           let f' = fst (alloc_cluster f); nc = snd (alloc_cluster f)
           in if nc = 0 then (f'(cur := 0xFFFF), m1, i + k)
              else fs_write_loop rd (f'(cur := nc)) m1 nc data (i + k) n
         else fs_write_loop rd f m1 (f cur) data (i + k) n
       else (f(cur := 0xFFFF), m1, i + k))"
    using less.prems(2) by (subst fs_write_loop.simps) (simp add: Let_def m1_def k_def)
  show ?case
  proof (cases "i + k < n")
    case False
    then have "i + k = n" using tk by (simp add: word_less_nat_alt flip: word_unat_eq_iff)
    then show ?thesis using step stop False by auto
  next
    case more: True
    show ?thesis
    proof (cases "f cur = 0xFFFF")
      case True
      then have cs: "cs = []" using cchain_Cons(1) [OF less.prems(1)] by simp
      obtain f0 nc where al: "alloc_cluster f = (f0, nc)" by force
      show ?thesis
      proof (cases "nc = 0")
        case nc: True
        have "f0 = f" "\<forall>c. cluster_ok c \<longrightarrow> f c \<noteq> 0" using alloc_cluster_None al nc by auto
        then show ?thesis using step stop more True al nc by auto
      next
        case nc: False
        note a = alloc_cluster_Some [OF al nc]
        let ?f1 = "f0(cur := nc)"
        have ne: "nc \<noteq> cur" using a(2) fc by auto
        have "cchain ?f1 [nc]" using a ne by simp
        then obtain cs' where ih: "write_post rd ?f1 m1 nc [] data (i + k) n
            (fs_write_loop rd ?f1 m1 nc data (i + k) n) cs'"
          using less.hyps [OF tk(6) _ more] by blast
        obtain f' m' w where r: "fs_write_loop rd ?f1 m1 nc data (i + k) n = (f', m', w)"
          using prod_cases3 by blast
        have "write_post rd f m cur cs data i n (f', m', w) (nc # cs')"
          using a ne nc fc ih [unfolded r]
          by (intro ext [OF more, of ?f1 nc "[]"]) (auto simp: cs split: if_splits)
        then show ?thesis using step more True al nc r by auto
      qed
    next
      case False
      then have cs: "cs \<noteq> []" "f cur = hd cs" "cchain f cs"
        using cchain_Cons [OF less.prems(1)] by auto
      then have hd: "hd cs # tl cs = cs" by simp
      obtain cs' where ih: "write_post rd f m1 (hd cs) (tl cs) data (i + k) n
          (fs_write_loop rd f m1 (hd cs) data (i + k) n) cs'"
        using less.hyps [OF tk(6), of f "hd cs" "tl cs" m1] more cs(3) hd by auto
      obtain f' m' w where r: "fs_write_loop rd f m1 (hd cs) data (i + k) n = (f', m', w)"
        using prod_cases3 by blast
      have "write_post rd f m cur cs data i n (f', m', w) (hd cs # cs')"
        using ih [unfolded r] cs fc cchain_distinct [OF less.prems(1)]
          cchain_ok [OF cs(3), of "hd cs"] cluster_ok_neq(1) [of "hd cs"]
        by (intro ext [OF more, of f "hd cs" "tl cs"]) (auto simp: hd)
      then show ?thesis using step more False cs(2) r by auto
    qed
  qed
qed

lemma fs_write_chain:
  assumes "disk_ok rd" "buf_ok rd data (unat n)" "cchain f (cur # cs)" "n \<noteq> 0"
  shows "\<exists>cs'. write_post rd f m cur cs data 0 n (fs_write rd f m cur data n) cs'"
proof -
  have "cluster_ok cur" using cchain_ok [OF assms(3)] by simp
  moreover have "0 < n" using assms(4) by (simp add: word_neq_0_conv)
  ultimately show ?thesis
    using fs_write_loop_chain [OF assms(1,2,3), of 0 m] by (simp add: fs_write_def cluster_ok_def)
qed

section \<open>Several chains side by side\<close>

text \<open>
  The directory layer keeps one chain per entry.  What it needs of a chain is that it
  depends on its own cells only and that these are not free; from that alone follows that
  an entry can be given another chain, made from its own clusters and free ones, without
  disturbing the others.
\<close>

definition family :: "('f \<Rightarrow> 'c list \<Rightarrow> bool) \<Rightarrow> 'f \<Rightarrow> (nat \<Rightarrow> 'c list option) \<Rightarrow> bool" where
  "family chain f fam \<longleftrightarrow>
     (\<forall>i cs. fam i = Some cs \<longrightarrow> chain f cs) \<and>
     (\<forall>i j cs ds. fam i = Some cs \<longrightarrow> fam j = Some ds \<longrightarrow> i \<noteq> j \<longrightarrow> set cs \<inter> set ds = {})"

definition owned :: "(nat \<Rightarrow> 'c list option) \<Rightarrow> nat \<Rightarrow> 'c set" where
  "owned fam i = (case fam i of None \<Rightarrow> {} | Some cs \<Rightarrow> set cs)"

locale chain_family =
  fixes chain :: "('c \<Rightarrow> 'v::zero) \<Rightarrow> 'c list \<Rightarrow> bool"
  assumes chain_frame: "chain f cs \<Longrightarrow> \<forall>c\<in>set cs. f' c = f c \<Longrightarrow> chain f' cs"
    and chain_used: "chain f cs \<Longrightarrow> c \<in> set cs \<Longrightarrow> f c \<noteq> 0"
begin

lemma family_apart:
  assumes "family chain f fam" "fam j = Some ds" "i \<noteq> j"
  shows "set ds \<inter> (owned fam i \<union> {c. f c = 0}) = {}"
  using assms chain_used [of f ds] unfolding family_def owned_def by (fastforce split: option.splits)

lemma family_frame:
  assumes "family chain f fam" "fam j = Some ds" "i \<noteq> j"
    and "\<And>c. c \<notin> owned fam i \<Longrightarrow> f c \<noteq> 0 \<Longrightarrow> f' c = f c"
  shows "chain f' ds"
proof (rule chain_frame)
  show "chain f ds" using assms(1,2) by (simp add: family_def)
  show "\<forall>c\<in>set ds. f' c = f c" using family_apart [OF assms(1-3)] assms(4) by blast
qed

lemma family_replace:
  assumes fam: "family chain f fam"
    and frame: "\<And>c. c \<notin> owned fam i \<Longrightarrow> f c \<noteq> 0 \<Longrightarrow> f' c = f c"
    and new: "\<And>cs. x = Some cs \<Longrightarrow> chain f' cs \<and> set cs \<subseteq> owned fam i \<union> {c. f c = 0}"
  shows "family chain f' (fam(i := x))"
  unfolding family_def
proof (intro conjI allI impI)
  fix j ds assume j: "(fam(i := x)) j = Some ds"
  show "chain f' ds"
    using j new family_frame [OF fam, of j ds i f'] frame by (cases "j = i") auto
next
  fix j k ds es assume j: "(fam(i := x)) j = Some ds" "(fam(i := x)) k = Some es" "j \<noteq> k"
  have a: "set us \<inter> set vs = {}" if "x = Some us" "fam l = Some vs" "l \<noteq> i" for us vs l
    using family_apart [OF fam that(2), of i] new [OF that(1)] that(3) by blast
  show "set ds \<inter> set es = {}"
    using j a [of ds k es] a [of es j ds] fam
    by (cases "j = i"; cases "k = i") (auto simp: family_def)
qed

end

interpretation fc: chain_family cchain
proof unfold_locales
  fix f cs and f' :: fat_table assume "cchain f cs" "\<forall>c\<in>set cs. f' c = f c"
  then show "cchain f' cs" by (auto intro: cchain_cong [of cs f' f])
qed (rule cchain_used)

end
