(* ===== verification/Fat16.thy ===== *)
theory Fat16
  imports Fat_Chain
begin

text \<open>
  The directory layer of \<open>fat16/fs.c\<close>: the table of files and directories and the
  operations on it.  Names are passed as pointers into the byte memory; the stored names
  are the 64-byte fields of an entry.  Return codes are the C ones.
\<close>

section \<open>Entries\<close>

definition FS_MAX_ENTRIES :: nat where "FS_MAX_ENTRIES = 512"
definition FS_NAME_MAX :: nat where "FS_NAME_MAX = 64"
definition FS_EXT_MAX :: nat where "FS_EXT_MAX = 64"
definition FS_ROOT_IDX :: nat where "FS_ROOT_IDX = 0"

record fs_entry_t =
  e_name :: "u8 list"
  e_ext :: "u8 list"
  e_parent :: int
  e_first_cluster :: u16
  e_size :: u32
  e_used :: bool
  e_is_dir :: bool

record fs =
  fat :: fat_table
  entries :: "fs_entry_t list"

text \<open>An entry after \<open>memset (&entries[i], 0, sizeof (fs_entry_t))\<close>.\<close>

definition zero_entry :: fs_entry_t where
  "zero_entry = \<lparr>e_name = replicate FS_NAME_MAX 0, e_ext = replicate FS_EXT_MAX 0, e_parent = 0,
     e_first_cluster = 0, e_size = 0, e_used = False, e_is_dir = False\<rparr>"

text \<open>The bytes at a pointer, and the bytes of a stored field, as the loops index them.\<close>

definition arg_at :: "mem \<Rightarrow> ptr \<Rightarrow> nat \<Rightarrow> u8" where
  "arg_at m p i = m (p + word_of_nat i)"

definition field_at :: "u8 list \<Rightarrow> nat \<Rightarrow> u8" where
  "field_at xs i = xs ! i"

text \<open>\<open>strncpy (field, src, n)\<close> into a field: the \<open>n\<close> bytes it stores.\<close>

fun strncpy_field :: "(nat \<Rightarrow> u8) \<Rightarrow> nat \<Rightarrow> nat \<Rightarrow> u8 list" where
  "strncpy_field src i 0 = []"
| "strncpy_field src i (Suc n) =
     (if src i \<noteq> 0 then src i # strncpy_field src (Suc i) n else replicate (Suc n) 0)"

fun nameeq_loop :: "(nat \<Rightarrow> u8) \<Rightarrow> (nat \<Rightarrow> u8) \<Rightarrow> nat \<Rightarrow> nat \<Rightarrow> bool" where
  "nameeq_loop a b i 0 = True"
| "nameeq_loop a b i (Suc n) =
     (if a i = 0 \<and> b i = 0 then True
      else if a i \<noteq> b i then False
      else nameeq_loop a b (Suc i) n)"

definition nameeq :: "(nat \<Rightarrow> u8) \<Rightarrow> (nat \<Rightarrow> u8) \<Rightarrow> nat \<Rightarrow> bool" where
  "nameeq a b n = nameeq_loop a b 0 n"

definition fs_init :: "fs \<Rightarrow> fs" where
  "fs_init s = \<lparr>fat = (\<lambda>c. 0),
     entries = (replicate FS_MAX_ENTRIES zero_entry)[FS_ROOT_IDX := zero_entry\<lparr>
       e_used := True, e_is_dir := True, e_parent := -1,
       e_name := strncpy_field (\<lambda>i. [47, 0] ! i) 0 (FS_NAME_MAX - 1) @ [0],
       e_first_cluster := 0, e_size := 0\<rparr>]\<rparr>"

definition find_free_entry :: "fs_entry_t list \<Rightarrow> int" where
  "find_free_entry es =
     (case scan (\<lambda>i. \<not> e_used (es ! i)) 1 FS_MAX_ENTRIES of Some i \<Rightarrow> int i | None \<Rightarrow> -1)"

definition has_children :: "fs_entry_t list \<Rightarrow> int \<Rightarrow> bool" where
  "has_children es idx =
     (if idx < 0 \<or> int FS_MAX_ENTRIES \<le> idx then False
      else scan (\<lambda>i. e_used (es ! i) \<and> e_parent (es ! i) = idx) 0 FS_MAX_ENTRIES \<noteq> None)"

text \<open>The test of the parent that the creating operations share.\<close>

definition bad_index :: "int \<Rightarrow> bool" where
  "bad_index i \<longleftrightarrow> i < 0 \<or> int FS_MAX_ENTRIES \<le> i"

definition is_directory :: "fs_entry_t list \<Rightarrow> int \<Rightarrow> bool" where
  "is_directory es i \<longleftrightarrow> e_used (es ! nat i) \<and> e_is_dir (es ! nat i)"

section \<open>Operations on the table\<close>

definition new_name :: "mem \<Rightarrow> ptr \<Rightarrow> nat \<Rightarrow> u8 list" where
  "new_name m p n = strncpy_field (arg_at m p) 0 (n - 1) @ [0]"

definition fs_mkdir :: "mem \<Rightarrow> ptr \<Rightarrow> int \<Rightarrow> fs \<Rightarrow> fs \<times> int" where
  "fs_mkdir m name parent s =
     (if name = NULL \<or> bad_index parent then (s, -1)
      else if \<not> is_directory (entries s) parent then (s, -2)
      else if scan (\<lambda>i. let e = entries s ! i in e_used e \<and> e_parent e = parent \<and> e_is_dir e \<and>
                nameeq (field_at (e_name e)) (arg_at m name) FS_NAME_MAX) 0 FS_MAX_ENTRIES \<noteq> None
      then (s, -3)
      else
        let idx = find_free_entry (entries s)
        in if idx < 0 then (s, -4)
           else (s\<lparr>entries := (entries s)[nat idx := zero_entry\<lparr>
                   e_name := new_name m name FS_NAME_MAX, e_parent := parent,
                   e_is_dir := True, e_used := True, e_first_cluster := 0, e_size := 0\<rparr>]\<rparr>, idx))"

definition fs_rmdir :: "int \<Rightarrow> fs \<Rightarrow> fs \<times> int" where
  "fs_rmdir idx s =
     (if idx \<le> 0 \<or> int FS_MAX_ENTRIES \<le> idx then (s, -1)
      else if \<not> is_directory (entries s) idx then (s, -2)
      else if has_children (entries s) idx then (s, -3)
      else (s\<lparr>entries := (entries s)[nat idx := (entries s ! nat idx)\<lparr>e_used := False\<rparr>]\<rparr>, 0))"

text \<open>The last component is what \<open>*out_cluster\<close> receives.\<close>

definition fs_create_file :: "mem \<Rightarrow> ptr \<Rightarrow> ptr \<Rightarrow> int \<Rightarrow> fs \<Rightarrow> fs \<times> int \<times> u16 option" where
  "fs_create_file m name ext parent s =
     (if name = NULL \<or> bad_index parent then (s, -1, None)
      else if \<not> is_directory (entries s) parent then (s, -2, None)
      else if scan (\<lambda>i. let e = entries s ! i in e_used e \<and> e_parent e = parent \<and> \<not> e_is_dir e \<and>
                nameeq (field_at (e_name e)) (arg_at m name) FS_NAME_MAX \<and>
                nameeq (field_at (e_ext e)) (arg_at m ext) FS_EXT_MAX) 0 FS_MAX_ENTRIES \<noteq> None
      then (s, -3, None)
      else
        let idx = find_free_entry (entries s)
        in if idx < 0 then (s, -4, None)
           else
             let (f, c) = alloc_cluster (fat s)
             in if c = 0 then (s\<lparr>fat := f\<rparr>, -5, None)
                else (\<lparr>fat = f(c := 0xFFFF),
                       entries = (entries s)[nat idx := zero_entry\<lparr>
                         e_name := new_name m name FS_NAME_MAX,
                         e_ext := (if ext \<noteq> NULL then new_name m ext FS_EXT_MAX else replicate FS_EXT_MAX 0),
                         e_parent := parent, e_is_dir := False, e_used := True,
                         e_first_cluster := c, e_size := 0\<rparr>]\<rparr>, idx, Some c))"

definition fs_remove_entry :: "int \<Rightarrow> fs \<Rightarrow> fs \<times> int" where
  "fs_remove_entry idx s =
     (if idx \<le> 0 \<or> int FS_MAX_ENTRIES \<le> idx then (s, -1)
      else
        let e = entries s ! nat idx;
            gone = (entries s)[nat idx := e\<lparr>e_used := False\<rparr>]
        in if \<not> e_used e then (s, -2)
           else if e_is_dir e then
             if has_children (entries s) idx then (s, -3)
             else (s\<lparr>entries := gone\<rparr>, 0)
           else (\<lparr>fat = free_cluster_chain (fat s) (e_first_cluster e), entries = gone\<rparr>, 0))"

text \<open>The test of one entry in \<open>fs_find_in_dir\<close>.\<close>

definition entry_matches :: "mem \<Rightarrow> ptr \<Rightarrow> ptr \<Rightarrow> int \<Rightarrow> fs_entry_t \<Rightarrow> bool" where
  "entry_matches m name ext parent e \<longleftrightarrow>
     e_used e \<and> e_parent e = parent \<and>
     (if e_is_dir e then
        \<not> (ext \<noteq> NULL \<and> m ext \<noteq> 0) \<and> nameeq (field_at (e_name e)) (arg_at m name) FS_NAME_MAX
      else
        nameeq (field_at (e_name e)) (arg_at m name) FS_NAME_MAX \<and>
        nameeq (field_at (e_ext e)) (if ext \<noteq> NULL then arg_at m ext else (\<lambda>i. 0)) FS_EXT_MAX)"

text \<open>The index; \<open>*out\<close> receives the entry with that index.\<close>

definition fs_find_in_dir :: "mem \<Rightarrow> ptr \<Rightarrow> ptr \<Rightarrow> int \<Rightarrow> fs \<Rightarrow> int" where
  "fs_find_in_dir m name ext parent s =
     (if name = NULL \<or> bad_index parent then -1
      else case scan (\<lambda>i. entry_matches m name ext parent (entries s ! i)) 0 FS_MAX_ENTRIES of
             Some i \<Rightarrow> int i | None \<Rightarrow> -1)"

text \<open>The copy of a directory entry gets a slash after its name, where there is room.\<close>

definition with_slash :: "fs_entry_t \<Rightarrow> fs_entry_t" where
  "with_slash e =
     (if e_is_dir e then
        let len = length (takeWhile (\<lambda>b. b \<noteq> 0) (e_name e))
        in if len < FS_NAME_MAX - 1 then e\<lparr>e_name := (e_name e)[len := 47, Suc len := 0]\<rparr> else e
      else e)"

fun get_all_loop :: "fs_entry_t list \<Rightarrow> int \<Rightarrow> int \<Rightarrow> int \<Rightarrow> fs_entry_t list" where
  "get_all_loop [] max_files parent count = []"
| "get_all_loop (e # es) max_files parent count =
     (if count < max_files then
        if e_used e \<and> e_parent e = parent
        then with_slash e # get_all_loop es max_files parent (count + 1)
        else get_all_loop es max_files parent count
      else [])"

text \<open>What is stored into \<open>out_files\<close>; the return value is the length.\<close>

definition fs_get_all_in_dir :: "int \<Rightarrow> int \<Rightarrow> fs \<Rightarrow> fs_entry_t list" where
  "fs_get_all_in_dir max_files parent s =
     (if bad_index parent then [] else get_all_loop (entries s) max_files parent 0)"

section \<open>Files by name\<close>

definition set_entry :: "nat \<Rightarrow> (fs_entry_t \<Rightarrow> fs_entry_t) \<Rightarrow> fs \<Rightarrow> fs" where
  "set_entry i g s = s\<lparr>entries := (entries s)[i := g (entries s ! i)]\<rparr>"

text \<open>
  The first half of \<open>fs_write_file_in_dir\<close>: the entry to write to, found or created, with
  one fresh cluster; the last component is the error code or 0.
\<close>

definition write_target :: "mem \<Rightarrow> ptr \<Rightarrow> ptr \<Rightarrow> int \<Rightarrow> fs \<Rightarrow> fs \<times> int \<times> int" where
  "write_target m name ext parent s =
     (let idx = fs_find_in_dir m name ext parent s
      in if idx < 0 then
           let (s, cidx, c) = fs_create_file m name ext parent s
           in (s, cidx, if cidx < 0 then -4 else 0)
         else
           let f = free_cluster_chain (fat s) (e_first_cluster (entries s ! nat idx));
               (f, c) = alloc_cluster f
           in if c = 0 then (s\<lparr>fat := f\<rparr>, idx, -5)
              else (set_entry (nat idx) (\<lambda>e. e\<lparr>e_first_cluster := c\<rparr>) (s\<lparr>fat := f(c := 0xFFFF)\<rparr>), idx, 0))"

text \<open>The second half: the bytes and the size.\<close>

definition write_contents :: "ptr \<Rightarrow> nat \<Rightarrow> ptr \<Rightarrow> u64 \<Rightarrow> fs \<times> mem \<Rightarrow> (fs \<times> mem) \<times> int" where
  "write_contents rd idx data n = (\<lambda>(s, m).
     if n = 0 then
       let s = set_entry idx (\<lambda>e. e\<lparr>e_size := 0\<rparr>) s
       in ((s\<lparr>fat := (fat s)(e_first_cluster (entries s ! idx) := 0xFFFF)\<rparr>, m), 0)
     else
       let (f, m, written) = fs_write rd (fat s) m (e_first_cluster (entries s ! idx)) data n;
           s = s\<lparr>fat := f\<rparr>
       in if written \<noteq> n then ((set_entry idx (\<lambda>e. e\<lparr>e_size := ucast written\<rparr>) s, m), -6)
          else ((set_entry idx (\<lambda>e. e\<lparr>e_size := ucast n\<rparr>) s, m), 0))"

definition fs_write_file_in_dir ::
  "ptr \<Rightarrow> ptr \<Rightarrow> ptr \<Rightarrow> int \<Rightarrow> ptr \<Rightarrow> u64 \<Rightarrow> fs \<times> mem \<Rightarrow> (fs \<times> mem) \<times> int"
where
  "fs_write_file_in_dir rd name ext parent data n = (\<lambda>(s, m).
     if name = NULL then ((s, m), -1)
     else if bad_index parent then ((s, m), -2)
     else if \<not> is_directory (entries s) parent then ((s, m), -3)
     else
       let (s, idx, err) = write_target m name ext parent s
       in if err < 0 then ((s, m), err) else write_contents rd (nat idx) data n (s, m))"

text \<open>The last component is what \<open>*out_size\<close> receives.\<close>

definition fs_read_file_in_dir ::
  "ptr \<Rightarrow> ptr \<Rightarrow> ptr \<Rightarrow> int \<Rightarrow> ptr \<Rightarrow> u64 \<Rightarrow> fs \<times> mem \<Rightarrow> mem \<times> int \<times> u64 option"
where
  "fs_read_file_in_dir rd name ext parent buf bufsize = (\<lambda>(s, m).
     let idx = fs_find_in_dir m name ext parent s
     in if idx < 0 then (m, -1, None)
        else
          let e = entries s ! nat idx
          in if bufsize < ucast (e_size e) then (m, -2, None)
             else
               let (m, r) = fs_read rd (fat s) m (e_first_cluster e) buf (ucast (e_size e))
               in (m, 0, Some r))"

section \<open>Well-formed file systems\<close>

definition entry_ok :: "fs_entry_t \<Rightarrow> bool" where
  "entry_ok e \<longleftrightarrow> length (e_name e) = 64 \<and> e_name e ! 63 = 0 \<and> length (e_ext e) = 64 \<and> e_ext e ! 63 = 0"

text \<open>
  The entries form a tree: the root is a directory with parent -1, and the parent of any
  other used entry is a used directory nearer to the root.
\<close>

definition ranked :: "fs_entry_t list \<Rightarrow> (nat \<Rightarrow> nat) \<Rightarrow> nat \<Rightarrow> bool" where
  "ranked es d i \<longleftrightarrow>
     \<not> bad_index (e_parent (es ! i)) \<and> is_directory es (e_parent (es ! i)) \<and>
     d (nat (e_parent (es ! i))) < d i"

definition tree_ok :: "fs_entry_t list \<Rightarrow> bool" where
  "tree_ok es \<longleftrightarrow>
     e_used (es ! 0) \<and> e_is_dir (es ! 0) \<and> e_parent (es ! 0) = -1 \<and>
     (\<exists>d. \<forall>i < FS_MAX_ENTRIES. 0 < i \<longrightarrow> e_used (es ! i) \<longrightarrow> ranked es d i)"

text \<open>Every used entry with a first cluster owns the chain from it, and files have one.\<close>

definition chains_for :: "fs_entry_t list \<Rightarrow> (nat \<Rightarrow> u16 list option) \<Rightarrow> bool" where
  "chains_for es fam \<longleftrightarrow> (\<forall>i < FS_MAX_ENTRIES. e_used (es ! i) \<longrightarrow>
     (\<not> e_is_dir (es ! i) \<longrightarrow> e_first_cluster (es ! i) \<noteq> 0) \<and>
     (e_first_cluster (es ! i) \<noteq> 0 \<longrightarrow> (\<exists>cs. fam i = Some cs \<and> hd cs = e_first_cluster (es ! i))))"

definition fs_wf :: "fs \<Rightarrow> bool" where
  "fs_wf s \<longleftrightarrow>
     length (entries s) = FS_MAX_ENTRIES \<and> (\<forall>e\<in>set (entries s). entry_ok e) \<and>
     tree_ok (entries s) \<and> (\<exists>fam. family cchain (fat s) fam \<and> chains_for (entries s) fam)"

lemma length_strncpy_field [simp]: "length (strncpy_field src i n) = n"
  by (induction n arbitrary: i) auto

lemma strncpy_field_nth:
  "j < n \<Longrightarrow> strncpy_field src i n ! j = (if \<exists>k. i \<le> k \<and> k \<le> i + j \<and> src k = 0 then 0 else src (i + j))"
proof (induction n arbitrary: i j)
  case (Suc n)
  show ?case
  proof (cases "src i = 0")
    case True
    moreover have "\<exists>k. i \<le> k \<and> k \<le> i + j \<and> src k = 0" using True by (intro exI [of _ i]) simp
    ultimately show ?thesis using Suc.prems by (simp add: nth_Cons split: nat.split)
  next
    case False
    show ?thesis
    proof (cases j)
      case 0
      then show ?thesis using False by auto
    next
      case (Suc j')
      have "(\<exists>k. i \<le> k \<and> k \<le> i + j \<and> src k = 0) \<longleftrightarrow> (\<exists>k. Suc i \<le> k \<and> k \<le> Suc i + j' \<and> src k = 0)"
        using False Suc by (metis Suc_leD add_Suc add_Suc_right le_antisym not_less_eq_eq)
      then show ?thesis using False Suc Suc.IH [of j' "Suc i"] Suc.prems by (simp, blast)
    qed
  qed
qed simp

lemma entry_ok_zero [simp]: "entry_ok zero_entry"
  by (simp add: entry_ok_def zero_entry_def FS_NAME_MAX_def FS_EXT_MAX_def)

lemma new_name_ok: "length (new_name m p 64) = 64" "new_name m p 64 ! 63 = 0"
  by (simp_all add: new_name_def nth_append)

lemma is_directory_update:
  "\<not> e_used (es ! idx) \<Longrightarrow> is_directory es q \<Longrightarrow> nat q \<noteq> idx \<and> is_directory (es[idx := e]) q"
  unfolding is_directory_def by (cases "nat q = idx") simp_all

lemma tree_add:
  assumes tree: "tree_ok es" and len: "length es = FS_MAX_ENTRIES"
    and idx: "0 < idx" "idx < FS_MAX_ENTRIES" "\<not> e_used (es ! idx)"
    and p: "\<not> bad_index (e_parent e)" "is_directory es (e_parent e)"
  shows "tree_ok (es[idx := e])"
proof -
  from tree obtain d where
    d: "\<And>i. i < FS_MAX_ENTRIES \<Longrightarrow> 0 < i \<Longrightarrow> e_used (es ! i) \<Longrightarrow> ranked es d i"
    unfolding tree_ok_def by blast
  let ?d = "d(idx := Suc (d (nat (e_parent e))))"
  note up = is_directory_update [OF idx(3), of _ e]
  have "ranked (es[idx := e]) ?d i"
    if "i < FS_MAX_ENTRIES" "0 < i" "e_used (es[idx := e] ! i)" for i
  proof (cases "i = idx")
    case True
    then have "es[idx := e] ! i = e" using idx(2) len by simp
    then show ?thesis using p up [OF p(2)] True by (simp add: ranked_def)
  next
    case False
    then have e: "es[idx := e] ! i = es ! i" by simp
    then have "ranked es d i" using d [OF that(1,2)] that(3) by simp
    then show ?thesis using up [of "e_parent (es ! i)"] e False by (simp add: ranked_def)
  qed
  then show ?thesis
    using tree idx(1) unfolding tree_ok_def by (simp, blast)
qed

text \<open>Only these three fields matter for the tree.\<close>

lemma tree_cong:
  assumes "tree_ok es"
    and same: "\<And>i. e_parent (es' ! i) = e_parent (es ! i)" "\<And>i. e_is_dir (es' ! i) = e_is_dir (es ! i)"
    and used: "\<And>i. e_used (es' ! i) \<Longrightarrow> e_used (es ! i)" "e_used (es' ! 0)"
    and keep: "\<And>i. i < FS_MAX_ENTRIES \<Longrightarrow> e_used (es' ! i) \<Longrightarrow> 0 < i \<Longrightarrow> is_directory es (e_parent (es ! i)) \<Longrightarrow>
      \<not> bad_index (e_parent (es ! i)) \<Longrightarrow> e_used (es' ! nat (e_parent (es ! i)))"
  shows "tree_ok es'"
proof -
  from assms(1) obtain d where
    d: "\<And>i. i < FS_MAX_ENTRIES \<Longrightarrow> 0 < i \<Longrightarrow> e_used (es ! i) \<Longrightarrow> ranked es d i"
    unfolding tree_ok_def by blast
  have "ranked es' d i" if "i < FS_MAX_ENTRIES" "0 < i" "e_used (es' ! i)" for i
    using d [OF that(1,2) used(1) [OF that(3)]] keep [OF that(1,3,2)]
    by (simp add: ranked_def same is_directory_def)
  then show ?thesis using assms(1) used(2) unfolding tree_ok_def same by blast
qed

lemma tree_same:
  assumes "tree_ok es" "e_used e = e_used (es ! idx)" "e_parent e = e_parent (es ! idx)"
    "e_is_dir e = e_is_dir (es ! idx)"
  shows "tree_ok (es[idx := e])"
proof -
  have u: "e_used (es[idx := e] ! i) = e_used (es ! i)" "e_parent (es[idx := e] ! i) = e_parent (es ! i)"
    "e_is_dir (es[idx := e] ! i) = e_is_dir (es ! i)" for i
    using assms(2-4) by (cases "i = idx \<and> idx < length es"; auto simp: nth_list_update list_update_beyond)+
  show ?thesis
    by (rule tree_cong [OF assms(1)])
      (use assms(1) in \<open>simp_all add: u is_directory_def tree_ok_def\<close>)
qed

lemma tree_remove:
  assumes "tree_ok es" "0 < idx" "idx < length es"
    and no: "\<And>i. i < FS_MAX_ENTRIES \<Longrightarrow> e_used (es ! i) \<Longrightarrow> e_parent (es ! i) \<noteq> int idx"
  shows "tree_ok (es[idx := (es ! idx)\<lparr>e_used := False\<rparr>])"
proof -
  let ?es = "es[idx := (es ! idx)\<lparr>e_used := False\<rparr>]"
  have u: "e_used (?es ! i) \<longleftrightarrow> i \<noteq> idx \<and> e_used (es ! i)" "e_parent (?es ! i) = e_parent (es ! i)"
    "e_is_dir (?es ! i) = e_is_dir (es ! i)" for i
    using assms(3) by (cases "i = idx"; simp)+
  show ?thesis
  proof (rule tree_cong [OF assms(1) u(2,3)])
    fix i assume i: "i < FS_MAX_ENTRIES" "e_used (?es ! i)" "is_directory es (e_parent (es ! i))"
      "\<not> bad_index (e_parent (es ! i))"
    have "e_parent (es ! i) \<noteq> int idx" using no [OF i(1)] i(2) u(1) by blast
    then have "nat (e_parent (es ! i)) \<noteq> idx" using i(4) unfolding bad_index_def by linarith
    then show "e_used (?es ! nat (e_parent (es ! i)))" using i(3) unfolding u(1) is_directory_def by blast
  next
    show "e_used (?es ! i) \<Longrightarrow> e_used (es ! i)" for i using u(1) by blast
    show "e_used (?es ! 0)" using assms(1,2) unfolding u(1) tree_ok_def by blast
  qed
qed

lemma cchain_unique: "cchain f cs \<Longrightarrow> cchain f ds \<Longrightarrow> hd cs = hd ds \<Longrightarrow> cs = ds"
proof (induction cs arbitrary: ds)
  case (Cons c cs)
  obtain es where ds: "ds = c # es" using Cons.prems by (cases ds) auto
  show ?case
  proof (cases "cs = []")
    case True
    then show ?thesis using Cons.prems(1,2) cchain_Cons(1) ds by metis
  next
    case False
    then have "es \<noteq> []" using cchain_Cons(1) Cons.prems(1,2) ds by metis
    then show ?thesis
      using Cons.IH [of es] cchain_Cons(2,3) [OF Cons.prems(1) False] Cons.prems(2) ds
        cchain_Cons(2,3) [of f c es] by simp
  qed
qed simp

text \<open>One entry replaced together with its chain.\<close>

lemma chains_for_update:
  assumes "chains_for es fam" "length es = FS_MAX_ENTRIES"
    and "e_used e \<Longrightarrow> (\<not> e_is_dir e \<longrightarrow> e_first_cluster e \<noteq> 0) \<and>
      (e_first_cluster e \<noteq> 0 \<longrightarrow> (\<exists>cs. x = Some cs \<and> hd cs = e_first_cluster e))"
  shows "chains_for (es[idx := e]) (fam(idx := x))"
  unfolding chains_for_def
proof (intro allI impI)
  fix i assume i: "i < FS_MAX_ENTRIES" "e_used (es[idx := e] ! i)"
  show "(\<not> e_is_dir (es[idx := e] ! i) \<longrightarrow> e_first_cluster (es[idx := e] ! i) \<noteq> 0) \<and>
      (e_first_cluster (es[idx := e] ! i) \<noteq> 0 \<longrightarrow>
        (\<exists>cs. (fam(idx := x)) i = Some cs \<and> hd cs = e_first_cluster (es[idx := e] ! i)))"
    using assms i by (cases "i = idx") (simp_all add: chains_for_def)
qed

lemma fs_wf_update:
  assumes wf: "length (entries s) = FS_MAX_ENTRIES" "\<forall>e\<in>set (entries s). entry_ok e"
    and fam: "family cchain (fat s) fam" "chains_for (entries s) fam"
    and frame: "\<And>c. c \<notin> owned fam idx \<Longrightarrow> fat s c \<noteq> 0 \<Longrightarrow> f' c = fat s c"
    and new: "\<And>cs. x = Some cs \<Longrightarrow> cchain f' cs \<and> set cs \<subseteq> owned fam idx \<union> {c. fat s c = 0}"
    and e: "entry_ok e" "e_used e \<Longrightarrow> (\<not> e_is_dir e \<longrightarrow> e_first_cluster e \<noteq> 0) \<and>
      (e_first_cluster e \<noteq> 0 \<longrightarrow> (\<exists>cs. x = Some cs \<and> hd cs = e_first_cluster e))"
    and tree: "tree_ok ((entries s)[idx := e])"
  shows "fs_wf \<lparr>fat = f', entries = (entries s)[idx := e]\<rparr>"
proof -
  have "family cchain f' (fam(idx := x))" by (rule fc.family_replace [OF fam(1) frame new])
  moreover have "chains_for ((entries s)[idx := e]) (fam(idx := x))"
    by (rule chains_for_update [OF fam(2) wf(1) e(2)])
  moreover have "\<forall>e'\<in>set ((entries s)[idx := e]). entry_ok e'"
    using wf(2) e(1) set_update_subset_insert [of "entries s" idx e] by blast
  ultimately show ?thesis unfolding fs_wf_def using wf(1) tree by auto
qed

lemma fs_eta:
  "s\<lparr>entries := es\<rparr> = \<lparr>fat = fat s, entries = es\<rparr>" "s\<lparr>fat := f\<rparr> = \<lparr>fat = f, entries = entries s\<rparr>"
  by (cases s; simp)+

lemma fs_wfE:
  assumes "fs_wf s"
  obtains fam where "length (entries s) = FS_MAX_ENTRIES" "\<forall>e\<in>set (entries s). entry_ok e"
    "tree_ok (entries s)" "family cchain (fat s) fam" "chains_for (entries s) fam"
  using assms unfolding fs_wf_def by blast

lemma find_free_entry_cases:
  obtains (none) "find_free_entry es = -1" "\<forall>i. 1 \<le> i \<longrightarrow> i < FS_MAX_ENTRIES \<longrightarrow> e_used (es ! i)"
  | (some) i where "find_free_entry es = int i" "0 < i" "i < FS_MAX_ENTRIES" "\<not> e_used (es ! i)"
proof (cases "scan (\<lambda>i. \<not> e_used (es ! i)) 1 FS_MAX_ENTRIES")
  case None
  then have "find_free_entry es = -1" by (simp add: find_free_entry_def)
  then show thesis using none None [unfolded scan_None] by blast
next
  case (Some i)
  then show thesis using some [of i] scan_SomeD [OF Some] by (simp add: find_free_entry_def)
qed

lemma fs_mkdir_wf:
  assumes "fs_wf s" "fs_mkdir m name parent s = (s', r)"
  shows "fs_wf s'" "r < 0 \<Longrightarrow> s' = s"
    "0 \<le> r \<Longrightarrow> \<not> e_used (entries s ! nat r) \<and> 0 < r \<and> r < 512 \<and> fat s' = fat s \<and>
      entries s' = (entries s)[nat r := zero_entry\<lparr>e_name := new_name m name 64, e_parent := parent,
        e_is_dir := True, e_used := True\<rparr>]"
proof -
  have "fs_wf s' \<and> (r < 0 \<longrightarrow> s' = s) \<and>
    (0 \<le> r \<longrightarrow> \<not> e_used (entries s ! nat r) \<and> 0 < r \<and> r < 512 \<and> fat s' = fat s \<and>
      entries s' = (entries s)[nat r := zero_entry\<lparr>e_name := new_name m name 64, e_parent := parent,
        e_is_dir := True, e_used := True\<rparr>])"
  proof (cases "r < 0")
    case True
    then show ?thesis
      using assms by (auto simp: fs_mkdir_def Let_def split: if_splits)
  next
    case False
    let ?e = "zero_entry\<lparr>e_name := new_name m name 64, e_parent := parent, e_is_dir := True, e_used := True\<rparr>"
    have p: "\<not> bad_index parent" "is_directory (entries s) parent"
      and r: "r = find_free_entry (entries s)" "s' = s\<lparr>entries := (entries s)[nat r := ?e]\<rparr>"
      using False assms(2)
      by (auto simp: fs_mkdir_def Let_def FS_NAME_MAX_def zero_entry_def split: if_splits)
    obtain i where i: "r = int i" "0 < i" "i < FS_MAX_ENTRIES" "\<not> e_used (entries s ! i)"
      using False r(1) by (cases rule: find_free_entry_cases [of "entries s"]) auto
    obtain fam where w: "length (entries s) = FS_MAX_ENTRIES" "\<forall>e\<in>set (entries s). entry_ok e"
        "tree_ok (entries s)" "family cchain (fat s) fam" "chains_for (entries s) fam"
      using fs_wfE [OF assms(1)] by blast
    have tree: "tree_ok ((entries s)[i := ?e])"
      using tree_add [OF w(3,1) i(2-4), of ?e] p by simp
    have ok: "entry_ok ?e" using new_name_ok [of m name] by (simp add: entry_ok_def zero_entry_def FS_EXT_MAX_def)
    have "fs_wf \<lparr>fat = fat s, entries = (entries s)[i := ?e]\<rparr>"
      by (rule fs_wf_update [OF w(1,2,4,5), of i "fat s" None])
        (simp_all add: tree ok, simp add: zero_entry_def)
    then show ?thesis using r(2) i False by (simp add: FS_MAX_ENTRIES_def fs_eta)
  qed
  then show "fs_wf s'" "r < 0 \<Longrightarrow> s' = s"
    "0 \<le> r \<Longrightarrow> \<not> e_used (entries s ! nat r) \<and> 0 < r \<and> r < 512 \<and> fat s' = fat s \<and>
      entries s' = (entries s)[nat r := zero_entry\<lparr>e_name := new_name m name 64, e_parent := parent,
        e_is_dir := True, e_used := True\<rparr>]" by blast+
qed

lemma has_children_iff:
  "0 < i \<Longrightarrow> i < FS_MAX_ENTRIES \<Longrightarrow>
     has_children es (int i) \<longleftrightarrow> (\<exists>k < FS_MAX_ENTRIES. e_used (es ! k) \<and> e_parent (es ! k) = int i)"
  unfolding has_children_def scan_None by auto

text \<open>Taking an entry that no other entry has as its parent out of the table.\<close>

lemma fs_wf_remove:
  assumes wf: "fs_wf s" and i: "0 < i" "i < FS_MAX_ENTRIES"
    and no: "\<And>k. k < FS_MAX_ENTRIES \<Longrightarrow> e_used (entries s ! k) \<Longrightarrow> e_parent (entries s ! k) \<noteq> int i"
    and f: "f' = fat s \<or> (\<exists>cs. e_used (entries s ! i) \<and> e_first_cluster (entries s ! i) \<noteq> 0 \<and> cchain (fat s) cs \<and>
      hd cs = e_first_cluster (entries s ! i) \<and> f' = (\<lambda>c. if c \<in> set cs then 0 else fat s c))"
  shows "fs_wf \<lparr>fat = f', entries = (entries s)[i := (entries s ! i)\<lparr>e_used := False\<rparr>]\<rparr>"
proof -
  obtain fam where w: "length (entries s) = FS_MAX_ENTRIES" "\<forall>e\<in>set (entries s). entry_ok e"
      "tree_ok (entries s)" "family cchain (fat s) fam" "chains_for (entries s) fam"
    using fs_wfE [OF wf] by blast
  have frame: "f' c = fat s c" if "c \<notin> owned fam i" for c
  proof (cases "f' = fat s")
    case False
    then obtain cs where cs: "e_used (entries s ! i)" "e_first_cluster (entries s ! i) \<noteq> 0" "cchain (fat s) cs"
        "hd cs = e_first_cluster (entries s ! i)" "f' = (\<lambda>c. if c \<in> set cs then 0 else fat s c)"
      using f by blast
    obtain ds where ds: "fam i = Some ds" "hd ds = e_first_cluster (entries s ! i)"
      using w(5) i cs(1,2) by (auto simp: chains_for_def)
    then have "ds = cs" using cchain_unique [of "fat s" ds cs] w(4) cs by (auto simp: family_def)
    then show ?thesis using that ds(1) cs(5) by (simp add: owned_def)
  qed simp
  have "entry_ok ((entries s ! i)\<lparr>e_used := False\<rparr>)"
    using w(1,2) i nth_mem [of i "entries s"] by (simp add: entry_ok_def)
  then show ?thesis
    using tree_remove [OF w(3) i(1)] i(2) w(1) no frame
    by (intro fs_wf_update [OF w(1,2,4,5), of i f' None]) auto
qed

lemma fs_rmdir_wf:
  assumes "fs_wf s" "fs_rmdir idx s = (s', r)"
  shows "fs_wf s'"
proof (cases "r = 0")
  case False
  then show ?thesis using assms by (auto simp: fs_rmdir_def split: if_splits)
next
  case True
  then have g: "0 < idx" "nat idx < FS_MAX_ENTRIES" "\<not> has_children (entries s) idx"
    and s': "s' = s\<lparr>entries := (entries s)[nat idx := (entries s ! nat idx)\<lparr>e_used := False\<rparr>]\<rparr>"
    using assms(2) by (auto simp: fs_rmdir_def FS_MAX_ENTRIES_def split: if_splits)
  have "\<not> has_children (entries s) (int (nat idx))" using g by simp
  then show ?thesis
    unfolding s' fs_eta(1) using g(1,2) has_children_iff [of "nat idx" "entries s"]
    by (intro fs_wf_remove [OF assms(1)]) auto
qed

text \<open>A file has no children: the parent of a used entry is a directory.\<close>

lemma file_no_children:
  assumes "tree_ok es" "0 < i" "\<not> e_is_dir (es ! i)" "k < FS_MAX_ENTRIES" "e_used (es ! k)"
  shows "e_parent (es ! k) \<noteq> int i"
proof
  assume p: "e_parent (es ! k) = int i"
  have "0 < k" using p assms(1) by (cases k) (simp_all add: tree_ok_def)
  then obtain d where "ranked es d k" using assms(1,4,5) unfolding tree_ok_def by blast
  then show False using p assms(3) by (simp add: ranked_def is_directory_def)
qed

lemma fs_remove_entry_wf:
  assumes "fs_wf s" "fs_remove_entry idx s = (s', r)"
  shows "fs_wf s'"
proof (cases "r = 0")
  case False
  then show ?thesis using assms by (auto simp: fs_remove_entry_def Let_def split: if_splits)
next
  case True
  let ?e = "entries s ! nat idx"
  let ?gone = "(entries s)[nat idx := ?e\<lparr>e_used := False\<rparr>]"
  have g: "0 < nat idx" "nat idx < FS_MAX_ENTRIES" "int (nat idx) = idx" "e_used ?e"
    using True assms(2) by (auto simp: fs_remove_entry_def Let_def FS_MAX_ENTRIES_def split: if_splits)
  obtain fam where w: "tree_ok (entries s)" "family cchain (fat s) fam" "chains_for (entries s) fam"
    using fs_wfE [OF assms(1)] by blast
  show ?thesis
  proof (cases "e_is_dir ?e")
    case dir: True
    then have s': "s' = s\<lparr>entries := ?gone\<rparr>" and "\<not> has_children (entries s) (int (nat idx))"
      using True assms(2) g by (auto simp: fs_remove_entry_def Let_def split: if_splits)
    then show ?thesis
      unfolding s' fs_eta(1) using g(1,2) has_children_iff [of "nat idx" "entries s"]
      by (intro fs_wf_remove [OF assms(1)]) auto
  next
    case False
    have s': "s' = \<lparr>fat = free_cluster_chain (fat s) (e_first_cluster ?e), entries = ?gone\<rparr>"
      using True assms(2) g False by (simp add: fs_remove_entry_def Let_def split: if_splits)
    have first: "e_first_cluster ?e \<noteq> 0" using w(3) g(2,4) False unfolding chains_for_def by blast
    then obtain cs where cs: "fam (nat idx) = Some cs" "hd cs = e_first_cluster ?e"
      using w(3) g(2,4) unfolding chains_for_def by blast
    then have ch: "cchain (fat s) cs" using w(2) by (simp add: family_def)
    show ?thesis
      unfolding s' using file_no_children [OF w(1) g(1) False] g first cs ch
        free_cluster_chain_cchain [OF ch]
      by (intro fs_wf_remove [OF assms(1)]) auto
  qed
qed

text \<open>The bytes of an entry: the chain from its first cluster, cut to its size.\<close>

definition holds :: "ptr \<Rightarrow> fs \<Rightarrow> mem \<Rightarrow> nat \<Rightarrow> u8 list \<Rightarrow> bool" where
  "holds rd s m j xs \<longleftrightarrow> (\<exists>cs. cchain (fat s) cs \<and> hd cs = e_first_cluster (entries s ! j) \<and>
     length xs = unat (e_size (entries s ! j)) \<and> length xs \<le> 512 * length cs \<and>
     take (length xs) (file_bytes rd m cs) = xs)"

text \<open>
  A step that gives the entry \<open>i\<close> other clusters, its own or free ones, and writes into
  those only, keeps the bytes of every other entry.
\<close>

lemma holds_frame:
  assumes rd: "disk_ok rd" and fam: "family cchain (fat s) fam" "chains_for (entries s) fam"
    and j: "j \<noteq> i" "j < FS_MAX_ENTRIES" "e_used (entries s ! j)" "holds rd s m j xs"
    and same: "entries s' ! j = entries s ! j"
    and frame: "\<And>c. c \<notin> owned fam i \<Longrightarrow> fat s c \<noteq> 0 \<Longrightarrow> fat s' c = fat s c"
    and off: "off_clusters rd m m' S" "S \<subseteq> owned fam i \<union> {c. fat s c = 0}" "\<forall>c\<in>S. cluster_ok c"
  shows "holds rd s' m' j xs"
proof -
  from j(4) obtain cs where cs: "cchain (fat s) cs" "hd cs = e_first_cluster (entries s ! j)"
    and xs: "length xs = unat (e_size (entries s ! j))" "length xs \<le> 512 * length cs"
      "take (length xs) (file_bytes rd m cs) = xs"
    by (auto simp: holds_def)
  have "cluster_ok (hd cs)" using cs(1) cchain_ok [of "fat s" cs "hd cs"] by (cases cs) auto
  then have "e_first_cluster (entries s ! j) \<noteq> 0" using cs(2) cluster_ok_neq(1) by auto
  then obtain ds where "fam j = Some ds" "hd ds = e_first_cluster (entries s ! j)"
    using fam(2) j(2,3) unfolding chains_for_def by blast
  then have fj: "fam j = Some cs"
    using cchain_unique [of "fat s" ds cs] fam(1) cs by (auto simp: family_def)
  have ch: "cchain (fat s') cs" by (rule fc.family_frame [OF fam(1) fj j(1) [symmetric] frame])
  have apart: "set cs \<inter> S = {}" using fc.family_apart [OF fam(1) fj j(1) [symmetric]] off(2) by blast
  have "file_bytes rd m' cs = file_bytes rd m cs"
  proof (rule file_bytes_cong [OF rd], rule conjI)
    fix c assume c: "c \<in> set cs"
    show ok: "cluster_ok c" using cchain_ok [OF cs(1) c] .
    show "same_on m m' (get_cluster rd c) 512"
    proof (rule off_clusters_same [OF off(1)])
      fix d assume d: "d \<in> S"
      then have "d \<noteq> c" using c apart by blast
      then show "disjoint (get_cluster rd d) 512 (get_cluster rd c) 512"
        using clusters_disjoint [OF rd] off(3) d ok by blast
    qed
  qed
  then show ?thesis unfolding holds_def using ch cs xs same by auto
qed

text \<open>The entry that is about to be written: used, and its chain is one cluster.\<close>

definition one_cluster :: "fs \<Rightarrow> nat \<Rightarrow> bool" where
  "one_cluster s i \<longleftrightarrow> i < FS_MAX_ENTRIES \<and> e_used (entries s ! i) \<and>
     cchain (fat s) [e_first_cluster (entries s ! i)]"

lemma fs_create_file_ok:
  assumes wf: "fs_wf s" and res: "fs_create_file m name ext parent s = (s', r, c)" and r: "0 \<le> r"
  shows "0 < r" "r < 512" "\<not> e_used (entries s ! nat r)" "fs_wf s'" "one_cluster s' (nat r)"
    "\<not> bad_index parent"
    "\<exists>k. entries s' = (entries s)[nat r := zero_entry\<lparr>e_name := new_name m name 64,
        e_ext := (if ext \<noteq> NULL then new_name m ext 64 else replicate 64 0), e_parent := parent,
        e_used := True, e_first_cluster := k\<rparr>]"
    "\<And>rd m' j xs. disk_ok rd \<Longrightarrow> j < FS_MAX_ENTRIES \<Longrightarrow> e_used (entries s ! j) \<Longrightarrow> holds rd s m' j xs \<Longrightarrow>
      j \<noteq> nat r \<and> holds rd s' m' j xs"
proof -
  obtain f k where al: "alloc_cluster (fat s) = (f, k)" by force
  let ?e = "zero_entry\<lparr>e_name := new_name m name 64,
        e_ext := (if ext \<noteq> NULL then new_name m ext 64 else replicate 64 0), e_parent := parent,
        e_used := True, e_first_cluster := k\<rparr>"
  have p: "\<not> bad_index parent" "is_directory (entries s) parent" and ri: "r = find_free_entry (entries s)"
    and k: "k \<noteq> 0" and s': "s' = \<lparr>fat = f(k := 0xFFFF), entries = (entries s)[nat r := ?e]\<rparr>"
    using r res al
    by (auto simp: fs_create_file_def Let_def FS_NAME_MAX_def FS_EXT_MAX_def zero_entry_def split: if_splits)
  obtain i where i: "r = int i" "0 < i" "i < FS_MAX_ENTRIES" "\<not> e_used (entries s ! i)"
    using r ri by (cases rule: find_free_entry_cases [of "entries s"]) auto
  note a = alloc_cluster_Some [OF al k]
  have f: "f(k := 0xFFFF) = (fat s)(k := 0xFFFF)" using a(3) by simp
  obtain fam where w: "length (entries s) = FS_MAX_ENTRIES" "\<forall>e\<in>set (entries s). entry_ok e"
      "tree_ok (entries s)" "family cchain (fat s) fam" "chains_for (entries s) fam"
    using fs_wfE [OF wf] by blast
  show "0 < r" "r < 512" "\<not> e_used (entries s ! nat r)" using i by (simp_all add: FS_MAX_ENTRIES_def)
  show "\<not> bad_index parent" by (rule p(1))
  show "\<exists>k. entries s' = (entries s)[nat r := zero_entry\<lparr>e_name := new_name m name 64,
        e_ext := (if ext \<noteq> NULL then new_name m ext 64 else replicate 64 0), e_parent := parent,
        e_used := True, e_first_cluster := k\<rparr>]" using s' by auto
  have tree: "tree_ok ((entries s)[i := ?e])" using tree_add [OF w(3,1) i(2-4), of ?e] p by simp
  have ok: "entry_ok ?e"
    using new_name_ok [of m name] new_name_ok [of m ext] by (simp add: entry_ok_def zero_entry_def)
  show "fs_wf s'"
    unfolding s' f i(1) nat_int using a(1,2) k
    by (intro fs_wf_update [OF w(1,2,4,5), of i _ "Some [k]"]) (auto simp: tree ok)
  show "one_cluster s' (nat r)"
    using a(1) i w(1) by (simp add: one_cluster_def s')
  fix rd m' j xs
  assume j: "disk_ok rd" "j < FS_MAX_ENTRIES" "e_used (entries s ! j)" "holds rd s m' j xs"
  then have ji: "j \<noteq> i" using i(4) by blast
  have "holds rd s' m' j xs"
    using a(2) ji s' f i(1)
    by (intro holds_frame [OF j(1) w(4,5) ji j(2,3,4), of s' m' "{}"]) (auto simp: off_clusters_def)
  then show "j \<noteq> nat r \<and> holds rd s' m' j xs" using ji i(1) by simp
qed

section \<open>Names\<close>

lemma nameeq_loop_iff:
  "nameeq_loop a b i n \<longleftrightarrow> (\<forall>k. i \<le> k \<longrightarrow> k < i + n \<longrightarrow> (\<forall>l. i \<le> l \<longrightarrow> l < k \<longrightarrow> b l \<noteq> 0) \<longrightarrow> a k = b k)"
proof (induction n arbitrary: i)
  case (Suc n)
  have "(\<forall>k. i \<le> k \<longrightarrow> k < i + Suc n \<longrightarrow> (\<forall>l. i \<le> l \<longrightarrow> l < k \<longrightarrow> b l \<noteq> 0) \<longrightarrow> a k = b k) \<longleftrightarrow>
      a i = b i \<and> (b i \<noteq> 0 \<longrightarrow>
        (\<forall>k. Suc i \<le> k \<longrightarrow> k < Suc i + n \<longrightarrow> (\<forall>l. Suc i \<le> l \<longrightarrow> l < k \<longrightarrow> b l \<noteq> 0) \<longrightarrow> a k = b k))"
    (is "?L \<longleftrightarrow> ?R")
  proof
    assume L: ?L
    have "a i = b i" using L by simp
    moreover have "a k = b k" if "b i \<noteq> 0" "Suc i \<le> k" "k < Suc i + n" "\<forall>l. Suc i \<le> l \<longrightarrow> l < k \<longrightarrow> b l \<noteq> 0" for k
      using L [rule_format, of k] that by (metis Suc_leI add_Suc add_Suc_right le_neq_implies_less Suc_leD)
    ultimately show ?R by blast
  next
    assume R: ?R
    show ?L
    proof (intro allI impI)
      fix k assume k: "i \<le> k" "k < i + Suc n" "\<forall>l. i \<le> l \<longrightarrow> l < k \<longrightarrow> b l \<noteq> 0"
      show "a k = b k"
      proof (cases "k = i")
        case False
        then have "b i \<noteq> 0" "Suc i \<le> k" "k < Suc i + n" using k by auto
        then show ?thesis using R k(3) by (meson Suc_leD)
      qed (use R in simp)
    qed
  qed
  then show ?case using Suc.IH [of "Suc i"] by auto
qed simp

lemma nameeq_iff:
  "nameeq a b n \<longleftrightarrow> (\<forall>k < n. (\<forall>l < k. b l \<noteq> 0) \<longrightarrow> a k = b k)"
  by (simp add: nameeq_def nameeq_loop_iff)

lemma nameeq_cong: "(\<And>k. k < n \<Longrightarrow> b k = b' k) \<Longrightarrow> nameeq a b n = nameeq a b' n"
  unfolding nameeq_iff by (metis less_trans)

lemma nameeq_new:
  assumes "\<exists>i < 64. arg_at m p i = 0"
  shows "nameeq (field_at (new_name m p 64)) (arg_at m p) 64"
  unfolding nameeq_iff
proof (intro allI impI)
  fix k :: nat assume k: "k < 64" "\<forall>l < k. arg_at m p l \<noteq> 0"
  show "field_at (new_name m p 64) k = arg_at m p k"
  proof (cases "k < 63")
    case True
    have "(\<exists>l. 0 \<le> l \<and> l \<le> 0 + k \<and> arg_at m p l = 0) \<longleftrightarrow> arg_at m p k = 0"
      using k(2) le_less by auto
    then show ?thesis
      using strncpy_field_nth [OF True, of "arg_at m p" 0] True
      by (simp add: field_at_def new_name_def nth_append)
  next
    case False
    then have k63: "k = 63" using k(1) by simp
    obtain i where i: "i < 64" "arg_at m p i = 0" using assms by blast
    then have "\<not> i < 63" using k(2) k63 by blast
    then have "i = 63" using i(1) by simp
    then show ?thesis using i(2) k63 new_name_ok(2) by (simp add: field_at_def)
  qed
qed

lemma entry_matches_cong:
  assumes "\<And>i. i < 64 \<Longrightarrow> arg_at m' name i = arg_at m name i"
    and "ext \<noteq> NULL \<Longrightarrow> (\<And>i. i < 64 \<Longrightarrow> arg_at m' ext i = arg_at m ext i)"
  shows "entry_matches m' name ext parent e = entry_matches m name ext parent e"
proof -
  have "nameeq a (arg_at m' name) 64 = nameeq a (arg_at m name) 64" for a
    by (rule nameeq_cong) (rule assms(1))
  moreover have "nameeq a (arg_at m' ext) 64 = nameeq a (arg_at m ext) 64" if "ext \<noteq> NULL" for a
    by (rule nameeq_cong) (rule assms(2) [OF that])
  moreover have "m' ext = m ext" if "ext \<noteq> NULL"
    using assms(2) [OF that, of 0] by (simp add: arg_at_def)
  ultimately show ?thesis
    unfolding entry_matches_def FS_NAME_MAX_def FS_EXT_MAX_def by (cases "ext = NULL") simp_all
qed

section \<open>Writing and reading files\<close>

text \<open>The arguments of a call: strings that end within their 64 bytes, outside the disk.\<close>

definition name_ok :: "ptr \<Rightarrow> mem \<Rightarrow> ptr \<Rightarrow> bool" where
  "name_ok rd m p \<longleftrightarrow> buf_ok rd p 64 \<and> (\<exists>i < 64. arg_at m p i = 0)"

lemma fs_find_Some:
  assumes "fs_find_in_dir m name ext parent s = r" "0 \<le> r"
  shows "name \<noteq> NULL" "\<not> bad_index parent" "nat r < FS_MAX_ENTRIES" "int (nat r) = r"
    "entry_matches m name ext parent (entries s ! nat r)"
    "scan (\<lambda>i. entry_matches m name ext parent (entries s ! i)) 0 FS_MAX_ENTRIES = Some (nat r)"
  using assms by (auto simp: fs_find_in_dir_def dest: scan_SomeD split: if_splits option.splits)

lemma fs_find_eq:
  assumes "name \<noteq> NULL" "\<not> bad_index parent"
    "scan (\<lambda>i. entry_matches m name ext parent (entries s ! i)) 0 FS_MAX_ENTRIES = Some i"
  shows "fs_find_in_dir m name ext parent s = int i"
  using assms by (simp add: fs_find_in_dir_def)

lemma write_target_found:
  assumes wf: "fs_wf s" and r: "r = fs_find_in_dir m name ext parent s" "0 \<le> r"
    and res: "write_target m name ext parent s = (s', r', 0)"
  shows "r' = r" "fs_wf s'" "one_cluster s' (nat r)" "fs_find_in_dir m name ext parent s' = r"
    "\<And>rd m' j xs. disk_ok rd \<Longrightarrow> j \<noteq> nat r \<Longrightarrow> j < FS_MAX_ENTRIES \<Longrightarrow> e_used (entries s ! j) \<Longrightarrow>
      holds rd s m' j xs \<Longrightarrow> holds rd s' m' j xs"
    "\<And>j. j \<noteq> nat r \<Longrightarrow> entries s' ! j = entries s ! j"
proof -
  let ?i = "nat r"
  let ?e = "entries s ! ?i"
  note fd = fs_find_Some [OF r(1) [symmetric] r(2)]
  define f where "f = free_cluster_chain (fat s) (e_first_cluster ?e)"
  obtain f2 c where al: "alloc_cluster f = (f2, c)" by force
  let ?e' = "?e\<lparr>e_first_cluster := c\<rparr>"
  have c: "c \<noteq> 0" and r': "r' = r"
    and s': "s' = \<lparr>fat = f2(c := 0xFFFF), entries = (entries s)[?i := ?e']\<rparr>"
    using res r al by (auto simp: write_target_def set_entry_def Let_def f_def fs_eta split: if_splits)
  note a = alloc_cluster_Some [OF al c]
  have f2: "f2(c := 0xFFFF) = f(c := 0xFFFF)" using a(3) by simp
  obtain fam where w: "length (entries s) = FS_MAX_ENTRIES" "\<forall>e\<in>set (entries s). entry_ok e"
      "tree_ok (entries s)" "family cchain (fat s) fam" "chains_for (entries s) fam"
    using fs_wfE [OF wf] by blast
  have used: "e_used ?e" using fd(5) by (simp add: entry_matches_def)
  have f: "f d = fat s d \<or> (f d = 0 \<and> d \<in> owned fam ?i)" for d
  proof (cases "e_first_cluster ?e = 0")
    case True
    then show ?thesis by (simp add: f_def free_cluster_chain_def)
  next
    case False
    then obtain cs where cs: "fam ?i = Some cs" "hd cs = e_first_cluster ?e"
      using w(5) fd(3) used unfolding chains_for_def by blast
    then have "cchain (fat s) cs" using w(4) by (simp add: family_def)
    from free_cluster_chain_cchain [OF this] show ?thesis
      using cs by (simp add: f_def owned_def)
  qed
  have frame: "(f(c := 0xFFFF)) d = fat s d" if "d \<notin> owned fam ?i" "fat s d \<noteq> 0" for d
    using f [of d] that a(2) by auto
  have own: "c \<in> owned fam ?i \<union> {d. fat s d = 0}" using f [of c] a(2) by auto
  have ok: "entry_ok ?e" using w(1,2) fd(3) nth_mem [of ?i "entries s"] by simp
  show "r' = r" by (rule r')
  show "fs_wf s'"
    unfolding s' f2 using own frame a(1) ok c
    by (intro fs_wf_update [OF w(1,2,4,5), of ?i _ "Some [c]"])
      (auto simp: entry_ok_def intro: tree_same [OF w(3)])
  show "one_cluster s' ?i" using a(1) fd(3) w(1) used by (simp add: one_cluster_def s')
  show keep: "entries s' ! j = entries s ! j" if "j \<noteq> ?i" for j using that by (simp add: s')
  have "entry_matches m name ext parent (entries s' ! i) = entry_matches m name ext parent (entries s ! i)" for i
    using fd(3) w(1) keep [of i] by (cases "i = ?i") (simp_all add: s' entry_matches_def)
  then have "scan (\<lambda>i. entry_matches m name ext parent (entries s' ! i)) 0 FS_MAX_ENTRIES = Some ?i"
    using fd(6) by simp
  then show "fs_find_in_dir m name ext parent s' = r" using fs_find_eq [OF fd(1,2)] fd(4) by metis
  show "holds rd s' m' j xs"
    if j: "disk_ok rd" "j \<noteq> ?i" "j < FS_MAX_ENTRIES" "e_used (entries s ! j)" "holds rd s m' j xs" for rd m' j xs
    using frame f2 j(2)
    by (intro holds_frame [OF j(1) w(4,5) j(2-5), of s' m' "{}"]) (auto simp: s' off_clusters_def)
qed

lemma write_target_created:
  assumes wf: "fs_wf s" and r: "fs_find_in_dir m name ext parent s < 0"
    and n: "name \<noteq> NULL" "name_ok rd m name" "ext = NULL \<or> name_ok rd m ext"
    and res: "write_target m name ext parent s = (s', r, 0)"
  shows "0 < r" "r < 512" "fs_wf s'" "one_cluster s' (nat r)" "fs_find_in_dir m name ext parent s' = r"
    "\<And>rd m' j xs. disk_ok rd \<Longrightarrow> j \<noteq> nat r \<Longrightarrow> j < FS_MAX_ENTRIES \<Longrightarrow> e_used (entries s ! j) \<Longrightarrow>
      holds rd s m' j xs \<Longrightarrow> holds rd s' m' j xs"
    "\<And>j. j \<noteq> nat r \<Longrightarrow> entries s' ! j = entries s ! j" "\<not> e_used (entries s ! nat r)"
proof -
  obtain c where cr: "fs_create_file m name ext parent s = (s', r, c)" and r0: "0 \<le> r"
    using res r by (auto simp: write_target_def Let_def split: if_splits prod.splits)
  note k = fs_create_file_ok [OF wf cr r0]
  show "0 < r" "r < 512" "fs_wf s'" "one_cluster s' (nat r)" "\<not> e_used (entries s ! nat r)" by (fact k(1,2,4,5,3))+
  obtain q where es: "entries s' = (entries s)[nat r := zero_entry\<lparr>e_name := new_name m name 64,
        e_ext := (if ext \<noteq> NULL then new_name m ext 64 else replicate 64 0), e_parent := parent,
        e_used := True, e_first_cluster := q\<rparr>]"
    using k(7) by blast
  show keep: "entries s' ! j = entries s ! j" if "j \<noteq> nat r" for j using that by (simp add: es)
  have len: "length (entries s) = 512" using wf by (simp add: fs_wf_def FS_MAX_ENTRIES_def)
  have none: "\<not> entry_matches m name ext parent (entries s ! i)" if "i < FS_MAX_ENTRIES" for i
  proof -
    have "scan (\<lambda>i. entry_matches m name ext parent (entries s ! i)) 0 FS_MAX_ENTRIES = None"
      using r n(1) k(6) by (auto simp: fs_find_in_dir_def split: option.splits)
    then show ?thesis using that by (simp add: scan_None)
  qed
  have "nameeq (field_at (new_name m name 64)) (arg_at m name) 64"
    using n(2) by (intro nameeq_new) (simp add: name_ok_def)
  moreover have "nameeq (field_at (new_name m ext 64)) (arg_at m ext) 64" if "ext \<noteq> NULL"
    using n(3) that by (intro nameeq_new) (simp add: name_ok_def)
  moreover have "nameeq (field_at (replicate 64 0)) (\<lambda>i. 0) 64"
    by (simp add: nameeq_iff field_at_def)
  ultimately have "entry_matches m name ext parent (entries s' ! nat r)"
    using k(1,2) len by (simp add: es entry_matches_def FS_NAME_MAX_def FS_EXT_MAX_def zero_entry_def)
  then have "scan (\<lambda>i. entry_matches m name ext parent (entries s' ! i)) 0 FS_MAX_ENTRIES = Some (nat r)"
    using none keep k(1,2) by (auto simp: scan_Some FS_MAX_ENTRIES_def)
  then show "fs_find_in_dir m name ext parent s' = r" using fs_find_eq [OF n(1) k(6)] r0 by simp
  show "holds rd s' m' j xs"
    if "disk_ok rd" "j \<noteq> nat r" "j < FS_MAX_ENTRIES" "e_used (entries s ! j)" "holds rd s m' j xs" for rd m' j xs
    using k(8) [OF that(1,3,4,5)] by blast
qed

lemma cluster_in_disk:
  assumes "disk_ok rd" "cluster_ok c"
  shows "unat rd \<le> unat (get_cluster rd c)" "unat (get_cluster rd c) + 512 \<le> unat rd + RAMDISK_SIZE"
  using unat_get_cluster [OF assms] assms(2) by (simp_all add: cluster_ok_def FAT_ENTRIES_def RAMDISK_SIZE_def)

text \<open>A directory that has been made is found.\<close>

lemma fs_mkdir_find:
  assumes wf: "fs_wf s" and r: "fs_find_in_dir m name NULL parent s < 0" and n: "name_ok rd m name"
    and res: "fs_mkdir m name parent s = (s', r)" "0 \<le> r"
  shows "fs_find_in_dir m name NULL parent s' = r"
proof -
  note k = fs_mkdir_wf(3) [OF wf res]
  have n0: "name \<noteq> NULL" "\<not> bad_index parent" using res by (auto simp: fs_mkdir_def split: if_splits)
  have len: "length (entries s) = 512" using wf by (simp add: fs_wf_def FS_MAX_ENTRIES_def)
  have rl: "nat r < length (entries s)" unfolding len using k by linarith
  have "scan (\<lambda>i. entry_matches m name NULL parent (entries s ! i)) 0 FS_MAX_ENTRIES = None"
    using r n0 by (auto simp: fs_find_in_dir_def split: option.splits)
  then have none: "\<not> entry_matches m name NULL parent (entries s ! i)" if "i < FS_MAX_ENTRIES" for i
    using that by (simp add: scan_None)
  have "nameeq (field_at (new_name m name 64)) (arg_at m name) 64"
    using n by (intro nameeq_new) (simp add: name_ok_def)
  then have "entry_matches m name NULL parent (entries s' ! nat r)"
    using k rl by (simp add: entry_matches_def FS_NAME_MAX_def zero_entry_def)
  then have "scan (\<lambda>i. entry_matches m name NULL parent (entries s' ! i)) 0 FS_MAX_ENTRIES = Some (nat r)"
    using none k by (auto simp: scan_Some FS_MAX_ENTRIES_def)
  then show ?thesis using fs_find_eq [OF n0] res(2) by simp
qed

lemma off_clusters_buf:
  assumes "disk_ok rd" "off_clusters rd m m' S" "\<forall>c\<in>S. cluster_ok c" "buf_ok rd b l"
  shows "same_on m m' b l"
proof (rule off_clusters_same [OF assms(2)])
  fix c assume "c \<in> S"
  then show "disjoint (get_cluster rd c) 512 b l"
    using unat_get_cluster(2,3) [OF assms(1), of c] assms(3,4) by (auto simp: buf_ok_def disjoint_def)
qed

lemma write_contents_ok:
  assumes wf: "fs_wf s" and oc: "one_cluster s i" and rd: "disk_ok rd"
    and buf: "buf_ok rd data (unat n)" "unat n < 2 ^ 32"
    and res: "write_contents rd i data n (s, m) = ((s', m'), r)"
  shows "\<exists>w S. unat w \<le> unat n \<and> (r = 0 \<longleftrightarrow> w = n) \<and> (r \<noteq> 0 \<longrightarrow> r = -6 \<and> (\<forall>c. cluster_ok c \<longrightarrow> fat s' c \<noteq> 0)) \<and>
      fs_wf s' \<and> entries s' = (entries s)[i := (entries s ! i)\<lparr>e_size := ucast w\<rparr>] \<and>
      holds rd s' m' i (ld_bytes m data (unat w)) \<and>
      off_clusters rd m m' S \<and> (\<forall>c\<in>S. cluster_ok c) \<and>
      (\<forall>j xs. j \<noteq> i \<longrightarrow> j < FS_MAX_ENTRIES \<longrightarrow> e_used (entries s ! j) \<longrightarrow> holds rd s m j xs \<longrightarrow> holds rd s' m' j xs)"
proof -
  let ?e = "entries s ! i"
  let ?c = "e_first_cluster ?e"
  have i: "i < FS_MAX_ENTRIES" "e_used ?e" "cchain (fat s) [?c]" using oc by (simp_all add: one_cluster_def)
  then have c0: "?c \<noteq> 0" "cluster_ok ?c" using cluster_ok_neq(1) by auto
  obtain fam where w: "length (entries s) = FS_MAX_ENTRIES" "\<forall>e\<in>set (entries s). entry_ok e"
      "tree_ok (entries s)" "family cchain (fat s) fam" "chains_for (entries s) fam"
    using fs_wfE [OF wf] by blast
  obtain ds where "fam i = Some ds" "hd ds = ?c"
    using w(5) i(1,2) c0(1) unfolding chains_for_def by blast
  then have own: "owned fam i = {?c}"
    using cchain_unique [of "fat s" ds "[?c]"] w(4) i(3) by (auto simp: family_def owned_def)
  obtain f' w' cs' where
    wp: "cchain f' (?c # cs')" "set cs' \<subseteq> {c. fat s c = 0}"
      "\<And>c. c \<noteq> ?c \<Longrightarrow> fat s c \<noteq> 0 \<Longrightarrow> f' c = fat s c" "off_clusters rd m m' (set (?c # cs'))"
      "unat w' \<le> unat n" "take (unat w') (file_bytes rd m' (?c # cs')) = ld_bytes m data (unat w')"
      "unat w' \<le> 512 * length (?c # cs')" "w' \<noteq> n \<longrightarrow> (\<forall>c. cluster_ok c \<longrightarrow> f' c \<noteq> 0)"
    and r: "r = (if w' = n then 0 else -6)"
    and s': "s' = \<lparr>fat = f', entries = (entries s)[i := ?e\<lparr>e_size := ucast w'\<rparr>]\<rparr>"
  proof (cases "n = 0")
    case True
    have "(fat s)(?c := 0xFFFF) = fat s" using i(3) by auto
    then have "s' = \<lparr>fat = fat s, entries = (entries s)[i := ?e\<lparr>e_size := 0\<rparr>]\<rparr>" "m' = m" "r = 0"
      using res True i(1) w(1) by (auto simp: write_contents_def set_entry_def fs_eta)
    then show thesis
      using that [of "fat s" "[]" 0] True i(3) by (simp add: off_clusters_def)
  next
    case False
    obtain f' mm w' where fw: "fs_write rd (fat s) m ?c data n = (f', mm, w')"
      using prod_cases3 by blast
    have e: "mm = m'" "r = (if w' = n then 0 else -6)"
      "s' = \<lparr>fat = f', entries = (entries s)[i := ?e\<lparr>e_size := ucast w'\<rparr>]\<rparr>"
      using res False fw by (auto simp: write_contents_def set_entry_def fs_eta Let_def split: if_splits)
    obtain cs' where "write_post rd (fat s) m ?c [] data 0 n (f', m', w') cs'"
      using fs_write_chain [OF rd buf(1) i(3) False, of m] fw e(1) by auto
    then show thesis
      using that [of f' cs' w'] e(2,3) by (simp add: write_post_def)
  qed
  let ?e' = "?e\<lparr>e_size := ucast w'\<rparr>"
  have S: "\<forall>c\<in>set (?c # cs'). cluster_ok c" using cchain_ok [OF wp(1)] by blast
  have ok: "entry_ok ?e" using w(1,2) i(1) nth_mem [of i "entries s"] by simp
  have "fs_wf s'"
    unfolding s' using wp(1-3) own ok c0(1)
    by (intro fs_wf_update [OF w(1,2,4,5), of i f' "Some (?c # cs')"])
      (auto simp: entry_ok_def intro: tree_same [OF w(3)])
  moreover have "unat (ucast w' :: u32) = unat w'"
    using wp(5) buf(2) by (simp add: unsigned_ucast_eq take_bit_nat_eq_self)
  then have "holds rd s' m' i (ld_bytes m data (unat w'))"
    unfolding holds_def using wp(1,6,7) i(1) w(1) by (intro exI [of _ "?c # cs'"]) (simp add: s')
  moreover have "holds rd s' m' j xs"
    if j: "j \<noteq> i" "j < FS_MAX_ENTRIES" "e_used (entries s ! j)" "holds rd s m j xs" for j xs
    using wp(2-4) own S j(1)
    by (intro holds_frame [OF rd w(4,5) j, of s' m' "set (?c # cs')"]) (auto simp: s')
  ultimately show ?thesis
    using wp(4,5,8) r S by (intro exI [of _ w'] exI [of _ "set (?c # cs')"]) (auto simp: s')
qed

text \<open>The whole write: the entry found or made, and what it and the others hold afterwards.\<close>

lemma fs_write_file_ok:
  assumes wf: "fs_wf s" and rd: "disk_ok rd"
    and n: "name_ok rd m name" "ext = NULL \<or> name_ok rd m ext"
    and buf: "buf_ok rd data (unat n)" "unat n < 2 ^ 32"
    and res: "fs_write_file_in_dir rd name ext parent data n (s, m) = ((s', m'), 0)"
  obtains i where "fs_find_in_dir m' name ext parent s' = int i" "i < FS_MAX_ENTRIES" "fs_wf s'"
    "e_used (entries s' ! i)" "holds rd s' m' i (ld_bytes m data (unat n))"
    "\<And>j xs. j \<noteq> i \<Longrightarrow> j < FS_MAX_ENTRIES \<Longrightarrow> e_used (entries s ! j) \<Longrightarrow> holds rd s m j xs \<Longrightarrow>
       entries s' ! j = entries s ! j \<and> holds rd s' m' j xs"
    "\<And>j. j \<noteq> i \<Longrightarrow> entries s' ! j = entries s ! j" "\<And>x. \<not> in_range x rd RAMDISK_SIZE \<Longrightarrow> m' x = m x"
    "e_used (entries s ! i) \<Longrightarrow> e_parent (entries s ! i) = parent"
proof -
  obtain s1 r where tg: "write_target m name ext parent s = (s1, r, 0)" and n0: "name \<noteq> NULL"
    and wc: "write_contents rd (nat r) data n (s1, m) = ((s', m'), 0)"
  proof -
    obtain s1 r e where w: "write_target m name ext parent s = (s1, r, e)" using prod_cases3 by blast
    then have "\<not> e < 0" "name \<noteq> NULL" "write_contents rd (nat r) data n (s1, m) = ((s', m'), 0)"
      using res by (auto simp: fs_write_file_in_dir_def split: if_splits)
    moreover from w this(1) have "e = 0" by (auto simp: write_target_def Let_def split: if_splits prod.splits)
    ultimately show thesis using that w by blast
  qed
  have "0 \<le> r \<and> fs_wf s1 \<and> one_cluster s1 (nat r) \<and> fs_find_in_dir m name ext parent s1 = r \<and>
      (\<forall>j xs. j \<noteq> nat r \<longrightarrow> j < FS_MAX_ENTRIES \<longrightarrow> e_used (entries s ! j) \<longrightarrow>
        holds rd s m j xs \<longrightarrow> holds rd s1 m j xs) \<and>
      (\<forall>j. j \<noteq> nat r \<longrightarrow> entries s1 ! j = entries s ! j) \<and> (e_used (entries s ! nat r) \<longrightarrow> e_parent (entries s ! nat r) = parent)"
  proof (cases "fs_find_in_dir m name ext parent s < 0")
    case True
    note c = write_target_created [OF wf True n0 n tg]
    show ?thesis using c(1,3,4,5,7,8) c(6) [OF rd] by auto
  next
    case False
    then have r0: "0 \<le> fs_find_in_dir m name ext parent s" by simp
    note c = write_target_found [OF wf refl r0 tg]
    have "e_parent (entries s ! nat (fs_find_in_dir m name ext parent s)) = parent"
      using fs_find_Some(5) [OF refl r0] by (simp add: entry_matches_def)
    then show ?thesis using c(2,3,4,6) c(5) [OF rd] r0 unfolding c(1) by blast
  qed
  then have t: "0 \<le> r" "fs_wf s1" "one_cluster s1 (nat r)" "fs_find_in_dir m name ext parent s1 = r"
    and ho: "\<And>j xs. j \<noteq> nat r \<Longrightarrow> j < FS_MAX_ENTRIES \<Longrightarrow> e_used (entries s ! j) \<Longrightarrow>
      holds rd s m j xs \<Longrightarrow> holds rd s1 m j xs"
    and keep: "\<And>j. j \<noteq> nat r \<Longrightarrow> entries s1 ! j = entries s ! j"
    and par: "e_used (entries s ! nat r) \<Longrightarrow> e_parent (entries s ! nat r) = parent"
    by blast+
  let ?i = "nat r"
  note fd = fs_find_Some [OF t(4,1)]
  obtain w S where w: "w = n" "fs_wf s'" "entries s' = (entries s1)[?i := (entries s1 ! ?i)\<lparr>e_size := ucast w\<rparr>]"
      "holds rd s' m' ?i (ld_bytes m data (unat w))" "off_clusters rd m m' S" "\<forall>c\<in>S. cluster_ok c"
      "\<forall>j xs. j \<noteq> ?i \<longrightarrow> j < FS_MAX_ENTRIES \<longrightarrow> e_used (entries s1 ! j) \<longrightarrow> holds rd s1 m j xs \<longrightarrow> holds rd s' m' j xs"
    using write_contents_ok [OF t(2,3) rd buf wc] by blast
  have len: "length (entries s1) = FS_MAX_ENTRIES" using t(2) by (simp add: fs_wf_def)
  have arg: "arg_at m' p k = arg_at m p k" if "name_ok rd m p" "k < 64" for p k
  proof -
    have "buf_ok rd p 64" using that by (simp add: name_ok_def)
    from off_clusters_buf [OF rd w(5,6) this] this have "ld_bytes m p 64 = ld_bytes m' p 64"
      by (intro ld_bytes_cong) (simp_all add: buf_ok_def)
    from arg_cong [OF this, of "\<lambda>xs. xs ! k"] show ?thesis
      using that(2) by (simp add: ld_bytes_nth arg_at_def)
  qed
  have "entry_matches m' name ext parent (entries s' ! k) = entry_matches m name ext parent (entries s1 ! k)" for k
  proof -
    have "entry_matches m' name ext parent (entries s' ! k) = entry_matches m name ext parent (entries s' ! k)"
      using arg n by (intro entry_matches_cong) blast+
    also have "\<dots> = entry_matches m name ext parent (entries s1 ! k)"
      using fd(3) len by (cases "k = ?i") (simp_all add: w(3) entry_matches_def)
    finally show ?thesis .
  qed
  then have "scan (\<lambda>k. entry_matches m' name ext parent (entries s' ! k)) 0 FS_MAX_ENTRIES = Some ?i"
    using fd(6) by simp
  then have find: "fs_find_in_dir m' name ext parent s' = int ?i"
    by (rule fs_find_eq [OF fd(1,2)])
  have used: "e_used (entries s' ! ?i)"
    using t(3) fd(3) len by (simp add: w(3) one_cluster_def)
  show thesis
  proof (rule that [OF find fd(3) w(2) used])
    show "holds rd s' m' ?i (ld_bytes m data (unat n))" using w(1,4) by simp
    fix j xs assume j: "j \<noteq> ?i" "j < FS_MAX_ENTRIES" "e_used (entries s ! j)" "holds rd s m j xs"
    then show "entries s' ! j = entries s ! j \<and> holds rd s' m' j xs"
      using keep [OF j(1)] ho [OF j] w(7) by (simp add: w(3))
  next
    fix j assume "j \<noteq> ?i"
    then show "entries s' ! j = entries s ! j" using keep by (simp add: w(3))
  next
    fix x assume x: "\<not> in_range x rd RAMDISK_SIZE"
    have "\<not> in_range x (get_cluster rd c) 512" if "c \<in> S" for c
      using x cluster_in_disk [OF rd, of c] w(6) that by (auto simp: in_range_def)
    then show "m' x = m x" using w(5) by (simp add: off_clusters_def)
  qed (rule par)
qed

text \<open>Reading back what an entry holds.\<close>

lemma fs_read_file_exact:
  assumes rd: "disk_ok rd" and i: "fs_find_in_dir m name ext parent s = int i" "holds rd s m i xs"
    and buf: "buf_ok rd buf (length xs)" "length xs \<le> unat bufsize"
  shows "fs_read_file_in_dir rd name ext parent buf bufsize (s, m) =
    (st_bytes m buf xs, 0, Some (word_of_nat (length xs)))"
proof -
  from i(2) obtain cs where cs: "cchain (fat s) cs" "hd cs = e_first_cluster (entries s ! i)"
    and xs: "length xs = unat (e_size (entries s ! i))" "length xs \<le> 512 * length cs"
      "take (length xs) (file_bytes rd m cs) = xs"
    by (auto simp: holds_def)
  let ?n = "ucast (e_size (entries s ! i)) :: u64"
  have n: "unat ?n = length xs" using xs(1) unat_less_2p [of "e_size (entries s ! i)"]
    by (simp add: unsigned_ucast_eq take_bit_nat_eq_self)
  have "fs_read rd (fat s) m (hd cs) buf ?n = (st_bytes m buf xs, word_of_nat (length xs))"
    using fs_read_chain [OF rd _ cs(1), of buf ?n m] buf(1) xs(2,3) n by (simp add: min_absorb1)
  then show ?thesis
    using i(1) cs(2) buf(2) n by (simp add: fs_read_file_in_dir_def word_less_nat_alt)
qed

lemma fs_read_file_holds:
  assumes "disk_ok rd" "fs_find_in_dir m name ext parent s = int i" "holds rd s m i xs"
    and buf: "buf_ok rd buf (length xs)" "length xs \<le> unat bufsize"
  shows "\<exists>m'. fs_read_file_in_dir rd name ext parent buf bufsize (s, m) = (m', 0, Some (word_of_nat (length xs))) \<and>
    ld_bytes m' buf (length xs) = xs"
  using fs_read_file_exact [OF assms] ld_st_bytes [of buf xs m] buf(1) by (simp add: buf_ok_def)

text \<open>What an entry holds depends on the RAM disk only.\<close>

lemma holds_cong:
  assumes rd: "disk_ok rd" and h: "holds rd s m i xs" and same: "same_on m m' rd RAMDISK_SIZE"
  shows "holds rd s m' i xs"
proof -
  from h obtain cs where cs: "cchain (fat s) cs" "hd cs = e_first_cluster (entries s ! i)"
    and xs: "length xs = unat (e_size (entries s ! i))" "length xs \<le> 512 * length cs"
      "take (length xs) (file_bytes rd m cs) = xs"
    by (auto simp: holds_def)
  have "file_bytes rd m' cs = file_bytes rd m cs"
  proof (rule file_bytes_cong [OF rd], rule conjI)
    fix c assume "c \<in> set cs"
    then show ok: "cluster_ok c" by (rule cchain_ok [OF cs(1)])
    show "same_on m m' (get_cluster rd c) 512"
      using same cluster_in_disk [OF rd ok] by (auto simp: same_on_def in_range_def)
  qed
  then show ?thesis using cs xs by (auto simp: holds_def)
qed

lemma fs_create_file_wf:
  assumes "fs_wf s" "fs_create_file m name ext parent s = (s', r, c)"
  shows "fs_wf s'"
proof (cases "0 \<le> r")
  case True
  then show ?thesis using fs_create_file_ok(4) [OF assms] by blast
next
  case False
  obtain f k where al: "alloc_cluster (fat s) = (f, k)" by force
  have "s' = s \<or> (k = 0 \<and> s' = s\<lparr>fat := f\<rparr>)"
    using False assms(2) al by (auto simp: fs_create_file_def Let_def split: if_splits)
  then show ?thesis using assms(1) alloc_cluster_None(1) [of "fat s" f] al by (cases "k = 0") auto
qed

text \<open>
  An entry that is found always gets a cluster unless it is a directory without one:
  freeing the old chain leaves at least its clusters free.
\<close>

lemma write_target_wf:
  assumes wf: "fs_wf s" and res: "write_target m name ext parent s = (s', r, e)"
  shows "fs_wf s'" "e = 0 \<Longrightarrow> 0 \<le> r \<and> one_cluster s' (nat r)"
proof -
  have "fs_wf s' \<and> (e = 0 \<longrightarrow> 0 \<le> r \<and> one_cluster s' (nat r))"
  proof (cases "fs_find_in_dir m name ext parent s < 0")
    case True
    then obtain c where cr: "fs_create_file m name ext parent s = (s', r, c)" "e = (if r < 0 then -4 else 0)"
      using res by (auto simp: write_target_def Let_def split: prod.splits)
    then show ?thesis
      using fs_create_file_wf [OF wf cr(1)] fs_create_file_ok(5) [OF wf cr(1)] by (simp split: if_splits)
  next
    case False
    let ?i = "nat (fs_find_in_dir m name ext parent s)"
    define f where "f = free_cluster_chain (fat s) (e_first_cluster (entries s ! ?i))"
    obtain f2 c where al: "alloc_cluster f = (f2, c)" by force
    show ?thesis
    proof (cases "c = 0")
      case c: False
      then have "e = 0" using res False al by (auto simp: write_target_def Let_def f_def)
      then show ?thesis
        using write_target_found [OF wf refl, of m name ext parent s' r] res False by simp
    next
      case c: True
      then have e: "e = -5" "s' = s\<lparr>fat := f2\<rparr>"
        using res False al by (auto simp: write_target_def Let_def f_def)
      note full = alloc_cluster_None [OF al [unfolded c]]
      note fd = fs_find_Some(3,5) [OF refl, of m name ext parent s]
      have "e_first_cluster (entries s ! ?i) = 0"
      proof (rule ccontr)
        assume nz: "e_first_cluster (entries s ! ?i) \<noteq> 0"
        obtain fam where fam: "family cchain (fat s) fam" "chains_for (entries s) fam"
          using fs_wfE [OF wf] by blast
        have "e_used (entries s ! ?i)" using fd(2) False by (simp add: entry_matches_def)
        then obtain cs where cs: "fam ?i = Some cs" "hd cs = e_first_cluster (entries s ! ?i)"
          using fam(2) fd(1) False nz unfolding chains_for_def by force
        then have ch: "cchain (fat s) cs" using fam(1) by (simp add: family_def)
        have "hd cs \<in> set cs" using ch by (cases cs) auto
        then have "f (hd cs) = 0" "cluster_ok (hd cs)"
          using free_cluster_chain_cchain [OF ch] cs(2) cchain_ok [OF ch] by (simp_all add: f_def)
        then show False using full(2) by blast
      qed
      then have "f = fat s" by (simp add: f_def free_cluster_chain_def)
      then show ?thesis using e full(1) wf by simp
    qed
  qed
  then show "fs_wf s'" "e = 0 \<Longrightarrow> 0 \<le> r \<and> one_cluster s' (nat r)" by blast+
qed

lemma fs_write_file_wf:
  assumes wf: "fs_wf s" and rd: "disk_ok rd" and buf: "buf_ok rd data (unat n)" "unat n < 2 ^ 32"
    and res: "fs_write_file_in_dir rd name ext parent data n (s, m) = ((s', m'), r)"
  shows "fs_wf s'"
proof -
  obtain s1 i e where tg: "write_target m name ext parent s = (s1, i, e)" using prod_cases3 by blast
  note w = write_target_wf [OF wf tg]
  consider "s' = s" | "e < 0" "s' = s1" | "\<not> e < 0" "write_contents rd (nat i) data n (s1, m) = ((s', m'), r)"
    using res tg by (auto simp: fs_write_file_in_dir_def split: if_splits)
  then show ?thesis
  proof cases
    case 3
    then have "e = 0" using tg by (auto simp: write_target_def Let_def split: if_splits prod.splits)
    then show ?thesis using write_contents_ok [OF w(1) _ rd buf 3(2)] w(2) by blast
  qed (use wf w(1) in auto)
qed

text \<open>Calls by name, successful or not, change only the buffer and only the RAM disk.\<close>

lemma fs_read_file_outside:
  assumes "unat buf + unat n \<le> 2 ^ 64" "\<not> in_range x buf (unat n)"
  shows "fst (fs_read_file_in_dir rd name ext parent buf n (s, m)) x = m x"
proof -
  let ?e = "entries s ! nat (fs_find_in_dir m name ext parent s)"
  have r: "fst (fs_read rd (fat s) m (e_first_cluster ?e) buf z) x = m x" if "z \<le> n" for z
    using fs_read_loop_outside [of buf z x 0] assms that
    by (auto simp: fs_read_def in_range_def word_le_nat_alt)
  show ?thesis
    using r [of "ucast (e_size ?e)"]
    by (auto simp: fs_read_file_in_dir_def Let_def not_less split: prod.splits)
qed

lemma fs_write_file_outside:
  assumes wf: "fs_wf s" and rd: "disk_ok rd" and buf: "buf_ok rd data (unat n)" "unat n < 2 ^ 32"
    and res: "fs_write_file_in_dir rd name ext parent data n (s, m) = ((s', m'), r)" and x: "\<not> in_range x rd RAMDISK_SIZE"
  shows "m' x = m x"
proof -
  obtain s1 i e where tg: "write_target m name ext parent s = (s1, i, e)" using prod_cases3 by blast
  note w = write_target_wf [OF wf tg]
  consider "m' = m" | "\<not> e < 0" "write_contents rd (nat i) data n (s1, m) = ((s', m'), r)"
    using res tg by (auto simp: fs_write_file_in_dir_def split: if_splits)
  then show ?thesis
  proof cases
    case 2
    then have "e = 0" using tg by (auto simp: write_target_def Let_def split: if_splits prod.splits)
    then obtain S where "off_clusters rd m m' S" "\<forall>c\<in>S. cluster_ok c"
      using write_contents_ok [OF w(1) _ rd buf 2(2)] w(2) by blast
    moreover have "\<not> in_range x (get_cluster rd c) 512" if "cluster_ok c" for c
      using cluster_in_disk [OF rd that] x by (auto simp: in_range_def)
    ultimately show ?thesis by (simp add: off_clusters_def)
  qed simp
qed

section \<open>Reachable file systems\<close>

text \<open>
  The file system after \<open>fs_init\<close> and any calls; the memory may change between calls.
\<close>

inductive fs_reach :: "ptr \<Rightarrow> fs \<Rightarrow> bool" for rd where
  init: "fs_reach rd (fs_init s)"
| mkdir: "fs_reach rd s \<Longrightarrow> fs_reach rd (fst (fs_mkdir m name parent s))"
| rmdir: "fs_reach rd s \<Longrightarrow> fs_reach rd (fst (fs_rmdir idx s))"
| create: "fs_reach rd s \<Longrightarrow> fs_reach rd (fst (fs_create_file m name ext parent s))"
| remove: "fs_reach rd s \<Longrightarrow> fs_reach rd (fst (fs_remove_entry idx s))"
| write_file: "fs_reach rd s \<Longrightarrow> buf_ok rd data (unat n) \<Longrightarrow> unat n < 2 ^ 32 \<Longrightarrow>
    fs_reach rd (fst (fst (fs_write_file_in_dir rd name ext parent data n (s, m))))"

lemma fs_init_ok: "fs_wf (fs_init s)"
proof -
  have name: "length (strncpy_field (\<lambda>i. [47, 0] ! i) 0 63 @ [0 :: u8]) = 64"
    "(strncpy_field (\<lambda>i. [47, 0] ! i) 0 63 @ [0 :: u8]) ! 63 = 0" by (simp_all add: nth_append)
  let ?root = "zero_entry\<lparr>e_used := True, e_is_dir := True, e_parent := -1,
    e_name := strncpy_field (\<lambda>i. [47, 0] ! i) 0 63 @ [0]\<rparr>"
  let ?es = "(replicate FS_MAX_ENTRIES zero_entry)[0 := ?root]"
  have s: "fs_init s = \<lparr>fat = (\<lambda>c. 0), entries = ?es\<rparr>"
    by (simp add: fs_init_def FS_ROOT_IDX_def FS_NAME_MAX_def zero_entry_def)
  have pos: "0 < FS_MAX_ENTRIES" by (simp add: FS_MAX_ENTRIES_def)
  have e0: "?es ! 0 = ?root" using pos by simp
  have ei: "?es ! i = zero_entry" if "0 < i" "i < FS_MAX_ENTRIES" for i using that by simp
  have z: "\<not> e_used zero_entry" "e_first_cluster zero_entry = 0" by (simp_all add: zero_entry_def)
  have "entry_ok ?root" using name by (simp add: entry_ok_def zero_entry_def FS_EXT_MAX_def)
  then have "\<forall>e\<in>set ?es. entry_ok e"
    using set_update_subset_insert [of "replicate FS_MAX_ENTRIES zero_entry" 0 ?root] by auto
  moreover have "tree_ok ?es" using e0 ei z(1) unfolding tree_ok_def by auto
  moreover have "family cchain (\<lambda>c. 0) (\<lambda>i. None)" by (simp add: family_def)
  moreover have "chains_for ?es (\<lambda>i. None)"
    unfolding chains_for_def
  proof (intro allI impI)
    fix i assume i: "i < FS_MAX_ENTRIES" "e_used (?es ! i)"
    then have "?es ! i = ?root" using e0 ei [of i] z(1) by (cases "i = 0") auto
    then show "(\<not> e_is_dir (?es ! i) \<longrightarrow> e_first_cluster (?es ! i) \<noteq> 0) \<and> (e_first_cluster (?es ! i) \<noteq> 0 \<longrightarrow>
        (\<exists>cs. None = Some cs \<and> hd cs = e_first_cluster (?es ! i)))" using z(2) by simp
  qed
  ultimately show ?thesis unfolding fs_wf_def s by auto
qed

lemma fs_reach_ok:
  assumes "disk_ok rd" "fs_reach rd s"
  shows "fs_wf s"
  using assms(2)
proof induction
  case init
  show ?case by (rule fs_init_ok)
next
  case (mkdir s m name parent)
  then show ?case using fs_mkdir_wf(1) by (metis prod.collapse)
next
  case (rmdir s idx)
  then show ?case using fs_rmdir_wf by (metis prod.collapse)
next
  case (create s m name ext parent)
  then show ?case using fs_create_file_wf by (metis prod.collapse)
next
  case (remove s idx)
  then show ?case using fs_remove_entry_wf by (metis prod.collapse)
next
  case (write_file s data n name ext parent m)
  then show ?case using fs_write_file_wf [OF _ assms(1)] by (metis prod.collapse)
qed

text \<open>From any used entry the parents lead to the root, over used directories.\<close>

fun ancestor :: "fs_entry_t list \<Rightarrow> nat \<Rightarrow> nat \<Rightarrow> nat" where
  "ancestor es i 0 = i"
| "ancestor es i (Suc k) = ancestor es (nat (e_parent (es ! i))) k"

lemma ancestor_root:
  assumes "tree_ok es" "i < FS_MAX_ENTRIES" "e_used (es ! i)"
  shows "\<exists>k. ancestor es i k = 0 \<and> (\<forall>j \<le> k. 0 < j \<longrightarrow> is_directory es (int (ancestor es i j)))"
proof -
  obtain d where d: "\<And>i. i < FS_MAX_ENTRIES \<Longrightarrow> 0 < i \<Longrightarrow> e_used (es ! i) \<Longrightarrow> ranked es d i"
    using assms(1) unfolding tree_ok_def by blast
  show ?thesis
    using assms(2,3)
  proof (induction "d i" arbitrary: i rule: less_induct)
    case less
    show ?case
    proof (cases "i = 0")
      case True
      then show ?thesis by (intro exI [of _ 0]) simp
    next
      case False
      let ?p = "nat (e_parent (es ! i))"
      have r: "d ?p < d i" "?p < FS_MAX_ENTRIES" "is_directory es (int ?p)"
        using d [of i] less.prems False by (auto simp: ranked_def bad_index_def)
      have "e_used (es ! ?p)" using r(3) unfolding is_directory_def nat_int by blast
      then obtain k where k: "ancestor es ?p k = 0" "\<forall>j \<le> k. 0 < j \<longrightarrow> is_directory es (int (ancestor es ?p j))"
        using less.hyps [OF r(1,2)] by blast
      have "is_directory es (int (ancestor es i j))" if j: "j \<le> Suc k" "0 < j" for j
      proof (cases j)
        case (Suc j')
        then show ?thesis using k(2) r(3) j by (cases "j' = 0") auto
      qed (use j in simp)
      then show ?thesis using k(1) by (intro exI [of _ "Suc k"]) simp
    qed
  qed
qed

lemma get_all_loop_eq:
  "get_all_loop es mx parent count =
     take (nat (mx - count)) (map with_slash (filter (\<lambda>e. e_used e \<and> e_parent e = parent) es))"
proof (induction es arbitrary: count)
  case (Cons e es)
  show ?case
  proof (cases "count < mx")
    case True
    then have "nat (mx - count) = Suc (nat (mx - (count + 1)))" by simp
    then show ?thesis using True Cons.IH by simp
  qed simp
qed simp

lemma with_slash_ok: "entry_ok e \<Longrightarrow> entry_ok (with_slash e)"
proof -
  assume e: "entry_ok e"
  show ?thesis
  proof (cases "e_is_dir e")
    case True
    define len where "len = length (takeWhile (\<lambda>b. b \<noteq> 0) (e_name e))"
    show ?thesis
    proof (cases "len < 63")
      case l: True
      have "(e_name e)[len := 47, Suc len := 0] ! 63 = 0"
        using e l by (auto simp: entry_ok_def nth_list_update)
      then show ?thesis using e True l by (simp add: with_slash_def entry_ok_def Let_def len_def FS_NAME_MAX_def)
    qed (use e True in \<open>simp add: with_slash_def Let_def len_def FS_NAME_MAX_def\<close>)
  qed (use e in \<open>simp add: with_slash_def\<close>)
qed

section \<open>A concrete file system\<close>

definition demo_fs :: fs where
  "demo_fs = fs_init \<lparr>fat = (\<lambda>c. 0), entries = []\<rparr>"

text \<open>The name \<open>a\<close> at 0x100, the bytes 1, 2, 3 at 0x200, the disk at 0x100000.\<close>

definition demo_fm :: mem where
  "demo_fm = (\<lambda>x. 0)(0x100 := 97, 0x200 := 1, 0x201 := 2, 0x202 := 3)"

lemma demo_fs_entries:
  "is_directory (entries demo_fs) 0" "e_parent (entries demo_fs ! 0) = -1"
  "\<And>i. 0 < i \<Longrightarrow> i < FS_MAX_ENTRIES \<Longrightarrow> \<not> e_used (entries demo_fs ! i)"
proof -
  have pos: "0 < FS_MAX_ENTRIES" by (simp add: FS_MAX_ENTRIES_def)
  then show "is_directory (entries demo_fs) 0" "e_parent (entries demo_fs ! 0) = -1"
    by (simp_all add: demo_fs_def fs_init_def FS_ROOT_IDX_def is_directory_def)
  show "\<not> e_used (entries demo_fs ! i)" if "0 < i" "i < FS_MAX_ENTRIES" for i
    using that by (simp add: demo_fs_def fs_init_def FS_ROOT_IDX_def zero_entry_def)
qed

lemma demo_fs_unused:
  assumes "i < FS_MAX_ENTRIES" "e_used (entries demo_fs ! i)"
  shows "e_parent (entries demo_fs ! i) \<noteq> 0"
  using demo_fs_entries assms by (cases "i = 0") auto

lemma demo_create:
  assumes "name \<noteq> NULL"
  shows "\<exists>s' c. fs_create_file m name NULL 0 demo_fs = (s', 1, c)"
proof -
  have free: "find_free_entry (entries demo_fs) = 1"
  proof -
    have "\<not> e_used (entries demo_fs ! 1)" using demo_fs_entries(3) [of 1] by (simp add: FS_MAX_ENTRIES_def)
    then have "scan (\<lambda>i. \<not> e_used (entries demo_fs ! i)) 1 FS_MAX_ENTRIES = Some 1"
      by (simp add: scan_Some FS_MAX_ENTRIES_def)
    then show ?thesis unfolding find_free_entry_def by simp
  qed
  have dup: "scan (\<lambda>i. let e = entries demo_fs ! i in e_used e \<and> e_parent e = 0 \<and> P e) 0 FS_MAX_ENTRIES = None" for P
    using demo_fs_unused by (auto simp: scan_None Let_def)
  obtain f c where al: "alloc_cluster (fat demo_fs) = (f, c)" by force
  have "c \<noteq> 0"
  proof
    assume "c = 0"
    then have "fat demo_fs 2 \<noteq> 0"
      using alloc_cluster_None(2) [of "fat demo_fs" f 2] al by (simp add: cluster_ok_def FAT_ENTRIES_def)
    then show False by (simp add: demo_fs_def fs_init_def)
  qed
  then show ?thesis
    using free dup demo_fs_entries(1) al assms by (simp add: fs_create_file_def bad_index_def FS_MAX_ENTRIES_def)
qed

lemma write_contents_small:
  assumes "one_cluster s i" "n \<noteq> 0" "n \<le> 512"
  shows "snd (write_contents rd i data n (s, m)) = 0"
proof -
  have c: "cluster_ok (e_first_cluster (entries s ! i))" using assms(1) by (simp add: one_cluster_def)
  have "\<not> n - 0 > 512" "0 < n" using assms(2,3) by (simp_all add: word_neq_0_conv)
  then have "snd (snd (fs_write rd (fat s) m (e_first_cluster (entries s ! i)) data n)) = n"
    using c by (simp add: fs_write_def cluster_ok_def fs_write_loop.simps [of _ _ _ _ _ 0] Let_def)
  then show ?thesis using assms(2) by (auto simp: write_contents_def Let_def split: prod.split)
qed

text \<open>A new file of up to one cluster can be written while an entry and a cluster are free.\<close>

lemma write_small_ok:
  assumes wf: "fs_wf s" and p: "\<not> bad_index parent" "is_directory (entries s) parent"
    and n: "name \<noteq> NULL" "ext \<noteq> NULL" "fs_find_in_dir m name ext parent s < 0"
    and free: "0 < j" "j < FS_MAX_ENTRIES" "\<not> e_used (entries s ! j)" "cluster_ok c" "fat s c = 0"
    and sz: "k \<noteq> 0" "k \<le> 512"
  shows "\<exists>s' m'. fs_write_file_in_dir rd name ext parent data k (s, m) = ((s', m'), 0)"
proof -
  have "\<not> find_free_entry (entries s) < 0"
    using free(1-3) by (cases rule: find_free_entry_cases [of "entries s"]) auto
  moreover have "scan (\<lambda>i. let e = entries s ! i in e_used e \<and> e_parent e = parent \<and> \<not> e_is_dir e \<and>
      nameeq (field_at (e_name e)) (arg_at m name) FS_NAME_MAX \<and>
      nameeq (field_at (e_ext e)) (arg_at m ext) FS_EXT_MAX) 0 FS_MAX_ENTRIES = None"
    unfolding scan_None Let_def
  proof (intro allI impI)
    fix i assume "i < FS_MAX_ENTRIES"
    then have "\<not> entry_matches m name ext parent (entries s ! i)"
      using n p(1) by (auto simp: fs_find_in_dir_def scan_None split: option.splits)
    then show "\<not> (e_used (entries s ! i) \<and> e_parent (entries s ! i) = parent \<and> \<not> e_is_dir (entries s ! i) \<and>
        nameeq (field_at (e_name (entries s ! i))) (arg_at m name) FS_NAME_MAX \<and>
        nameeq (field_at (e_ext (entries s ! i))) (arg_at m ext) FS_EXT_MAX)"
      using n(2) by (auto simp: entry_matches_def)
  qed
  moreover obtain f d where al: "alloc_cluster (fat s) = (f, d)" by force
  moreover have "d \<noteq> 0" using alloc_cluster_None(2) [of "fat s" f c] al free(4,5) by auto
  ultimately obtain s1 i q where cr: "fs_create_file m name ext parent s = (s1, i, q)" "0 \<le> i"
    using n(1) p by (simp add: fs_create_file_def Let_def)
  have tg: "write_target m name ext parent s = (s1, i, 0)"
    using n(3) cr by (simp add: write_target_def)
  have "snd (write_contents rd (nat i) data k (s1, m)) = 0"
    by (rule write_contents_small [OF fs_create_file_ok(5) [OF wf cr] sz])
  then have "\<exists>s' m'. write_contents rd (nat i) data k (s1, m) = ((s', m'), 0)" by (metis prod.collapse)
  then show ?thesis using n(1) p tg by (simp add: fs_write_file_in_dir_def)
qed

lemma demo_write:
  "\<exists>s' m'. fs_write_file_in_dir 0x100000 0x100 NULL 0 0x200 3 (demo_fs, demo_fm) = ((s', m'), 0)"
proof -
  have wf: "fs_wf demo_fs" by (simp add: demo_fs_def fs_init_ok)
  obtain s1 c where cr: "fs_create_file demo_fm 0x100 NULL 0 demo_fs = (s1, 1, c)" using demo_create [of "0x100" demo_fm] by auto
  have "scan (\<lambda>i. entry_matches demo_fm 0x100 NULL 0 (entries demo_fs ! i)) 0 FS_MAX_ENTRIES = None"
    using demo_fs_unused by (auto simp: scan_None entry_matches_def)
  then have "write_target demo_fm 0x100 NULL 0 demo_fs = (s1, 1, 0)"
    using cr by (simp add: write_target_def fs_find_in_dir_def Let_def)
  moreover have "one_cluster s1 1" using fs_create_file_ok(5) [OF wf cr] by simp
  then have "snd (write_contents 0x100000 1 0x200 3 (s1, demo_fm)) = 0"
    by (rule write_contents_small) simp_all
  then have "\<exists>s' m'. write_contents 0x100000 1 0x200 3 (s1, demo_fm) = ((s', m'), 0)"
    by (metis prod.collapse)
  ultimately show ?thesis
    using demo_fs_entries(1) by (simp add: fs_write_file_in_dir_def bad_index_def FS_MAX_ENTRIES_def)
qed

lemma demo_disk: "disk_ok 0x100000" "buf_ok 0x100000 0x200 3" "name_ok 0x100000 demo_fm 0x100"
proof -
  show "disk_ok 0x100000" "buf_ok 0x100000 0x200 3"
    by (simp_all add: disk_ok_def buf_ok_def RAMDISK_SIZE_def disjoint_def)
  show "name_ok 0x100000 demo_fm 0x100"
    unfolding name_ok_def
    by (intro conjI exI [of _ 1])
      (simp_all add: buf_ok_def RAMDISK_SIZE_def disjoint_def arg_at_def demo_fm_def)
qed

section \<open>Correctness of the file system\<close>

text \<open>
  C13: every file system that calls of the interface can produce from \<open>fs_init\<close> is well
  formed: 512 entries with terminated names, a tree of directories under the root, and for
  every file a chain of clusters inside the table that no other entry shares.
\<close>

theorem fs_reachable_wf:
  assumes "disk_ok rd" "fs_reach rd s"
  shows "fs_wf s"
  using assms by (rule fs_reach_ok)

theorem fs_reachable_wf_witness:
  "fs_wf (fst (fs_create_file demo_fm 0x100 NULL 0 demo_fs))"
  using fs_reachable_wf [OF demo_disk(1)]
    fs_reach.create [OF fs_reach.init [of "0x100000" "\<lparr>fat = (\<lambda>c. 0), entries = []\<rparr>"], of demo_fm "0x100" NULL 0]
  by (simp add: demo_fs_def)

text \<open>
  C9: a write that reports success can be read back under the same name and directory:
  the read returns 0, reports the size written, and puts the bytes written into the buffer.
\<close>

theorem fs_write_read_roundtrip:
  assumes "fs_wf s" "disk_ok rd" "name_ok rd m name" "ext = NULL \<or> name_ok rd m ext"
    "buf_ok rd data (unat n)" "unat n < 2 ^ 32"
    "fs_write_file_in_dir rd name ext parent data n (s, m) = ((s', m'), 0)"
    "buf_ok rd buf (unat n)" "n \<le> bufsize"
  shows "\<exists>m''. fs_read_file_in_dir rd name ext parent buf bufsize (s', m') = (m'', 0, Some n) \<and>
    ld_bytes m'' buf (unat n) = ld_bytes m data (unat n)"
proof -
  obtain i where i: "fs_find_in_dir m' name ext parent s' = int i"
      "holds rd s' m' i (ld_bytes m data (unat n))"
    by (rule fs_write_file_ok [OF assms(1-7)])
  show ?thesis
    using fs_read_file_holds [OF assms(2) i, of buf bufsize] assms(8,9)
    by (simp add: word_le_nat_alt)
qed

theorem fs_write_read_roundtrip_witness:
  "\<exists>s' m' m''. fs_write_file_in_dir 0x100000 0x100 NULL 0 0x200 3 (demo_fs, demo_fm) = ((s', m'), 0) \<and>
     fs_read_file_in_dir 0x100000 0x100 NULL 0 0x300 16 (s', m') = (m'', 0, Some 3) \<and>
     ld_bytes m'' 0x300 3 = [1, 2, 3]"
proof -
  obtain s' m' where w: "fs_write_file_in_dir 0x100000 0x100 NULL 0 0x200 3 (demo_fs, demo_fm) = ((s', m'), 0)"
    using demo_write by blast
  have b: "ld_bytes demo_fm 0x200 3 = [1, 2, 3]" by (simp add: demo_fm_def numeral_eq_Suc)
  have "\<exists>m''. fs_read_file_in_dir 0x100000 0x100 NULL 0 0x300 16 (s', m') = (m'', 0, Some 3) \<and>
      ld_bytes m'' 0x300 (unat (3 :: u64)) = ld_bytes demo_fm 0x200 (unat (3 :: u64))"
    using fs_write_read_roundtrip [of demo_fs "0x100000" demo_fm "0x100" NULL "0x200" 3 0 s' m' "0x300" 16]
      w demo_disk fs_init_ok
    by (simp add: demo_fs_def buf_ok_def RAMDISK_SIZE_def disjoint_def)
  then show ?thesis using w b by auto
qed



text \<open>
  In a well-formed file system the parents of any used entry lead to the root, over
  used directories only: no entry is orphaned and no directory is its own ancestor.
\<close>

lemma fs_paths_end_at_root:
  assumes "fs_wf s" "i < FS_MAX_ENTRIES" "e_used (entries s ! i)"
  shows "\<exists>k. ancestor (entries s) i k = FS_ROOT_IDX \<and>
    (\<forall>j \<le> k. 0 < j \<longrightarrow> is_directory (entries s) (int (ancestor (entries s) i j)))"
  using ancestor_root [of "entries s" i] assms by (simp add: fs_wf_def FS_ROOT_IDX_def)

text \<open>
  The listing of a directory is its used entries in table order, at most \<open>max_files\<close> of
  them, the directories with a slash added; every copy is again a terminated 64-byte name.
\<close>

lemma fs_get_all_lists_directory:
  assumes "fs_wf s" "\<not> bad_index parent"
  shows "fs_get_all_in_dir mx parent s =
      take (nat mx) (map with_slash (filter (\<lambda>e. e_used e \<and> e_parent e = parent) (entries s))) \<and>
    (\<forall>e \<in> set (fs_get_all_in_dir mx parent s). entry_ok e)"
proof -
  have l: "fs_get_all_in_dir mx parent s =
      take (nat mx) (map with_slash (filter (\<lambda>e. e_used e \<and> e_parent e = parent) (entries s)))"
    using assms(2) by (simp add: fs_get_all_in_dir_def get_all_loop_eq)
  have "\<forall>e \<in> set (entries s). entry_ok (with_slash e)" using assms(1) with_slash_ok by (simp add: fs_wf_def)
  then show ?thesis unfolding l using in_set_takeD by fastforce
qed

text \<open>
  Freeing a chain returns and clears exactly its cells, and the cluster allocated next
  lies inside the table and was free.
\<close>

lemma fat_free_then_alloc:
  assumes "cchain f cs"
  shows "free_cluster_chain f (hd cs) = (\<lambda>c. if c \<in> set cs then 0 else f c) \<and>
    (\<exists>f' c. alloc_cluster (free_cluster_chain f (hd cs)) = (f', c) \<and> cluster_ok c \<and>
       (c \<in> set cs \<or> f c = 0) \<and> cchain f' [c])"
proof -
  note fr = free_cluster_chain_cchain [OF assms]
  let ?f = "free_cluster_chain f (hd cs)"
  obtain f' c where al: "alloc_cluster ?f = (f', c)" by force
  have "hd cs \<in> set cs" using assms by (cases cs) auto
  then have "?f (hd cs) = 0" "cluster_ok (hd cs)" using fr cchain_ok [OF assms] by simp_all
  then have c: "c \<noteq> 0" using alloc_cluster_None(2) [of ?f f' "hd cs"] al by auto
  note a = alloc_cluster_Some [OF al c]
  have "c \<in> set cs \<or> f c = 0" using a(2) fr by (simp split: if_splits)
  then show ?thesis using fr al a by auto
qed

text \<open>
  The address of a cluster that the table can name lies inside the RAM disk, and two
  different clusters do not overlap.
\<close>

lemma clusters_inside_ramdisk:
  assumes "disk_ok rd" "cluster_ok c" "cluster_ok d"
  shows "unat rd \<le> unat (get_cluster rd c) \<and> unat (get_cluster rd c) + 512 \<le> unat rd + RAMDISK_SIZE \<and>
    (c \<noteq> d \<longrightarrow> disjoint (get_cluster rd c) 512 (get_cluster rd d) 512)"
  using unat_get_cluster [OF assms(1,2)] clusters_disjoint [OF assms] by blast

text \<open>
  A directory is removed only when no used entry has it as its parent; each refusal
  leaves the file system as it was.
\<close>

lemma fs_rmdir_only_empty:
  "(case fs_rmdir idx s of (s', r) \<Rightarrow>
     (r = 0 \<longleftrightarrow> 0 < idx \<and> idx < int FS_MAX_ENTRIES \<and> is_directory (entries s) idx \<and>
        \<not> (\<exists>k < FS_MAX_ENTRIES. e_used (entries s ! k) \<and> e_parent (entries s ! k) = idx)) \<and>
     (r = 0 \<or> s' = s) \<and> r \<in> {0, -1, -2, -3})"
proof -
  have hc: "has_children (entries s) idx \<longleftrightarrow>
      (\<exists>k < FS_MAX_ENTRIES. e_used (entries s ! k) \<and> e_parent (entries s ! k) = idx)"
    if "0 < idx" "idx < int FS_MAX_ENTRIES"
    using that has_children_iff [of "nat idx" "entries s"] by auto
  show ?thesis
  proof (cases "0 < idx \<and> idx < int FS_MAX_ENTRIES")
    case True
    then show ?thesis using hc by (auto simp: fs_rmdir_def)
  qed (auto simp: fs_rmdir_def)
qed

text \<open>
  C40: a name of 64 or more characters is stored cut to 63, and the comparison over 64
  bytes then never finds it: creating such a file does not change what a lookup of that
  name returns, so duplicates go unnoticed and the file cannot be opened again.
\<close>

theorem fs_long_name_lost:
  assumes "fs_wf s" "fs_create_file m name ext parent s = (s', r, c)" "0 \<le> r"
    "\<forall>i < 64. arg_at m name i \<noteq> 0"
  shows "fs_find_in_dir m name ext parent s' = fs_find_in_dir m name ext parent s"
proof -
  note k = fs_create_file_ok(1-3,7) [OF assms(1-3)]
  have len: "length (entries s) = 512" using assms(1) by (simp add: fs_wf_def FS_MAX_ENTRIES_def)
  have "\<not> nameeq (field_at (new_name m name 64)) (arg_at m name) 64"
  proof
    assume "nameeq (field_at (new_name m name 64)) (arg_at m name) 64"
    then have "(\<forall>l < 63. arg_at m name l \<noteq> 0) \<longrightarrow> field_at (new_name m name 64) 63 = arg_at m name 63"
      unfolding nameeq_iff by (rule_tac allE) (assumption, simp)
    then show False using assms(4) new_name_ok(2) [of m name] by (simp add: field_at_def)
  qed
  moreover obtain q where "entries s' = (entries s)[nat r := zero_entry\<lparr>e_name := new_name m name 64,
        e_ext := (if ext \<noteq> NULL then new_name m ext 64 else replicate 64 0), e_parent := parent,
        e_used := True, e_first_cluster := q\<rparr>]"
    using k(4) by blast
  ultimately have "entry_matches m name ext parent (entries s' ! i) = entry_matches m name ext parent (entries s ! i)"
    for i using k(1-3) len
    by (cases "i = nat r") (simp_all add: entry_matches_def FS_NAME_MAX_def zero_entry_def)
  then show ?thesis by (simp add: fs_find_in_dir_def)
qed

theorem fs_long_name_lost_witness:
  "\<exists>s'. fst (fs_create_file (\<lambda>x. 97) 0x100 NULL 0 demo_fs) = s' \<and>
     fs_find_in_dir (\<lambda>x. 97) 0x100 NULL 0 s' = -1"
proof -
  obtain s' c where cr: "fs_create_file (\<lambda>x. 97) 0x100 NULL 0 demo_fs = (s', 1, c)"
    using demo_create [of "0x100" "\<lambda>x. 97"] by auto
  have "scan (\<lambda>i. entry_matches (\<lambda>x. 97) 0x100 NULL 0 (entries demo_fs ! i)) 0 FS_MAX_ENTRIES = None"
    using demo_fs_unused by (auto simp: scan_None entry_matches_def)
  then have "fs_find_in_dir (\<lambda>x. 97) 0x100 NULL 0 demo_fs = -1" by (simp add: fs_find_in_dir_def)
  moreover have "fs_wf demo_fs" by (simp add: demo_fs_def fs_init_ok)
  ultimately show ?thesis
    using fs_long_name_lost [OF _ cr] cr by (simp add: arg_at_def)
qed

end
