(* ===== verification/Fat_Space.thy ===== *)
theory Fat_Space
  imports Fat16
begin

text \<open>
  When a file can be written: \<open>fs_write_file_in_dir\<close> reports success whenever there is an entry for the name, found or free, and
  there are enough free clusters.
\<close>

section \<open>Free clusters\<close>

definition free_clusters :: "fat_table \<Rightarrow> nat" where
  "free_clusters f = card {c. cluster_ok c \<and> f c = 0}"

lemma free_clusters_mono: "(\<And>c. f c = 0 \<Longrightarrow> f' c = 0) \<Longrightarrow> free_clusters f \<le> free_clusters f'"
  unfolding free_clusters_def by (rule card_mono) auto

lemma free_clusters_alloc:
  assumes "0 < free_clusters f"
  obtains c where "alloc_cluster f = (f(c := 0xFFFF), c)" "c \<noteq> 0" "cluster_ok c" "f c = 0" "free_clusters (f(c := 0xFFFF)) = free_clusters f - 1"
proof -
  obtain f' c where a: "alloc_cluster f = (f', c)" by force
  have "{c. cluster_ok c \<and> f c = 0} \<noteq> {}" using assms by (force simp: free_clusters_def card_gt_0_iff)
  then have c: "c \<noteq> 0" using alloc_cluster_None(2) [of f f'] a by auto
  note s = alloc_cluster_Some [OF a c]
  have "{d. cluster_ok d \<and> (f(c := 0xFFFF)) d = 0} = {d. cluster_ok d \<and> f d = 0} - {c}" by auto
  then have "free_clusters (f(c := 0xFFFF)) = free_clusters f - 1" using s(1,2) by (simp add: free_clusters_def)
  then show thesis using that a c s by blast
qed

lemma free_clusters_used: "f c \<noteq> 0 \<Longrightarrow> v \<noteq> 0 \<Longrightarrow> free_clusters (f(c := v)) = free_clusters f"
  unfolding free_clusters_def by (rule arg_cong [of _ _ card]) auto

text \<open>Freeing a chain makes no cluster busy, also when the table is damaged.\<close>

lemma free_chain_loop_frees: "f c = 0 \<Longrightarrow> free_chain_loop f cur c = 0"
proof (induction f cur rule: free_chain_loop.induct)
  case (1 f cur)
  show ?case
  proof (cases "cur \<noteq> 0 \<and> unat cur < FAT_ENTRIES \<and> f cur \<noteq> 0 \<and> f cur \<noteq> 0xFFFF")
    case True
    moreover have "(f(cur := 0)) c = 0" using "1.prems" by simp
    ultimately have "free_chain_loop (f(cur := 0)) (f cur) c = 0" by (intro "1.IH" [OF _ refl refl]) blast+
    with True show ?thesis by (subst free_chain_loop.simps) (simp add: Let_def)
  next
    case False
    then show ?thesis using "1.prems" by (subst free_chain_loop.simps) (auto simp: Let_def)
  qed
qed

lemma free_cluster_chain_frees: "free_clusters f \<le> free_clusters (free_cluster_chain f first)"
  by (rule free_clusters_mono) (simp add: free_cluster_chain_def free_chain_loop_frees)

section \<open>Complete writes\<close>

lemma fs_write_loop_complete:
  "f cur = 0xFFFF \<Longrightarrow> i < n \<Longrightarrow> unat n - unat i \<le> 512 * Suc (free_clusters f) \<Longrightarrow>
    snd (snd (fs_write_loop rd f m cur data i n)) = n"
proof (induction "unat n - unat i" arbitrary: f m cur i rule: less_induct)
  case less
  define k where "k = (if n - i > 512 then 512 else n - i)"
  note tk = transfer_less [OF less.prems(2), folded k_def]
  let ?m = "memcpy m (get_cluster rd cur) (data + i) k"
  have step: "fs_write_loop rd f m cur data i n =
      (if i + k < n then
         let f' = fst (alloc_cluster f); nc = snd (alloc_cluster f)
         in if nc = 0 then (f'(cur := 0xFFFF), ?m, i + k)
            else fs_write_loop rd (f'(cur := nc)) ?m nc data (i + k) n
       else (f(cur := 0xFFFF), ?m, i + k))"
    using less.prems(1,2) by (subst fs_write_loop.simps) (simp add: Let_def k_def)
  show ?case
  proof (cases "i + k < n")
    case False
    then have "i + k = n" using tk by (simp add: word_less_nat_alt flip: word_unat_eq_iff)
    then show ?thesis using step False by simp
  next
    case True
    then have k: "unat k = 512" using tk(1,5) by (simp add: word_less_nat_alt)
    then have fr: "0 < free_clusters f" using less.prems(3) True tk(1) by (simp add: word_less_nat_alt)
    obtain c where c: "alloc_cluster f = (f(c := 0xFFFF), c)" "c \<noteq> 0" "f c = 0" "free_clusters (f(c := 0xFFFF)) = free_clusters f - 1"
      by (rule free_clusters_alloc [OF fr])
    let ?f = "(f(c := 0xFFFF))(cur := c)"
    have ne: "c \<noteq> cur" using c(3) less.prems(1) by auto
    have "free_clusters ?f = free_clusters f - 1" using free_clusters_used [of "f(c := 0xFFFF)" cur c] c(2,4) ne less.prems(1) by simp
    then have "unat n - unat (i + k) \<le> 512 * Suc (free_clusters ?f)" using less.prems(3) fr tk(1) k by simp
    moreover have "?f c = 0xFFFF" using ne by simp
    ultimately have "snd (snd (fs_write_loop rd ?f ?m c data (i + k) n)) = n" using less.hyps [OF tk(6) _ True] by blast
    then show ?thesis using step True c(1,2) by simp
  qed
qed

lemma write_contents_complete:
  assumes "fat s (e_first_cluster (entries s ! i)) = 0xFFFF" "cluster_ok (e_first_cluster (entries s ! i))"
    "unat n \<le> 512 * Suc (free_clusters (fat s))"
  shows "snd (write_contents rd i data n (s, m)) = 0"
proof (cases "n = 0")
  case False
  then have "snd (snd (fs_write rd (fat s) m (e_first_cluster (entries s ! i)) data n)) = n"
    using fs_write_loop_complete [of "fat s" "e_first_cluster (entries s ! i)" 0 n] assms by (simp add: fs_write_def cluster_ok_def word_neq_0_conv)
  then show ?thesis using False by (auto simp: write_contents_def Let_def split: prod.split)
qed (simp add: write_contents_def Let_def)

text \<open>The entry that is written to has one cluster of its own, which is the only one taken.\<close>

lemma write_target_ready:
  assumes p: "name \<noteq> NULL" "ext \<noteq> NULL" "\<not> bad_index parent" "is_directory (entries s) parent" "length (entries s) = FS_MAX_ENTRIES"
    and e: "fs_find_in_dir m name ext parent s < 0 \<Longrightarrow> 0 \<le> find_free_entry (entries s)" and fr: "0 < free_clusters (fat s)"
  obtains s' i where "write_target m name ext parent s = (s', int i, 0)" "fat s' (e_first_cluster (entries s' ! i)) = 0xFFFF"
    "cluster_ok (e_first_cluster (entries s' ! i))" "free_clusters (fat s) \<le> Suc (free_clusters (fat s'))"
proof (cases "scan (\<lambda>i. entry_matches m name ext parent (entries s ! i)) 0 FS_MAX_ENTRIES")
  case (Some j)
  then have j: "fs_find_in_dir m name ext parent s = int j" "j < FS_MAX_ENTRIES" using p scan_SomeD [OF Some] by (simp_all add: fs_find_in_dir_def)
  let ?f = "free_cluster_chain (fat s) (e_first_cluster (entries s ! j))"
  have fr': "free_clusters (fat s) \<le> free_clusters ?f" by (rule free_cluster_chain_frees)
  then have "0 < free_clusters ?f" using fr by simp
  then obtain c where c: "alloc_cluster ?f = (?f(c := 0xFFFF), c)" "c \<noteq> 0" "cluster_ok c" "free_clusters (?f(c := 0xFFFF)) = free_clusters ?f - 1"
    by (rule free_clusters_alloc)
  show thesis
    by (rule that [of "set_entry j (\<lambda>e. e\<lparr>e_first_cluster := c\<rparr>) (s\<lparr>fat := ?f(c := 0xFFFF)\<rparr>)" j])
      (use j c fr fr' p(5) in \<open>simp_all add: write_target_def set_entry_def\<close>)
next
  case None
  then have nf: "fs_find_in_dir m name ext parent s = -1" using p by (simp add: fs_find_in_dir_def)
  then obtain i where i: "find_free_entry (entries s) = int i" "i < FS_MAX_ENTRIES"
    using e by (cases rule: find_free_entry_cases [of "entries s"]) auto
  obtain c where c: "alloc_cluster (fat s) = ((fat s)(c := 0xFFFF), c)" "c \<noteq> 0" "cluster_ok c"
      "free_clusters ((fat s)(c := 0xFFFF)) = free_clusters (fat s) - 1"
    by (rule free_clusters_alloc [OF fr])
  have "scan (\<lambda>i. let e = entries s ! i in e_used e \<and> e_parent e = parent \<and> \<not> e_is_dir e \<and>
      nameeq (field_at (e_name e)) (arg_at m name) FS_NAME_MAX \<and> nameeq (field_at (e_ext e)) (arg_at m ext) FS_EXT_MAX) 0 FS_MAX_ENTRIES = None"
    using None p(2) unfolding scan_None entry_matches_def by (auto simp: Let_def)
  then obtain s' where s': "fs_create_file m name ext parent s = (s', int i, Some c)" "fat s' = (fat s)(c := 0xFFFF)"
      "e_first_cluster (entries s' ! i) = c"
    using p i c by (simp add: fs_create_file_def)
  show thesis
    by (rule that [of s' i]) (use nf s' c fr in \<open>simp_all add: write_target_def\<close>)
qed

lemma write_succeeds:
  assumes "name \<noteq> NULL" "ext \<noteq> NULL" "\<not> bad_index parent" "is_directory (entries s) parent" "length (entries s) = FS_MAX_ENTRIES"
    "fs_find_in_dir m name ext parent s < 0 \<Longrightarrow> 0 \<le> find_free_entry (entries s)"
    "0 < free_clusters (fat s)" "unat n \<le> 512 * free_clusters (fat s)"
  shows "\<exists>s' m'. fs_write_file_in_dir rd name ext parent data n (s, m) = ((s', m'), 0)"
proof -
  obtain s' i where t: "write_target m name ext parent s = (s', int i, 0)" "fat s' (e_first_cluster (entries s' ! i)) = 0xFFFF"
      "cluster_ok (e_first_cluster (entries s' ! i))" "free_clusters (fat s) \<le> Suc (free_clusters (fat s'))"
    by (rule write_target_ready [OF assms(1-7)])
  have "unat n \<le> 512 * Suc (free_clusters (fat s'))" using assms(8) t(4) by (meson le_trans mult_le_mono2)
  then have "snd (write_contents rd i data n (s', m)) = 0" by (rule write_contents_complete [OF t(2,3)])
  then show ?thesis using assms(1,3,4) t(1) by (simp add: fs_write_file_in_dir_def) (metis prod.collapse)
qed

section \<open>Writing and reading back\<close>

definition demo_ext :: mem where
  "demo_ext = demo_fm(0x110 := 98)"

text \<open>
  C10: a file of \<open>n\<close> bytes is written with result 0 as long as the directory exists, the name has an entry or an entry is free, and the free clusters
  hold \<open>n\<close> bytes, one cluster at least; the clusters of an older file of this name need not be counted.  Reading the file afterwards
  returns 0, the size and the bytes.
\<close>

theorem fs_write_succeeds:
  assumes "fs_wf s" "disk_ok rd" "name_ok rd m name" "name_ok rd m ext" "buf_ok rd data (unat n)" "unat n < 2 ^ 32"
    "name \<noteq> NULL" "ext \<noteq> NULL" "\<not> bad_index parent" "is_directory (entries s) parent"
    "fs_find_in_dir m name ext parent s < 0 \<longrightarrow> 0 \<le> find_free_entry (entries s)"
    "0 < free_clusters (fat s)" "unat n \<le> 512 * free_clusters (fat s)"
    "buf_ok rd buf (unat n)" "n \<le> bufsize"
  shows "\<exists>s' m' m''. fs_write_file_in_dir rd name ext parent data n (s, m) = ((s', m'), 0) \<and> fs_wf s' \<and>
    fs_read_file_in_dir rd name ext parent buf bufsize (s', m') = (m'', 0, Some n) \<and> ld_bytes m'' buf (unat n) = ld_bytes m data (unat n)"
proof -
  have "length (entries s) = FS_MAX_ENTRIES" using assms(1) by (simp add: fs_wf_def)
  then obtain s' m' where w: "fs_write_file_in_dir rd name ext parent data n (s, m) = ((s', m'), 0)"
    using write_succeeds [OF assms(7-10) _ _ assms(12,13)] assms(11) by blast
  obtain i where i: "fs_find_in_dir m' name ext parent s' = int i" "holds rd s' m' i (ld_bytes m data (unat n))" "fs_wf s'"
    by (rule fs_write_file_ok [OF assms(1-3) disjI2 [OF assms(4)] assms(5,6) w])
  from fs_read_file_holds [OF assms(2) i(1,2), of buf bufsize] assms(14,15) obtain m'' where
    "fs_read_file_in_dir rd name ext parent buf bufsize (s', m') = (m'', 0, Some n)" "ld_bytes m'' buf (unat n) = ld_bytes m data (unat n)"
    by (auto simp: word_le_nat_alt)
  then show ?thesis using w i(3) by blast
qed

theorem fs_write_succeeds_witness:
  "\<exists>s' m' m''. fs_write_file_in_dir 0x100000 0x100 0x110 0 0x200 3 (demo_fs, demo_ext) = ((s', m'), 0) \<and> fs_wf s' \<and>
     fs_read_file_in_dir 0x100000 0x100 0x110 0 0x300 16 (s', m') = (m'', 0, Some 3) \<and> ld_bytes m'' 0x300 3 = [1, 2, 3]"
proof -
  have "ld_bytes demo_ext 0x200 3 = ld_bytes demo_fm 0x200 3"
    by (rule ld_bytes_cong [symmetric]) (auto simp: same_on_def in_range_def demo_ext_def)
  then have b: "ld_bytes demo_ext 0x200 3 = [1, 2, 3]" by (simp add: demo_fm_def numeral_eq_Suc)
  have n: "name_ok 0x100000 demo_ext 0x100" "name_ok 0x100000 demo_ext 0x110"
    unfolding name_ok_def by (auto simp: buf_ok_def RAMDISK_SIZE_def disjoint_def arg_at_def demo_fm_def demo_ext_def intro!: exI [of _ 1])
  have "0 \<le> find_free_entry (entries demo_fs)"
    using demo_fs_entries(3) [of 1] by (cases rule: find_free_entry_cases [of "entries demo_fs"]) (auto simp: FS_MAX_ENTRIES_def)
  moreover have f: "0 < free_clusters (fat demo_fs)"
    unfolding free_clusters_def card_gt_0_iff by (auto simp: demo_fs_def fs_init_def cluster_ok_def FAT_ENTRIES_def intro!: exI [of _ 2])
  moreover have "unat (3 :: u64) \<le> 512 * free_clusters (fat demo_fs)" using f by simp
  ultimately show ?thesis
    using fs_write_succeeds [of demo_fs "0x100000" demo_ext "0x100" "0x110" "0x200" 3 0 "0x300" 16] demo_disk(1) n b fs_init_ok demo_fs_entries(1)
    by (simp add: demo_fs_def buf_ok_def RAMDISK_SIZE_def disjoint_def bad_index_def FS_MAX_ENTRIES_def)
qed

end
