(* ===== verification/Scheduler.thy ===== *)
theory Scheduler
  imports User_Malloc Kernel_Malloc
begin

text \<open>
  The preemptive scheduler, \<open>multitask/multitask.c\<close>.  Task records are kept in a store
  indexed by their address; the kernel heap that holds them and the stacks, and the user
  heap, are the ones of the allocator theories over one byte memory.  Addresses that the
  linker chooses are fields of \<open>layout\<close>.  The interrupt flag, which \<open>cli\<close> and \<open>sti\<close>
  change, is part of the state.  The walks around the ring are partial functions:
  \<open>None\<close> where the C loop would not end.
\<close>

section \<open>State\<close>

datatype task_state_t = TASK_RUNNING | TASK_READY | TASK_BLOCKED | TASK_ZOMBIE

type_synonym i32 = "32 word"

record task_t =
  t_pid :: i32
  t_state :: task_state_t
  t_regs :: ptr
  t_kstack :: ptr
  t_kstack_size :: u64
  t_exit_code :: i32
  t_next :: ptr
  t_znext :: ptr
  t_user_mem :: ptr
  t_user_mem_size :: u64

text \<open>A record after \<open>memset (t, 0, sizeof (task_t))\<close>; \<open>TASK_RUNNING\<close> is 0.\<close>

definition zero_task :: task_t where
  "zero_task = \<lparr>t_pid = 0, t_state = TASK_RUNNING, t_regs = NULL, t_kstack = NULL, t_kstack_size = 0,
     t_exit_code = 0, t_next = NULL, t_znext = NULL, t_user_mem = NULL, t_user_mem_size = 0\<rparr>"

abbreviation SIZEOF_TASK :: u64 where "SIZEOF_TASK \<equiv> 72"

definition KSTACK_SIZE :: u64 where "KSTACK_SIZE = 8 * 1024"

definition INIT_STACK_SIZE :: u64 where "INIT_STACK_SIZE = 16 * 1024"

record layout =
  l_heap_start :: ptr
  l_heap_end :: ptr
  l_user_start :: ptr
  l_user_end :: ptr
  l_init_task :: ptr
  l_init_task_stack :: ptr

record sched =
  task_ring :: ptr
  current :: ptr
  next_pid :: i32
  zombie_list :: ptr
  g_syscall_kstack_top :: u64
  if_flag :: bool
  tasks :: "ptr \<Rightarrow> task_t"
  kern_heap :: kheap
  user_heap :: uheap
  ram :: mem

definition cli :: "sched \<Rightarrow> sched" where "cli s = s\<lparr>if_flag := False\<rparr>"

definition sti :: "sched \<Rightarrow> sched" where "sti s = s\<lparr>if_flag := True\<rparr>"

definition upd_task :: "ptr \<Rightarrow> (task_t \<Rightarrow> task_t) \<Rightarrow> sched \<Rightarrow> sched" where
  "upd_task t f s = s\<lparr>tasks := (tasks s)(t := f (tasks s t))\<rparr>"

text \<open>Calls of the allocators on the shared memory.\<close>

definition k_malloc :: "layout \<Rightarrow> u64 \<Rightarrow> sched \<Rightarrow> (sched \<times> ptr) option" where
  "k_malloc L n s = map_option (\<lambda>((k, m), p). (s\<lparr>kern_heap := k, ram := m\<rparr>, p))
     (malloc (l_heap_start L) n (kern_heap s, ram s))"

definition k_free :: "ptr \<Rightarrow> sched \<Rightarrow> sched" where
  "k_free p s = (case free p (kern_heap s, ram s) of (k, m) \<Rightarrow> s\<lparr>kern_heap := k, ram := m\<rparr>)"

definition u_free :: "ptr \<Rightarrow> sched \<Rightarrow> sched" where
  "u_free p s = (case user_free p (user_heap s, ram s) of (u, m) \<Rightarrow> s\<lparr>user_heap := u, ram := m\<rparr>)"

section \<open>Creating tasks\<close>

fun st_qwords :: "mem \<Rightarrow> ptr \<Rightarrow> u64 list \<Rightarrow> mem" where
  "st_qwords m a [] = m"
| "st_qwords m a (v # vs) = st_qwords (st64 m a v) (a + 8) vs"

text \<open>The 22 cells of the saved frame, in the order of the interrupt stub.\<close>

definition initial_frame :: "ptr \<Rightarrow> ptr \<Rightarrow> u64 list" where
  "initial_frame entry kstack_top =
     [32, 0] @ replicate 15 0 @ [entry, 0x08, 0x202, kstack_top, 0x10]"

definition prepare_initial_stack :: "ptr \<Rightarrow> ptr \<Rightarrow> mem \<Rightarrow> mem \<times> ptr" where
  "prepare_initial_stack entry kstack_top m =
     (let sp = (kstack_top AND NOT 0xF) - 22 * 8
      in (st_qwords m sp (initial_frame entry kstack_top), sp))"

definition scheduler_init :: "layout \<Rightarrow> sched \<Rightarrow> sched" where
  "scheduler_init L s =
     (let it = l_init_task L;
          s = upd_task it (\<lambda>_. zero_task\<lparr>t_pid := 0, t_state := TASK_RUNNING, t_regs := NULL,
                t_kstack := NULL, t_kstack_size := 0, t_next := it\<rparr>) s
      in s\<lparr>task_ring := it, current := NULL, next_pid := 1\<rparr>)"

text \<open>The new task becomes the tail of the ring.\<close>

definition ring_insert :: "ptr \<Rightarrow> sched \<Rightarrow> sched" where
  "ring_insert t s =
     (if task_ring s = NULL then upd_task t (\<lambda>x. x\<lparr>t_next := t\<rparr>) (s\<lparr>task_ring := t\<rparr>)
      else
        let s = upd_task t (\<lambda>x. x\<lparr>t_next := t_next (tasks s (task_ring s))\<rparr>) s;
            s = upd_task (task_ring s) (\<lambda>x. x\<lparr>t_next := t\<rparr>) s
        in s\<lparr>task_ring := t\<rparr>)"

text \<open>
  \<open>task_create\<close> and \<open>utask_create\<close> do the same steps; the first leaves the user memory of
  the zeroed record.  The result is the new task, or \<open>NULL\<close> when memory runs out.
\<close>

definition new_task :: "layout \<Rightarrow> ptr \<Rightarrow> u64 \<Rightarrow> ptr \<Rightarrow> u64 \<Rightarrow> sched \<Rightarrow> (sched \<times> ptr) option" where
  "new_task L entry stack_size user_mem user_mem_size s =
     (let stack_size = (if stack_size = 0 then KSTACK_SIZE else stack_size)
      in Option.bind (k_malloc L SIZEOF_TASK s) (\<lambda>(s, t).
           if t = NULL then Some (s, NULL)
           else Option.bind (k_malloc L stack_size s) (\<lambda>(s, kstack).
             if kstack = NULL then Some (k_free t s, NULL)
             else
               let (m, sp) = prepare_initial_stack entry (kstack + stack_size) (ram s);
                   s = upd_task t (\<lambda>_. zero_task\<lparr>t_pid := next_pid s, t_state := TASK_READY,
                         t_kstack := kstack, t_kstack_size := stack_size, t_exit_code := 0, t_next := NULL,
                         t_regs := sp, t_user_mem := user_mem, t_user_mem_size := user_mem_size\<rparr>)
                       (s\<lparr>ram := m\<rparr>);
                   s = s\<lparr>next_pid := next_pid s + 1\<rparr>
               in Some (ring_insert t s, t))))"

definition task_create :: "layout \<Rightarrow> ptr \<Rightarrow> u64 \<Rightarrow> sched \<Rightarrow> sched option" where
  "task_create L entry stack_size s = map_option fst (new_task L entry stack_size NULL 0 s)"

definition utask_create :: "layout \<Rightarrow> ptr \<Rightarrow> u64 \<Rightarrow> ptr \<Rightarrow> u64 \<Rightarrow> sched \<Rightarrow> (sched \<times> u64) option" where
  "utask_create L entry stack_size user_mem user_mem_size s =
     map_option (\<lambda>(s, t). (s, if t = NULL then 0 else scast (t_pid (tasks s t))))
       (new_task L entry stack_size user_mem user_mem_size s)"

section \<open>Choosing the next task\<close>

definition runnable :: "task_t \<Rightarrow> bool" where
  "runnable t \<longleftrightarrow> t_state t = TASK_READY \<or> t_state t = TASK_RUNNING"

partial_function (option) pick_loop :: "(ptr \<Rightarrow> task_t) \<Rightarrow> ptr \<Rightarrow> ptr \<Rightarrow> ptr option" where
  "pick_loop ts start it =
     (if runnable (ts it) then Some it
      else if t_next (ts it) \<noteq> start then pick_loop ts start (t_next (ts it))
      else Some NULL)"

definition pick_next :: "sched \<Rightarrow> ptr option" where
  "pick_next s =
     (if task_ring s = NULL then Some NULL
      else
        let start = (if current s \<noteq> NULL then t_next (tasks s (current s)) else t_next (tasks s (task_ring s)))
        in pick_loop (tasks s) start start)"

definition kstack_top_of :: "task_t \<Rightarrow> u64" where
  "kstack_top_of t = t_kstack t + t_kstack_size t"

text \<open>The first half of \<open>schedule_from_isr\<close>: the interrupted task keeps its frame.\<close>

definition save_current :: "layout \<Rightarrow> ptr \<Rightarrow> sched \<Rightarrow> sched" where
  "save_current L regs s =
     (let it = l_init_task L
      in if current s = NULL then
           let s = upd_task it (\<lambda>t. t\<lparr>t_kstack := l_init_task_stack L, t_kstack_size := INIT_STACK_SIZE,
                     t_regs := regs, t_state := TASK_RUNNING\<rparr>) s
           in s\<lparr>current := it, g_syscall_kstack_top := kstack_top_of (tasks s it)\<rparr>
         else
           upd_task (current s) (\<lambda>t. t\<lparr>t_regs := regs,
             t_state := (if t_state t = TASK_RUNNING then TASK_READY else t_state t)\<rparr>) s)"

text \<open>The result is the frame to restore.\<close>

definition schedule_from_isr :: "layout \<Rightarrow> ptr \<Rightarrow> sched \<Rightarrow> (sched \<times> ptr) option" where
  "schedule_from_isr L regs s =
     (let s = save_current L regs s
      in Option.bind (pick_next s) (\<lambda>nx.
           if nx = NULL then Some (s, regs)
           else if nx = current s then
             let r = t_regs (tasks s (current s));
                 s = upd_task (current s) (\<lambda>t. t\<lparr>t_state := TASK_RUNNING\<rparr>) s
             in Some (s\<lparr>g_syscall_kstack_top := kstack_top_of (tasks s (current s))\<rparr>, r)
           else
             let s = upd_task nx (\<lambda>t. t\<lparr>t_state := TASK_RUNNING\<rparr>) (s\<lparr>current := nx\<rparr>)
             in Some (s\<lparr>g_syscall_kstack_top := kstack_top_of (tasks s nx)\<rparr>, t_regs (tasks s nx))))"

definition get_current_task :: "sched \<Rightarrow> ptr" where
  "get_current_task s = current s"

section \<open>Ending tasks\<close>

definition add_to_zombie_list :: "ptr \<Rightarrow> sched \<Rightarrow> sched" where
  "add_to_zombie_list t s =
     (if t = NULL then s
      else (upd_task t (\<lambda>x. x\<lparr>t_znext := zombie_list s\<rparr>) s)\<lparr>zombie_list := t\<rparr>)"

partial_function (option) unlink_loop :: "ptr \<Rightarrow> ptr \<Rightarrow> ptr \<Rightarrow> sched \<Rightarrow> (sched \<times> int) option" where
  "unlink_loop t prev it s =
     (if it = t then
        let s' = upd_task prev (\<lambda>x. x\<lparr>t_next := t_next (tasks s it)\<rparr>) s
        in Some (if task_ring s = it then s'\<lparr>task_ring := prev\<rparr> else s', 0)
      else if t_next (tasks s it) \<noteq> t_next (tasks s (task_ring s))
      then unlink_loop t it (t_next (tasks s it)) s
      else Some (s, -1))"

definition unlink_from_ring :: "layout \<Rightarrow> ptr \<Rightarrow> sched \<Rightarrow> (sched \<times> int) option" where
  "unlink_from_ring L t s =
     (if task_ring s = NULL \<or> t = NULL then Some (s, -1)
      else if t_next (tasks s (task_ring s)) = task_ring s then
        if task_ring s = t then
          if l_init_task L = t then Some (s, -1)
          else Some (upd_task (l_init_task L) (\<lambda>x. x\<lparr>t_next := l_init_task L\<rparr>)
                       (s\<lparr>task_ring := l_init_task L\<rparr>), 0)
        else Some (s, -1)
      else unlink_loop t (task_ring s) (t_next (tasks s (task_ring s))) s)"

definition free_task_resources :: "layout \<Rightarrow> ptr \<Rightarrow> sched \<Rightarrow> sched" where
  "free_task_resources L t s =
     (if t = NULL \<or> t = l_init_task L then s
      else
        let s = (if t_kstack (tasks s t) \<noteq> NULL then k_free (t_kstack (tasks s t)) s else s);
            s = (if t_user_mem (tasks s t) \<noteq> NULL
                 then upd_task t (\<lambda>x. x\<lparr>t_user_mem := NULL, t_user_mem_size := 0\<rparr>) (u_free (t_user_mem (tasks s t)) s)
                 else s)
        in k_free t s)"

partial_function (option) reap_loop :: "layout \<Rightarrow> ptr \<Rightarrow> sched \<Rightarrow> sched option" where
  "reap_loop L z s =
     (if z = NULL then Some s
      else
        let next_z = t_znext (tasks s z)
        in Option.bind (unlink_from_ring L z (cli s)) (\<lambda>(s, r).
             reap_loop L next_z (free_task_resources L z (sti s))))"

definition reap_zombies_internal :: "layout \<Rightarrow> sched \<Rightarrow> sched option" where
  "reap_zombies_internal L s =
     (let s = cli s; z = zombie_list s in reap_loop L z (sti (s\<lparr>zombie_list := NULL\<rparr>)))"

definition reap_zombies :: "layout \<Rightarrow> sched \<Rightarrow> sched option" where
  "reap_zombies L s = reap_zombies_internal L s"

text \<open>\<open>task_list\<close>: the pairs stored into \<open>buf\<close>; the return value is their number.\<close>

partial_function (option) list_loop ::
  "(ptr \<Rightarrow> task_t) \<Rightarrow> ptr \<Rightarrow> ptr \<Rightarrow> int \<Rightarrow> int \<Rightarrow> (i32 \<times> task_state_t) list \<Rightarrow> (i32 \<times> task_state_t) list option"
where
  "list_loop ts head it mx count acc =
     (if mx \<le> count then Some (rev acc)
      else
        let acc' = (t_pid (ts it), t_state (ts it)) # acc
        in if t_next (ts it) \<noteq> head then list_loop ts head (t_next (ts it)) mx (count + 1) acc'
           else Some (rev acc'))"

text \<open>The bound is the cast of \<open>size_t max\<close> to \<open>int\<close>.\<close>

definition task_list :: "u64 \<Rightarrow> sched \<Rightarrow> (sched \<times> (i32 \<times> task_state_t) list) option" where
  "task_list mx s =
     (let s = cli s
      in if task_ring s = NULL then Some (sti s, [])
         else
           let head = t_next (tasks s (task_ring s))
           in map_option (\<lambda>l. (sti s, l)) (list_loop (tasks s) head head (sint (ucast mx :: i32)) 0 []))"

partial_function (option) find_pid :: "(ptr \<Rightarrow> task_t) \<Rightarrow> ptr \<Rightarrow> ptr \<Rightarrow> i32 \<Rightarrow> ptr option" where
  "find_pid ts head it pid =
     (if t_pid (ts it) = pid then Some it
      else if t_next (ts it) \<noteq> head then find_pid ts head (t_next (ts it)) pid
      else Some NULL)"

text \<open>\<open>task_stop\<close> of the current task does not return: it halts with interrupts on.\<close>

datatype stop_result = Returned sched int | Halted sched

definition task_stop :: "layout \<Rightarrow> i32 \<Rightarrow> sched \<Rightarrow> stop_result option" where
  "task_stop L pid s =
     (if pid = 0 then Some (Returned s (-1))
      else Option.bind (reap_zombies_internal L (cli s)) (\<lambda>s.
        if task_ring s = NULL then Some (Returned (sti s) (-1))
        else
          let head = t_next (tasks s (task_ring s))
          in Option.bind (find_pid (tasks s) head head pid) (\<lambda>found.
               if found = NULL then Some (Returned (sti s) (-1))
               else if found = current s then
                 let s = upd_task found (\<lambda>t. t\<lparr>t_state := TASK_ZOMBIE\<rparr>) s;
                     s = add_to_zombie_list found s
                 in map_option (\<lambda>(s, r). Halted (sti s)) (unlink_from_ring L found s)
               else
                 Option.bind (unlink_from_ring L found s) (\<lambda>(s, r).
                   map_option (\<lambda>s. Returned s 0)
                     (reap_zombies_internal L (free_task_resources L found (sti s)))))))"

definition task_exit :: "layout \<Rightarrow> i32 \<Rightarrow> sched \<Rightarrow> sched option" where
  "task_exit L exit_code s =
     Option.bind (reap_zombies_internal L (cli s)) (\<lambda>s.
       if current s = NULL \<or> current s = l_init_task L then Some s
       else
         let c = current s;
             s = upd_task c (\<lambda>t. t\<lparr>t_exit_code := exit_code, t_state := TASK_ZOMBIE\<rparr>) s
         in Some (sti (add_to_zombie_list c s)))"

definition task_is_alive :: "layout \<Rightarrow> i32 \<Rightarrow> sched \<Rightarrow> (sched \<times> bool) option" where
  "task_is_alive L pid s =
     (let s = cli s
      in if sint pid \<le> 0 then Some (s, pid = 0)
         else Option.bind (reap_zombies_internal L s) (\<lambda>s.
           let s = cli s
           in if task_ring s = NULL then Some (sti s, False)
              else
                let head = t_next (tasks s (task_ring s))
                in map_option (\<lambda>t. (sti s, t \<noteq> NULL \<and> t_state (tasks s t) \<noteq> TASK_ZOMBIE))
                     (find_pid (tasks s) head head pid)))"

declare pick_loop.simps [code] unlink_loop.simps [code] reap_loop.simps [code]
  list_loop.simps [code] find_pid.simps [code]

section \<open>Rings of tasks\<close>

text \<open>The next pointers from \<open>a\<close> on run through the list and end at \<open>b\<close>.\<close>

fun path :: "(ptr \<Rightarrow> task_t) \<Rightarrow> ptr \<Rightarrow> ptr list \<Rightarrow> ptr \<Rightarrow> bool" where
  "path ts a [] b \<longleftrightarrow> a = b"
| "path ts a (x # xs) b \<longleftrightarrow> a = x \<and> path ts (t_next (ts x)) xs b"

definition ring :: "(ptr \<Rightarrow> task_t) \<Rightarrow> ptr \<Rightarrow> ptr list \<Rightarrow> bool" where
  "ring ts tail xs \<longleftrightarrow>
     xs \<noteq> [] \<and> distinct xs \<and> NULL \<notin> set xs \<and> last xs = tail \<and> path ts (hd xs) xs (hd xs)"

text \<open>The order in which a walk from \<open>x\<close> meets the tasks.\<close>

definition rot :: "ptr \<Rightarrow> ptr list \<Rightarrow> ptr list" where
  "rot x xs = dropWhile (\<lambda>y. y \<noteq> x) xs @ takeWhile (\<lambda>y. y \<noteq> x) xs"

lemma path_append: "path ts a (xs @ ys) b \<longleftrightarrow> (\<exists>c. path ts a xs c \<and> path ts c ys b)"
  by (induction xs arbitrary: a) auto

lemma path_cong: "(\<And>x. x \<in> set xs \<Longrightarrow> t_next (ts' x) = t_next (ts x)) \<Longrightarrow> path ts' a xs b = path ts a xs b"
  by (induction xs arbitrary: a) auto

lemma ring_cong: "(\<And>x. x \<in> set xs \<Longrightarrow> t_next (ts' x) = t_next (ts x)) \<Longrightarrow> ring ts' tail xs = ring ts tail xs"
  unfolding ring_def using path_cong [of xs ts' ts] by simp

lemma rot_split: "x \<notin> set ys \<Longrightarrow> rot x (ys @ x # zs) = x # zs @ ys"
proof -
  assume "x \<notin> set ys"
  then have "dropWhile (\<lambda>y. y \<noteq> x) (ys @ x # zs) = x # zs" "takeWhile (\<lambda>y. y \<noteq> x) (ys @ x # zs) = ys"
    by (auto simp: dropWhile_append takeWhile_append)
  then show ?thesis by (simp add: rot_def)
qed

lemma set_rot [simp]: "set (rot x xs) = set xs"
proof -
  have "set (takeWhile (\<lambda>y. y \<noteq> x) xs @ dropWhile (\<lambda>y. y \<noteq> x) xs) = set xs"
    by (simp only: takeWhile_dropWhile_id)
  then show ?thesis unfolding rot_def set_append by blast
qed

lemma length_rot [simp]: "length (rot x xs) = length xs"
proof -
  have "length (takeWhile (\<lambda>y. y \<noteq> x) xs @ dropWhile (\<lambda>y. y \<noteq> x) xs) = length xs"
    by (simp only: takeWhile_dropWhile_id)
  then show ?thesis unfolding rot_def length_append by arith
qed

lemma distinct_rot [simp]: "distinct (rot x xs) = distinct xs"
  by (metis card_distinct distinct_card length_rot set_rot)

lemma ring_split:
  assumes "ring ts tail (ys @ x # zs)"
  shows "t_next (ts x) = hd (zs @ ys @ [x])" "path ts x (x # zs @ ys) x"
proof -
  let ?h = "hd (ys @ [x])"
  obtain c where c: "path ts ?h ys c" "path ts c (x # zs) ?h"
    using assms unfolding ring_def path_append by (cases ys) auto
  then have cx: "c = x" "path ts (t_next (ts x)) zs ?h" by auto
  show "t_next (ts x) = hd (zs @ ys @ [x])"
    using cx(2) by (cases zs) auto
  show "path ts x (x # zs @ ys) x"
    using c(1) cx by (auto simp: path_append)
qed

lemma ring_rot:
  assumes "ring ts tail xs" "x \<in> set xs"
  shows "path ts x (rot x xs) x" "hd (rot x xs) = x"
proof -
  obtain ys zs where xs: "xs = ys @ x # zs" "x \<notin> set ys"
    using split_list_first [OF assms(2)] by blast
  then show "path ts x (rot x xs) x" "hd (rot x xs) = x"
    using ring_split(2) [of ts tail ys x zs] assms(1) rot_split [OF xs(2)] by simp_all
qed

lemma ring_next:
  assumes "ring ts tail xs" "x \<in> set xs"
  shows "t_next (ts x) \<in> set xs"
proof -
  obtain ys zs where xs: "xs = ys @ x # zs" using assms(2) by (auto simp: in_set_conv_decomp)
  have "hd (zs @ ys @ [x]) \<in> set (zs @ ys @ [x])" by (rule hd_in_set) simp
  then show ?thesis using ring_split(1) [of ts tail ys x zs] assms(1) xs by auto
qed

lemma ring_head: "ring ts tail xs \<Longrightarrow> t_next (ts tail) = hd xs"
proof -
  assume r: "ring ts tail xs"
  then have xs: "xs = butlast xs @ tail # []" "xs \<noteq> []" by (auto simp: ring_def)
  have "t_next (ts tail) = hd (butlast xs @ [tail])"
    using ring_split(1) [of ts tail "butlast xs" tail "[]"] r xs(1) by simp
  then show ?thesis using xs(1) by simp
qed

lemma ring_tail_in: "ring ts tail xs \<Longrightarrow> tail \<in> set xs"
  by (auto simp: ring_def)

text \<open>The walk after \<open>x\<close> meets the rest and then \<open>x\<close> itself.\<close>

lemma rot_next:
  assumes "ring ts tail xs" "x \<in> set xs"
  shows "rot (t_next (ts x)) xs = tl (rot x xs) @ [x]"
proof -
  obtain ys zs where xs: "xs = ys @ x # zs" "x \<notin> set ys"
    using split_list_first [OF assms(2)] by blast
  have nx: "t_next (ts x) = hd (zs @ ys @ [x])" using ring_split(1) assms(1) xs(1) by blast
  have dis: "distinct (ys @ x # zs)" using assms(1) xs(1) by (simp add: ring_def)
  show ?thesis
  proof (cases zs)
    case Nil
    show ?thesis
    proof (cases ys)
      case (Cons y ys')
      then show ?thesis using rot_split [of y "[]" "ys' @ [x]"] rot_split [OF xs(2), of "[]"] nx xs(1) Nil by simp
    qed (use nx xs Nil rot_split [of x "[]" "[]"] in simp)
  next
    case (Cons z zs')
    have "rot z ((ys @ [x]) @ z # zs') = z # zs' @ ys @ [x]"
      using dis Cons by (intro rot_split) auto
    then show ?thesis using nx xs Cons rot_split [OF xs(2), of zs] by simp
  qed
qed

section \<open>The scheduler\<close>

lemma pick_loop_path:
  assumes "path ts it (it # xs) start" "start \<notin> set xs"
  shows "pick_loop ts start it =
    Some (case find (\<lambda>t. runnable (ts t)) (it # xs) of None \<Rightarrow> NULL | Some t \<Rightarrow> t)"
  using assms
proof (induction xs arbitrary: it)
  case Nil
  then show ?case by (subst pick_loop.simps) auto
next
  case (Cons x xs)
  then have x: "t_next (ts it) = x" "path ts x (x # xs) start" "x \<noteq> start" "start \<notin> set xs" by auto
  then show ?case
    using Cons.IH [OF x(2,4)] by (subst pick_loop.simps) simp
qed

text \<open>
  The state between interrupts: the tasks form a ring, the init task is in it and can
  always run, and the current task, which may have left the ring, still leads into it.
\<close>

definition sched_ok :: "layout \<Rightarrow> sched \<Rightarrow> ptr list \<Rightarrow> bool" where
  "sched_ok L s xs \<longleftrightarrow>
     ring (tasks s) (task_ring s) xs \<and> l_init_task L \<in> set xs \<and> runnable (tasks s (l_init_task L)) \<and>
     (current s \<noteq> NULL \<longrightarrow> t_next (tasks s (current s)) \<in> set xs)"

lemma pick_next_ok:
  assumes "sched_ok L s xs" "current s \<noteq> NULL"
  obtains nx where "pick_next s = Some nx" "nx \<in> set xs" "nx \<noteq> NULL" "runnable (tasks s nx)"
    "find (\<lambda>t. runnable (tasks s t)) (rot (t_next (tasks s (current s))) xs) = Some nx"
proof -
  let ?st = "t_next (tasks s (current s))"
  have r: "ring (tasks s) (task_ring s) xs" and st: "?st \<in> set xs"
    and i: "l_init_task L \<in> set xs" "runnable (tasks s (l_init_task L))"
    using assms by (simp_all add: sched_ok_def)
  have tr: "task_ring s \<noteq> NULL" using ring_tail_in [OF r] r by (auto simp: ring_def)
  obtain ys where ys: "rot ?st xs = ?st # ys" "?st \<notin> set ys"
  proof -
    have "rot ?st xs \<noteq> []" using set_rot [of ?st xs] st by force
    then obtain y ys where y: "rot ?st xs = y # ys" by (cases "rot ?st xs") auto
    moreover have "distinct (rot ?st xs)" using r by (simp add: ring_def)
    ultimately show thesis using that ring_rot(2) [OF r st] by auto
  qed
  obtain nx where nx: "find (\<lambda>t. runnable (tasks s t)) (rot ?st xs) = Some nx"
    using i find_None_iff [of "\<lambda>t. runnable (tasks s t)" "rot ?st xs"] by (metis not_None_eq set_rot)
  have "pick_next s = Some nx"
    using pick_loop_path [of "tasks s" ?st ys ?st] ring_rot(1) [OF r st] ys nx tr assms(2)
    by (simp add: pick_next_def)
  moreover have "nx \<in> set xs" "runnable (tasks s nx)" using find_in_set [OF nx] by simp_all
  moreover have "NULL \<notin> set xs" using r by (simp add: ring_def)
  ultimately show thesis using that nx by metis
qed

definition running :: "layout \<Rightarrow> sched \<Rightarrow> ptr" where
  "running L s = (if current s = NULL then l_init_task L else current s)"

lemma save_current_ok:
  assumes "sched_ok L s xs" "s1 = save_current L regs s"
  shows "sched_ok L s1 xs" "current s1 = running L s" "current s1 \<noteq> NULL" "task_ring s1 = task_ring s"
    "\<And>x. t_next (tasks s1 x) = t_next (tasks s x)" "\<And>x. runnable (tasks s1 x) = runnable (tasks s x)"
    "t_regs (tasks s1 (running L s)) = regs" "\<And>x. x \<noteq> running L s \<Longrightarrow> tasks s1 x = tasks s x"
    "next_pid s1 = next_pid s" "zombie_list s1 = zombie_list s" "if_flag s1 = if_flag s"
    "\<And>x. t_pid (tasks s1 x) = t_pid (tasks s x)"
    "current s \<noteq> NULL \<Longrightarrow> t_state (tasks s1 (current s)) \<noteq> TASK_RUNNING"
proof -
  have i: "l_init_task L \<in> set xs" "runnable (tasks s (l_init_task L))" "ring (tasks s) (task_ring s) xs"
    using assms(1) by (simp_all add: sched_ok_def)
  then have i0: "l_init_task L \<noteq> NULL" by (auto simp: ring_def)
  show n: "t_next (tasks s1 x) = t_next (tasks s x)" for x
    unfolding assms(2) save_current_def by (auto simp: upd_task_def Let_def)
  show ru: "runnable (tasks s1 x) = runnable (tasks s x)" for x
    unfolding assms(2) save_current_def using i(2) by (auto simp: upd_task_def Let_def runnable_def)
  show c: "current s1 = running L s"
    unfolding assms(2) save_current_def running_def by (auto simp: upd_task_def Let_def)
  show "current s1 \<noteq> NULL" unfolding c running_def using i0 by simp
  show tr: "task_ring s1 = task_ring s"
    unfolding assms(2) save_current_def by (auto simp: upd_task_def Let_def)
  have "ring (tasks s1) (task_ring s) xs" using ring_cong [of xs "tasks s1" "tasks s"] n i(3) by simp
  moreover have "t_next (tasks s1 (current s1)) \<in> set xs"
    unfolding n c running_def using assms(1) ring_next [OF i(3,1)] by (simp add: sched_ok_def)
  ultimately show "sched_ok L s1 xs" unfolding sched_ok_def tr using i ru by simp
  show "t_regs (tasks s1 (running L s)) = regs" "next_pid s1 = next_pid s"
    "zombie_list s1 = zombie_list s" "if_flag s1 = if_flag s"
    unfolding assms(2) save_current_def running_def by (auto simp: upd_task_def Let_def)
  show "tasks s1 x = tasks s x" if "x \<noteq> running L s" for x
    using that unfolding assms(2) save_current_def running_def by (auto simp: upd_task_def Let_def)
  show "t_pid (tasks s1 x) = t_pid (tasks s x)" for x
    unfolding assms(2) save_current_def by (auto simp: upd_task_def Let_def)
  show "t_state (tasks s1 (current s)) \<noteq> TASK_RUNNING" if "current s \<noteq> NULL"
    using that unfolding assms(2) save_current_def by (auto simp: upd_task_def Let_def)
qed

text \<open>What one tick does.\<close>

definition tick_post :: "layout \<Rightarrow> ptr \<Rightarrow> ptr list \<Rightarrow> sched \<Rightarrow> sched \<Rightarrow> ptr \<Rightarrow> bool" where
  "tick_post L regs xs s s' frame \<longleftrightarrow>
     find (\<lambda>t. runnable (tasks s t)) (rot (t_next (tasks s (running L s))) xs) = Some (current s') \<and>
     current s' \<noteq> NULL \<and> t_state (tasks s' (current s')) = TASK_RUNNING \<and> frame = t_regs (tasks s' (current s')) \<and>
     frame = (if current s' = running L s then regs else t_regs (tasks s (current s'))) \<and>
     t_regs (tasks s' (running L s)) = regs \<and>
     (current s \<noteq> NULL \<longrightarrow> current s' \<noteq> current s \<longrightarrow> t_state (tasks s' (current s)) \<noteq> TASK_RUNNING) \<and>
     g_syscall_kstack_top s' = kstack_top_of (tasks s' (current s')) \<and>
     (\<forall>x. x \<noteq> running L s \<longrightarrow> x \<noteq> current s' \<longrightarrow> tasks s' x = tasks s x) \<and>
     (\<forall>x. runnable (tasks s' x) = runnable (tasks s x) \<and> t_next (tasks s' x) = t_next (tasks s x) \<and>
        t_pid (tasks s' x) = t_pid (tasks s x)) \<and>
     sched_ok L s' xs"

lemma schedule_ok:
  assumes ok: "sched_ok L s xs"
  shows "\<exists>s' frame. schedule_from_isr L regs s = Some (s', frame) \<and> tick_post L regs xs s s' frame"
proof -
  define s1 where "s1 = save_current L regs s"
  note sv = save_current_ok [OF ok s1_def]
  obtain nx where nx: "pick_next s1 = Some nx" "nx \<in> set xs" "nx \<noteq> NULL" "runnable (tasks s1 nx)"
      "find (\<lambda>t. runnable (tasks s1 t)) (rot (t_next (tasks s1 (current s1))) xs) = Some nx"
    using pick_next_ok [OF sv(1,3)] by blast
  let ?s2 = "upd_task nx (\<lambda>t. t\<lparr>t_state := TASK_RUNNING\<rparr>) (s1\<lparr>current := nx\<rparr>)"
  define s' where "s' = ?s2\<lparr>g_syscall_kstack_top := kstack_top_of (tasks ?s2 nx)\<rparr>"
  have s': "current s' = nx" "task_ring s' = task_ring s1"
    "g_syscall_kstack_top s' = kstack_top_of (tasks s' nx)"
    "tasks s' = (tasks s1)(nx := (tasks s1 nx)\<lparr>t_state := TASK_RUNNING\<rparr>)"
    by (simp_all add: s'_def upd_task_def)
  have fr: "t_next (tasks s' x) = t_next (tasks s1 x)" "t_regs (tasks s' x) = t_regs (tasks s1 x)"
    "runnable (tasks s' x) = runnable (tasks s1 x)" "t_pid (tasks s' x) = t_pid (tasks s1 x)" for x
    using nx(4) by (simp_all add: s'(4) runnable_def)
  have res: "schedule_from_isr L regs s = Some (s', t_regs (tasks s1 nx))"
  proof (cases "nx = current s1")
    case True
    then have "s1\<lparr>current := nx\<rparr> = s1" by simp
    then show ?thesis
      using nx(1,3) True by (simp add: schedule_from_isr_def s'_def Let_def flip: s1_def)
        (simp add: upd_task_def)
  next
    case False
    then show ?thesis
      using nx(1,3) by (simp add: schedule_from_isr_def s'_def Let_def flip: s1_def)
        (simp add: upd_task_def)
  qed
  have "ring (tasks s') (task_ring s') xs"
    using sv(1) ring_cong [of xs "tasks s'" "tasks s1"] fr(1) s'(2) by (simp add: sched_ok_def)
  moreover have "t_next (tasks s' nx) \<in> set xs"
    using ring_next [of "tasks s1" "task_ring s1" xs nx] sv(1) nx(2) fr(1) by (simp add: sched_ok_def)
  ultimately have "sched_ok L s' xs" using sv(1) fr(3) s'(1) by (simp add: sched_ok_def)
  moreover have "t_state (tasks s' (current s)) \<noteq> TASK_RUNNING" if "current s \<noteq> NULL" "nx \<noteq> current s"
    using sv(13) that by (simp add: s'(4))
  moreover have "t_regs (tasks s1 nx) = (if nx = running L s then regs else t_regs (tasks s nx))"
    using sv(7) sv(8) [of nx] by simp
  ultimately have "tick_post L regs xs s s' (t_regs (tasks s1 nx))"
    unfolding tick_post_def using nx(3,5) sv(2,5,6,7,8,12) s' fr by (simp add: running_def)
  then show ?thesis using res by blast
qed

section \<open>Round robin\<close>

text \<open>Successive timer interrupts, each with the frame of the interrupted task.\<close>

fun ticks :: "layout \<Rightarrow> ptr list \<Rightarrow> sched \<Rightarrow> sched option" where
  "ticks L [] s = Some s"
| "ticks L (r # rs) s = Option.bind (schedule_from_isr L r s) (\<lambda>(s', frame). ticks L rs s')"

lemma path_unique: "path ts a xs b \<Longrightarrow> path ts a ys b' \<Longrightarrow> length xs = length ys \<Longrightarrow> xs = ys"
proof (induction xs arbitrary: a ys)
  case (Cons x xs)
  then obtain y ys' where "ys = y # ys'" by (cases ys) auto
  with Cons show ?case by auto
qed simp

lemma rot_again:
  assumes r: "ring ts tail xs" and st: "start \<in> set xs" and eq: "rot start xs = us @ c # ws"
  shows "rot (t_next (ts c)) xs = ws @ us @ [c]"
proof -
  have c: "c \<in> set xs" using arg_cong [OF eq, of set] by auto
  have "path ts start (us @ c # ws) start" using ring_rot(1) [OF r st] eq by simp
  then have "path ts c (c # ws @ us) c" by (auto simp: path_append)
  moreover have "length (c # ws @ us) = length xs" using arg_cong [OF eq, of length] by simp
  ultimately have "rot c xs = c # ws @ us"
    using path_unique [OF _ ring_rot(1) [OF r c], of "c # ws @ us" c] by simp
  then show ?thesis using rot_next [OF r c] by simp
qed

lemma ticks_reach:
  assumes "sched_ok L s xs" "runnable (tasks s t)"
    "rot (t_next (tasks s (running L s))) xs = us @ t # ws" "t \<notin> set us"
    "length rs = Suc (length (filter (\<lambda>x. runnable (tasks s x)) us))"
  shows "\<exists>s'. ticks L rs s = Some s' \<and> current s' = t \<and> sched_ok L s' xs"
  using assms
proof (induction "length us" arbitrary: us ws rs s rule: less_induct)
  case less
  obtain r rs' where rs: "rs = r # rs'" using less.prems(5) by (cases rs) auto
  obtain s1 fr where s1: "schedule_from_isr L r s = Some (s1, fr)" and tp: "tick_post L r xs s s1 fr"
    using schedule_ok [OF less.prems(1), of r] by blast
  let ?P = "\<lambda>x. runnable (tasks s x)"
  have pick: "find ?P (us @ t # ws) = Some (current s1)" and ok1: "sched_ok L s1 xs" and c0: "current s1 \<noteq> NULL"
    and ru: "\<And>x. runnable (tasks s1 x) = ?P x" and nx: "\<And>x. t_next (tasks s1 x) = t_next (tasks s x)"
    using tp less.prems(3) unfolding tick_post_def by auto
  show ?case
  proof (cases "filter ?P us = []")
    case True
    then have "find ?P us = None" by (simp add: find_None_iff filter_empty_conv)
    then have "current s1 = t" using pick find_append_None [of ?P us "t # ws"] less.prems(2) by simp
    moreover have "rs' = []" using less.prems(5) rs True by simp
    ultimately show ?thesis using s1 rs ok1 by simp
  next
    case False
    then obtain c where "find ?P us = Some c"
      by (metis filter_empty_conv find_None_iff not_None_eq)
    then obtain u1 u2 where us: "us = u1 @ c # u2" "?P c" "\<forall>x\<in>set u1. \<not> ?P x" by (elim find_split)
    have "find ?P u1 = None" using us(3) by (simp add: find_None_iff)
    then have cur: "current s1 = c"
      using pick find_append_None [of ?P u1 "c # u2 @ t # ws"] us by simp
    have r: "ring (tasks s) (task_ring s) xs" "t_next (tasks s (running L s)) \<in> set xs"
      using less.prems(1) ring_next [of "tasks s" "task_ring s" xs "l_init_task L"]
      by (auto simp: sched_ok_def running_def)
    have "rot (t_next (tasks s c)) xs = u2 @ t # (ws @ u1 @ [c])"
      using rot_again [OF r, of u1 c "u2 @ t # ws"] less.prems(3) us(1) by simp
    then have rot1: "rot (t_next (tasks s1 (running L s1))) xs = u2 @ t # (ws @ u1 @ [c])"
      using cur c0 nx by (simp add: running_def)
    have "length rs' = Suc (length (filter (\<lambda>x. runnable (tasks s1 x)) u2))"
      using less.prems(5) rs us ru by (simp add: filter_empty_conv [THEN iffD2])
    then obtain s' where "ticks L rs' s1 = Some s'" "current s' = t" "sched_ok L s' xs"
      using less.hyps [OF _ ok1 _ rot1, of rs'] less.prems(2,4) us(1) ru by auto
    then show ?thesis using rs s1 by simp
  qed
qed

lemma ticks_fair:
  assumes ok: "sched_ok L s xs" and t: "t \<in> set xs" "runnable (tasks s t)"
  shows "\<exists>k. 0 < k \<and> k \<le> length xs \<and>
    (\<forall>rs. length rs = k \<longrightarrow> (\<exists>s'. ticks L rs s = Some s' \<and> current s' = t))"
proof -
  let ?R = "rot (t_next (tasks s (running L s))) xs"
  obtain us ws where us: "?R = us @ t # ws" "t \<notin> set us"
    using split_list_first [of t ?R] t(1) by auto
  let ?k = "Suc (length (filter (\<lambda>x. runnable (tasks s x)) us))"
  have "length us < length xs" using arg_cong [OF us(1), of length] by simp
  then have "?k \<le> length xs" using length_filter_le [of "\<lambda>x. runnable (tasks s x)" us] by linarith
  then show ?thesis
    using ticks_reach [OF ok t(2) us] by (intro exI [of _ ?k]) auto
qed

section \<open>Inserting, finding and unlinking\<close>

lemma path_retarget:
  "path ts a (ys @ [y]) b \<Longrightarrow> y \<notin> set ys \<Longrightarrow> path (ts(y := (ts y)\<lparr>t_next := c\<rparr>)) a (ys @ [y]) c"
  by (induction ys arbitrary: a) auto

lemma path_avoid:
  "y \<notin> set xs \<Longrightarrow> path (ts(y := u)) a xs b = path ts a xs b"
  by (rule path_cong) auto

lemma ring_insert_ok:
  assumes r: "ring (tasks s) (task_ring s) xs" and t: "t \<notin> set xs" "t \<noteq> NULL"
  shows "ring (tasks (ring_insert t s)) (task_ring (ring_insert t s)) (xs @ [t])"
    "task_ring (ring_insert t s) = t"
    "\<And>x. x \<noteq> t \<Longrightarrow> x \<noteq> task_ring s \<Longrightarrow> tasks (ring_insert t s) x = tasks s x"
    "\<And>x. \<exists>n. tasks (ring_insert t s) x = (tasks s x)\<lparr>t_next := n\<rparr>"
    "current (ring_insert t s) = current s" "next_pid (ring_insert t s) = next_pid s"
    "zombie_list (ring_insert t s) = zombie_list s" "kern_heap (ring_insert t s) = kern_heap s"
    "user_heap (ring_insert t s) = user_heap s" "ram (ring_insert t s) = ram s" "if_flag (ring_insert t s) = if_flag s"
proof -
  let ?tl = "task_ring s" and ?ts = "tasks s"
  have nn: "?tl \<noteq> NULL" "?tl \<noteq> t" using ring_tail_in [OF r] r t(1) by (auto simp: ring_def)
  have tl: "xs = butlast xs @ [?tl]" "?tl \<notin> set (butlast xs)" "xs \<noteq> []"
    using r append_butlast_last_id [of xs] distinct_butlast [of xs]
    by (auto simp: ring_def) (metis append_butlast_last_id distinct.simps(2) distinct1_rotate rotate1.simps(2))
  have res: "tasks (ring_insert t s) = (?ts(t := (?ts t)\<lparr>t_next := hd xs\<rparr>))(?tl := (?ts ?tl)\<lparr>t_next := t\<rparr>)"
    using nn ring_head [OF r] by (simp add: ring_insert_def upd_task_def Let_def)
  have "path ?ts (hd xs) (butlast xs @ [?tl]) (hd xs)" using r tl(1) by (simp add: ring_def)
  then have "path (?ts(?tl := (?ts ?tl)\<lparr>t_next := t\<rparr>)) (hd xs) xs t"
    using path_retarget [OF _ tl(2)] tl(1) by metis
  moreover have "tasks (ring_insert t s) = (?ts(?tl := (?ts ?tl)\<lparr>t_next := t\<rparr>))(t := (?ts t)\<lparr>t_next := hd xs\<rparr>)"
    unfolding res using nn(2) by (intro fun_upd_twist) simp
  ultimately have "path (tasks (ring_insert t s)) (hd xs) xs t"
    by (simp only: path_avoid [OF t(1)])
  then have "path (tasks (ring_insert t s)) (hd xs) (xs @ [t]) (hd xs)"
    using nn by (auto simp: path_append res)
  moreover show tr: "task_ring (ring_insert t s) = t" using nn by (simp add: ring_insert_def upd_task_def Let_def)
  ultimately show "ring (tasks (ring_insert t s)) (task_ring (ring_insert t s)) (xs @ [t])"
    using r t tl(3) by (simp add: ring_def)
  show "tasks (ring_insert t s) x = tasks s x" if "x \<noteq> t" "x \<noteq> ?tl" for x using that by (simp add: res)
  show "\<exists>n. tasks (ring_insert t s) x = (tasks s x)\<lparr>t_next := n\<rparr>" for x
  proof (cases "x = t \<or> x = ?tl")
    case False
    then show ?thesis by (intro exI [of _ "t_next (tasks s x)"]) (simp add: res)
  qed (auto simp: res)
  show "current (ring_insert t s) = current s" "next_pid (ring_insert t s) = next_pid s"
    "zombie_list (ring_insert t s) = zombie_list s" "kern_heap (ring_insert t s) = kern_heap s"
    "user_heap (ring_insert t s) = user_heap s" "ram (ring_insert t s) = ram s" "if_flag (ring_insert t s) = if_flag s"
    by (simp_all add: ring_insert_def upd_task_def Let_def)
qed

lemma find_pid_path:
  assumes "path ts it (it # xs) head" "head \<notin> set xs"
  shows "find_pid ts head it pid =
    Some (case find (\<lambda>t. t_pid (ts t) = pid) (it # xs) of None \<Rightarrow> NULL | Some t \<Rightarrow> t)"
  using assms
proof (induction xs arbitrary: it)
  case Nil
  then show ?case by (subst find_pid.simps) auto
next
  case (Cons x xs)
  then have x: "t_next (ts it) = x" "path ts x (x # xs) head" "x \<noteq> head" "head \<notin> set xs" by auto
  then show ?case using Cons.IH [OF x(2,4)] by (subst find_pid.simps) simp
qed

lemma list_loop_path:
  assumes "path ts it (it # xs) head" "head \<notin> set xs"
  shows "list_loop ts head it mx count acc =
    Some (rev acc @ take (nat (mx - count)) (map (\<lambda>x. (t_pid (ts x), t_state (ts x))) (it # xs)))"
  using assms
proof (induction xs arbitrary: it count acc)
  case Nil
  have "nat (mx - count) = Suc (nat (mx - count - 1))" if "count < mx" using that by simp
  then show ?case using Nil by (subst list_loop.simps) auto
next
  case (Cons x xs)
  then have x: "t_next (ts it) = x" "path ts x (x # xs) head" "x \<noteq> head" "head \<notin> set xs" by auto
  show ?case
  proof (cases "count < mx")
    case True
    then have "nat (mx - count) = Suc (nat (mx - (count + 1)))" by simp
    then show ?thesis
      using Cons.IH [OF x(2,4), of "count + 1"] x True by (subst list_loop.simps) simp
  next
    case False
    then show ?thesis by (subst list_loop.simps) simp
  qed
qed

lemma ring_walk:
  assumes "ring ts tail xs"
  obtains h ys where "xs = h # ys" "path ts h (h # ys) h" "h \<notin> set ys" "t_next (ts tail) = h"
proof -
  obtain h ys where xs: "xs = h # ys" using assms by (cases xs) (auto simp: ring_def)
  then show thesis using that [of h ys] assms ring_head [OF assms] by (simp add: ring_def)
qed

text \<open>Taking \<open>t\<close> out: its predecessor is linked to its successor.\<close>

lemma ring_unlink:
  assumes r: "ring ts tail (us @ t # ws)" and ne: "us @ ws \<noteq> []"
    and prev: "prev = (if us = [] then tail else last us)"
  shows "ring (ts(prev := (ts prev)\<lparr>t_next := t_next (ts t)\<rparr>)) (if tail = t then prev else tail) (us @ ws)"
proof -
  let ?ts = "ts(prev := (ts prev)\<lparr>t_next := t_next (ts t)\<rparr>)"
  have dis: "distinct (us @ t # ws)" "NULL \<notin> set (us @ t # ws)" and tl: "tail = last (t # ws)"
    using r by (auto simp: ring_def)
  have nx: "t_next (ts t) = hd (ws @ us @ [t])" by (rule ring_split(1) [OF r])
  have p: "path ts t (t # ws @ us) t" by (rule ring_split(2) [OF r])
  show ?thesis
  proof (cases "us = []")
    case True
    then have ws: "ws \<noteq> []" "ws = butlast ws @ [tail]" "prev = tail" "tail \<noteq> t"
      using ne tl prev dis(1) by auto
    have "tail \<notin> set (butlast ws)" using dis(1) ws(1,2) by (metis distinct.simps(2) distinct1_rotate
        distinct_append rotate1.simps(2))
    moreover have "path ts (hd ws) (butlast ws @ [tail]) t" using p True nx ws(1,2) by auto
    ultimately have "path ?ts (hd ws) ws (hd ws)"
      using path_retarget [of ts "hd ws" "butlast ws" tail t "hd ws"] ws nx True by simp
    moreover have "last ws = tail" using tl ws(1) by simp
    ultimately show ?thesis using True ws(1,3,4) dis by (simp add: ring_def)
  next
    case False
    then have us: "us = butlast us @ [prev]" using prev by simp
    have "prev \<in> set us" using prev False by simp
    then have pn2: "prev \<notin> set ws" "prev \<noteq> t" using dis(1) by auto
    have "distinct (butlast us @ [prev])" using dis(1) us by simp
    then have pn: "prev \<notin> set (butlast us)" "prev \<notin> set ws" "prev \<noteq> t" using pn2 by auto
    obtain c where c: "path ts (t_next (ts t)) ws c" "path ts c us t" using p by (auto simp: path_append)
    have "c = hd us" using c(2) False by (cases us) auto
    moreover have "path ?ts c (butlast us @ [prev]) (t_next (ts t))"
      using path_retarget [of ts c "butlast us" prev t] c(2) us pn(1) by metis
    moreover have "path ?ts (t_next (ts t)) ws c" using c(1) path_avoid [OF pn(2)] by blast
    ultimately have "path ?ts (hd us) (us @ ws) (hd us)" using us path_append by metis
    moreover have "(if tail = t then prev else tail) = last (us @ ws)"
      using tl False prev dis(1) by (cases "ws = []") auto
    ultimately show ?thesis using False dis by (simp add: ring_def)
  qed
qed

lemma takeWhile_neq: "t \<notin> set us \<Longrightarrow> takeWhile (\<lambda>x. x \<noteq> t) (us @ t # ws) = us"
  by (induction us) auto

lemma unlink_loop_ok:
  assumes "ring (tasks s) (task_ring s) xs" "xs = us @ it # ws"
    "prev = (if us = [] then task_ring s else last us)" "t \<notin> set us"
  shows "unlink_loop t prev it s =
    Some (if t \<in> set (it # ws) then
      (let p = last (task_ring s # takeWhile (\<lambda>x. x \<noteq> t) xs); s' = upd_task p (\<lambda>x. x\<lparr>t_next := t_next (tasks s t)\<rparr>) s
       in if task_ring s = t then s'\<lparr>task_ring := p\<rparr> else s', 0) else (s, -1))"
  using assms
proof (induction ws arbitrary: us it prev)
  case Nil
  have "t_next (tasks s it) = t_next (tasks s (task_ring s))"
    using Nil.prems(1,2) by (simp add: ring_def)
  then show ?case
    using Nil.prems takeWhile_neq [of t us "[]"]
    by (subst unlink_loop.simps) (auto simp: Let_def)
next
  case (Cons w ws)
  have r: "ring (tasks s) (task_ring s) (us @ it # w # ws)" using Cons.prems(1,2) by simp
  have nx: "t_next (tasks s it) = w" using ring_split(1) [OF r] by simp
  have hd: "t_next (tasks s (task_ring s)) = hd (us @ [it])"
    using ring_head [OF r] by (cases us) auto
  have "distinct (us @ it # w # ws)" using r by (simp add: ring_def)
  then have ne: "w \<noteq> hd (us @ [it])" using hd_in_set [of "us @ [it]"] by auto
  show ?case
  proof (cases "it = t")
    case True
    then show ?thesis
      using Cons.prems takeWhile_neq [of t us "w # ws"]
      by (subst unlink_loop.simps) (auto simp: Let_def)
  next
    case False
    have "unlink_loop t it w s = Some (if t \<in> set (w # ws) then
      (let p = last (task_ring s # takeWhile (\<lambda>x. x \<noteq> t) xs); s' = upd_task p (\<lambda>x. x\<lparr>t_next := t_next (tasks s t)\<rparr>) s
       in if task_ring s = t then s'\<lparr>task_ring := p\<rparr> else s', 0) else (s, -1))"
      using Cons.prems False by (intro Cons.IH [of "us @ [it]"]) auto
    then show ?thesis using False nx hd ne by (subst unlink_loop.simps) simp
  qed
qed

text \<open>Two states that differ in the links of the ring only.\<close>

definition links_only :: "sched \<Rightarrow> sched \<Rightarrow> bool" where
  "links_only s s' \<longleftrightarrow>
     (\<forall>x. \<exists>n. tasks s' x = (tasks s x)\<lparr>t_next := n\<rparr>) \<and>
     (\<exists>r. s' = s\<lparr>task_ring := r, tasks := tasks s'\<rparr>)"

lemma links_only_refl [simp]: "links_only s s"
  unfolding links_only_def
proof (intro conjI allI)
  show "\<exists>n. tasks s x = (tasks s x)\<lparr>t_next := n\<rparr>" for x by (rule exI [of _ "t_next (tasks s x)"]) simp
  show "\<exists>r. s = s\<lparr>task_ring := r, tasks := tasks s\<rparr>" by (rule exI [of _ "task_ring s"]) simp
qed

lemma links_onlyD:
  assumes "links_only s s'"
  shows "current s' = current s" "next_pid s' = next_pid s" "zombie_list s' = zombie_list s"
    "if_flag s' = if_flag s" "kern_heap s' = kern_heap s" "user_heap s' = user_heap s" "ram s' = ram s"
    "t_pid (tasks s' x) = t_pid (tasks s x)" "t_state (tasks s' x) = t_state (tasks s x)"
    "t_kstack (tasks s' x) = t_kstack (tasks s x)" "t_user_mem (tasks s' x) = t_user_mem (tasks s x)"
    "t_znext (tasks s' x) = t_znext (tasks s x)" "runnable (tasks s' x) = runnable (tasks s x)"
    "t_regs (tasks s' x) = t_regs (tasks s x)"
proof -
  obtain r where r: "s' = s\<lparr>task_ring := r, tasks := tasks s'\<rparr>" using assms by (auto simp: links_only_def)
  show "current s' = current s" "next_pid s' = next_pid s" "zombie_list s' = zombie_list s"
    "if_flag s' = if_flag s" "kern_heap s' = kern_heap s" "user_heap s' = user_heap s" "ram s' = ram s"
    by (subst r, simp)+
  obtain n where "tasks s' x = (tasks s x)\<lparr>t_next := n\<rparr>" using assms by (auto simp: links_only_def)
  then show "t_pid (tasks s' x) = t_pid (tasks s x)" "t_state (tasks s' x) = t_state (tasks s x)"
    "t_kstack (tasks s' x) = t_kstack (tasks s x)" "t_user_mem (tasks s' x) = t_user_mem (tasks s x)"
    "t_znext (tasks s' x) = t_znext (tasks s x)" "runnable (tasks s' x) = runnable (tasks s x)"
    "t_regs (tasks s' x) = t_regs (tasks s x)"
    by (simp_all add: runnable_def)
qed

lemma unlink_ok:
  assumes r: "ring (tasks s) (task_ring s) xs" and i: "l_init_task L \<in> set xs" "t \<noteq> l_init_task L" "t \<noteq> NULL"
  shows "\<exists>s' rc. unlink_from_ring L t s = Some (s', rc) \<and> (rc = 0 \<longleftrightarrow> t \<in> set xs) \<and> links_only s s' \<and>
    ring (tasks s') (task_ring s') (filter (\<lambda>x. x \<noteq> t) xs) \<and> t_next (tasks s' t) = t_next (tasks s t)"
proof -
  have tr: "task_ring s \<noteq> NULL" using ring_tail_in [OF r] r by (auto simp: ring_def)
  obtain h ys where w: "xs = h # ys" "h \<notin> set ys" "t_next (tasks s (task_ring s)) = h"
    using ring_walk [OF r] by metis
  show ?thesis
  proof (cases "t \<in> set xs")
    case False
    then have "unlink_from_ring L t s = Some (s, -1)"
      using tr i(3) unlink_loop_ok [OF r, of "[]" h ys "task_ring s" t] w ring_tail_in [OF r]
      by (auto simp: unlink_from_ring_def)
    moreover have "filter (\<lambda>x. x \<noteq> t) xs = xs" using False by (simp add: filter_id_conv) auto
    ultimately show ?thesis using r False by simp
  next
    case True
    obtain us ws where xs: "xs = us @ t # ws" "t \<notin> set us" using split_list_first [OF True] by blast
    let ?p = "if us = [] then task_ring s else last us"
    let ?s1 = "upd_task ?p (\<lambda>x. x\<lparr>t_next := t_next (tasks s t)\<rparr>) s"
    define s' where "s' = (if task_ring s = t then ?s1\<lparr>task_ring := ?p\<rparr> else ?s1)"
    have ne: "us @ ws \<noteq> []" using i(1,2) xs(1) by auto
    have "h \<noteq> task_ring s"
    proof
      assume "h = task_ring s"
      then have "last (h # ys) = h" using r w(1) by (simp add: ring_def)
      then have "ys = []" using w(2) by (cases ys) (auto split: if_splits dest: last_in_set)
      then show False using i(1,2) True w(1) by auto
    qed
    moreover have "takeWhile (\<lambda>x. x \<noteq> t) xs = us" using takeWhile_neq [OF xs(2)] xs(1) by simp
    ultimately have "unlink_from_ring L t s = Some (s', 0)"
      using tr i(3) unlink_loop_ok [OF r, of "[]" h ys "task_ring s" t] w(1,3) True
      by (simp add: unlink_from_ring_def s'_def Let_def)
    moreover have ts: "tasks s' = (tasks s)(?p := (tasks s ?p)\<lparr>t_next := t_next (tasks s t)\<rparr>)"
      "task_ring s' = (if task_ring s = t then ?p else task_ring s)"
      by (simp_all add: s'_def upd_task_def)
    moreover have "ring (tasks s') (task_ring s') (us @ ws)"
      unfolding ts using ring_unlink [OF _ ne refl, of "tasks s" "task_ring s" t] r xs(1) by simp
    moreover have "t \<notin> set ws" using r xs(1) by (simp add: ring_def)
    then have "filter (\<lambda>x. x \<noteq> t) xs = us @ ws"
      using xs by (simp add: filter_id_conv) (metis (mono_tags, lifting) filter_True)
    moreover have "t_next (tasks s' t) = t_next (tasks s t)" unfolding ts by simp
    moreover have "links_only s s'"
      unfolding links_only_def
    proof (intro conjI allI)
      show "\<exists>n. tasks s' x = (tasks s x)\<lparr>t_next := n\<rparr>" for x
        unfolding ts by (cases "x = ?p") (auto intro: exI [of _ "t_next (tasks s x)"])
      show "\<exists>r. s' = s\<lparr>task_ring := r, tasks := tasks s'\<rparr>"
        by (intro exI [of _ "task_ring s'"]) (simp add: s'_def upd_task_def)
    qed
    ultimately show ?thesis using True by auto
  qed
qed

end
