(* ===== verification/Task_Memory.thy ===== *)
theory Task_Memory
  imports Scheduler
begin

text \<open>
  The memory that the tasks own: every task but init has its record and its stack in the
  kernel heap and possibly an image in the user heap.  The invariant \<open>sched_inv\<close> joins the
  ring, the zombie list and the two heaps; the lemmas show that creating, stopping,
  exiting and reaping keep it and give back exactly the memory of the tasks that ended.
\<close>

section \<open>Memory of tasks\<close>

text \<open>Both heaps are well formed and lie in different regions of the memory.\<close>

definition heaps_ok :: "layout \<Rightarrow> sched \<Rightarrow> blk list \<Rightarrow> blk list \<Rightarrow> bool" where
  "heaps_ok L s bs ubs \<longleftrightarrow>
     krep (l_heap_start L) (l_heap_end L) (kern_heap s, ram s) bs \<and>
     urep (l_user_start L) (l_user_end L) (user_heap s, ram s) ubs \<and>
     (unat (l_heap_end L) \<le> unat (l_user_start L) \<or> unat (l_user_end L) \<le> unat (l_heap_start L))"

lemma heaps_ok_cong:
  "heaps_ok L s bs ubs \<Longrightarrow> kern_heap s' = kern_heap s \<Longrightarrow> user_heap s' = user_heap s \<Longrightarrow> ram s' = ram s \<Longrightarrow>
     heaps_ok L s' bs ubs"
  by (simp add: heaps_ok_def)

text \<open>
  What an operation on the heaps leaves alone: payloads of the kernel heap that are in use
  afterwards, and everything outside of the two heaps.
\<close>

definition mem_kept :: "layout \<Rightarrow> sched \<Rightarrow> sched \<Rightarrow> blk list \<Rightarrow> bool" where
  "mem_kept L s s' bs' \<longleftrightarrow> (\<forall>q l. (q, l) \<in> live bs' \<longrightarrow> same_on (ram s) (ram s') q l) \<and>
     (\<forall>x. unat x < unat (l_heap_start L) \<or> unat (l_heap_end L) \<le> unat x \<longrightarrow>
        unat x < unat (l_user_start L) \<or> unat (l_user_end L) \<le> unat x \<longrightarrow> ram s' x = ram s x)"

lemma mem_kept_ram: "ram s' = ram s \<Longrightarrow> mem_kept L s s' bs"
  by (auto simp: mem_kept_def)

lemma mem_kept_trans:
  assumes "mem_kept L s s1 bs1" "mem_kept L s1 s2 bs2" "live bs2 \<subseteq> live bs1"
  shows "mem_kept L s s2 bs2"
proof -
  have "same_on (ram s) (ram s2) q l" if "(q, l) \<in> live bs2" for q l
    using that assms same_on_trans unfolding mem_kept_def by blast
  then show ?thesis using assms(1,2) by (auto simp: mem_kept_def)
qed

lemma k_free_ok:
  assumes h: "heaps_ok L s bs ubs" and lv: "(p, k) \<in> live bs"
  shows "\<exists>bs'. heaps_ok L (k_free p s) bs' ubs \<and> live bs' = live bs - {(p, k)} \<and> mem_kept L s (k_free p s) bs'"
    "\<exists>kh m. k_free p s = s\<lparr>kern_heap := kh, ram := m\<rparr>"
    "unat x < unat (l_heap_start L) \<or> unat (l_heap_end L) \<le> unat x \<Longrightarrow> ram (k_free p s) x = ram s x"
proof -
  let ?st = "(kern_heap s, ram s)"
  obtain a z where a: "p = header_to_payload a" "k = unat z" "(a, z, False) \<in> set bs"
    using lv by (auto simp: live_def header_to_payload_def)
  have k: "krep (l_heap_start L) (l_heap_end L) ?st bs" using h by (simp add: heaps_ok_def)
  obtain kh m where fr: "free p ?st = (kh, m)" by force
  have res: "k_free p s = s\<lparr>kern_heap := kh, ram := m\<rparr>" by (simp add: k_free_def fr)
  then show "\<exists>kh m. k_free p s = s\<lparr>kern_heap := kh, ram := m\<rparr>" by blast
  note f = free_refines [OF k a(3), folded a(1), unfolded fr]
  have wf: "heap_wf (ram s) KERNEL_MAGIC (unat (l_heap_start L)) bs (unat (l_heap_end L))" using k by (simp add: krep_def)
  then have ti: "tiles (unat (l_heap_start L)) bs (unat (l_heap_end L))" by (simp add: heap_wf_def)
  note dis = heap_wf_distinct [OF wf]
  have same: "m x = ram s x" if "unat x < unat (l_heap_start L) \<or> unat (l_heap_end L) \<le> unat x" for x
    using only_hdrs_region [OF _ ti that, of "ram s" m] f by simp
  then show "unat x < unat (l_heap_start L) \<or> unat (l_heap_end L) \<le> unat x \<Longrightarrow> ram (k_free p s) x = ram s x"
    by (simp add: res)
  have "heap_wf m USER_MAGIC (unat (l_user_start L)) ubs (unat (l_user_end L))"
  proof (rule heap_wf_region)
    show "heap_wf (ram s) USER_MAGIC (unat (l_user_start L)) ubs (unat (l_user_end L))"
      using h by (simp add: heaps_ok_def urep_def)
    fix x :: ptr assume x: "unat (l_user_start L) \<le> unat x" "unat x < unat (l_user_end L)"
    have "unat (l_heap_end L) \<le> unat (l_user_start L) \<or> unat (l_user_end L) \<le> unat (l_heap_start L)"
      using h by (simp add: heaps_ok_def)
    then show "m x = ram s x" using same x by (meson le_trans less_le_trans)
  qed
  then have "heaps_ok L (k_free p s) (a_free a bs) ubs"
    using h f by (simp add: heaps_ok_def res urep_def)
  moreover have "live (a_free a bs) = live bs - {(p, k)}"
    using live_free [OF dis a(3)] a by (simp add: header_to_payload_def)
  moreover have "mem_kept L s (k_free p s) (a_free a bs)"
  proof -
    have "same_on (ram s) m q l" if "(q, l) \<in> live (a_free a bs)" for q l
      using live_kept [OF wf, of "ram s" m q l] f that calculation(2) by simp
    then show ?thesis using same by (auto simp: mem_kept_def res)
  qed
  ultimately show "\<exists>bs'. heaps_ok L (k_free p s) bs' ubs \<and> live bs' = live bs - {(p, k)} \<and> mem_kept L s (k_free p s) bs'" by blast
qed

lemma u_free_ok:
  assumes h: "heaps_ok L s bs ubs" and lv: "(p, k) \<in> live ubs"
  shows "\<exists>ubs'. heaps_ok L (u_free p s) bs ubs' \<and> live ubs' = live ubs - {(p, k)} \<and> mem_kept L s (u_free p s) bs"
    "\<exists>uh m. u_free p s = s\<lparr>user_heap := uh, ram := m\<rparr>"
proof -
  let ?st = "(user_heap s, ram s)"
  obtain a z where a: "p = header_to_payload a" "k = unat z" "(a, z, False) \<in> set ubs"
    using lv by (auto simp: live_def header_to_payload_def)
  have u: "urep (l_user_start L) (l_user_end L) ?st ubs" using h by (simp add: heaps_ok_def)
  obtain uh m where fr: "user_free p ?st = (uh, m)" by force
  have res: "u_free p s = s\<lparr>user_heap := uh, ram := m\<rparr>" by (simp add: u_free_def fr)
  then show "\<exists>uh m. u_free p s = s\<lparr>user_heap := uh, ram := m\<rparr>" by blast
  note f = user_free_refines [OF u a(3), folded a(1), unfolded fr]
  have wf: "heap_wf (ram s) USER_MAGIC (unat (l_user_start L)) ubs (unat (l_user_end L))" using u by (simp add: urep_def)
  then have ti: "tiles (unat (l_user_start L)) ubs (unat (l_user_end L))" by (simp add: heap_wf_def)
  note dis = heap_wf_distinct [OF wf]
  have same: "m x = ram s x" if "unat x < unat (l_user_start L) \<or> unat (l_user_end L) \<le> unat x" for x
    using only_hdrs_region [OF _ ti that, of "ram s" m] f by simp
  have "heap_wf m KERNEL_MAGIC (unat (l_heap_start L)) bs (unat (l_heap_end L))"
  proof (rule heap_wf_region)
    show "heap_wf (ram s) KERNEL_MAGIC (unat (l_heap_start L)) bs (unat (l_heap_end L))"
      using h by (simp add: heaps_ok_def krep_def)
    fix x :: ptr assume x: "unat (l_heap_start L) \<le> unat x" "unat x < unat (l_heap_end L)"
    have "unat (l_heap_end L) \<le> unat (l_user_start L) \<or> unat (l_user_end L) \<le> unat (l_heap_start L)"
      using h by (simp add: heaps_ok_def)
    then show "m x = ram s x" using same x by (meson le_trans less_le_trans)
  qed
  then have "heaps_ok L (u_free p s) bs (a_free a ubs)"
    using h f by (simp add: heaps_ok_def res krep_def)
  moreover have "live (a_free a ubs) = live ubs - {(p, k)}"
    using live_free [OF dis a(3)] a by (simp add: header_to_payload_def)
  moreover have "mem_kept L s (u_free p s) bs"
  proof -
    have wk: "heap_wf (ram s) KERNEL_MAGIC (unat (l_heap_start L)) bs (unat (l_heap_end L))"
      and ap: "unat (l_heap_end L) \<le> unat (l_user_start L) \<or> unat (l_user_end L) \<le> unat (l_heap_start L)"
      using h by (simp_all add: heaps_ok_def krep_def)
    have "same_on (ram s) m q l" if "(q, l) \<in> live bs" for q l
      using live_bounds(1,2) [OF wk that] ap same by (auto simp: same_on_def in_range_def)
    then show ?thesis using same by (auto simp: mem_kept_def res)
  qed
  ultimately show "\<exists>ubs'. heaps_ok L (u_free p s) bs ubs' \<and> live ubs' = live ubs - {(p, k)} \<and> mem_kept L s (u_free p s) bs" by blast
qed

text \<open>
  The tasks of the set \<open>T\<close> own their record and their stack in the kernel heap and, where
  they have one, their image in the user heap; no two of these coincide.
\<close>

definition task_mem :: "sched \<Rightarrow> ptr set \<Rightarrow> blk list \<Rightarrow> blk list \<Rightarrow> bool" where
  "task_mem s T bs ubs \<longleftrightarrow>
     (\<forall>t\<in>T. t \<in> fst ` live bs \<and> t_kstack (tasks s t) \<in> fst ` live bs \<and>
        (t_user_mem (tasks s t) \<noteq> NULL \<longrightarrow> t_user_mem (tasks s t) \<in> fst ` live ubs)) \<and>
     (\<forall>t\<in>T. \<forall>u\<in>T. t_kstack (tasks s t) \<noteq> u) \<and>
     inj_on (\<lambda>t. t_kstack (tasks s t)) T \<and>
     (\<forall>t\<in>T. \<forall>u\<in>T. t \<noteq> u \<longrightarrow> t_user_mem (tasks s t) \<noteq> NULL \<longrightarrow> t_user_mem (tasks s t) \<noteq> t_user_mem (tasks s u))"

text \<open>The payloads of a heap without those at the addresses \<open>P\<close>.\<close>

definition live_without :: "(ptr \<times> nat) set \<Rightarrow> ptr set \<Rightarrow> (ptr \<times> nat) set" where
  "live_without X P = {x \<in> X. fst x \<notin> P}"

lemma live_without_one:
  assumes "heap_wf m K lo bs hi" "(p, k) \<in> live bs"
  shows "live bs - {(p, k)} = live_without (live bs) {p}"
proof (rule set_eqI)
  fix x
  show "x \<in> live bs - {(p, k)} \<longleftrightarrow> x \<in> live_without (live bs) {p}"
    using live_unique [OF assms(1,2), of "snd x"] assms(2)
    by (cases x) (auto simp: live_without_def)
qed

lemma live_without_twice: "live_without (live_without X P) Q = live_without X (P \<union> Q)"
  by (auto simp: live_without_def)

lemma fst_live_without [simp]: "fst ` live_without X P = fst ` X - P"
  by (auto simp: live_without_def)

text \<open>The image of a task that is freed, if it has one, and the memory of the tasks that remain.\<close>

definition drop_image :: "ptr \<Rightarrow> ptr \<Rightarrow> sched \<Rightarrow> sched" where
  "drop_image t um s =
     (if um \<noteq> NULL then upd_task t (\<lambda>x. x\<lparr>t_user_mem := NULL, t_user_mem_size := 0\<rparr>) (u_free um s) else s)"

lemma drop_image_ok:
  assumes h: "heaps_ok L s bs ubs" and um: "um \<noteq> NULL \<Longrightarrow> um \<in> fst ` live ubs"
  shows "\<exists>ubs'. heaps_ok L (drop_image t um s) bs ubs' \<and> live ubs' = live_without (live ubs) ({um} - {NULL}) \<and>
    mem_kept L s (drop_image t um s) bs \<and>
    (\<exists>uh m ts. drop_image t um s = s\<lparr>user_heap := uh, ram := m, tasks := ts\<rparr> \<and> (\<forall>x. x \<noteq> t \<longrightarrow> ts x = tasks s x))"
proof (cases "um = NULL")
  case True
  then show ?thesis
    using h mem_kept_ram [of s s] unfolding drop_image_def live_without_def
    by (intro exI [of _ ubs] conjI exI [of _ "user_heap s"] exI [of _ "ram s"] exI [of _ "tasks s"]) auto
next
  case False
  let ?ts = "(tasks s)(t := (tasks s t)\<lparr>t_user_mem := NULL, t_user_mem_size := 0\<rparr>)"
  have wfu: "heap_wf (ram s) USER_MAGIC (unat (l_user_start L)) ubs (unat (l_user_end L))"
    using h by (simp add: heaps_ok_def urep_def)
  obtain ku where ku: "(um, ku) \<in> live ubs" using um [OF False] by force
  obtain ubs' where ub: "heaps_ok L (u_free um s) bs ubs'" "live ubs' = live_without (live ubs) {um}" "mem_kept L s (u_free um s) bs"
    using u_free_ok(1) [OF h ku] live_without_one [OF wfu ku] by auto
  obtain uh m where uf: "u_free um s = s\<lparr>user_heap := uh, ram := m\<rparr>" using u_free_ok(2) [OF h ku] by auto
  have e: "drop_image t um s = s\<lparr>user_heap := uh, ram := m, tasks := ?ts\<rparr>" using False by (simp add: drop_image_def uf upd_task_def)
  have "heaps_ok L (drop_image t um s) bs ubs'" by (rule heaps_ok_cong [OF ub(1)]) (simp_all add: e uf)
  moreover have "mem_kept L s (drop_image t um s) bs" using ub(3) by (simp add: mem_kept_def e uf)
  ultimately show ?thesis
    using ub(2) e False by (intro exI [of _ ubs'] conjI exI [of _ uh] exI [of _ m] exI [of _ ?ts]) auto
qed

lemma task_mem_remove:
  assumes tm: "task_mem s T bs ubs" and t: "t \<in> T" and keep: "\<And>x. x \<noteq> t \<Longrightarrow> tasks s' x = tasks s x"
    and lv: "live bs' = live_without (live bs) {t, t_kstack (tasks s t)}" "live ubs' = live_without (live ubs) ({t_user_mem (tasks s t)} - {NULL})"
  shows "task_mem s' (T - {t}) bs' ubs'"
proof -
  have "x \<in> fst ` live bs' \<and> t_kstack (tasks s' x) \<in> fst ` live bs' \<and>
      (t_user_mem (tasks s' x) \<noteq> NULL \<longrightarrow> t_user_mem (tasks s' x) \<in> fst ` live ubs')" if x: "x \<in> T - {t}" for x
  proof -
    have "t_kstack (tasks s x) \<noteq> t" "t_kstack (tasks s x) \<noteq> t_kstack (tasks s t)" "t_kstack (tasks s t) \<noteq> x"
      "t_user_mem (tasks s x) \<noteq> NULL \<Longrightarrow> t_user_mem (tasks s x) \<noteq> t_user_mem (tasks s t)"
      using tm x t by (auto simp: task_mem_def inj_on_def)
    then show ?thesis using tm x keep [of x] lv by (auto simp: task_mem_def)
  qed
  moreover have "inj_on (\<lambda>x. t_kstack (tasks s' x)) (T - {t})" using tm keep by (auto simp: task_mem_def inj_on_def)
  ultimately show ?thesis using tm keep by (auto simp: task_mem_def)
qed

lemma free_task_ok:
  assumes h: "heaps_ok L s bs ubs" and tm: "task_mem s T bs ubs" and t: "t \<in> T" "t \<noteq> l_init_task L"
  defines "s' \<equiv> free_task_resources L t s"
  defines "U \<equiv> {t_user_mem (tasks s t)} - {NULL}"
  shows "\<exists>bs' ubs'. heaps_ok L s' bs' ubs' \<and> task_mem s' (T - {t}) bs' ubs' \<and>
    live bs' = live_without (live bs) {t, t_kstack (tasks s t)} \<and> live ubs' = live_without (live ubs) U \<and> mem_kept L s s' bs'"
    "\<And>x. x \<noteq> t \<Longrightarrow> tasks s' x = tasks s x" "task_ring s' = task_ring s" "current s' = current s"
    "next_pid s' = next_pid s" "zombie_list s' = zombie_list s" "if_flag s' = if_flag s"
proof -
  let ?ks = "t_kstack (tasks s t)" and ?um = "t_user_mem (tasks s t)"
  have own: "t \<in> fst ` live bs" "?ks \<in> fst ` live bs" "?um \<noteq> NULL \<Longrightarrow> ?um \<in> fst ` live ubs" "?ks \<noteq> t"
    using tm t(1) by (auto simp: task_mem_def)
  have wf: "heap_wf (ram s) KERNEL_MAGIC (unat (l_heap_start L)) bs (unat (l_heap_end L))"
    using h by (simp add: heaps_ok_def krep_def)
  obtain k1 where k1: "(?ks, k1) \<in> live bs" using own(2) by force
  have nn: "t \<noteq> NULL" "?ks \<noteq> NULL" using live_bounds(4) [OF wf] own(1,2) by auto
  define s1 where "s1 = k_free ?ks s"
  obtain bs1 where b1: "heaps_ok L s1 bs1 ubs" "live bs1 = live_without (live bs) {?ks}" "mem_kept L s s1 bs1"
    using k_free_ok(1) [OF h k1] live_without_one [OF wf k1] unfolding s1_def by auto
  obtain kh m where s1: "s1 = s\<lparr>kern_heap := kh, ram := m\<rparr>" using k_free_ok(2) [OF h k1] by (auto simp: s1_def)
  define s2 where "s2 = drop_image t ?um s1"
  obtain ubs' uh m2 ts where ub: "heaps_ok L s2 bs1 ubs'" "live ubs' = live_without (live ubs) U"
      "s2 = s1\<lparr>user_heap := uh, ram := m2, tasks := ts\<rparr>" "\<And>x. x \<noteq> t \<Longrightarrow> ts x = tasks s1 x" "mem_kept L s1 s2 bs1"
    using drop_image_ok [OF b1(1) own(3)] unfolding s2_def U_def by blast
  have "t \<in> fst ` live bs1" using own(1,4) b1(2) by simp
  then obtain k2 where k2: "(t, k2) \<in> live bs1" by force
  have wf1: "heap_wf (ram s2) KERNEL_MAGIC (unat (l_heap_start L)) bs1 (unat (l_heap_end L))"
    using ub(1) by (simp add: heaps_ok_def krep_def)
  obtain bs' where b': "heaps_ok L (k_free t s2) bs' ubs'" "live bs' = live_without (live bs1) {t}"
      "mem_kept L s2 (k_free t s2) bs'"
    using k_free_ok(1) [OF ub(1) k2] live_without_one [OF wf1 k2] by auto
  obtain kh2 m3 where s3: "k_free t s2 = s2\<lparr>kern_heap := kh2, ram := m3\<rparr>"
    using k_free_ok(2) [OF ub(1) k2] by auto
  have s': "s' = k_free t s2"
    using nn t(2) s1 by (simp add: s'_def free_task_resources_def s2_def s1_def drop_image_def Let_def)
  have f3: "tasks s' = tasks s2" "task_ring s' = task_ring s2" "current s' = current s2"
    "next_pid s' = next_pid s2" "zombie_list s' = zombie_list s2" "if_flag s' = if_flag s2"
    unfolding s' s3 by simp_all
  have f2: "tasks s2 = ts" "task_ring s2 = task_ring s" "current s2 = current s"
    "next_pid s2 = next_pid s" "zombie_list s2 = zombie_list s" "if_flag s2 = if_flag s" "tasks s1 = tasks s"
    unfolding ub(3) s1 by simp_all
  show keep: "tasks s' x = tasks s x" if "x \<noteq> t" for x using ub(4) [OF that] f2(7) by (simp only: f3 f2(1))
  show "task_ring s' = task_ring s" "current s' = current s"
    "next_pid s' = next_pid s" "zombie_list s' = zombie_list s" "if_flag s' = if_flag s"
    by (simp_all only: f3 f2)
  have lv: "live bs' = live_without (live bs) {t, ?ks}"
    using b'(2) b1(2) by (simp add: live_without_twice)
  have "task_mem s' (T - {t}) bs' ubs'" by (rule task_mem_remove [OF tm t(1) keep lv ub(2) [unfolded U_def]])
  moreover have "live bs' \<subseteq> live bs1" using b'(2) by (auto simp: live_without_def)
  then have "mem_kept L s s' bs'"
    unfolding s' by (intro mem_kept_trans [OF mem_kept_trans [OF b1(3) ub(5)] b'(3)]) simp_all
  ultimately show "\<exists>bs' ubs'. heaps_ok L s' bs' ubs' \<and> task_mem s' (T - {t}) bs' ubs' \<and>
    live bs' = live_without (live bs) {t, ?ks} \<and> live ubs' = live_without (live ubs) U \<and> mem_kept L s s' bs'"
    using b'(1) lv ub(2) s' by auto
qed

section \<open>Reaping\<close>

fun zpath :: "(ptr \<Rightarrow> task_t) \<Rightarrow> ptr \<Rightarrow> ptr list \<Rightarrow> bool" where
  "zpath ts z [] \<longleftrightarrow> z = NULL"
| "zpath ts z (y # ys) \<longleftrightarrow> z = y \<and> y \<noteq> NULL \<and> zpath ts (t_znext (ts y)) ys"

lemma zpath_cong: "(\<And>x. x \<in> set zs \<Longrightarrow> t_znext (ts' x) = t_znext (ts x)) \<Longrightarrow> zpath ts' z zs = zpath ts z zs"
  by (induction zs arbitrary: z) auto

lemma task_mem_cong:
  assumes "task_mem s T bs ubs" "\<And>x. x \<in> T \<Longrightarrow> t_kstack (tasks s' x) = t_kstack (tasks s x)"
    "\<And>x. x \<in> T \<Longrightarrow> t_user_mem (tasks s' x) = t_user_mem (tasks s x)"
  shows "task_mem s' T bs ubs"
proof -
  have "inj_on (\<lambda>t. t_kstack (tasks s' t)) T = inj_on (\<lambda>t. t_kstack (tasks s t)) T"
    by (rule inj_on_cong) (rule assms(2))
  then show ?thesis using assms by (simp add: task_mem_def)
qed

definition reap_post ::
  "layout \<Rightarrow> ptr list \<Rightarrow> ptr list \<Rightarrow> sched \<Rightarrow> blk list \<Rightarrow> blk list \<Rightarrow> sched \<Rightarrow> bool"
where
  "reap_post L xs zs s bs ubs s' \<longleftrightarrow>
     ring (tasks s') (task_ring s') (filter (\<lambda>x. x \<notin> set zs) xs) \<and>
     (\<forall>x. x \<notin> set zs \<longrightarrow> (\<exists>n. tasks s' x = (tasks s x)\<lparr>t_next := n\<rparr>)) \<and>
     current s' = current s \<and> next_pid s' = next_pid s \<and>
     (\<exists>bs' ubs'. heaps_ok L s' bs' ubs' \<and> task_mem s' (set xs - set zs - {l_init_task L}) bs' ubs' \<and>
        live bs' = live_without (live bs) (set zs \<union> (\<lambda>z. t_kstack (tasks s z)) ` set zs) \<and>
        live ubs' = live_without (live ubs) ((\<lambda>z. t_user_mem (tasks s z)) ` set zs - {NULL}) \<and> mem_kept L s s' bs')"

text \<open>The effect of freeing \<open>y\<close> followed by that of freeing the rest of the list.\<close>

lemma reap_post_Cons:
  assumes y: "y \<notin> set zs" and t2: "\<And>x. x \<noteq> y \<Longrightarrow> \<exists>n. tasks s2 x = (tasks s x)\<lparr>t_next := n\<rparr>"
    and lv: "live bs2 = live_without (live bs) {y, t_kstack (tasks s y)}" "live ubs2 = live_without (live ubs) ({t_user_mem (tasks s y)} - {NULL})"
    and mk: "mem_kept L s s2 bs2" and fl: "current s2 = current s" "next_pid s2 = next_pid s"
    and p: "reap_post L (filter (\<lambda>x. x \<noteq> y) xs) zs s2 bs2 ubs2 s'"
  shows "reap_post L xs (y # zs) s bs ubs s'"
proof -
  let ?i = "l_init_task L" and ?xs = "filter (\<lambda>x. x \<noteq> y) xs"
  have ks: "t_kstack (tasks s2 x) = t_kstack (tasks s x)" "t_user_mem (tasks s2 x) = t_user_mem (tasks s x)" if "x \<in> set zs" for x
    using t2 [of x] that y by force+
  from p obtain bs' ubs' where b': "heaps_ok L s' bs' ubs'" "task_mem s' (set ?xs - set zs - {?i}) bs' ubs'"
    "live bs' = live_without (live bs2) (set zs \<union> (\<lambda>z. t_kstack (tasks s2 z)) ` set zs)"
    "live ubs' = live_without (live ubs2) ((\<lambda>z. t_user_mem (tasks s2 z)) ` set zs - {NULL})" "mem_kept L s2 s' bs'"
    by (auto simp: reap_post_def)
  have "mem_kept L s s' bs'" using b'(3) by (intro mem_kept_trans [OF mk b'(5)]) (auto simp: live_without_def)
  moreover have "set ?xs - set zs - {?i} = set xs - set (y # zs) - {?i}" by auto
  moreover have "live bs' = live_without (live bs) (set (y # zs) \<union> (\<lambda>z. t_kstack (tasks s z)) ` set (y # zs))"
    unfolding b'(3) lv(1) live_without_twice using ks(1) by (intro arg_cong [of _ _ "live_without (live bs)"]) auto
  moreover have "live ubs' = live_without (live ubs) ((\<lambda>z. t_user_mem (tasks s z)) ` set (y # zs) - {NULL})"
    unfolding b'(4) lv(2) live_without_twice using ks(2) by (intro arg_cong [of _ _ "live_without (live ubs)"]) auto
  moreover have "filter (\<lambda>x. x \<notin> set zs) ?xs = filter (\<lambda>x. x \<notin> set (y # zs)) xs" by (simp add: conj_commute)
  moreover have "\<exists>n. tasks s' x = (tasks s x)\<lparr>t_next := n\<rparr>" if x: "x \<notin> set (y # zs)" for x
  proof -
    obtain n where "tasks s2 x = (tasks s x)\<lparr>t_next := n\<rparr>" using t2 [of x] x by auto
    moreover obtain n' where "tasks s' x = (tasks s2 x)\<lparr>t_next := n'\<rparr>" using p x by (auto simp: reap_post_def)
    ultimately show ?thesis by (intro exI [of _ n']) simp
  qed
  ultimately show ?thesis using p b'(1,2) fl by (simp add: reap_post_def) blast
qed

lemma reap_loop_ok:
  assumes "heaps_ok L s bs ubs" "ring (tasks s) (task_ring s) xs" "l_init_task L \<in> set xs"
    "zpath (tasks s) z zs" "distinct zs" "l_init_task L \<notin> set zs"
    "task_mem s ((set xs \<union> set zs) - {l_init_task L}) bs ubs"
  shows "\<exists>s'. reap_loop L z s = Some s' \<and> reap_post L xs zs s bs ubs s' \<and> zombie_list s' = zombie_list s \<and>
    if_flag s' = (zs \<noteq> [] \<or> if_flag s)"
  using assms
proof (induction zs arbitrary: z s xs bs ubs)
  case Nil
  have "\<exists>n. tasks s x = (tasks s x)\<lparr>t_next := n\<rparr>" for x by (rule exI [of _ "t_next (tasks s x)"]) simp
  moreover have "live_without X {} = X" for X by (simp add: live_without_def)
  moreover have "set xs - set [] - {l_init_task L} = (set xs \<union> set []) - {l_init_task L}" by simp
  ultimately have "reap_post L xs [] s bs ubs s"
    unfolding reap_post_def using Nil.prems(1,2,7)
    by (intro conjI allI impI exI [of _ bs] exI [of _ ubs]) (simp_all add: mem_kept_ram del: Un_empty_right)
  moreover have "z = NULL" using Nil.prems(4) by simp
  ultimately show ?case by (subst reap_loop.simps) simp
next
  case (Cons y zs)
  let ?i = "l_init_task L" and ?T = "(set xs \<union> set (y # zs)) - {l_init_task L}"
  let ?xs = "filter (\<lambda>x. x \<noteq> y) xs"
  have z: "z = y" "y \<noteq> NULL" "zpath (tasks s) (t_znext (tasks s y)) zs" "y \<noteq> ?i" "y \<notin> set zs"
    using Cons.prems(4,5,6) by auto
  have "ring (tasks (cli s)) (task_ring (cli s)) xs" using Cons.prems(2) by (simp add: cli_def)
  then obtain s1 rc where ul: "unlink_from_ring L y (cli s) = Some (s1, rc)" "links_only (cli s) s1"
      "ring (tasks s1) (task_ring s1) ?xs"
    using unlink_ok [OF _ Cons.prems(3) z(4,2)] by blast
  note lo = links_onlyD [OF ul(2)]
  define s2 where "s2 = free_task_resources L y (sti s1)"
  have h1: "heaps_ok L (sti s1) bs ubs"
    by (rule heaps_ok_cong [OF Cons.prems(1)]) (simp_all add: sti_def lo, simp_all add: cli_def)
  have tm1: "task_mem (sti s1) ?T bs ubs"
    by (rule task_mem_cong [OF Cons.prems(7)]) (simp_all add: sti_def lo, simp_all add: cli_def)
  have yT: "y \<in> ?T" using z(4) by simp
  note fr = free_task_ok [OF h1 tm1 yT z(4), folded s2_def]
  have k1: "t_kstack (tasks (sti s1) x) = t_kstack (tasks s x)" "t_user_mem (tasks (sti s1) x) = t_user_mem (tasks s x)"
    "t_znext (tasks (sti s1) x) = t_znext (tasks s x)" for x
    by (simp_all add: sti_def lo, simp_all add: cli_def)
  obtain bs2 ubs2 where h2: "heaps_ok L s2 bs2 ubs2" "task_mem s2 (?T - {y}) bs2 ubs2"
      "live bs2 = live_without (live bs) {y, t_kstack (tasks s y)}"
      "live ubs2 = live_without (live ubs) ({t_user_mem (tasks s y)} - {NULL})" "mem_kept L (sti s1) s2 bs2"
    using fr(1) unfolding k1 by blast
  have t2: "\<exists>n. tasks s2 x = (tasks s x)\<lparr>t_next := n\<rparr>" if "x \<noteq> y" for x
    using fr(2) [OF that] ul(2) by (auto simp: sti_def links_only_def cli_def)
  have ring2: "ring (tasks s2) (task_ring s2) ?xs"
  proof -
    have "t_next (tasks s2 x) = t_next (tasks s1 x)" if "x \<in> set ?xs" for x
      using fr(2) [of x] that by (simp add: sti_def)
    then show ?thesis using ring_cong [of ?xs "tasks s2" "tasks s1"] ul(3) fr(3) by (simp add: sti_def)
  qed
  have zp: "zpath (tasks s2) (t_znext (tasks s y)) zs"
  proof -
    have "t_znext (tasks s2 x) = t_znext (tasks s x)" if "x \<in> set zs" for x
    proof -
      have "x \<noteq> y" using that z(5) by auto
      from t2 [OF this] show ?thesis by auto
    qed
    then show ?thesis using zpath_cong [of zs "tasks s2" "tasks s"] z(3) by simp
  qed
  have T2: "?T - {y} = (set ?xs \<union> set zs) - {?i}" using z(5) by auto
  have i2: "?i \<in> set ?xs" using Cons.prems(3) z(4) by simp
  obtain s' where s': "reap_loop L (t_znext (tasks s y)) s2 = Some s'" "reap_post L ?xs zs s2 bs2 ubs2 s'"
      "zombie_list s' = zombie_list s2" "if_flag s' = (zs \<noteq> [] \<or> if_flag s2)"
    using Cons.IH [OF h2(1) ring2 i2 zp _ _ h2(2) [unfolded T2]] Cons.prems(5,6) by auto
  have "reap_loop L z s = Some s'"
    using z(1,2) ul(1) s'(1) by (subst reap_loop.simps) (simp add: s2_def)
  moreover have "zombie_list s' = zombie_list s" "if_flag s' = True"
    using s'(3,4) fr(6,7) lo by (auto simp: sti_def cli_def)
  moreover have "reap_post L xs (y # zs) s bs ubs s'"
  proof (rule reap_post_Cons [OF z(5) t2 h2(3,4) _ _ _ s'(2)])
    have "ram (sti s1) = ram s" using lo by (simp add: sti_def cli_def)
    then show "mem_kept L s s2 bs2" using mem_kept_trans [OF mem_kept_ram [of "sti s1" s L bs2] h2(5)] by simp
  qed (use fr(4,5) lo in \<open>simp_all add: sti_def cli_def\<close>)
  ultimately show ?case by auto
qed

section \<open>The invariant of the scheduler\<close>

text \<open>
  \<open>xs\<close> are the tasks of the ring in order, \<open>zs\<close> the tasks waiting to be reaped, \<open>bs\<close> and
  \<open>ubs\<close> the blocks of the two heaps.  The record of the init task is not in the heap.
\<close>

definition sched_inv ::
  "layout \<Rightarrow> sched \<Rightarrow> ptr list \<Rightarrow> ptr list \<Rightarrow> blk list \<Rightarrow> blk list \<Rightarrow> bool"
where
  "sched_inv L s xs zs bs ubs \<longleftrightarrow>
     sched_ok L s xs \<and> zpath (tasks s) (zombie_list s) zs \<and> distinct zs \<and> l_init_task L \<notin> set zs \<and>
     heaps_ok L s bs ubs \<and> task_mem s ((set xs \<union> set zs) - {l_init_task L}) bs ubs \<and>
     (unat (l_init_task L) < unat (l_heap_start L) \<or> unat (l_heap_end L) \<le> unat (l_init_task L))"

lemma reap_inv:
  assumes inv: "sched_inv L s xs zs bs ubs" and cur: "current s = NULL \<or> current s \<in> set xs - set zs"
  shows "\<exists>s' bs' ubs'. reap_zombies_internal L s = Some s' \<and> reap_post L xs zs s bs ubs s' \<and>
    sched_inv L s' (filter (\<lambda>x. x \<notin> set zs) xs) [] bs' ubs' \<and> zombie_list s' = NULL \<and> if_flag s' \<and>
    live bs' = live_without (live bs) (set zs \<union> (\<lambda>z. t_kstack (tasks s z)) ` set zs) \<and>
    live ubs' = live_without (live ubs) ((\<lambda>z. t_user_mem (tasks s z)) ` set zs - {NULL}) \<and> mem_kept L s s' bs'"
proof -
  let ?i = "l_init_task L" and ?xs = "filter (\<lambda>x. x \<notin> set zs) xs"
  define s0 where "s0 = sti ((cli s)\<lparr>zombie_list := NULL\<rparr>)"
  have s0: "tasks s0 = tasks s" "task_ring s0 = task_ring s" "current s0 = current s" "next_pid s0 = next_pid s"
    "zombie_list s0 = NULL" "if_flag s0" "kern_heap s0 = kern_heap s" "user_heap s0 = user_heap s" "ram s0 = ram s"
    by (simp_all add: s0_def sti_def cli_def)
  have i: "sched_ok L s xs" "zpath (tasks s) (zombie_list s) zs" "distinct zs" "?i \<notin> set zs" "heaps_ok L s bs ubs"
    "task_mem s ((set xs \<union> set zs) - {?i}) bs ubs"
    "unat ?i < unat (l_heap_start L) \<or> unat (l_heap_end L) \<le> unat ?i"
    using inv by (simp_all add: sched_inv_def)
  have h0: "heaps_ok L s0 bs ubs" by (rule heaps_ok_cong [OF i(5)]) (simp_all add: s0)
  have ok: "ring (tasks s0) (task_ring s0) xs" "?i \<in> set xs" "runnable (tasks s ?i)"
    using i(1) by (simp_all add: sched_ok_def s0)
  have tm0: "task_mem s0 ((set xs \<union> set zs) - {?i}) bs ubs"
    by (rule task_mem_cong [OF i(6)]) (simp_all add: s0)
  obtain s' where s': "reap_loop L (zombie_list s) s0 = Some s'" "reap_post L xs zs s0 bs ubs s'"
      "zombie_list s' = NULL" "if_flag s'"
    using reap_loop_ok [OF h0 ok(1,2) _ i(3,4) tm0, of "zombie_list s"] i(2) by (auto simp: s0)
  have post: "reap_post L xs zs s bs ubs s'" using s'(2) by (simp add: reap_post_def mem_kept_def s0)
  have res: "reap_zombies_internal L s = Some s'"
    using s'(1) by (simp add: reap_zombies_internal_def s0_def Let_def) (simp add: cli_def)
  from post obtain bs' ubs' where b: "heaps_ok L s' bs' ubs'" "task_mem s' (set xs - set zs - {?i}) bs' ubs'"
      "live bs' = live_without (live bs) (set zs \<union> (\<lambda>z. t_kstack (tasks s z)) ` set zs)"
      "live ubs' = live_without (live ubs) ((\<lambda>z. t_user_mem (tasks s z)) ` set zs - {NULL})" "mem_kept L s s' bs'"
    by (auto simp: reap_post_def)
  have r': "ring (tasks s') (task_ring s') ?xs" "current s' = current s" using post by (simp_all add: reap_post_def)
  have "\<exists>n. tasks s' ?i = (tasks s ?i)\<lparr>t_next := n\<rparr>" using post i(4) by (simp add: reap_post_def)
  then have "runnable (tasks s' ?i)" using ok(3) by (auto simp: runnable_def)
  moreover have "t_next (tasks s' (current s')) \<in> set ?xs" if "current s' \<noteq> NULL"
    using ring_next [OF r'(1), of "current s'"] cur that r'(2) by simp
  ultimately have "sched_ok L s' ?xs" using r'(1) ok(2) i(4) by (simp add: sched_ok_def)
  moreover have "(set ?xs \<union> set []) - {?i} = set xs - set zs - {?i}" by auto
  ultimately have "sched_inv L s' ?xs [] bs' ubs'"
    using b(1,2) i(7) s'(3) by (simp add: sched_inv_def)
  then show ?thesis using res post s'(3,4) b(3,4,5) by blast
qed

lemma st_qwords_outside:
  "\<not> in_range x a (8 * length vs) \<Longrightarrow> unat a + 8 * length vs \<le> 2 ^ 64 \<Longrightarrow> st_qwords m a vs x = m x"
proof (induction vs arbitrary: m a)
  case (Cons v vs)
  have s1: "st64 m a v x = m x"
    unfolding st64_def using Cons.prems by (intro st_outside) (auto simp: in_range_def)
  show ?case
  proof (cases "vs = []")
    case False
    then have "8 \<le> 8 * length vs" by (cases vs) auto
    then have u: "unat (a + 8) = unat a + 8" using Cons.prems(2) unat_add_of_nat [of a 8] by simp
    then have "st_qwords (st64 m a v) (a + 8) vs x = st64 m a v x"
      using Cons.prems by (intro Cons.IH) (auto simp: in_range_def)
    then show ?thesis using s1 by simp
  qed (use s1 in simp)
qed simp

lemma st_qwords_nth:
  "i < length vs \<Longrightarrow> unat a + 8 * length vs \<le> 2 ^ 64 \<Longrightarrow> ld64 (st_qwords m a vs) (a + 8 * word_of_nat i) = vs ! i"
proof (induction vs arbitrary: m a i)
  case (Cons v vs)
  show ?case
  proof (cases "vs = []")
    case True
    then show ?thesis using Cons.prems ld64_st64 [of a m v] by simp
  next
    case False
    then have "8 \<le> 8 * length vs" by (cases vs) auto
    then have u: "unat (a + 8) = unat a + 8" using Cons.prems(2) unat_add_of_nat [of a 8] by simp
    show ?thesis
    proof (cases i)
      case 0
      have "same_on (st64 m a v) (st_qwords (st64 m a v) (a + 8) vs) a 8"
        using Cons.prems(2) u
        by (auto simp: same_on_def in_range_def intro!: st_qwords_outside [symmetric])
      then have "ld64 (st_qwords (st64 m a v) (a + 8) vs) a = ld64 (st64 m a v) a"
        using ld64_cong Cons.prems(2) by (metis add_leD1 length_Cons mult_Suc_right group_cancel.add1)
      then show ?thesis using 0 ld64_st64 [of a m v] Cons.prems(2) by simp
    next
      case (Suc j)
      have "ld64 (st_qwords (st64 m a v) (a + 8) vs) (a + 8 + 8 * word_of_nat j) = vs ! j"
        using Cons.prems Suc u by (intro Cons.IH) auto
      then show ?thesis using Suc by (simp add: algebra_simps)
    qed
  qed
qed simp

section \<open>Creating a task\<close>

lemma k_malloc_ok:
  assumes h: "heaps_ok L s bs ubs" and n: "n \<noteq> 0" "k_admissible bs n"
  shows "\<exists>s' p k. k_malloc L n s = Some (s', p) \<and> p \<noteq> NULL \<and> heaps_ok L s' (fst (a_malloc n bs)) ubs \<and>
    live (fst (a_malloc n bs)) = insert (p, k) (live bs) \<and> unat n \<le> k \<and> p \<notin> fst ` live bs \<and>
    (\<forall>(q, l) \<in> live bs. same_on (ram s) (ram s') q l) \<and> (\<exists>kh m. s' = s\<lparr>kern_heap := kh, ram := m\<rparr>)"
proof -
  let ?st = "(kern_heap s, ram s)" and ?bs = "fst (a_malloc n bs)"
  have k: "krep (l_heap_start L) (l_heap_end L) ?st bs" using h by (simp add: heaps_ok_def)
  obtain kh m where al: "malloc (l_heap_start L) n ?st = Some ((kh, m), snd (a_malloc n bs))"
      and rep: "krep (l_heap_start L) (l_heap_end L) (kh, m) ?bs" and oh: "only_hdrs (ram s) m (fst ` set ?bs)"
    using malloc_refines [OF k n(2), of "l_heap_start L"] by (metis prod.collapse snd_conv)
  have p0: "snd (a_malloc n bs) \<noteq> NULL" using k n by (rule a_malloc_nonnull)
  obtain j where lv: "live ?bs = insert (snd (a_malloc n bs), j) (live bs)" "unat n \<le> j"
      "snd (a_malloc n bs) \<notin> fst ` live bs"
    using km.alloc_fresh [OF k n(2) al p0] by auto
  have keep: "same_on (ram s) m q l" if "(q, l) \<in> live bs" for q l
    using km.alloc_keeps(1) [OF k n(2) al that] by simp
  have ti: "tiles (unat (l_heap_start L)) ?bs (unat (l_heap_end L))"
    using rep by (simp add: krep_def heap_wf_def)
  have "heap_wf m USER_MAGIC (unat (l_user_start L)) ubs (unat (l_user_end L))"
  proof (rule heap_wf_region)
    show "heap_wf (ram s) USER_MAGIC (unat (l_user_start L)) ubs (unat (l_user_end L))"
      using h by (simp add: heaps_ok_def urep_def)
    fix x :: ptr assume x: "unat (l_user_start L) \<le> unat x" "unat x < unat (l_user_end L)"
    have "unat (l_heap_end L) \<le> unat (l_user_start L) \<or> unat (l_user_end L) \<le> unat (l_heap_start L)"
      using h by (simp add: heaps_ok_def)
    then show "m x = ram s x" using only_hdrs_region [OF oh ti, of x] x by (meson le_trans less_le_trans)
  qed
  then have "heaps_ok L (s\<lparr>kern_heap := kh, ram := m\<rparr>) ?bs ubs"
    using h rep by (simp add: heaps_ok_def urep_def)
  moreover have "k_malloc L n s = Some (s\<lparr>kern_heap := kh, ram := m\<rparr>, snd (a_malloc n bs))"
    by (simp add: k_malloc_def al)
  moreover have "\<forall>(q, l) \<in> live bs. same_on (ram s) (ram (s\<lparr>kern_heap := kh, ram := m\<rparr>)) q l"
    using keep by auto
  ultimately show ?thesis using p0 lv by blast
qed

lemma heaps_ok_payload:
  assumes h: "heaps_ok L s bs ubs" and lv: "(p, k) \<in> live bs"
    and same: "\<And>x. \<not> in_range x p k \<Longrightarrow> m x = ram s x"
  shows "heaps_ok L (s\<lparr>ram := m\<rparr>) bs ubs"
    and "\<And>q l. (q, l) \<in> live bs \<Longrightarrow> q \<noteq> p \<Longrightarrow> same_on (ram s) m q l"
proof -
  have wf: "heap_wf (ram s) KERNEL_MAGIC (unat (l_heap_start L)) bs (unat (l_heap_end L))"
    using h by (simp add: heaps_ok_def krep_def)
  have ap: "unat (l_heap_end L) \<le> unat (l_user_start L) \<or> unat (l_user_end L) \<le> unat (l_heap_start L)"
    using h by (simp add: heaps_ok_def)
  have "heap_wf m USER_MAGIC (unat (l_user_start L)) ubs (unat (l_user_end L))"
  proof (rule heap_wf_region)
    show "heap_wf (ram s) USER_MAGIC (unat (l_user_start L)) ubs (unat (l_user_end L))"
      using h by (simp add: heaps_ok_def urep_def)
    fix x :: ptr assume "unat (l_user_start L) \<le> unat x" "unat x < unat (l_user_end L)"
    then have "\<not> in_range x p k" using ap live_bounds(1,2) [OF wf lv] by (auto simp: in_range_def)
    then show "m x = ram s x" by (rule same)
  qed
  then show "heaps_ok L (s\<lparr>ram := m\<rparr>) bs ubs"
    using h payload_change(1) [OF wf lv same] by (simp add: heaps_ok_def krep_def urep_def)
  show "same_on (ram s) m q l" if "(q, l) \<in> live bs" "q \<noteq> p" for q l
    using payload_change(2) [OF wf lv same that(1)] that(2) by blast
qed

lemma align16: "unat ((x :: u64) AND NOT 0xF) = unat x div 16 * 16"
proof -
  have f: "(0xF :: u64) = mask 4" by (simp add: mask_eq_exp_minus_1)
  show ?thesis unfolding f by (subst unat_and_not_mask) simp_all
qed

lemma length_initial_frame [simp]: "length (initial_frame entry kt) = 22"
  by (simp add: initial_frame_def)

text \<open>The first frame lies inside the stack, is aligned and has the entry point in its place.\<close>

lemma prepare_initial_stack_ok:
  assumes "unat ks + unat n < 2 ^ 64" "192 \<le> unat n" "prepare_initial_stack entry (ks + n) m = (m', sp)"
  shows "unat ks \<le> unat sp" "unat sp + 176 \<le> unat ks + unat n" "16 dvd unat sp"
    "\<And>x. \<not> in_range x ks (unat n) \<Longrightarrow> m' x = m x"
    "\<And>i. i < 22 \<Longrightarrow> ld64 m' (sp + 8 * word_of_nat i) = initial_frame entry (ks + n) ! i"
proof -
  let ?top = "ks + n"
  have top: "unat ?top = unat ks + unat n" using assms(1) by (intro unat_add_small) simp
  let ?q = "(unat ks + unat n) div 16"
  have al: "unat (?top AND NOT 0xF) = ?q * 16" unfolding align16 top ..
  have q: "unat ks + unat n < ?q * 16 + 16" "?q * 16 \<le> unat ks + unat n"
    using div_mult_mod_eq [of "unat ks + unat n" 16] mod_less_divisor [of 16 "unat ks + unat n"] by linarith+
  have sp: "sp = (?top AND NOT 0xF) - 176" and m': "m' = st_qwords m sp (initial_frame entry ?top)"
    using assms(3) by (auto simp: prepare_initial_stack_def Let_def)
  have us: "unat sp = ?q * 16 - 176"
    unfolding sp using al q assms(2) by (simp add: unat_sub_le)
  show lo: "unat ks \<le> unat sp" and hi: "unat sp + 176 \<le> unat ks + unat n" using us q assms(2) by linarith+
  have "?q * 16 - 176 = (?q - 11) * 16" by (simp add: diff_mult_distrib)
  then show "16 dvd unat sp" unfolding us by (metis dvd_triv_right)
  have b: "unat sp + 8 * length (initial_frame entry ?top) \<le> 2 ^ 64" using hi assms(1) by simp
  show "m' x = m x" if "\<not> in_range x ks (unat n)" for x
    unfolding m' using that lo hi by (intro st_qwords_outside [OF _ b]) (auto simp: in_range_def)
  show "ld64 m' (sp + 8 * word_of_nat i) = initial_frame entry ?top ! i" if "i < 22" for i
    unfolding m' using st_qwords_nth [OF _ b, of i m] that by simp
qed

text \<open>What a new task \<open>t\<close> looks like, and what creating it leaves as it was.\<close>

definition created ::
  "sched \<Rightarrow> sched \<Rightarrow> ptr \<Rightarrow> ptr \<Rightarrow> u64 \<Rightarrow> ptr \<Rightarrow> u64 \<Rightarrow> blk list \<Rightarrow> blk list \<Rightarrow> bool"
where
  "created s s' t entry n um usz bs bs' \<longleftrightarrow>
     (let T = tasks s' t; ks = t_kstack T; sp = t_regs T
      in t \<noteq> NULL \<and> t_pid T = next_pid s \<and> next_pid s' = next_pid s + 1 \<and> t_state T = TASK_READY \<and>
         t_user_mem T = um \<and> t_user_mem_size T = usz \<and> t_kstack_size T = n \<and>
         bs' = fst (a_malloc n (fst (a_malloc SIZEOF_TASK bs))) \<and>
         (\<exists>j k. live bs' = {(t, j), (ks, k)} \<union> live bs \<and> unat SIZEOF_TASK \<le> j \<and> unat n \<le> k) \<and>
         t \<notin> fst ` live bs \<and> ks \<notin> fst ` live bs \<and> ks \<noteq> t \<and>
         unat ks \<le> unat sp \<and> unat sp + 176 \<le> unat ks + unat n \<and> 16 dvd unat sp \<and>
         ld64 (ram s') (sp + 8 * 17) = entry \<and> ld64 (ram s') (sp + 8 * 19) = 0x202 \<and>
         ld64 (ram s') (sp + 8 * 20) = ks + n \<and> (ks + n) AND NOT 0xF = sp + 22 * 8 \<and>
         (\<forall>i < 22. ld64 (ram s') (sp + 8 * word_of_nat i) = initial_frame entry (ks + n) ! i) \<and>
         (\<forall>(q, l) \<in> live bs. same_on (ram s) (ram s') q l) \<and>
         (\<forall>x. x \<noteq> t \<longrightarrow> (\<exists>nx. tasks s' x = (tasks s x)\<lparr>t_next := nx\<rparr>)) \<and>
         current s' = current s \<and> zombie_list s' = zombie_list s \<and> if_flag s' = if_flag s)"

text \<open>The memory of a new task: a record, a stack, and the first frame on it.\<close>

lemma new_task_memory:
  assumes h: "heaps_ok L s bs ubs" and n: "192 \<le> unat n"
    and adm: "k_admissible bs SIZEOF_TASK" "k_admissible (fst (a_malloc SIZEOF_TASK bs)) n"
  obtains s1 t s2 ks m sp bs' j k where
    "k_malloc L SIZEOF_TASK s = Some (s1, t)" "t \<noteq> NULL" "k_malloc L n s1 = Some (s2, ks)" "ks \<noteq> NULL"
    "prepare_initial_stack entry (ks + n) (ram s2) = (m, sp)" "\<exists>kh. s2\<lparr>ram := m\<rparr> = s\<lparr>kern_heap := kh, ram := m\<rparr>"
    "heaps_ok L (s2\<lparr>ram := m\<rparr>) bs' ubs" "live bs' = {(t, j), (ks, k)} \<union> live bs"
    "unat SIZEOF_TASK \<le> j" "unat n \<le> k" "t \<notin> fst ` live bs" "ks \<notin> fst ` live bs" "ks \<noteq> t"
    "unat ks \<le> unat sp" "unat sp + 176 \<le> unat ks + unat n" "16 dvd unat sp"
    "\<And>i. i < 22 \<Longrightarrow> ld64 m (sp + 8 * word_of_nat i) = initial_frame entry (ks + n) ! i"
    "\<And>q l. (q, l) \<in> live bs \<Longrightarrow> same_on (ram s) m q l" "bs' = fst (a_malloc n (fst (a_malloc SIZEOF_TASK bs)))"
proof -
  let ?b1 = "fst (a_malloc SIZEOF_TASK bs)" let ?b2 = "fst (a_malloc n ?b1)"
  have n0: "n \<noteq> 0" using n by auto
  obtain s1 t j kh1 m1 where a1: "k_malloc L SIZEOF_TASK s = Some (s1, t)" "t \<noteq> NULL" "heaps_ok L s1 ?b1 ubs"
      "live ?b1 = insert (t, j) (live bs)" "unat SIZEOF_TASK \<le> j" "t \<notin> fst ` live bs"
      "\<forall>(q, l) \<in> live bs. same_on (ram s) (ram s1) q l" "s1 = s\<lparr>kern_heap := kh1, ram := m1\<rparr>"
    using k_malloc_ok [OF h _ adm(1)] by force
  obtain s2 ks k kh2 m2 where a2: "k_malloc L n s1 = Some (s2, ks)" "ks \<noteq> NULL" "heaps_ok L s2 ?b2 ubs"
      "live ?b2 = insert (ks, k) (live ?b1)" "unat n \<le> k" "ks \<notin> fst ` live ?b1"
      "\<forall>(q, l) \<in> live ?b1. same_on (ram s1) (ram s2) q l" "s2 = s1\<lparr>kern_heap := kh2, ram := m2\<rparr>"
    using k_malloc_ok [OF a1(3) n0 adm(2)] by force
  obtain m sp where p: "prepare_initial_stack entry (ks + n) (ram s2) = (m, sp)" by force
  have wf: "heap_wf (ram s2) KERNEL_MAGIC (unat (l_heap_start L)) ?b2 (unat (l_heap_end L))"
    using a2(3) by (simp add: heaps_ok_def krep_def)
  have lk: "(ks, k) \<in> live ?b2" using a2(4) by simp
  have "unat ks + unat n < 2 ^ 64" using live_bounds(2) [OF wf lk] a2(5) wf by (simp add: heap_wf_def)
  note f = prepare_initial_stack_ok [OF this n p]
  have out: "m x = ram s2 x" if "\<not> in_range x ks k" for x
    using f(4) [of x] that a2(5) by (auto simp: in_range_def)
  note hp = heaps_ok_payload [OF a2(3) lk out]
  have "same_on (ram s) m q l" if q: "(q, l) \<in> live bs" for q l
  proof -
    have "(q, l) \<in> live ?b1" "(q, l) \<in> live ?b2" using q a1(4) a2(4) by simp_all
    moreover have "q \<noteq> ks" using a2(6) calculation(1) by force
    ultimately show ?thesis using hp(2) a1(7) a2(7) q by (blast intro: same_on_trans)
  qed
  moreover have "\<exists>kh. s2\<lparr>ram := m\<rparr> = s\<lparr>kern_heap := kh, ram := m\<rparr>"
    unfolding a2(8) a1(8) by (intro exI [of _ kh2]) simp
  moreover have "live ?b2 = {(t, j), (ks, k)} \<union> live bs" using a1(4) a2(4) by auto
  moreover have "ks \<notin> fst ` live bs" "ks \<noteq> t" using a2(6) a1(4) by auto
  ultimately show thesis
    using that [OF a1(1,2) a2(1,2) p _ hp(1)] a1(5,6) a2(5) f by blast
qed

lemma task_mem_insert:
  assumes tm: "task_mem s T bs ubs" and t: "t \<notin> fst ` live bs" "ks \<notin> fst ` live bs" "ks \<noteq> t"
    and lv: "live bs' = {(t, j), (ks, k)} \<union> live bs"
    and um: "um = NULL \<or> um \<in> fst ` live ubs \<and> (\<forall>x\<in>T. t_user_mem (tasks s x) \<noteq> um)"
    and s': "\<And>x. x \<in> T \<Longrightarrow> t_kstack (tasks s' x) = t_kstack (tasks s x)"
      "\<And>x. x \<in> T \<Longrightarrow> t_user_mem (tasks s' x) = t_user_mem (tasks s x)"
      "t_kstack (tasks s' t) = ks" "t_user_mem (tasks s' t) = um"
  shows "task_mem s' (insert t T) bs' ubs"
proof -
  have own: "x \<in> fst ` live bs" "t_kstack (tasks s x) \<in> fst ` live bs" if "x \<in> T" for x
    using tm that by (auto simp: task_mem_def)
  then have ne: "x \<noteq> t" "x \<noteq> ks" "t_kstack (tasks s x) \<noteq> t" "t_kstack (tasks s x) \<noteq> ks" if "x \<in> T" for x
    using t that by blast+
  have sub: "fst ` live bs' = {t, ks} \<union> fst ` live bs" using lv by auto
  have inj: "inj_on (\<lambda>x. t_kstack (tasks s' x)) T \<longleftrightarrow> inj_on (\<lambda>x. t_kstack (tasks s x)) T"
    by (rule inj_on_cong) (rule s'(1))
  have "inj_on (\<lambda>x. t_kstack (tasks s' x)) (insert t T)"
    using tm ne(1,4) s'(1,3) inj by (auto simp: task_mem_def inj_on_insert)
  moreover have "\<forall>x\<in>insert t T. x \<in> fst ` live bs' \<and> t_kstack (tasks s' x) \<in> fst ` live bs' \<and>
      (t_user_mem (tasks s' x) \<noteq> NULL \<longrightarrow> t_user_mem (tasks s' x) \<in> fst ` live ubs)"
    using tm um s' unfolding task_mem_def sub by auto
  moreover have "\<forall>x\<in>insert t T. \<forall>y\<in>insert t T. t_kstack (tasks s' x) \<noteq> y"
    using tm ne s'(1,3) t(3) unfolding task_mem_def by auto
  moreover have "t_user_mem (tasks s' x) \<noteq> t_user_mem (tasks s' y)"
    if "x \<in> insert t T" "y \<in> insert t T" "x \<noteq> y" "t_user_mem (tasks s' x) \<noteq> NULL" for x y
    using that um s'(2,4) tm unfolding task_mem_def by (cases "x = t"; cases "y = t") auto
  ultimately show ?thesis unfolding task_mem_def by blast
qed

lemma new_task_ok:
  assumes inv: "sched_inv L s xs zs bs ubs"
    and n: "n = (if n0 = 0 then KSTACK_SIZE else n0)" "192 \<le> unat n"
    and adm: "k_admissible bs SIZEOF_TASK" "k_admissible (fst (a_malloc SIZEOF_TASK bs)) n"
    and um: "um = NULL \<or> um \<in> fst ` live ubs \<and>
      (\<forall>x \<in> (set xs \<union> set zs) - {l_init_task L}. t_user_mem (tasks s x) \<noteq> um)"
  shows "\<exists>s' t bs'. new_task L entry n0 um usz s = Some (s', t) \<and> sched_inv L s' (xs @ [t]) zs bs' ubs \<and>
    created s s' t entry n um usz bs bs'"
proof -
  let ?i = "l_init_task L" let ?T = "(set xs \<union> set zs) - {?i}"
  have i: "sched_ok L s xs" "zpath (tasks s) (zombie_list s) zs" "distinct zs" "?i \<notin> set zs" "heaps_ok L s bs ubs"
    "task_mem s ?T bs ubs" "unat ?i < unat (l_heap_start L) \<or> unat (l_heap_end L) \<le> unat ?i"
    using inv by (simp_all add: sched_inv_def)
  obtain s1 t s2 ks m sp bs' j k where
    a: "k_malloc L SIZEOF_TASK s = Some (s1, t)" "t \<noteq> NULL" "k_malloc L n s1 = Some (s2, ks)" "ks \<noteq> NULL"
      "prepare_initial_stack entry (ks + n) (ram s2) = (m, sp)" "\<exists>kh. s2\<lparr>ram := m\<rparr> = s\<lparr>kern_heap := kh, ram := m\<rparr>"
    and h: "heaps_ok L (s2\<lparr>ram := m\<rparr>) bs' ubs" and lv: "live bs' = {(t, j), (ks, k)} \<union> live bs"
      "unat SIZEOF_TASK \<le> j" "unat n \<le> k" "t \<notin> fst ` live bs" "ks \<notin> fst ` live bs" "ks \<noteq> t"
    and fr: "unat ks \<le> unat sp" "unat sp + 176 \<le> unat ks + unat n" "16 dvd unat sp"
      "\<And>i. i < 22 \<Longrightarrow> ld64 m (sp + 8 * word_of_nat i) = initial_frame entry (ks + n) ! i"
      "\<And>q l. (q, l) \<in> live bs \<Longrightarrow> same_on (ram s) m q l" "bs' = fst (a_malloc n (fst (a_malloc SIZEOF_TASK bs)))"
    by (rule new_task_memory [OF i(5) n(2) adm]) blast
  obtain kh where s2: "s2\<lparr>ram := m\<rparr> = s\<lparr>kern_heap := kh, ram := m\<rparr>" using a(6) by blast
  define rec where "rec = zero_task\<lparr>t_pid := next_pid s, t_state := TASK_READY, t_kstack := ks, t_kstack_size := n,
     t_exit_code := 0, t_next := NULL, t_regs := sp, t_user_mem := um, t_user_mem_size := usz\<rparr>"
  define s3 where "s3 = s\<lparr>kern_heap := kh, ram := m, tasks := (tasks s)(t := rec), next_pid := next_pid s + 1\<rparr>"
  define s' where "s' = ring_insert t s3"
  have np: "next_pid s2 = next_pid s" using arg_cong [OF s2, of next_pid] by simp
  have "upd_task t (\<lambda>_. rec) (s2\<lparr>ram := m\<rparr>)
      \<lparr>next_pid := next_pid (upd_task t (\<lambda>_. rec) (s2\<lparr>ram := m\<rparr>)) + 1\<rparr> = s3"
    unfolding s2 by (simp add: s3_def upd_task_def)
  then have res: "new_task L entry n0 um usz s = Some (s', t)"
    unfolding new_task_def using a(1-5) n(1) by (simp add: Let_def np rec_def s'_def)
  have wf: "heap_wf m KERNEL_MAGIC (unat (l_heap_start L)) bs' (unat (l_heap_end L))"
    using h by (simp add: heaps_ok_def krep_def)
  have "(t, j) \<in> live bs'" using lv(1) by simp
  then have ti: "t \<noteq> ?i" using live_bounds(1,2) [OF wf] i(7) lv(2) by fastforce
  have nT: "t \<notin> ?T" using i(6) lv(4) by (auto simp: task_mem_def)
  then have nin: "t \<notin> set xs" "t \<notin> set zs" using ti by auto
  have "t_next (tasks s3 x) = t_next (tasks s x)" if "x \<in> set xs" for x using that nin(1) by (auto simp: s3_def)
  then have "ring (tasks s3) (task_ring s) xs = ring (tasks s) (task_ring s) xs" by (rule ring_cong)
  then have r3: "ring (tasks s3) (task_ring s3) xs" using i(1) by (simp add: sched_ok_def s3_def)
  note ri = ring_insert_ok [OF r3 nin(1) a(2), folded s'_def]
  have old: "\<exists>nx. tasks s' x = (tasks s x)\<lparr>t_next := nx\<rparr>" if "x \<noteq> t" for x
    using ri(4) [of x] that by (simp add: s3_def)
  obtain nx where new: "tasks s' t = rec\<lparr>t_next := nx\<rparr>" using ri(4) [of t] by (auto simp: s3_def)
  have oldT: "t_kstack (tasks s' x) = t_kstack (tasks s x)" "t_user_mem (tasks s' x) = t_user_mem (tasks s x)"
    "t_znext (tasks s' x) = t_znext (tasks s x)" "runnable (tasks s' x) = runnable (tasks s x)" if "x \<noteq> t" for x
    using old [OF that] by (auto simp: runnable_def)
  have flds: "current s' = current s" "zombie_list s' = zombie_list s" "next_pid s' = next_pid s + 1"
    "ram s' = m" "if_flag s' = if_flag s" "kern_heap s' = kh" "user_heap s' = user_heap s"
    using ri(5-11) by (simp_all add: s3_def)
  have "t_next (tasks s' (current s')) \<in> set (xs @ [t])" if "current s' \<noteq> NULL"
  proof (cases "current s' \<in> set (xs @ [t])")
    case True
    then show ?thesis by (rule ring_next [OF ri(1)])
  next
    case False
    then have "tasks s' (current s') = tasks s3 (current s')"
      using ring_tail_in [OF r3] by (intro ri(3)) auto
    then show ?thesis using False i(1) that flds(1) by (auto simp: s3_def sched_ok_def)
  qed
  then have ok: "sched_ok L s' (xs @ [t])"
    using i(1) ri(1) oldT(4) [of ?i] ti by (simp add: sched_ok_def)
  have zp: "zpath (tasks s') (zombie_list s') zs"
    unfolding flds(2) using zpath_cong [of zs "tasks s'" "tasks s"] oldT(3) nin(2) i(2) by metis
  have h': "heaps_ok L s' bs' ubs"
    by (rule heaps_ok_cong [OF h]) (use arg_cong [OF s2, of kern_heap] arg_cong [OF s2, of user_heap] flds in simp_all)
  have T': "(set (xs @ [t]) \<union> set zs) - {?i} = insert t ?T" using ti by auto
  have ne: "x \<noteq> t" if "x \<in> ?T" for x using that nT by blast
  have "task_mem s' (insert t ?T) bs' ubs"
    by (rule task_mem_insert [OF i(6) lv(4,5,6,1) um oldT(1,2) [OF ne]]) (simp_all add: new rec_def)
  then have "sched_inv L s' (xs @ [t]) zs bs' ubs"
    unfolding sched_inv_def T' using ok zp i(3,4,7) h' by simp
  moreover have "created s s' t entry n um usz bs bs'"
  proof -
    have T: "t_kstack (tasks s' t) = ks" "t_regs (tasks s' t) = sp" "t_pid (tasks s' t) = next_pid s"
      "t_state (tasks s' t) = TASK_READY" "t_user_mem (tasks s' t) = um" "t_user_mem_size (tasks s' t) = usz"
      "t_kstack_size (tasks s' t) = n" by (simp_all add: new rec_def)
    have "ld64 m (sp + 8 * 17) = entry" "ld64 m (sp + 8 * 19) = 0x202" "ld64 m (sp + 8 * 20) = ks + n"
      using fr(4) [of 17] fr(4) [of 19] fr(4) [of 20] by (simp_all add: initial_frame_def nth_append)
    moreover have "(ks + n) AND NOT 0xF = sp + 22 * 8" using a(5) by (auto simp: prepare_initial_stack_def Let_def)
    ultimately show ?thesis
      unfolding created_def Let_def T flds using a(2) lv fr old by blast
  qed
  ultimately show ?thesis using res by blast
qed

section \<open>Leaving\<close>

lemma sched_inv_flag [simp]:
  "sched_inv L (cli s) xs zs bs ubs = sched_inv L s xs zs bs ubs"
  "sched_inv L (sti s) xs zs bs ubs = sched_inv L s xs zs bs ubs"
  unfolding sched_inv_def sched_ok_def heaps_ok_def task_mem_def cli_def sti_def by simp_all

lemma cli_sti_simps [simp]:
  "tasks (cli s) = tasks s" "tasks (sti s) = tasks s" "current (cli s) = current s" "current (sti s) = current s"
  "task_ring (cli s) = task_ring s" "task_ring (sti s) = task_ring s" "next_pid (cli s) = next_pid s"
  "next_pid (sti s) = next_pid s" "zombie_list (cli s) = zombie_list s" "zombie_list (sti s) = zombie_list s"
  "if_flag (sti s)" "\<not> if_flag (cli s)" "kern_heap (cli s) = kern_heap s" "kern_heap (sti s) = kern_heap s"
  "user_heap (cli s) = user_heap s" "user_heap (sti s) = user_heap s" "ram (cli s) = ram s" "ram (sti s) = ram s"
  by (simp_all add: cli_def sti_def)

abbreviation survivors :: "ptr list \<Rightarrow> ptr list \<Rightarrow> ptr list" where
  "survivors zs xs \<equiv> filter (\<lambda>x. x \<notin> set zs) xs"

text \<open>What is left of the two heaps when the tasks \<open>zs\<close> are gone.\<close>

definition freed :: "sched \<Rightarrow> ptr set \<Rightarrow> blk list \<Rightarrow> blk list \<Rightarrow> blk list \<Rightarrow> blk list \<Rightarrow> bool" where
  "freed s Z bs ubs bs' ubs' \<longleftrightarrow>
     live bs' = live_without (live bs) (Z \<union> (\<lambda>z. t_kstack (tasks s z)) ` Z) \<and>
     live ubs' = live_without (live ubs) ((\<lambda>z. t_user_mem (tasks s z)) ` Z - {NULL})"

lemma freed_trans:
  assumes "freed s Z bs ubs bs1 ubs1" "freed s1 Y bs1 ubs1 bs2 ubs2"
    "\<And>y. y \<in> Y \<Longrightarrow> t_kstack (tasks s1 y) = t_kstack (tasks s y)"
    "\<And>y. y \<in> Y \<Longrightarrow> t_user_mem (tasks s1 y) = t_user_mem (tasks s y)"
  shows "freed s (Z \<union> Y) bs ubs bs2 ubs2"
proof -
  have "(\<lambda>z. t_kstack (tasks s1 z)) ` Y = (\<lambda>z. t_kstack (tasks s z)) ` Y"
    "(\<lambda>z. t_user_mem (tasks s1 z)) ` Y = (\<lambda>z. t_user_mem (tasks s z)) ` Y"
    using assms(3,4) by (auto intro!: image_cong)
  then show ?thesis
    using assms(1,2) by (simp add: freed_def live_without_twice image_Un Un_ac Un_Diff)
qed

lemma freed_none [simp]: "freed s {} bs ubs bs' ubs' \<longleftrightarrow> live bs' = live bs \<and> live ubs' = live ubs"
  by (simp add: freed_def live_without_def)

text \<open>The current task is in the ring and is not waiting to be reaped.\<close>

definition cur_safe :: "sched \<Rightarrow> ptr list \<Rightarrow> ptr list \<Rightarrow> bool" where
  "cur_safe s xs zs \<longleftrightarrow> current s = NULL \<or> current s \<in> set (survivors zs xs)"

text \<open>Two states in which the tasks of \<open>X\<close> are the same but for their links.\<close>

definition same_tasks :: "sched \<Rightarrow> sched \<Rightarrow> ptr set \<Rightarrow> bool" where
  "same_tasks s s' X \<longleftrightarrow> next_pid s' = next_pid s \<and>
     (\<forall>x\<in>X. t_pid (tasks s' x) = t_pid (tasks s x) \<and> t_state (tasks s' x) = t_state (tasks s x) \<and>
        t_regs (tasks s' x) = t_regs (tasks s x) \<and> t_kstack (tasks s' x) = t_kstack (tasks s x))"

lemma same_tasks_trans:
  "same_tasks s s1 X \<Longrightarrow> same_tasks s1 s2 Y \<Longrightarrow> Z \<subseteq> X \<inter> Y \<Longrightarrow> same_tasks s s2 Z"
  by (simp add: same_tasks_def subset_iff Ball_def)

lemma reap_ok:
  assumes inv: "sched_inv L s xs zs bs ubs" and cur: "cur_safe s xs zs"
  obtains s' bs' ubs' where "reap_zombies_internal L s = Some s'" "sched_inv L s' (survivors zs xs) [] bs' ubs'"
    "zombie_list s' = NULL" "if_flag s'" "current s' = current s" "next_pid s' = next_pid s"
    "freed s (set zs) bs ubs bs' ubs'" "\<And>x. x \<notin> set zs \<Longrightarrow> \<exists>n. tasks s' x = (tasks s x)\<lparr>t_next := n\<rparr>"
    "same_tasks s s' (- set zs)" "mem_kept L s s' bs'"
proof -
  have "current s = NULL \<or> current s \<in> set xs - set zs" using cur by (auto simp: cur_safe_def)
  from reap_inv [OF inv this] obtain s' bs' ubs' where "reap_zombies_internal L s = Some s'"
    "reap_post L xs zs s bs ubs s'" "sched_inv L s' (survivors zs xs) [] bs' ubs'" "zombie_list s' = NULL" "if_flag s'"
    "freed s (set zs) bs ubs bs' ubs'" "mem_kept L s s' bs'" unfolding freed_def by blast
  note r = this
  have "same_tasks s s' (- set zs)"
    unfolding same_tasks_def
  proof (intro conjI ballI)
    show "next_pid s' = next_pid s" using r(2) by (simp add: reap_post_def)
    fix x assume "x \<in> - set zs"
    then obtain n where "tasks s' x = (tasks s x)\<lparr>t_next := n\<rparr>" using r(2) by (auto simp: reap_post_def)
    then show "t_pid (tasks s' x) = t_pid (tasks s x)" "t_state (tasks s' x) = t_state (tasks s x)"
      "t_regs (tasks s' x) = t_regs (tasks s x)" "t_kstack (tasks s' x) = t_kstack (tasks s x)" by simp_all
  qed
  then show thesis using that [of s' bs' ubs'] r by (simp add: reap_post_def)
qed

lemma find_pid_ok:
  assumes "ring ts tail xs"
  shows "find_pid ts (t_next (ts tail)) (t_next (ts tail)) pid =
    Some (case find (\<lambda>t. t_pid (ts t) = pid) xs of None \<Rightarrow> NULL | Some t \<Rightarrow> t)"
proof -
  obtain h ys where "xs = h # ys" "path ts h (h # ys) h" "h \<notin> set ys" "t_next (ts tail) = h"
    by (rule ring_walk [OF assms])
  then show ?thesis using find_pid_path [of ts h ys h pid] by simp
qed

text \<open>\<open>task_exit\<close>: the zombies that were waiting are reaped, then the current task joins the list.\<close>

lemma task_exit_ok:
  assumes inv: "sched_inv L s xs zs bs ubs" and c: "cur_safe s xs zs" "current s \<noteq> l_init_task L" "current s \<noteq> NULL"
  shows "\<exists>s' bs' ubs'. task_exit L code s = Some s' \<and> sched_inv L s' (survivors zs xs) [current s] bs' ubs' \<and>
    if_flag s' \<and> current s' = current s \<and> t_state (tasks s' (current s)) = TASK_ZOMBIE \<and>
    t_exit_code (tasks s' (current s)) = code \<and> freed s (set zs) bs ubs bs' ubs' \<and>
    same_tasks s s' (- insert (current s) (set zs)) \<and> t_pid (tasks s' (current s)) = t_pid (tasks s (current s)) \<and>
    t_kstack (tasks s' (current s)) = t_kstack (tasks s (current s)) \<and>
    t_user_mem (tasks s' (current s)) = t_user_mem (tasks s (current s)) \<and> mem_kept L s s' bs'"
proof -
  let ?c = "current s" and ?i = "l_init_task L" and ?xs = "survivors zs xs"
  have "sched_inv L (cli s) xs zs bs ubs" "cur_safe (cli s) xs zs" using inv c(1) by (simp_all add: cur_safe_def)
  then obtain s1 bs' ubs' where r: "reap_zombies_internal L (cli s) = Some s1"
      "sched_inv L s1 ?xs [] bs' ubs'" "zombie_list s1 = NULL" "if_flag s1" "current s1 = current (cli s)"
      "freed (cli s) (set zs) bs ubs bs' ubs'" "same_tasks (cli s) s1 (- set zs)"
      "\<And>x. x \<notin> set zs \<Longrightarrow> \<exists>n. tasks s1 x = (tasks (cli s) x)\<lparr>t_next := n\<rparr>" "mem_kept L (cli s) s1 bs'"
    by (rule reap_ok) blast
  have c1: "current s1 = ?c" using r(5) by simp
  have cx: "?c \<in> set ?xs" using c(1,3) by (simp add: cur_safe_def)
  have ok: "sched_ok L s1 ?xs" "ring (tasks s1) (task_ring s1) ?xs" "task_mem s1 (set ?xs - {?i}) bs' ubs'"
    "heaps_ok L s1 bs' ubs'" using r(2) by (auto simp: sched_inv_def sched_ok_def)
  define s' where "s' = s1\<lparr>tasks := (tasks s1)(?c := (tasks s1 ?c)\<lparr>t_exit_code := code, t_state := TASK_ZOMBIE, t_znext := NULL\<rparr>),
     zombie_list := ?c, if_flag := True\<rparr>"
  have res: "task_exit L code s = Some s'"
    using r(1,3) c1 c(2,3) by (simp add: task_exit_def Let_def upd_task_def add_to_zombie_list_def sti_def s'_def)
  have f: "t_next (tasks s' x) = t_next (tasks s1 x)" "t_kstack (tasks s' x) = t_kstack (tasks s1 x)"
    "t_user_mem (tasks s' x) = t_user_mem (tasks s1 x)" for x by (simp_all add: s'_def)
  have "ring (tasks s') (task_ring s') ?xs"
    using ok(2) ring_cong [of ?xs "tasks s'" "tasks s1"] f(1) by (simp add: s'_def)
  moreover have "runnable (tasks s' ?i)" "current s' = current s1"
    using ok(1) c(2) by (simp_all add: s'_def sched_ok_def)
  ultimately have "sched_ok L s' ?xs" using ok(1) f(1) by (simp add: sched_ok_def)
  moreover have "(set ?xs \<union> set [?c]) - {?i} = set ?xs - {?i}" using cx by auto
  moreover have "task_mem s' (set ?xs - {?i}) bs' ubs'" by (rule task_mem_cong [OF ok(3)]) (simp_all add: f)
  moreover have "heaps_ok L s' bs' ubs'" by (rule heaps_ok_cong [OF ok(4)]) (simp_all add: s'_def)
  moreover have "zpath (tasks s') (zombie_list s') [?c]" using c(3) by (simp add: s'_def)
  ultimately have "sched_inv L s' ?xs [?c] bs' ubs'"
    unfolding sched_inv_def using r(2) c(2) by (simp add: sched_inv_def)
  moreover have "same_tasks s s' (- insert ?c (set zs))" "t_pid (tasks s' ?c) = t_pid (tasks s ?c)"
    using r(7) cx by (auto simp: same_tasks_def s'_def)
  moreover obtain n where "tasks s1 ?c = (tasks s ?c)\<lparr>t_next := n\<rparr>" using r(8) [of ?c] cx by auto
  then have "t_kstack (tasks s' ?c) = t_kstack (tasks s ?c)" "t_user_mem (tasks s' ?c) = t_user_mem (tasks s ?c)"
    by (simp_all add: s'_def)
  moreover have "mem_kept L s s' bs'" using r(9) by (simp add: mem_kept_def s'_def)
  ultimately show ?thesis
    using res r(6) c1 by (intro exI [of _ s'] exI [of _ bs'] exI [of _ ubs']) (simp add: s'_def freed_def)
qed

text \<open>Taking a task other than init out of the ring and freeing what it owns.\<close>

lemma remove_task_ok:
  assumes inv: "sched_inv L s xs [] bs ubs" and t: "t \<in> set xs" "t \<noteq> l_init_task L" "t \<noteq> current s"
    and cur: "cur_safe s xs []"
  obtains s' bs' ubs' rc where "unlink_from_ring L t s = Some (s', rc)"
    "sched_inv L (free_task_resources L t (sti s')) (filter (\<lambda>x. x \<noteq> t) xs) [] bs' ubs'"
    "freed s {t} bs ubs bs' ubs'" "current (free_task_resources L t (sti s')) = current s"
    "same_tasks s (free_task_resources L t (sti s')) (- {t})" "mem_kept L s (free_task_resources L t (sti s')) bs'"
proof -
  let ?xs = "filter (\<lambda>x. x \<noteq> t) xs" and ?i = "l_init_task L"
  have i: "sched_ok L s xs" "zombie_list s = NULL" "heaps_ok L s bs ubs" "task_mem s (set xs - {?i}) bs ubs"
    "unat ?i < unat (l_heap_start L) \<or> unat (l_heap_end L) \<le> unat ?i"
    using inv by (auto simp: sched_inv_def)
  have r: "ring (tasks s) (task_ring s) xs" "?i \<in> set xs" "runnable (tasks s ?i)" using i(1) by (auto simp: sched_ok_def)
  then have "t \<noteq> NULL" using t(1) by (auto simp: ring_def)
  then obtain s1 rc where u: "unlink_from_ring L t s = Some (s1, rc)" "links_only s s1"
      "ring (tasks s1) (task_ring s1) ?xs"
    using unlink_ok [OF r(1,2) t(2)] by blast
  note lo = links_onlyD [OF u(2)]
  define s2 where "s2 = free_task_resources L t (sti s1)"
  have h1: "heaps_ok L (sti s1) bs ubs"
    by (rule heaps_ok_cong [OF i(3)]) (simp_all add: lo)
  have tm1: "task_mem (sti s1) (set xs - {?i}) bs ubs"
    by (rule task_mem_cong [OF i(4)]) (simp_all add: lo)
  have tT: "t \<in> set xs - {?i}" using t by simp
  note fr = free_task_ok [OF h1 tm1 tT t(2), folded s2_def]
  obtain bs' ubs' where b: "heaps_ok L s2 bs' ubs'" "task_mem s2 (set xs - {?i} - {t}) bs' ubs'"
      "live bs' = live_without (live bs) {t, t_kstack (tasks s t)}"
      "live ubs' = live_without (live ubs) ({t_user_mem (tasks s t)} - {NULL})" "mem_kept L (sti s1) s2 bs'"
    using fr(1) by (auto simp: lo)
  have ts: "tasks s2 x = tasks s1 x" if "x \<noteq> t" for x using fr(2) [OF that] by simp
  have fl: "task_ring s2 = task_ring s1" "current s2 = current s" "zombie_list s2 = NULL"
    using fr(3,4,6) lo i(2) by simp_all
  have "t_next (tasks s2 x) = t_next (tasks s1 x)" if "x \<in> set ?xs" for x using ts [of x] that by simp
  then have "ring (tasks s2) (task_ring s1) ?xs = ring (tasks s1) (task_ring s1) ?xs" by (rule ring_cong)
  then have r2: "ring (tasks s2) (task_ring s2) ?xs" using u(3) fl(1) by simp
  have "runnable (tasks s2 ?i)" using ts [of ?i] t(2) lo(13) [of ?i] r(3) by simp
  moreover have "t_next (tasks s2 (current s2)) \<in> set ?xs" if "current s2 \<noteq> NULL"
    using cur that t(3) fl(2) by (intro ring_next [OF r2]) (auto simp: cur_safe_def)
  ultimately have "sched_ok L s2 ?xs" using r2 r(2) t(2) by (simp add: sched_ok_def)
  moreover have "(set ?xs \<union> set []) - {?i} = set xs - {?i} - {t}" by auto
  ultimately have "sched_inv L s2 ?xs [] bs' ubs'" unfolding sched_inv_def using b(1,2) fl(3) i(5) by simp
  moreover have "freed s {t} bs ubs bs' ubs'" using b(3,4) by (simp add: freed_def insert_commute)
  moreover have "same_tasks s s2 (- {t})" using ts lo fr(5) by (simp add: same_tasks_def)
  moreover have "mem_kept L s s2 bs'" using b(5) lo by (simp add: mem_kept_def)
  ultimately show thesis using that [OF u(1), folded s2_def] fl(2) by blast
qed

text \<open>The current task taken out of the ring and put on the list of zombies.\<close>

lemma stop_self_ok:
  assumes inv: "sched_inv L s xs [] bs ubs" and t: "t \<in> set xs" "t \<noteq> l_init_task L" "t = current s"
  defines "s1 \<equiv> add_to_zombie_list t (upd_task t (\<lambda>x. x\<lparr>t_state := TASK_ZOMBIE\<rparr>) s)"
  obtains s' rc where "unlink_from_ring L t s1 = Some (s', rc)" "current s' = t"
    "sched_inv L s' (filter (\<lambda>x. x \<noteq> t) xs) [t] bs ubs" "t_state (tasks s' t) = TASK_ZOMBIE"
    "same_tasks s s' (- {t})" "t_pid (tasks s' t) = t_pid (tasks s t)" "ram s' = ram s" "t_kstack (tasks s' t) = t_kstack (tasks s t)"
proof -
  let ?xs = "filter (\<lambda>x. x \<noteq> t) xs" and ?i = "l_init_task L"
  have i: "sched_ok L s xs" "zombie_list s = NULL" "heaps_ok L s bs ubs" "task_mem s (set xs - {?i}) bs ubs"
    "unat ?i < unat (l_heap_start L) \<or> unat (l_heap_end L) \<le> unat ?i"
    using inv by (auto simp: sched_inv_def)
  have r: "ring (tasks s) (task_ring s) xs" "?i \<in> set xs" "runnable (tasks s ?i)" using i(1) by (auto simp: sched_ok_def)
  then have t0: "t \<noteq> NULL" using t(1) by (auto simp: ring_def)
  have s1: "s1 = s\<lparr>tasks := (tasks s)(t := (tasks s t)\<lparr>t_state := TASK_ZOMBIE, t_znext := NULL\<rparr>), zombie_list := t\<rparr>"
    using t0 i(2) by (simp add: s1_def add_to_zombie_list_def upd_task_def)
  have f: "t_next (tasks s1 x) = t_next (tasks s x)" "t_kstack (tasks s1 x) = t_kstack (tasks s x)"
    "t_user_mem (tasks s1 x) = t_user_mem (tasks s x)" for x by (simp_all add: s1)
  have "ring (tasks s1) (task_ring s) xs = ring (tasks s) (task_ring s) xs" by (rule ring_cong) (rule f(1))
  then have r1: "ring (tasks s1) (task_ring s1) xs" using r(1) by (simp add: s1)
  obtain s' rc where u: "unlink_from_ring L t s1 = Some (s', rc)" "links_only s1 s'"
      "ring (tasks s') (task_ring s') ?xs" "t_next (tasks s' t) = t_next (tasks s1 t)"
    using unlink_ok [OF r1 r(2) t(2) t0] by blast
  note lo = links_onlyD [OF u(2)]
  have c: "current s' = t" using lo(1) t(3) by (simp add: s1)
  have h: "heaps_ok L s' bs ubs" by (rule heaps_ok_cong [OF i(3)]) (simp_all add: lo, simp_all add: s1)
  have "task_mem s' (set xs - {?i}) bs ubs" by (rule task_mem_cong [OF i(4)]) (simp_all add: lo f)
  moreover have "(set ?xs \<union> set [t]) - {?i} = set xs - {?i}" using t(1) by auto
  ultimately have tm: "task_mem s' ((set ?xs \<union> set [t]) - {?i}) bs ubs" by simp
  have "t_next (tasks s t) \<noteq> t"
  proof
    assume self: "t_next (tasks s t) = t"
    have p: "path (tasks s) t (rot t xs) t" "hd (rot t xs) = t" using ring_rot [OF r(1) t(1)] .
    have d: "distinct (rot t xs)" using r(1) by (simp add: ring_def)
    have "rot t xs \<noteq> []" using t(1) set_rot [of t xs] by force
    then obtain ys where ys: "rot t xs = t # ys" using p(2) by (cases "rot t xs") auto
    have "ys = []" using p(1) d self unfolding ys by (cases ys) simp_all
    then have "set xs = {t}" using set_rot [of t xs] ys by simp
    then show False using r(2) t(2) by simp
  qed
  moreover have "t_next (tasks s t) \<in> set xs" by (rule ring_next [OF r(1) t(1)])
  ultimately have "t_next (tasks s' (current s')) \<in> set ?xs" using u(4) f(1) c by simp
  moreover have "runnable (tasks s' ?i)" using lo(13) [of ?i] r(3) t(2) by (simp add: s1)
  ultimately have "sched_ok L s' ?xs" using u(3) r(2) t(2) by (simp add: sched_ok_def)
  moreover have "zpath (tasks s') (zombie_list s') [t]" using t0 by (simp add: lo) (simp add: s1)
  ultimately have "sched_inv L s' ?xs [t] bs ubs" unfolding sched_inv_def using h tm i(5) t(2) by simp
  moreover have "t_state (tasks s' t) = TASK_ZOMBIE" "t_pid (tasks s' t) = t_pid (tasks s t)"
    by (simp_all add: lo) (simp_all add: s1)
  moreover have "same_tasks s s' (- {t})" by (simp add: same_tasks_def lo) (simp add: s1)
  moreover have "ram s' = ram s" "t_kstack (tasks s' t) = t_kstack (tasks s t)" by (simp_all add: lo f) (simp add: s1)
  ultimately show thesis using that u(1) c by blast
qed

section \<open>Ticks\<close>

text \<open>A tick leaves the heaps and the lists alone; only the init task gets a stack.\<close>

lemma schedule_frame:
  assumes "schedule_from_isr L regs s = Some (s', frame)"
  shows "kern_heap s' = kern_heap s" "user_heap s' = user_heap s" "ram s' = ram s" "zombie_list s' = zombie_list s"
    "next_pid s' = next_pid s" "if_flag s' = if_flag s" "\<And>x. t_znext (tasks s' x) = t_znext (tasks s x)"
    "\<And>x. t_user_mem (tasks s' x) = t_user_mem (tasks s x)"
    "\<And>x. x \<noteq> l_init_task L \<Longrightarrow> t_kstack (tasks s' x) = t_kstack (tasks s x)"
  using assms
  by (auto simp: schedule_from_isr_def save_current_def upd_task_def Let_def bind_eq_Some_conv split: if_splits)

lemma tick_inv:
  assumes inv: "sched_inv L s xs zs bs ubs" and t: "schedule_from_isr L regs s = Some (s', frame)"
  shows "sched_inv L s' xs zs bs ubs" "tick_post L regs xs s s' frame"
proof -
  note fr = schedule_frame [OF t]
  have i: "sched_ok L s xs" "zpath (tasks s) (zombie_list s) zs" "distinct zs" "l_init_task L \<notin> set zs"
    "heaps_ok L s bs ubs" "task_mem s ((set xs \<union> set zs) - {l_init_task L}) bs ubs"
    "unat (l_init_task L) < unat (l_heap_start L) \<or> unat (l_heap_end L) \<le> unat (l_init_task L)"
    using inv by (simp_all add: sched_inv_def)
  show tp: "tick_post L regs xs s s' frame" using schedule_ok [OF i(1), of regs] t by auto
  then have "sched_ok L s' xs" by (simp add: tick_post_def)
  moreover have "zpath (tasks s') (zombie_list s') zs"
    unfolding fr(4) using zpath_cong [of zs "tasks s'" "tasks s"] fr(7) i(2) by blast
  moreover have "heaps_ok L s' bs ubs" by (rule heaps_ok_cong [OF i(5)]) (simp_all add: fr)
  moreover have "task_mem s' ((set xs \<union> set zs) - {l_init_task L}) bs ubs"
    by (rule task_mem_cong [OF i(6)]) (simp_all add: fr)
  ultimately show "sched_inv L s' xs zs bs ubs" unfolding sched_inv_def using i(3,4,7) by blast
qed

end
