(* ===== verification/Multitask.thy ===== *)
theory Multitask
  imports Task_Memory
begin

text \<open>
  The life of tasks: boot, creation, timer ticks, exit, stop and reaping as one transition
  system over the scheduler state, the invariant of its reachable states, and the
  behaviour of each operation of \<open>multitask/multitask.c\<close> on such states.
\<close>

section \<open>Room for a new task\<close>

text \<open>
  \<open>malloc\<close> is only called in the transition system below while a free block fits; then it
  does not enlarge the heap.
\<close>

definition room :: "u64 \<Rightarrow> sched \<Rightarrow> bool" where
  "room n s \<longleftrightarrow> unat n + 7 < 2 ^ 64 \<and>
     (case find_fit (kern_heap s, ram s) (align_up n) of None \<Rightarrow> False | Some a \<Rightarrow> a \<noteq> NULL)"

definition stack_of :: "u64 \<Rightarrow> u64" where
  "stack_of n = (if n = 0 then KSTACK_SIZE else n)"

definition room_for_task :: "layout \<Rightarrow> u64 \<Rightarrow> sched \<Rightarrow> bool" where
  "room_for_task L n s \<longleftrightarrow> 192 \<le> unat (stack_of n) \<and> room SIZEOF_TASK s \<and>
     (case k_malloc L SIZEOF_TASK s of None \<Rightarrow> False | Some (s', t) \<Rightarrow> room (stack_of n) s')"

lemma room_admissible: "heaps_ok L s bs ubs \<Longrightarrow> room n s \<Longrightarrow> k_admissible bs n"
  using find_fit_rep [of "l_heap_start L" "l_heap_end L" "(kern_heap s, ram s)" bs "align_up n"]
  by (auto simp: heaps_ok_def room_def k_admissible_def split: option.splits)

lemma room_for_task_admissible:
  assumes h: "heaps_ok L s bs ubs" and r: "room_for_task L n s"
  shows "k_admissible bs SIZEOF_TASK" "k_admissible (fst (a_malloc SIZEOF_TASK bs)) (stack_of n)"
proof -
  show a: "k_admissible bs SIZEOF_TASK" using r by (intro room_admissible [OF h]) (simp add: room_for_task_def)
  obtain s1 p where m: "k_malloc L SIZEOF_TASK s = Some (s1, p)" "heaps_ok L s1 (fst (a_malloc SIZEOF_TASK bs)) ubs"
    using k_malloc_ok [OF h _ a] by auto
  show "k_admissible (fst (a_malloc SIZEOF_TASK bs)) (stack_of n)"
    using r m(1) by (intro room_admissible [OF m(2)]) (simp add: room_for_task_def)
qed

lemma new_task_room:
  assumes inv: "sched_inv L s xs zs bs ubs" and r: "room_for_task L n s"
    and um: "um = NULL \<or> um \<in> fst ` live ubs \<and>
      (\<forall>x \<in> (set xs \<union> set zs) - {l_init_task L}. t_user_mem (tasks s x) \<noteq> um)"
  shows "\<exists>s' t bs'. new_task L entry n um usz s = Some (s', t) \<and> sched_inv L s' (xs @ [t]) zs bs' ubs \<and>
    created s s' t entry (stack_of n) um usz bs bs'"
proof -
  have "heaps_ok L s bs ubs" using inv by (simp add: sched_inv_def)
  from room_for_task_admissible [OF this r] show ?thesis
    using new_task_ok [OF inv stack_of_def _ _ _ um, of n] r by (simp add: room_for_task_def)
qed

section \<open>Boot\<close>

text \<open>The order of \<open>kmain\<close>: the two heaps, then the scheduler.\<close>

definition boot :: "layout \<Rightarrow> sched \<Rightarrow> sched" where
  "boot L s =
     (let (k, m) = malloc_init (l_heap_start L) (l_heap_end L - l_heap_start L) (kern_heap s, ram s);
          (u, m) = user_malloc_init (l_user_start L) (l_user_end L) (user_heap s, m)
      in scheduler_init L (s\<lparr>kern_heap := k, user_heap := u, ram := m\<rparr>))"

text \<open>The regions of the linker script: two sections that do not overlap, and the init task in neither.\<close>

definition layout_ok :: "layout \<Rightarrow> bool" where
  "layout_ok L \<longleftrightarrow>
     0 < unat (l_heap_start L) \<and> unat (l_heap_start L) + 40 \<le> unat (l_heap_end L) \<and> unat (l_heap_end L) < 2 ^ 63 \<and>
     0 < unat (l_user_start L) \<and> unat (l_user_start L) + 40 \<le> unat (l_user_end L) \<and> unat (l_user_end L) < 2 ^ 63 \<and>
     (unat (l_heap_end L) \<le> unat (l_user_start L) \<or> unat (l_user_end L) \<le> unat (l_heap_start L)) \<and>
     l_init_task L \<noteq> NULL \<and>
     (unat (l_init_task L) < unat (l_heap_start L) \<or> unat (l_heap_end L) \<le> unat (l_init_task L))"

lemma boot_inv:
  assumes L: "layout_ok L" and u: "user_head (user_heap s) = NULL" and z: "zombie_list s = NULL"
  shows "sched_inv L (boot L s) [l_init_task L] [] [(l_heap_start L, l_heap_end L - l_heap_start L - 40, True)]
    [(l_user_start L, l_user_end L - l_user_start L - 40, True)]"
proof -
  let ?hs = "l_heap_start L" and ?he = "l_heap_end L" and ?us = "l_user_start L" and ?ue = "l_user_end L"
  let ?bs = "[(?hs, ?he - ?hs - 40, True)]" and ?ubs = "[(?us, ?ue - ?us - 40, True)]"
  note l = L [unfolded layout_ok_def]
  obtain k m where km: "malloc_init ?hs (?he - ?hs) (kern_heap s, ram s) = (k, m)" by force
  obtain uh m' where um: "user_malloc_init ?us ?ue (user_heap s, m) = (uh, m')" by force
  have sz: "unat (?he - ?hs) = unat ?he - unat ?hs" "40 \<le> unat ?he - unat ?hs" using l by (auto simp: unat_sub_le)
  have k0: "krep ?hs ?he (k, m) ?bs"
    using krep_init(1) [of ?hs "?he - ?hs" "kern_heap s" "ram s"] l sz by (simp add: km)
  have u0: "urep ?us ?ue (uh, m') ?ubs" using urep_init [of ?us ?ue "user_heap s" m] l u by (simp add: um)
  have at: "hdr_at ?us" using l by (simp add: hdr_at_def)
  have "only_hdrs m m' {?us}"
    using um at u by (auto simp: user_malloc_init_def Let_def mem_simps intro!: only_hdrs_set_field)
  then have same: "m' x = m x" if "\<not> in_range x ?us 40" for x using that by (simp add: only_hdrs_def)
  have "heap_wf m' KERNEL_MAGIC (unat ?hs) ?bs (unat ?he)"
  proof (rule heap_wf_region)
    show "heap_wf m KERNEL_MAGIC (unat ?hs) ?bs (unat ?he)" using k0 by (simp add: krep_def)
    fix x :: ptr assume "unat ?hs \<le> unat x" "unat x < unat ?he"
    then show "m' x = m x" using l by (intro same) (auto simp: in_range_def)
  qed
  then have h: "heaps_ok L (boot L s) ?bs ?ubs"
    using k0 u0 l by (simp add: heaps_ok_def boot_def km um scheduler_init_def upd_task_def Let_def krep_def)
  have "sched_ok L (boot L s) [l_init_task L]"
    using l by (simp add: sched_ok_def boot_def km um scheduler_init_def upd_task_def Let_def ring_def runnable_def zero_task_def)
  moreover have "task_mem (boot L s) {} ?bs ?ubs" by (simp add: task_mem_def)
  moreover have "zombie_list (boot L s) = NULL"
    using z by (simp add: boot_def km um scheduler_init_def upd_task_def Let_def)
  ultimately show ?thesis unfolding sched_inv_def using h l by simp
qed

section \<open>Stopping, listing and looking up tasks\<close>

definition with_pid :: "sched \<Rightarrow> i32 \<Rightarrow> ptr list \<Rightarrow> ptr option" where
  "with_pid s pid xs = find (\<lambda>t. t_pid (tasks s t) = pid) xs"

lemma with_pid_same:
  assumes "same_tasks s s' X" "set xs \<subseteq> X"
  shows "with_pid s' pid xs = with_pid s pid xs"
  unfolding with_pid_def using assms by (intro find_cong) (auto simp: same_tasks_def)

text \<open>The three outcomes of \<open>task_stop\<close>: nobody has the pid, another task has it, the caller has it.\<close>

definition stop_post ::
  "layout \<Rightarrow> sched \<Rightarrow> ptr list \<Rightarrow> ptr list \<Rightarrow> blk list \<Rightarrow> blk list \<Rightarrow> i32 \<Rightarrow> stop_result \<Rightarrow> bool"
where
  "stop_post L s xs zs bs ubs pid r \<longleftrightarrow>
     (let ys = survivors zs xs
      in case with_pid s pid ys of
           None \<Rightarrow> \<exists>s' bs' ubs'. r = Returned s' (-1) \<and> sched_inv L s' ys [] bs' ubs' \<and>
             freed s (set zs) bs ubs bs' ubs' \<and> current s' = current s \<and> same_tasks s s' (set ys) \<and> mem_kept L s s' bs'
         | Some t \<Rightarrow>
             if t = current s then
               \<exists>s' bs' ubs'. r = Halted s' \<and> sched_inv L s' (filter (\<lambda>x. x \<noteq> t) ys) [t] bs' ubs' \<and>
                 freed s (set zs) bs ubs bs' ubs' \<and> current s' = t \<and> t_state (tasks s' t) = TASK_ZOMBIE \<and>
                 same_tasks s s' (set ys - {t}) \<and> t_pid (tasks s' t) = pid \<and>
                 t_kstack (tasks s' t) = t_kstack (tasks s t) \<and> mem_kept L s s' bs'
             else
               \<exists>s' bs' ubs'. r = Returned s' 0 \<and> sched_inv L s' (filter (\<lambda>x. x \<noteq> t) ys) [] bs' ubs' \<and>
                 freed s (insert t (set zs)) bs ubs bs' ubs' \<and> current s' = current s \<and>
                 same_tasks s s' (set ys - {t}) \<and> mem_kept L s s' bs')"

lemma task_stop_ok:
  assumes inv: "sched_inv L s xs zs bs ubs" and cur: "cur_safe s xs zs"
    and pid: "pid \<noteq> 0" "t_pid (tasks s (l_init_task L)) = 0"
  shows "\<exists>r. task_stop L pid s = Some r \<and> stop_post L s xs zs bs ubs pid r"
proof -
  let ?ys = "survivors zs xs"
  have "sched_inv L (cli s) xs zs bs ubs" "cur_safe (cli s) xs zs" using inv cur by (simp_all add: cur_safe_def)
  then obtain s1 bs1 ubs1 where r: "reap_zombies_internal L (cli s) = Some s1" "sched_inv L s1 ?ys [] bs1 ubs1"
      "zombie_list s1 = NULL" "if_flag s1" "current s1 = current (cli s)" "next_pid s1 = next_pid (cli s)"
      "freed (cli s) (set zs) bs ubs bs1 ubs1"
      "\<And>x. x \<notin> set zs \<Longrightarrow> \<exists>n. tasks s1 x = (tasks (cli s) x)\<lparr>t_next := n\<rparr>" "same_tasks (cli s) s1 (- set zs)"
      "mem_kept L (cli s) s1 bs1"
    by (rule reap_ok) blast
  have st1: "same_tasks s s1 (set ?ys)" and fr1: "freed s (set zs) bs ubs bs1 ubs1" and c1: "current s1 = current s"
    and mk1: "mem_kept L s s1 bs1"
    using r(5,7,9,10) by (auto simp: same_tasks_def freed_def mem_kept_def)
  have ring: "ring (tasks s1) (task_ring s1) ?ys" using r(2) by (simp add: sched_inv_def sched_ok_def)
  then have tr: "task_ring s1 \<noteq> NULL" and nn: "NULL \<notin> set ?ys" using ring_tail_in [OF ring] by (auto simp: ring_def)
  let ?h = "t_next (tasks s1 (task_ring s1))"
  have fp: "find_pid (tasks s1) ?h ?h pid = Some (case with_pid s pid ?ys of None \<Rightarrow> NULL | Some t \<Rightarrow> t)"
    using find_pid_ok [OF ring, of pid] with_pid_same [OF st1, of ?ys pid] by (simp add: with_pid_def)
  have cs1: "cur_safe s1 ?ys []" using cur c1 by (auto simp: cur_safe_def)
  show ?thesis
  proof (cases "with_pid s pid ?ys")
    case None
    have "task_stop L pid s = Some (Returned (sti s1) (-1))"
      using pid(1) r(1) tr fp None by (simp add: task_stop_def Let_def)
    moreover have "same_tasks s (sti s1) (set ?ys)" using st1 by (simp add: same_tasks_def)
    ultimately show ?thesis
      unfolding stop_post_def Let_def using None r(2) fr1 c1 mk1 by (simp add: exI [of _ "sti s1"] exI [of _ bs1] mem_kept_def) blast
  next
    case (Some t)
    then have t: "t \<in> set ?ys" "t_pid (tasks s t) = pid"
      using find_in_set [of "\<lambda>t. t_pid (tasks s t) = pid" ?ys t] by (simp_all add: with_pid_def)
    then have t0: "t \<noteq> NULL" "t \<noteq> l_init_task L" using nn pid by auto
    show ?thesis
    proof (cases "t = current s")
      case True
      have tc: "t = current s1" using True c1 by simp
      obtain s2 rc where s2: "unlink_from_ring L t (add_to_zombie_list t (upd_task t (\<lambda>x. x\<lparr>t_state := TASK_ZOMBIE\<rparr>) s1)) = Some (s2, rc)"
          "current s2 = t" "sched_inv L s2 (filter (\<lambda>x. x \<noteq> t) ?ys) [t] bs1 ubs1" "t_state (tasks s2 t) = TASK_ZOMBIE"
          "same_tasks s1 s2 (- {t})" "t_pid (tasks s2 t) = t_pid (tasks s1 t)" "ram s2 = ram s1"
          "t_kstack (tasks s2 t) = t_kstack (tasks s1 t)"
        by (rule stop_self_ok [OF r(2) t(1) t0(2) tc])
      have "task_stop L pid s = Some (Halted (sti s2))"
        using pid(1) r(1) tr fp Some t0(1) tc s2(1) by (simp add: task_stop_def Let_def)
      moreover have "same_tasks s (sti s2) (set ?ys - {t})" "t_pid (tasks s2 t) = pid" "t_kstack (tasks s2 t) = t_kstack (tasks s t)"
        using same_tasks_trans [OF st1 s2(5), of "set ?ys - {t}"] s2(6,8) st1 t by (auto simp: same_tasks_def)
      ultimately show ?thesis
        unfolding stop_post_def Let_def using Some True s2(2,3,4,7) fr1 mk1
        by (intro exI [of _ "Halted (sti s2)"] conjI) (simp_all add: mem_kept_def, blast)
    next
      case False
      then have tc: "t \<noteq> current s1" using c1 by simp
      obtain s2 bs2 ubs2 rc where s2: "unlink_from_ring L t s1 = Some (s2, rc)"
          "sched_inv L (free_task_resources L t (sti s2)) (filter (\<lambda>x. x \<noteq> t) ?ys) [] bs2 ubs2"
          "freed s1 {t} bs1 ubs1 bs2 ubs2" "current (free_task_resources L t (sti s2)) = current s1"
          "same_tasks s1 (free_task_resources L t (sti s2)) (- {t})" "mem_kept L s1 (free_task_resources L t (sti s2)) bs2"
        by (rule remove_task_ok [OF r(2) t(1) t0(2) tc cs1])
      let ?s3 = "free_task_resources L t (sti s2)"
      have "cur_safe ?s3 (filter (\<lambda>x. x \<noteq> t) ?ys) []" using cs1 s2(4) tc by (auto simp: cur_safe_def)
      then obtain s4 bs4 ubs4 where s4: "reap_zombies_internal L ?s3 = Some s4"
          "sched_inv L s4 (survivors [] (filter (\<lambda>x. x \<noteq> t) ?ys)) [] bs4 ubs4" "current s4 = current ?s3"
          "freed ?s3 (set []) bs2 ubs2 bs4 ubs4" "same_tasks ?s3 s4 (- set [])" "mem_kept L ?s3 s4 bs4"
        by (rule reap_ok [OF s2(2)])
      have "task_stop L pid s = Some (Returned s4 0)"
        using pid(1) r(1) tr fp Some t0(1) tc s2(1) s4(1) by (simp add: task_stop_def Let_def)
      moreover have "same_tasks s s4 (set ?ys - {t})"
        using same_tasks_trans [OF same_tasks_trans [OF st1 s2(5), of "set ?ys - {t}"] s4(5), of "set ?ys - {t}"] by auto
      moreover have "freed s (set zs \<union> {t}) bs ubs bs4 ubs4"
      proof -
        obtain n where "tasks s1 t = (tasks s t)\<lparr>t_next := n\<rparr>" using r(8) [of t] t(1) by auto
        then have "freed s (set zs \<union> {t}) bs ubs bs2 ubs2" by (intro freed_trans [OF fr1 s2(3)]) auto
        then show ?thesis using s4(4) by (simp add: freed_def live_without_def)
      qed
      moreover have "mem_kept L s s4 bs4"
        using s2(3) s4(4) by (intro mem_kept_trans [OF mem_kept_trans [OF mk1 s2(6)] s4(6)]) (auto simp: freed_def live_without_def)
      ultimately show ?thesis
        unfolding stop_post_def Let_def using Some False s4(2,3) s2(4) c1
        by (intro exI [of _ "Returned s4 0"] conjI) (simp_all, blast)
    qed
  qed
qed

lemma task_list_ok:
  assumes "ring (tasks s) (task_ring s) xs"
  shows "task_list mx s = Some (sti (cli s),
    take (nat (sint (ucast mx :: i32))) (map (\<lambda>x. (t_pid (tasks s x), t_state (tasks s x))) xs))"
proof -
  obtain h ys where w: "xs = h # ys" "path (tasks s) h (h # ys) h" "h \<notin> set ys" "t_next (tasks s (task_ring s)) = h"
    by (rule ring_walk [OF assms])
  have "task_ring s \<noteq> NULL" using ring_tail_in [OF assms] assms by (auto simp: ring_def)
  then show ?thesis using list_loop_path [OF w(2,3), of _ 0 "[]"] w(1,4) by (simp add: task_list_def Let_def)
qed

lemma task_is_alive_ok:
  assumes inv: "sched_inv L s xs zs bs ubs" and cur: "cur_safe s xs zs" and pid: "0 < sint pid"
  shows "\<exists>s' bs' ubs'. task_is_alive L pid s =
    Some (s', \<exists>t. with_pid s pid (survivors zs xs) = Some t \<and> t_state (tasks s t) \<noteq> TASK_ZOMBIE) \<and>
    sched_inv L s' (survivors zs xs) [] bs' ubs' \<and> current s' = current s \<and> if_flag s' \<and>
    same_tasks s s' (set (survivors zs xs)) \<and> freed s (set zs) bs ubs bs' ubs' \<and> mem_kept L s s' bs'"
proof -
  let ?ys = "survivors zs xs"
  have "sched_inv L (cli s) xs zs bs ubs" "cur_safe (cli s) xs zs" using inv cur by (simp_all add: cur_safe_def)
  then obtain s1 bs1 ubs1 where r: "reap_zombies_internal L (cli s) = Some s1" "sched_inv L s1 ?ys [] bs1 ubs1"
      "zombie_list s1 = NULL" "if_flag s1" "current s1 = current (cli s)" "next_pid s1 = next_pid (cli s)"
      "freed (cli s) (set zs) bs ubs bs1 ubs1"
      "\<And>x. x \<notin> set zs \<Longrightarrow> \<exists>n. tasks s1 x = (tasks (cli s) x)\<lparr>t_next := n\<rparr>" "same_tasks (cli s) s1 (- set zs)"
      "mem_kept L (cli s) s1 bs1"
    by (rule reap_ok) blast
  have st1: "same_tasks s s1 (set ?ys)" using r(9) by (auto simp: same_tasks_def)
  have ring: "ring (tasks s1) (task_ring s1) ?ys" using r(2) by (simp add: sched_inv_def sched_ok_def)
  then have tr: "task_ring s1 \<noteq> NULL" and nn: "NULL \<notin> set ?ys" using ring_tail_in [OF ring] by (auto simp: ring_def)
  let ?h = "t_next (tasks s1 (task_ring s1))"
  have fp: "find_pid (tasks s1) ?h ?h pid = Some (case with_pid s pid ?ys of None \<Rightarrow> NULL | Some t \<Rightarrow> t)"
    using find_pid_ok [OF ring, of pid] with_pid_same [OF st1, of ?ys pid] by (simp add: with_pid_def)
  have "t_state (tasks s1 t) = t_state (tasks s t) \<and> t \<noteq> NULL" if "with_pid s pid ?ys = Some t" for t
  proof -
    have "t \<in> set ?ys" using find_in_set [OF that [unfolded with_pid_def]] by blast
    then show ?thesis using st1 nn unfolding same_tasks_def by metis
  qed
  then have "task_is_alive L pid s = Some (sti (cli s1),
      \<exists>t. with_pid s pid ?ys = Some t \<and> t_state (tasks s t) \<noteq> TASK_ZOMBIE)"
    using pid r(1) tr fp by (cases "with_pid s pid ?ys") (simp_all add: task_is_alive_def Let_def)
  moreover have "same_tasks s (sti (cli s1)) (set ?ys)" using st1 by (simp add: same_tasks_def)
  moreover have "freed s (set zs) bs ubs bs1 ubs1" "mem_kept L s (sti (cli s1)) bs1"
    using r(7,10) by (simp_all add: freed_def mem_kept_def)
  ultimately show ?thesis using r(2,5) by (intro exI [of _ "sti (cli s1)"] exI [of _ bs1] exI [of _ ubs1] conjI) simp_all
qed

section \<open>The life of tasks\<close>

definition u_malloc :: "layout \<Rightarrow> u64 \<Rightarrow> sched \<Rightarrow> (sched \<times> ptr) option" where
  "u_malloc L n s = map_option (\<lambda>((u, m), p). (s\<lparr>user_heap := u, ram := m\<rparr>, p))
     (user_malloc (l_user_start L) (l_user_end L) n (user_heap s, ram s))"

text \<open>
  What can happen to the scheduler.  A timer interrupt comes at any time; the other
  operations are calls of the running task, which has not ended (a task that has ended
  only waits for the next interrupt).  \<open>spawn\<close> is the sequence of \<open>load_and_run_program\<close>:
  user memory is requested and filled, then the task is created.
\<close>

definition caller_alive :: "sched \<Rightarrow> bool" where
  "caller_alive s \<longleftrightarrow> current s = NULL \<or> runnable (tasks s (current s))"

inductive life :: "layout \<Rightarrow> sched \<Rightarrow> sched \<Rightarrow> bool" for L where
  tick: "schedule_from_isr L regs s = Some (s', frame) \<Longrightarrow> life L s s'"
| create: "room_for_task L n s \<Longrightarrow> unat (next_pid s) + 1 < 2 ^ 31 \<Longrightarrow> task_create L entry n s = Some s' \<Longrightarrow> life L s s'"
| spawn: "u_malloc L k s = Some (s1, um) \<Longrightarrow> um \<noteq> NULL \<Longrightarrow> unat k + 7 < 2 ^ 64 \<Longrightarrow>
    (\<And>x. \<not> in_range x um (unat k) \<Longrightarrow> m x = ram s1 x) \<Longrightarrow>
    room_for_task L n (s1\<lparr>ram := m\<rparr>) \<Longrightarrow> unat (next_pid s) + 1 < 2 ^ 31 \<Longrightarrow>
    utask_create L entry n um sz (s1\<lparr>ram := m\<rparr>) = Some (s', pid) \<Longrightarrow> life L s s'"
| exit: "caller_alive s \<Longrightarrow> task_exit L code s = Some s' \<Longrightarrow> life L s s'"
| stop: "caller_alive s \<Longrightarrow> task_stop L pid s = Some (Returned s' rc) \<Longrightarrow> life L s s'"
| stop_self: "caller_alive s \<Longrightarrow> task_stop L pid s = Some (Halted s') \<Longrightarrow> life L s s'"
| reap: "caller_alive s \<Longrightarrow> reap_zombies L s = Some s' \<Longrightarrow> life L s s'"
| alive: "caller_alive s \<Longrightarrow> 0 < sint pid \<Longrightarrow> task_is_alive L pid s = Some (s', b) \<Longrightarrow> life L s s'"

inductive lives :: "layout \<Rightarrow> sched \<Rightarrow> bool" for L where
  start: "layout_ok L \<Longrightarrow> user_head (user_heap s) = NULL \<Longrightarrow> zombie_list s = NULL \<Longrightarrow> lives L (boot L s)"
| step: "lives L s \<Longrightarrow> life L s s' \<Longrightarrow> lives L s'"

text \<open>
  The bookkeeping of reachable states: exactly the tasks that have not ended can run, the
  current task is known, and pids are different and below the next one.
\<close>

definition book :: "layout \<Rightarrow> sched \<Rightarrow> ptr list \<Rightarrow> ptr list \<Rightarrow> bool" where
  "book L s xs zs \<longleftrightarrow>
     (\<forall>x \<in> set xs \<union> set zs. runnable (tasks s x) \<longleftrightarrow> x \<notin> set zs) \<and>
     (current s \<noteq> NULL \<longrightarrow> current s \<in> set xs \<union> set zs) \<and>
     t_pid (tasks s (l_init_task L)) = 0 \<and> unat (next_pid s) < 2 ^ 31 \<and>
     inj_on (\<lambda>x. t_pid (tasks s x)) (set xs \<union> set zs) \<and>
     (\<forall>x \<in> set xs \<union> set zs. unat (t_pid (tasks s x)) < unat (next_pid s))"

definition life_inv :: "layout \<Rightarrow> sched \<Rightarrow> ptr list \<Rightarrow> ptr list \<Rightarrow> blk list \<Rightarrow> blk list \<Rightarrow> bool" where
  "life_inv L s xs zs bs ubs \<longleftrightarrow> sched_inv L s xs zs bs ubs \<and> book L s xs zs"

lemma life_cur_safe: "life_inv L s xs zs bs ubs \<Longrightarrow> caller_alive s \<Longrightarrow> cur_safe s xs zs"
  by (auto simp: life_inv_def book_def caller_alive_def cur_safe_def)

lemma life_init:
  assumes "life_inv L s xs zs bs ubs"
  shows "l_init_task L \<in> set xs" "l_init_task L \<notin> set zs" "t_pid (tasks s (l_init_task L)) = 0" "NULL \<notin> set xs"
  using assms by (auto simp: life_inv_def sched_inv_def sched_ok_def book_def ring_def)

text \<open>Tasks only leave, and those that stay keep their pids.\<close>

lemma book_shrink:
  assumes b: "book L s xs zs" and sub: "set xs' \<union> set zs' \<subseteq> set xs \<union> set zs" and i: "l_init_task L \<in> set xs'"
    and pid: "\<And>x. x \<in> set xs' \<union> set zs' \<Longrightarrow> t_pid (tasks s' x) = t_pid (tasks s x)" "next_pid s' = next_pid s"
    and run: "\<And>x. x \<in> set xs' \<union> set zs' \<Longrightarrow> runnable (tasks s' x) \<longleftrightarrow> x \<notin> set zs'"
    and cur: "current s' \<noteq> NULL \<Longrightarrow> current s' \<in> set xs' \<union> set zs'"
  shows "book L s' xs' zs'"
proof -
  have p: "inj_on (\<lambda>x. t_pid (tasks s x)) (set xs \<union> set zs)" "t_pid (tasks s (l_init_task L)) = 0"
    "unat (next_pid s) < 2 ^ 31" "\<And>x. x \<in> set xs \<union> set zs \<Longrightarrow> unat (t_pid (tasks s x)) < unat (next_pid s)"
    using b by (simp_all add: book_def)
  have "inj_on (\<lambda>x. t_pid (tasks s' x)) (set xs' \<union> set zs') \<longleftrightarrow> inj_on (\<lambda>x. t_pid (tasks s x)) (set xs' \<union> set zs')"
    by (rule inj_on_cong) (rule pid(1))
  then have inj: "inj_on (\<lambda>x. t_pid (tasks s' x)) (set xs' \<union> set zs')" using inj_on_subset [OF p(1) sub] by simp
  have "l_init_task L \<in> set xs' \<union> set zs'" using i by simp
  then have i0: "t_pid (tasks s' (l_init_task L)) = 0" using pid(1) p(2) by simp
  have lt: "unat (t_pid (tasks s' x)) < unat (next_pid s')" if "x \<in> set xs' \<union> set zs'" for x
    using p(4) [OF subsetD [OF sub that]] pid(1) [OF that] pid(2) by simp
  show ?thesis
    unfolding book_def using inj i0 lt run cur p(3) pid(2) by simp
qed

lemma same_tasks_runnable: "same_tasks s s' X \<Longrightarrow> x \<in> X \<Longrightarrow> runnable (tasks s' x) = runnable (tasks s x)"
  by (simp add: same_tasks_def runnable_def)

lemma life_tick:
  assumes l: "life_inv L s xs zs bs ubs" and t: "schedule_from_isr L regs s = Some (s', frame)"
  shows "life_inv L s' xs zs bs ubs"
proof -
  have inv: "sched_inv L s xs zs bs ubs" and b: "book L s xs zs" using l by (simp_all add: life_inv_def)
  note ti = tick_inv [OF inv t]
  have tp: "find (\<lambda>t. runnable (tasks s t)) (rot (t_next (tasks s (running L s))) xs) = Some (current s')"
    "\<And>x. runnable (tasks s' x) = runnable (tasks s x)" "\<And>x. t_pid (tasks s' x) = t_pid (tasks s x)"
    using ti(2) by (simp_all add: tick_post_def)
  have "current s' \<in> set xs" using find_in_set [OF tp(1)] by simp
  then have "book L s' xs zs"
    using schedule_frame(5) [OF t] tp(2,3) life_init(1) [OF l] b
    by (intro book_shrink [OF b]) (simp_all add: book_def)
  then show ?thesis using ti(1) by (simp add: life_inv_def)
qed

lemma life_new:
  assumes l: "life_inv L s xs zs bs ubs" and r: "room_for_task L n s" and np: "unat (next_pid s) + 1 < 2 ^ 31"
    and um: "um = NULL \<or> um \<in> fst ` live ubs \<and>
      (\<forall>x \<in> (set xs \<union> set zs) - {l_init_task L}. t_user_mem (tasks s x) \<noteq> um)"
  shows "\<exists>s' t bs'. new_task L entry n um usz s = Some (s', t) \<and> life_inv L s' (xs @ [t]) zs bs' ubs \<and>
    created s s' t entry (stack_of n) um usz bs bs'"
proof -
  have inv: "sched_inv L s xs zs bs ubs" and b: "book L s xs zs" using l by (simp_all add: life_inv_def)
  obtain s' t bs' where n: "new_task L entry n um usz s = Some (s', t)" "sched_inv L s' (xs @ [t]) zs bs' ubs"
      "created s s' t entry (stack_of n) um usz bs bs'"
    using new_task_room [OF inv r um] by blast
  have c: "t_pid (tasks s' t) = next_pid s" "next_pid s' = next_pid s + 1" "t_state (tasks s' t) = TASK_READY"
      "t \<notin> fst ` live bs" "current s' = current s" "\<And>x. x \<noteq> t \<Longrightarrow> \<exists>nx. tasks s' x = (tasks s x)\<lparr>t_next := nx\<rparr>"
    using n(3) unfolding created_def Let_def by blast+
  have "ring (tasks s') (task_ring s') (xs @ [t])" using n(2) by (simp add: sched_inv_def sched_ok_def)
  then have "t \<notin> set xs" by (auto simp: ring_def)
  moreover have "t \<notin> set zs - {l_init_task L}" using inv c(4) by (auto simp: sched_inv_def task_mem_def)
  moreover have "l_init_task L \<notin> set zs" by (rule life_init(2) [OF l])
  ultimately have nin: "t \<notin> set xs \<union> set zs" by auto
  let ?T = "set xs \<union> set zs"
  have old: "t_pid (tasks s' x) = t_pid (tasks s x)" "runnable (tasks s' x) = runnable (tasks s x)" if "x \<in> ?T" for x
  proof -
    have "x \<noteq> t" using that nin by blast
    from c(6) [OF this] show "t_pid (tasks s' x) = t_pid (tasks s x)" "runnable (tasks s' x) = runnable (tasks s x)"
      by (auto simp: runnable_def)
  qed
  have p: "inj_on (\<lambda>x. t_pid (tasks s x)) ?T" "t_pid (tasks s (l_init_task L)) = 0"
    "\<And>x. x \<in> ?T \<Longrightarrow> unat (t_pid (tasks s x)) < unat (next_pid s)" "\<And>x. x \<in> ?T \<Longrightarrow> runnable (tasks s x) \<longleftrightarrow> x \<notin> set zs"
    "current s \<noteq> NULL \<Longrightarrow> current s \<in> ?T"
    using b by (simp_all add: book_def)
  have up: "unat (next_pid s') = unat (next_pid s) + 1"
    unfolding c(2) using np unat_add_small [of "next_pid s" 1] by simp
  have iT: "l_init_task L \<in> ?T" using life_init(1) [OF l] by simp
  have "inj_on (\<lambda>x. t_pid (tasks s' x)) ?T \<longleftrightarrow> inj_on (\<lambda>x. t_pid (tasks s x)) ?T" by (rule inj_on_cong) (rule old(1))
  moreover have "next_pid s \<notin> (\<lambda>x. t_pid (tasks s' x)) ` (?T - {t})"
  proof
    assume "next_pid s \<in> (\<lambda>x. t_pid (tasks s' x)) ` (?T - {t})"
    then obtain x where "next_pid s = t_pid (tasks s' x)" "x \<in> ?T - {t}" by (rule imageE)
    then show False using p(3) [of x] old(1) [of x] by simp
  qed
  ultimately have inj: "inj_on (\<lambda>x. t_pid (tasks s' x)) (insert t ?T)" using p(1) c(1) by (simp add: inj_on_insert)
  have lt: "unat (t_pid (tasks s' x)) < unat (next_pid s')" if "x \<in> insert t ?T" for x
    using that p(3) [of x] old(1) [of x] c(1) up by auto
  have run: "runnable (tasks s' x) \<longleftrightarrow> x \<notin> set zs" if "x \<in> insert t ?T" for x
    using that p(4) [of x] old(2) [of x] c(3) nin by (cases "x = t") (auto simp: runnable_def)
  have "set (xs @ [t]) \<union> set zs = insert t ?T" by auto
  then have "book L s' (xs @ [t]) zs"
    unfolding book_def using inj lt run old(1) [OF iT] p(2,5) c(5) up np by simp
  then show ?thesis using n by (auto simp: life_inv_def)
qed

lemma life_reap:
  assumes l: "life_inv L s xs zs bs ubs" and c: "caller_alive s"
  shows "\<exists>s' bs' ubs'. reap_zombies_internal L s = Some s' \<and> life_inv L s' (survivors zs xs) [] bs' ubs' \<and>
    freed s (set zs) bs ubs bs' ubs' \<and> current s' = current s \<and> if_flag s' \<and> zombie_list s' = NULL \<and>
    same_tasks s s' (- set zs) \<and> mem_kept L s s' bs'"
proof -
  have inv: "sched_inv L s xs zs bs ubs" and b: "book L s xs zs" using l by (simp_all add: life_inv_def)
  note cs = life_cur_safe [OF l c]
  obtain s' bs' ubs' where r: "reap_zombies_internal L s = Some s'" "sched_inv L s' (survivors zs xs) [] bs' ubs'"
    "zombie_list s' = NULL" "if_flag s'" "current s' = current s" "freed s (set zs) bs ubs bs' ubs'"
    "same_tasks s s' (- set zs)" "mem_kept L s s' bs'" by (rule reap_ok [OF inv cs])
  have "book L s' (survivors zs xs) []"
    using r(5,7) b cs life_init(1,2) [OF l]
    by (intro book_shrink [OF b]) (auto simp: same_tasks_def cur_safe_def book_def runnable_def)
  then show ?thesis using r by (auto simp: life_inv_def)
qed

lemma life_exit:
  assumes l: "life_inv L s xs zs bs ubs" and c: "caller_alive s" "current s \<noteq> NULL" "current s \<noteq> l_init_task L"
  shows "\<exists>s' bs' ubs'. task_exit L code s = Some s' \<and> life_inv L s' (survivors zs xs) [current s] bs' ubs' \<and>
    freed s (set zs) bs ubs bs' ubs' \<and> t_exit_code (tasks s' (current s)) = code \<and> if_flag s' \<and> current s' = current s \<and>
    t_kstack (tasks s' (current s)) = t_kstack (tasks s (current s)) \<and>
    t_user_mem (tasks s' (current s)) = t_user_mem (tasks s (current s)) \<and>
    same_tasks s s' (- insert (current s) (set zs)) \<and> mem_kept L s s' bs'"
proof -
  have inv: "sched_inv L s xs zs bs ubs" and b: "book L s xs zs" using l by (simp_all add: life_inv_def)
  note cs = life_cur_safe [OF l c(1)]
  obtain s' bs' ubs' where r: "task_exit L code s = Some s'" "sched_inv L s' (survivors zs xs) [current s] bs' ubs'"
    "if_flag s'" "current s' = current s" "t_state (tasks s' (current s)) = TASK_ZOMBIE"
    "t_exit_code (tasks s' (current s)) = code" "freed s (set zs) bs ubs bs' ubs'"
    "same_tasks s s' (- insert (current s) (set zs))" "t_pid (tasks s' (current s)) = t_pid (tasks s (current s))"
    "t_kstack (tasks s' (current s)) = t_kstack (tasks s (current s))"
    "t_user_mem (tasks s' (current s)) = t_user_mem (tasks s (current s))" "mem_kept L s s' bs'"
    using task_exit_ok [OF inv cs c(3,2)] by blast
  have "book L s' (survivors zs xs) [current s]"
  proof (rule book_shrink [OF b])
    show "set (survivors zs xs) \<union> set [current s] \<subseteq> set xs \<union> set zs"
      "l_init_task L \<in> set (survivors zs xs)" "next_pid s' = next_pid s"
      "current s' \<in> set (survivors zs xs) \<union> set [current s]"
      using cs c(2) life_init(1,2) [OF l] r(4,8) by (auto simp: cur_safe_def same_tasks_def)
    fix x assume x: "x \<in> set (survivors zs xs) \<union> set [current s]"
    show "t_pid (tasks s' x) = t_pid (tasks s x)"
      using x r(8,9) by (cases "x = current s") (auto simp: same_tasks_def)
    show "runnable (tasks s' x) \<longleftrightarrow> x \<notin> set [current s]"
      using x r(5,8) b by (cases "x = current s") (auto simp: same_tasks_def runnable_def book_def)
  qed
  then show ?thesis using r by (auto simp: life_inv_def)
qed

text \<open>The state in which \<open>task_stop\<close> returns or halts.\<close>

fun stop_state :: "stop_result \<Rightarrow> sched" where
  "stop_state (Returned s rc) = s"
| "stop_state (Halted s) = s"

lemma life_stop:
  assumes l: "life_inv L s xs zs bs ubs" and c: "caller_alive s" and pid: "pid \<noteq> 0"
  shows "\<exists>r xs' zs' bs' ubs'. task_stop L pid s = Some r \<and> stop_post L s xs zs bs ubs pid r \<and>
    life_inv L (stop_state r) xs' zs' bs' ubs'"
proof -
  let ?ys = "survivors zs xs"
  have inv: "sched_inv L s xs zs bs ubs" and b: "book L s xs zs" using l by (simp_all add: life_inv_def)
  note cs = life_cur_safe [OF l c]
  obtain r where r: "task_stop L pid s = Some r" "stop_post L s xs zs bs ubs pid r"
    using task_stop_ok [OF inv cs pid life_init(3) [OF l]] by blast
  have run: "runnable (tasks s x)" if "x \<in> set ?ys" for x using b that by (simp add: book_def)
  have i: "l_init_task L \<in> set ?ys" using life_init(1,2) [OF l] by simp
  have "\<exists>xs' zs' bs' ubs'. life_inv L (stop_state r) xs' zs' bs' ubs'"
  proof (cases "with_pid s pid ?ys")
    case None
    then obtain s' bs' ubs' where s': "r = Returned s' (-1)" "sched_inv L s' ?ys [] bs' ubs'" "current s' = current s"
        "same_tasks s s' (set ?ys)" using r(2) by (auto simp: stop_post_def Let_def)
    have "book L s' ?ys []"
      using s'(3,4) cs run i
      by (intro book_shrink [OF b]) (auto simp: same_tasks_def cur_safe_def runnable_def)
    then show ?thesis using s'(1,2) by (auto simp: life_inv_def)
  next
    case (Some t)
    have t: "t \<in> set ?ys" "t_pid (tasks s t) = pid"
      using find_in_set [OF Some [unfolded with_pid_def]] by simp_all
    have ti: "t \<noteq> l_init_task L" using t(2) pid life_init(3) [OF l] by auto
    let ?zs = "filter (\<lambda>x. x \<noteq> t) ?ys"
    show ?thesis
    proof (cases "t = current s")
      case True
      then obtain s' bs' ubs' where s': "r = Halted s'" "sched_inv L s' ?zs [t] bs' ubs'" "current s' = t"
          "t_state (tasks s' t) = TASK_ZOMBIE" "same_tasks s s' (set ?ys - {t})" "t_pid (tasks s' t) = pid"
        using r(2) Some by (auto simp: stop_post_def Let_def)
      have "book L s' ?zs [t]"
      proof (rule book_shrink [OF b])
        show "set ?zs \<union> set [t] \<subseteq> set xs \<union> set zs" "l_init_task L \<in> set ?zs" "next_pid s' = next_pid s"
          "current s' \<in> set ?zs \<union> set [t]" using s'(3,5) t(1) i ti by (auto simp: same_tasks_def)
        fix x assume x: "x \<in> set ?zs \<union> set [t]"
        show "t_pid (tasks s' x) = t_pid (tasks s x)"
          using x s'(5,6) t(2) by (cases "x = t") (auto simp: same_tasks_def)
        show "runnable (tasks s' x) \<longleftrightarrow> x \<notin> set [t]"
          using x s'(4) same_tasks_runnable [OF s'(5), of x] run [of x]
          by (cases "x = t") (auto simp: runnable_def)
      qed
      then show ?thesis using s'(1,2) by (auto simp: life_inv_def)
    next
      case False
      then obtain s' bs' ubs' where s': "r = Returned s' 0" "sched_inv L s' ?zs [] bs' ubs'" "current s' = current s"
          "same_tasks s s' (set ?ys - {t})"
        using r(2) Some by (auto simp: stop_post_def Let_def)
      have "book L s' ?zs []"
        using s'(3,4) run i ti cs False
        by (intro book_shrink [OF b]) (auto simp: same_tasks_def runnable_def cur_safe_def)
      then show ?thesis using s'(1,2) by (auto simp: life_inv_def)
    qed
  qed
  then show ?thesis using r by blast
qed

lemma life_alive:
  assumes l: "life_inv L s xs zs bs ubs" and c: "caller_alive s" and pid: "0 < sint pid"
  shows "\<exists>s' bs' ubs'. task_is_alive L pid s = Some (s', with_pid s pid (survivors zs xs) \<noteq> None) \<and>
    life_inv L s' (survivors zs xs) [] bs' ubs' \<and> current s' = current s \<and>
    same_tasks s s' (set (survivors zs xs)) \<and> freed s (set zs) bs ubs bs' ubs' \<and> mem_kept L s s' bs'"
proof -
  let ?ys = "survivors zs xs"
  have inv: "sched_inv L s xs zs bs ubs" and b: "book L s xs zs" using l by (simp_all add: life_inv_def)
  note cs = life_cur_safe [OF l c]
  have run: "runnable (tasks s x)" if "x \<in> set ?ys" for x using b that by (simp add: book_def)
  obtain s' bs' ubs' where s': "task_is_alive L pid s =
      Some (s', \<exists>t. with_pid s pid ?ys = Some t \<and> t_state (tasks s t) \<noteq> TASK_ZOMBIE)"
      "sched_inv L s' ?ys [] bs' ubs'" "current s' = current s" "same_tasks s s' (set ?ys)"
      "freed s (set zs) bs ubs bs' ubs'" "mem_kept L s s' bs'"
    using task_is_alive_ok [OF inv cs pid] by blast
  have "t_state (tasks s t) \<noteq> TASK_ZOMBIE" if "with_pid s pid ?ys = Some t" for t
    using run [of t] find_in_set [OF that [unfolded with_pid_def]] by (auto simp: runnable_def)
  then have "(\<exists>t. with_pid s pid ?ys = Some t \<and> t_state (tasks s t) \<noteq> TASK_ZOMBIE) = (with_pid s pid ?ys \<noteq> None)"
    by auto
  moreover have "book L s' ?ys []"
    using s'(3,4) cs run life_init(1,2) [OF l]
    by (intro book_shrink [OF b]) (auto simp: same_tasks_def cur_safe_def runnable_def)
  ultimately show ?thesis using s' by (auto simp: life_inv_def)
qed

text \<open>User memory for a program: requested and written to before the task exists.\<close>

lemma u_malloc_ok:
  assumes h: "heaps_ok L s bs ubs" and n: "unat n + 7 < 2 ^ 64"
    and a: "u_malloc L n s = Some (s1, um)" "um \<noteq> NULL"
  shows "\<exists>ubs' k. heaps_ok L s1 bs ubs' \<and> live ubs' = insert (um, k) (live ubs) \<and> unat n \<le> k \<and> um \<notin> fst ` live ubs"
    "\<exists>u m. s1 = s\<lparr>user_heap := u, ram := m\<rparr>"
proof -
  let ?st = "(user_heap s, ram s)" and ?ubs = "fst (a_malloc n ubs)"
  have u: "urep (l_user_start L) (l_user_end L) ?st ubs" using h by (simp add: heaps_ok_def)
  have adm: "u_admissible ubs n" using n by (simp add: u_admissible_def)
  obtain uh m where al: "user_malloc (l_user_start L) (l_user_end L) n ?st = Some ((uh, m), um)"
      and s1: "s1 = s\<lparr>user_heap := uh, ram := m\<rparr>"
    using a(1) by (auto simp: u_malloc_def)
  then show "\<exists>u m. s1 = s\<lparr>user_heap := u, ram := m\<rparr>" by blast
  obtain k where k: "urep (l_user_start L) (l_user_end L) (uh, m) ?ubs" "live ?ubs = insert (um, k) (live ubs)"
      "unat n \<le> k" "um \<notin> fst ` live ubs"
    using um.alloc_fresh [OF u adm al a(2)] by blast
  have oh: "only_hdrs (ram s) m (fst ` set ?ubs)"
    using user_malloc_refines [OF u, of n] al by auto
  have ti: "tiles (unat (l_user_start L)) ?ubs (unat (l_user_end L))"
    using k(1) by (simp add: urep_def heap_wf_def)
  have "heap_wf m KERNEL_MAGIC (unat (l_heap_start L)) bs (unat (l_heap_end L))"
  proof (rule heap_wf_region)
    show "heap_wf (ram s) KERNEL_MAGIC (unat (l_heap_start L)) bs (unat (l_heap_end L))"
      using h by (simp add: heaps_ok_def krep_def)
    fix x :: ptr assume x: "unat (l_heap_start L) \<le> unat x" "unat x < unat (l_heap_end L)"
    have "unat (l_heap_end L) \<le> unat (l_user_start L) \<or> unat (l_user_end L) \<le> unat (l_heap_start L)"
      using h by (simp add: heaps_ok_def)
    then show "m x = ram s x" using only_hdrs_region [OF oh ti, of x] x by (meson le_trans less_le_trans)
  qed
  then have "heaps_ok L s1 bs ?ubs" using h k(1) by (simp add: s1 heaps_ok_def krep_def)
  then show "\<exists>ubs' k. heaps_ok L s1 bs ubs' \<and> live ubs' = insert (um, k) (live ubs) \<and> unat n \<le> k \<and> um \<notin> fst ` live ubs"
    using k by blast
qed

lemma heaps_ok_user_payload:
  assumes h: "heaps_ok L s bs ubs" and lv: "(p, k) \<in> live ubs"
    and same: "\<And>x. \<not> in_range x p k \<Longrightarrow> m x = ram s x"
  shows "heaps_ok L (s\<lparr>ram := m\<rparr>) bs ubs"
proof -
  have wf: "heap_wf (ram s) USER_MAGIC (unat (l_user_start L)) ubs (unat (l_user_end L))"
    using h by (simp add: heaps_ok_def urep_def)
  have ap: "unat (l_heap_end L) \<le> unat (l_user_start L) \<or> unat (l_user_end L) \<le> unat (l_heap_start L)"
    using h by (simp add: heaps_ok_def)
  have "heap_wf m KERNEL_MAGIC (unat (l_heap_start L)) bs (unat (l_heap_end L))"
  proof (rule heap_wf_region)
    show "heap_wf (ram s) KERNEL_MAGIC (unat (l_heap_start L)) bs (unat (l_heap_end L))"
      using h by (simp add: heaps_ok_def krep_def)
    fix x :: ptr assume "unat (l_heap_start L) \<le> unat x" "unat x < unat (l_heap_end L)"
    then have "\<not> in_range x p k" using ap live_bounds(1,2) [OF wf lv] by (auto simp: in_range_def)
    then show "m x = ram s x" by (rule same)
  qed
  then show ?thesis
    using h payload_change(1) [OF wf lv same] by (simp add: heaps_ok_def krep_def urep_def)
qed

lemma life_heaps:
  assumes l: "life_inv L s xs zs bs ubs" and s': "s' = s\<lparr>user_heap := u, ram := m\<rparr>"
    and h: "heaps_ok L s' bs ubs'" and sub: "live ubs \<subseteq> live ubs'"
  shows "life_inv L s' xs zs bs ubs'"
proof -
  let ?T = "(set xs \<union> set zs) - {l_init_task L}"
  have tm: "task_mem s ?T bs ubs" using l by (simp add: life_inv_def sched_inv_def)
  have "t_user_mem (tasks s t) \<in> fst ` live ubs'" if "t \<in> ?T" "t_user_mem (tasks s t) \<noteq> NULL" for t
    using tm that image_mono [OF sub, of fst] unfolding task_mem_def by blast
  then have "task_mem s' ?T bs ubs'" using tm unfolding task_mem_def s' by simp
  then show ?thesis
    using l h unfolding life_inv_def sched_inv_def sched_ok_def book_def by (simp add: s')
qed

lemma user_space_ready:
  assumes l: "life_inv L s xs zs bs ubs" and n: "unat k + 7 < 2 ^ 64"
    and a: "u_malloc L k s = Some (s1, um)" "um \<noteq> NULL"
    and w: "\<And>x. \<not> in_range x um (unat k) \<Longrightarrow> m x = ram s1 x"
  shows "\<exists>ubs' j. life_inv L (s1\<lparr>ram := m\<rparr>) xs zs bs ubs' \<and> live ubs' = insert (um, j) (live ubs) \<and> unat k \<le> j \<and>
    next_pid (s1\<lparr>ram := m\<rparr>) = next_pid s \<and>
    (\<forall>x \<in> (set xs \<union> set zs) - {l_init_task L}. t_user_mem (tasks (s1\<lparr>ram := m\<rparr>) x) \<noteq> um)"
proof -
  have h: "heaps_ok L s bs ubs" using l by (simp add: life_inv_def sched_inv_def)
  obtain ubs' j where u: "heaps_ok L s1 bs ubs'" "live ubs' = insert (um, j) (live ubs)" "unat k \<le> j" "um \<notin> fst ` live ubs"
    using u_malloc_ok(1) [OF h n a] by blast
  obtain u0 m0 where s1: "s1 = s\<lparr>user_heap := u0, ram := m0\<rparr>" using u_malloc_ok(2) [OF h n a] by blast
  have "heaps_ok L (s1\<lparr>ram := m\<rparr>) bs ubs'"
  proof (rule heaps_ok_user_payload [OF u(1)])
    show "(um, j) \<in> live ubs'" using u(2) by simp
    fix x assume "\<not> in_range x um j"
    then show "m x = ram s1 x" using u(3) by (intro w) (auto simp: in_range_def)
  qed
  moreover have "s1\<lparr>ram := m\<rparr> = s\<lparr>user_heap := u0, ram := m\<rparr>" by (simp add: s1)
  ultimately have "life_inv L (s1\<lparr>ram := m\<rparr>) xs zs bs ubs'"
    using u(2) by (intro life_heaps [OF l]) auto
  moreover have "t_user_mem (tasks s x) \<noteq> um" if "x \<in> (set xs \<union> set zs) - {l_init_task L}" for x
    using l that u(4) a(2) unfolding life_inv_def sched_inv_def task_mem_def by metis
  ultimately show ?thesis using u by (intro exI [of _ ubs'] exI [of _ j]) (simp add: s1)
qed

text \<open>Every step keeps the invariant.\<close>

lemma life_step:
  assumes "life L s s'" "life_inv L s xs zs bs ubs"
  shows "\<exists>xs' zs' bs' ubs'. life_inv L s' xs' zs' bs' ubs'"
  using assms
proof (induction rule: life.induct)
  case (tick regs s s' frame)
  then show ?case using life_tick by blast
next
  case (create n s entry s')
  obtain s2 t bs' where n: "new_task L entry n NULL 0 s = Some (s2, t)" "life_inv L s2 (xs @ [t]) zs bs' ubs"
    using life_new [OF create.prems create.hyps(1,2), of NULL entry 0] by auto
  then have "s' = s2" using create.hyps(3) by (simp add: task_create_def)
  then show ?case using n(2) by blast
next
  case (spawn k s s1 um m n entry sz s' pid)
  obtain ubs' j where u: "life_inv L (s1\<lparr>ram := m\<rparr>) xs zs bs ubs'" "live ubs' = insert (um, j) (live ubs)"
      "next_pid (s1\<lparr>ram := m\<rparr>) = next_pid s"
      "\<forall>x \<in> (set xs \<union> set zs) - {l_init_task L}. t_user_mem (tasks (s1\<lparr>ram := m\<rparr>) x) \<noteq> um"
    using user_space_ready [OF spawn.prems spawn.hyps(3,1,2,4)] by blast
  have "um \<in> fst ` live ubs'" using u(2) by simp
  then obtain s2 t bs' where n: "new_task L entry n um sz (s1\<lparr>ram := m\<rparr>) = Some (s2, t)"
      "life_inv L s2 (xs @ [t]) zs bs' ubs'"
    using life_new [OF u(1) spawn.hyps(5), of um entry sz] u(3,4) spawn.hyps(6) by auto
  then have "s' = s2" using spawn.hyps(7) by (auto simp: utask_create_def split: if_splits)
  then show ?case using n(2) by blast
next
  case (exit s code s')
  show ?case
  proof (cases "current s = NULL \<or> current s = l_init_task L")
    case True
    have "life_inv L (cli s) xs zs bs ubs" "caller_alive (cli s)"
      using exit by (simp_all add: life_inv_def book_def caller_alive_def)
    then show ?thesis using life_reap exit.hyps(2) True by (fastforce simp: task_exit_def)
  next
    case False
    then show ?thesis using life_exit [OF exit.prems exit.hyps(1), of code] exit.hyps(2) by auto
  qed
next
  case (stop s pid s' rc)
  then show ?case
    using life_stop [OF stop.prems stop.hyps(1), of pid] by (cases "pid = 0") (auto simp: task_stop_def [of L 0])
next
  case (stop_self s pid s')
  then show ?case
    using life_stop [OF stop_self.prems stop_self.hyps(1), of pid] by (cases "pid = 0") (auto simp: task_stop_def [of L 0])
next
  case (reap s s')
  then show ?case using life_reap by (fastforce simp: reap_zombies_def)
next
  case (alive s pid s' b)
  then show ?case using life_alive [OF alive.prems alive.hyps(1,2)] by auto
qed

lemma lives_inv: "lives L s \<Longrightarrow> \<exists>xs zs bs ubs. life_inv L s xs zs bs ubs"
proof (induction rule: lives.induct)
  case (start s)
  let ?b = "boot L s"
  have "sched_inv L ?b [l_init_task L] [] [(l_heap_start L, l_heap_end L - l_heap_start L - 40, True)]
    [(l_user_start L, l_user_end L - l_user_start L - 40, True)]" using boot_inv [OF start] .
  moreover have "book L ?b [l_init_task L] []"
    by (simp add: book_def boot_def scheduler_init_def upd_task_def zero_task_def runnable_def Let_def case_prod_beta)
  ultimately show ?case unfolding life_inv_def by blast
next
  case (step s s')
  then show ?case using life_step by blast
qed

section \<open>A concrete system\<close>

text \<open>
  Two sections of 4096 bytes and a static init task: after boot, with one task of a stack of
  512 bytes, and after the first tick, when that task runs.
\<close>

definition demo_L :: layout where
  "demo_L = \<lparr>l_heap_start = 0x1000, l_heap_end = 0x2000, l_user_start = 0x3000, l_user_end = 0x4000,
     l_init_task = 0x800, l_init_task_stack = 0x5000\<rparr>"

definition demo_raw :: sched where
  "demo_raw = \<lparr>task_ring = NULL, current = NULL, next_pid = 1, zombie_list = NULL, g_syscall_kstack_top = 0,
     if_flag = False, tasks = \<lambda>_. zero_task,
     kern_heap = \<lparr>heap_head = NULL, heap_tail = NULL, managed_heap_end = NULL, brk_ptr = NULL\<rparr>,
     user_heap = \<lparr>user_head = NULL, user_tail = NULL, user_brk = NULL\<rparr>, ram = \<lambda>_. 0xFF\<rparr>"

definition demo_s0 :: sched where "demo_s0 = boot demo_L demo_raw"

definition demo_s1 :: sched where "demo_s1 = the (task_create demo_L 0x100000 512 demo_s0)"

definition demo_s2 :: sched where "demo_s2 = fst (the (schedule_from_isr demo_L 0x6000 demo_s1))"

lemma demo_layout: "layout_ok demo_L"
  by (simp add: layout_ok_def demo_L_def)

lemma demo_L_simps [simp]:
  "l_heap_start demo_L = 0x1000" "l_heap_end demo_L = 0x2000" "l_user_start demo_L = 0x3000"
  "l_user_end demo_L = 0x4000" "l_init_task demo_L = 0x800"
  by (simp_all add: demo_L_def)

lemma demo_s0_lives: "lives demo_L demo_s0"
  unfolding demo_s0_def by (rule lives.start [OF demo_layout]) (simp_all add: demo_raw_def)

lemma demo_s0_inv: "life_inv demo_L demo_s0 [0x800] [] [(0x1000, 0xFD8, True)] [(0x3000, 0xFD8, True)]"
proof -
  have "sched_inv demo_L demo_s0 [0x800] [] [(0x1000, 0xFD8, True)] [(0x3000, 0xFD8, True)]"
    using boot_inv [OF demo_layout, of demo_raw] by (simp add: demo_s0_def demo_raw_def)
  moreover have "book demo_L demo_s0 [0x800] []"
    by (simp add: book_def demo_s0_def boot_def scheduler_init_def upd_task_def zero_task_def runnable_def Let_def
        case_prod_beta)
  ultimately show ?thesis by (simp add: life_inv_def)
qed

lemma roomI:
  assumes h: "heaps_ok L s bs ubs" and n: "unat n + 7 < 2 ^ 64"
    and f: "find (fits (align_up n)) bs = Some (a, z, g)" "a \<noteq> NULL"
  shows "room n s"
  using find_fit_rep [of "l_heap_start L" "l_heap_end L" "(kern_heap s, ram s)" bs "align_up n"] h n f
  by (simp add: heaps_ok_def room_def)

lemma demo_room: "room_for_task demo_L 512 demo_s0"
proof -
  have h: "heaps_ok demo_L demo_s0 [(0x1000, 0xFD8, True)] [(0x3000, 0xFD8, True)]"
    using demo_s0_inv by (simp add: life_inv_def sched_inv_def)
  have r: "room SIZEOF_TASK demo_s0"
    by (rule roomI [OF h, where a = "0x1000" and z = "0xFD8" and g = True]) (simp_all add: align_up_def)
  have ad: "k_admissible [(0x1000, 0xFD8, True)] SIZEOF_TASK" by (rule room_admissible [OF h r])
  have am: "a_malloc SIZEOF_TASK [(0x1000, 0xFD8, True)] = ([(0x1000, 72, False), (0x1070, 0xF68, True)], 0x1028)"
    by (simp add: a_malloc_def align_up_def cut_def)
  obtain s1 t where m: "k_malloc demo_L SIZEOF_TASK demo_s0 = Some (s1, t)"
      "heaps_ok demo_L s1 [(0x1000, 72, False), (0x1070, 0xF68, True)] [(0x3000, 0xFD8, True)]"
    using k_malloc_ok [OF h _ ad] by (auto simp: am)
  have "room 512 s1"
    by (rule roomI [OF m(2), where a = "0x1070" and z = "0xF68" and g = True]) (simp_all add: align_up_def)
  then show ?thesis using r m(1) by (simp add: room_for_task_def stack_of_def)
qed

lemma demo_np: "next_pid demo_s0 = 1"
  by (simp add: demo_s0_def boot_def scheduler_init_def Let_def case_prod_beta)

lemma demo_s1:
  obtains t bs where "task_create demo_L 0x100000 512 demo_s0 = Some demo_s1" "t \<noteq> 0x800" "t \<noteq> NULL"
    "life_inv demo_L demo_s1 [0x800, t] [] bs [(0x3000, 0xFD8, True)]" "t_pid (tasks demo_s1 t) = 1"
    "current demo_s1 = NULL"
proof -
  obtain s' t bs where n: "new_task demo_L 0x100000 512 NULL 0 demo_s0 = Some (s', t)"
      "life_inv demo_L s' ([0x800] @ [t]) [] bs [(0x3000, 0xFD8, True)]"
      "created demo_s0 s' t 0x100000 (stack_of 512) NULL 0 [(0x1000, 0xFD8, True)] bs"
    using life_new [OF demo_s0_inv demo_room, of NULL "0x100000" 0] by (auto simp: demo_np)
  have "task_create demo_L 0x100000 512 demo_s0 = Some s'" using n(1) by (simp add: task_create_def)
  moreover from this have "s' = demo_s1" by (simp add: demo_s1_def)
  moreover have "t \<noteq> NULL" "t_pid (tasks s' t) = 1" "current s' = current demo_s0"
    using n(3) unfolding created_def Let_def demo_np by blast+
  moreover have "t \<noteq> 0x800" using n(2) by (auto simp: life_inv_def sched_inv_def sched_ok_def ring_def)
  moreover have "current demo_s0 = NULL" by (simp add: demo_s0_def boot_def scheduler_init_def Let_def case_prod_beta)
  ultimately show thesis using that n(2) by simp
qed

lemma demo_s2:
  obtains t bs where "schedule_from_isr demo_L 0x6000 demo_s1 = Some (demo_s2, t_regs (tasks demo_s2 t))" "t \<noteq> 0x800" "t \<noteq> NULL"
    "life_inv demo_L demo_s2 [0x800, t] [] bs [(0x3000, 0xFD8, True)]" "t_pid (tasks demo_s2 t) = 1"
    "current demo_s2 = t" "caller_alive demo_s2"
proof -
  obtain t bs where d: "t \<noteq> 0x800" "t \<noteq> NULL" "life_inv demo_L demo_s1 [0x800, t] [] bs [(0x3000, 0xFD8, True)]"
      "t_pid (tasks demo_s1 t) = 1" "current demo_s1 = NULL"
    by (rule demo_s1)
  have inv: "sched_inv demo_L demo_s1 [0x800, t] [] bs [(0x3000, 0xFD8, True)]" and b: "book demo_L demo_s1 [0x800, t] []"
    using d(3) by (simp_all add: life_inv_def)
  have ok: "sched_ok demo_L demo_s1 [0x800, t]" using inv by (simp add: sched_inv_def)
  then obtain s' fr where s: "schedule_from_isr demo_L 0x6000 demo_s1 = Some (s', fr)"
      and tp: "tick_post demo_L 0x6000 [0x800, t] demo_s1 s' fr"
    using schedule_ok by blast
  have s2: "s' = demo_s2" using s by (simp add: demo_s2_def)
  have "t_next (tasks demo_s1 0x800) = t" using ok by (simp add: sched_ok_def ring_def)
  then have "rot (t_next (tasks demo_s1 (running demo_L demo_s1))) [0x800, t] = [t, 0x800]"
    using d(1,5) by (simp add: running_def rot_def)
  moreover have "runnable (tasks demo_s1 t)" using b by (simp add: book_def)
  ultimately have c: "current s' = t" using tp by (simp add: tick_post_def)
  have f: "fr = t_regs (tasks s' t)" "t_pid (tasks s' t) = 1" "runnable (tasks s' t)"
    using tp c d(4) by (simp_all add: tick_post_def runnable_def)
  show thesis
    using that [OF _ d(1,2), of bs] s life_tick [OF d(3) s] c f by (simp add: s2 caller_alive_def)
qed

section \<open>Leaving for good\<close>

lemma exit_tick_reap:
  assumes l: "life_inv L s xs zs bs ubs" and c: "caller_alive s" "current s \<noteq> NULL" "current s \<noteq> l_init_task L"
  shows "\<exists>s1 s2 frame s3 bs' ubs'. task_exit L code s = Some s1 \<and> schedule_from_isr L regs s1 = Some (s2, frame) \<and>
    current s2 \<noteq> current s \<and> reap_zombies L s2 = Some s3 \<and>
    life_inv L s3 (filter (\<lambda>x. x \<noteq> current s) (survivors zs xs)) [] bs' ubs' \<and>
    freed s (insert (current s) (set zs)) bs ubs bs' ubs'"
proof -
  let ?c = "current s" and ?ys = "survivors zs xs"
  obtain s1 bs1 ubs1 where e: "task_exit L code s = Some s1" "life_inv L s1 ?ys [?c] bs1 ubs1"
      "freed s (set zs) bs ubs bs1 ubs1" "t_kstack (tasks s1 ?c) = t_kstack (tasks s ?c)"
      "t_user_mem (tasks s1 ?c) = t_user_mem (tasks s ?c)"
    using life_exit [OF l c] by blast
  have "sched_ok L s1 ?ys" using e(2) by (simp add: life_inv_def sched_inv_def)
  then obtain s2 fr where t: "schedule_from_isr L regs s1 = Some (s2, fr)" "tick_post L regs ?ys s1 s2 fr"
    using schedule_ok by blast
  note l2 = life_tick [OF e(2) t(1)] and fr = schedule_frame [OF t(1)]
  have "t_state (tasks s2 (current s2)) = TASK_RUNNING" using t(2) by (simp add: tick_post_def)
  then have ru: "runnable (tasks s2 (current s2))" by (simp add: runnable_def)
  have "current s2 \<noteq> NULL" using t(2) by (simp add: tick_post_def)
  then have "current s2 \<in> set ?ys \<union> set [?c]" using l2 by (simp add: life_inv_def book_def)
  then have nc: "current s2 \<noteq> ?c" using l2 ru unfolding life_inv_def book_def by force
  have ca: "caller_alive s2" using ru by (simp add: caller_alive_def)
  obtain s3 bs3 ubs3 where r: "reap_zombies_internal L s2 = Some s3" "life_inv L s3 (survivors [?c] ?ys) [] bs3 ubs3"
      "freed s2 (set [?c]) bs1 ubs1 bs3 ubs3"
    using life_reap [OF l2 ca] by blast
  have "freed s (set zs \<union> {?c}) bs ubs bs3 ubs3"
    by (rule freed_trans [OF e(3) r(3) [simplified]]) (use fr(8,9) e(4,5) c(3) in auto)
  then show ?thesis using e(1) t(1) nc r(1,2) by (auto simp: reap_zombies_def)
qed

section \<open>Properties of the scheduler\<close>



text \<open>
  A timer tick saves the frame of the interrupted task and resumes the first runnable
  task behind it in the ring: that task becomes current and \<open>TASK_RUNNING\<close>, its saved frame
  is the one returned, the system call stack is set to the top of its stack, and no other
  task changes.
\<close>

lemma tick_resumes_next:
  assumes "sched_ok L s xs"
  shows "\<exists>s' frame. schedule_from_isr L regs s = Some (s', frame) \<and> tick_post L regs xs s s' frame"
  using assms by (rule schedule_ok)

text \<open>
  C16: Round robin is fair: a runnable task of a ring of \<open>n\<close> tasks is running after at most
  \<open>n\<close> ticks, whatever frames the interrupted tasks leave.
\<close>

theorem round_robin_fair:
  assumes "sched_ok L s xs" "t \<in> set xs" "runnable (tasks s t)"
  shows "\<exists>k. 0 < k \<and> k \<le> length xs \<and>
    (\<forall>rs. length rs = k \<longrightarrow> (\<exists>s'. ticks L rs s = Some s' \<and> current s' = t))"
  using assms by (rule ticks_fair)

theorem round_robin_fair_witness:
  "\<exists>t k. t \<noteq> 0x800 \<and> k \<le> 2 \<and> (\<forall>rs. length rs = k \<longrightarrow> (\<exists>s'. ticks demo_L rs demo_s1 = Some s' \<and> current s' = t))"
proof -
  obtain t bs where d: "t \<noteq> 0x800" "t \<noteq> NULL" "life_inv demo_L demo_s1 [0x800, t] [] bs [(0x3000, 0xFD8, True)]"
    by (rule demo_s1)
  have "sched_ok demo_L demo_s1 [0x800, t]" "runnable (tasks demo_s1 t)"
    using d(3) by (simp_all add: life_inv_def sched_inv_def book_def)
  moreover have "t \<in> set [0x800, t]" by simp
  ultimately obtain k where "k \<le> length [0x800, t]"
      "\<forall>rs. length rs = k \<longrightarrow> (\<exists>s'. ticks demo_L rs demo_s1 = Some s' \<and> current s' = t)"
    using round_robin_fair by blast
  then show ?thesis using d(1) by (intro exI [of _ t] exI [of _ k]) simp
qed



text \<open>
  C15: A task that exits is not resumed by the next tick, and the reaper that runs after it
  takes it out of the ring and gives back exactly its record, its stack and its image (and
  those of the tasks that were waiting before).
\<close>

theorem exit_gives_memory_back:
  assumes "life_inv L s xs zs bs ubs" "caller_alive s" "current s \<noteq> NULL" "current s \<noteq> l_init_task L"
  shows "\<exists>s1 s2 frame s3 bs' ubs'. task_exit L code s = Some s1 \<and> schedule_from_isr L regs s1 = Some (s2, frame) \<and>
    current s2 \<noteq> current s \<and> reap_zombies L s2 = Some s3 \<and>
    life_inv L s3 (filter (\<lambda>x. x \<noteq> current s) (survivors zs xs)) [] bs' ubs' \<and>
    freed s (insert (current s) (set zs)) bs ubs bs' ubs'"
  using assms by (rule exit_tick_reap)

theorem exit_gives_memory_back_witness:
  "\<exists>s1 s2 frame s3. task_exit demo_L 7 demo_s2 = Some s1 \<and> schedule_from_isr demo_L 0x6000 s1 = Some (s2, frame) \<and>
     current s2 \<noteq> current demo_s2 \<and> reap_zombies demo_L s2 = Some s3"
proof -
  obtain t bs where d: "t \<noteq> 0x800" "t \<noteq> NULL" "life_inv demo_L demo_s2 [0x800, t] [] bs [(0x3000, 0xFD8, True)]"
      "current demo_s2 = t" "caller_alive demo_s2"
    by (rule demo_s2)
  show ?thesis using exit_gives_memory_back [OF d(3,5), of 7 "0x6000"] d(1,2,4) by auto
qed

text \<open>
  C17: \<open>task_stop\<close> of a pid other than 0 first reaps; then it returns -1 when no task has
  the pid, frees exactly that task and returns 0 when another task has it, and turns the
  caller into a zombie outside the ring when it is its own pid.  In each case the system is
  left in a good state.
\<close>

theorem task_stop_correct:
  assumes "life_inv L s xs zs bs ubs" "caller_alive s" "pid \<noteq> 0"
  shows "\<exists>r xs' zs' bs' ubs'. task_stop L pid s = Some r \<and> stop_post L s xs zs bs ubs pid r \<and>
    life_inv L (stop_state r) xs' zs' bs' ubs'"
  using assms by (rule life_stop)

theorem task_stop_correct_witness: "\<exists>s'. task_stop demo_L 1 demo_s2 = Some (Halted s')"
proof -
  obtain t bs where d: "life_inv demo_L demo_s2 [0x800, t] [] bs [(0x3000, 0xFD8, True)]"
      "t_pid (tasks demo_s2 t) = 1" "current demo_s2 = t" "caller_alive demo_s2"
    by (rule demo_s2)
  have "t_pid (tasks demo_s2 0x800) = 0" using life_init(3) [OF d(1)] by simp
  then have "with_pid demo_s2 1 (survivors [] [0x800, t]) = Some t" using d(2) by (simp add: with_pid_def)
  moreover have "(1 :: i32) \<noteq> 0" by simp
  ultimately show ?thesis using task_stop_correct [OF d(1,4), of 1] d(3) by (auto simp: stop_post_def Let_def)
qed



text \<open>
  \<open>task_list\<close> stores the pid and the state of the tasks in the order of the ring, as many
  as fit into the buffer, and leaves interrupts enabled.
\<close>

lemma task_list_reports:
  assumes "ring (tasks s) (task_ring s) xs"
  shows "task_list mx s = Some (sti (cli s),
    take (nat (sint (ucast mx :: i32))) (map (\<lambda>x. (t_pid (tasks s x), t_state (tasks s x))) xs))"
  using assms by (rule task_list_ok)

end
