(* ===== verification/Portio.thy ===== *)
theory Portio
  imports Kernel_Prelude
begin

text \<open>
  Port input and output, \<open>portio/portio.c\<close>, and the interrupt controller, \<open>pic.c\<close>.  The
  devices behind the ports are not part of the program: what a read returns is a parameter
  \<open>dev\<close>, a function of everything that happened on the ports before.  The ports are used
  through a trace of events, so the order of accesses is part of every statement.
\<close>

section \<open>Ports\<close>

datatype io_event = Inb u16 u8 | Outb u16 u8 | Inw u16 u16 | Outw u16 u16

type_synonym trace = "io_event list"

text \<open>The value that a read of a port returns after a trace; a byte read takes its low half.\<close>

type_synonym device = "trace \<Rightarrow> u16 \<Rightarrow> u16"

definition inb :: "device \<Rightarrow> u16 \<Rightarrow> trace \<Rightarrow> u8 \<times> trace" where
  "inb dev port tr = (let v = ucast (dev tr port) in (v, tr @ [Inb port v]))"

definition outb :: "u16 \<Rightarrow> u8 \<Rightarrow> trace \<Rightarrow> trace" where
  "outb port v tr = tr @ [Outb port v]"

definition inw :: "device \<Rightarrow> u16 \<Rightarrow> trace \<Rightarrow> u16 \<times> trace" where
  "inw dev port tr = (let v = dev tr port in (v, tr @ [Inw port v]))"

definition outw :: "u16 \<Rightarrow> u16 \<Rightarrow> trace \<Rightarrow> trace" where
  "outw port v tr = tr @ [Outw port v]"

section \<open>The interrupt controller\<close>

abbreviation PIC1_COMMAND :: u16 where "PIC1_COMMAND \<equiv> 0x20"
abbreviation PIC1_DATA :: u16 where "PIC1_DATA \<equiv> 0x21"
abbreviation PIC2_COMMAND :: u16 where "PIC2_COMMAND \<equiv> 0xA0"
abbreviation PIC2_DATA :: u16 where "PIC2_DATA \<equiv> 0xA1"
abbreviation ICW1_INIT :: u8 where "ICW1_INIT \<equiv> 0x10"
abbreviation ICW1_ICW4 :: u8 where "ICW1_ICW4 \<equiv> 0x01"
abbreviation ICW4_8086 :: u8 where "ICW4_8086 \<equiv> 0x01"

text \<open>The initialisation words go to the two controllers in turn; the masks read first are written back.\<close>

definition pic_remap :: "device \<Rightarrow> u32 \<Rightarrow> u32 \<Rightarrow> trace \<Rightarrow> trace" where
  "pic_remap dev offset1 offset2 tr =
     (let (a1, tr) = inb dev PIC1_DATA tr;
          (a2, tr) = inb dev PIC2_DATA tr;
          tr = outb PIC1_COMMAND (ICW1_INIT OR ICW1_ICW4) tr;
          tr = outb PIC2_COMMAND (ICW1_INIT OR ICW1_ICW4) tr;
          tr = outb PIC1_DATA (ucast offset1) tr;
          tr = outb PIC2_DATA (ucast offset2) tr;
          tr = outb PIC1_DATA 4 tr;
          tr = outb PIC2_DATA 2 tr;
          tr = outb PIC1_DATA ICW4_8086 tr;
          tr = outb PIC2_DATA ICW4_8086 tr;
          tr = outb PIC1_DATA a1 tr
      in outb PIC2_DATA a2 tr)"

definition pic_send_eoi :: "u8 \<Rightarrow> trace \<Rightarrow> trace" where
  "pic_send_eoi irq tr =
     (let tr = (if 8 \<le> irq then outb PIC2_COMMAND 0x20 tr else tr) in outb PIC1_COMMAND 0x20 tr)"

text \<open>Waiting loops on a status port, as far as the device lets them go on.\<close>

partial_function (option) poll :: "device \<Rightarrow> (trace \<Rightarrow> trace) \<Rightarrow> u16 \<Rightarrow> u8 \<Rightarrow> trace \<Rightarrow> trace option" where
  "poll dev pre port mk tr =
     (let (v, tr) = inb dev port (pre tr)
      in if v AND mk = 0 then Some tr else poll dev pre port mk tr)"

declare poll.simps [code]

lemma poll_step:
  "poll dev pre port mk tr =
     (let (v, tr') = inb dev port (pre tr) in if v AND mk = 0 then Some tr' else poll dev pre port mk tr')"
  by (rule poll.simps)

text \<open>The trace after \<open>n\<close> rounds of a waiting loop.\<close>

fun poll_rounds :: "device \<Rightarrow> (trace \<Rightarrow> trace) \<Rightarrow> u16 \<Rightarrow> nat \<Rightarrow> trace \<Rightarrow> trace" where
  "poll_rounds dev pre port 0 tr = tr"
| "poll_rounds dev pre port (Suc n) tr = poll_rounds dev pre port n (snd (inb dev port (pre tr)))"

text \<open>A loop returns when the device clears the bits at some round, and it stops at the first one.\<close>

lemma poll_returns:
  assumes "fst (inb dev port (pre (poll_rounds dev pre port n tr))) AND mk = 0"
  shows "\<exists>k \<le> n. poll dev pre port mk tr = Some (poll_rounds dev pre port (Suc k) tr)"
  using assms
proof (induction n arbitrary: tr)
  case 0
  then show ?case by (subst poll_step) (simp add: case_prod_beta)
next
  case (Suc n)
  let ?tr = "snd (inb dev port (pre tr))"
  show ?case
  proof (cases "fst (inb dev port (pre tr)) AND mk = 0")
    case True
    then show ?thesis by (subst poll_step) (auto simp: case_prod_beta intro!: exI [of _ 0])
  next
    case False
    obtain k where "k \<le> n" "poll dev pre port mk ?tr = Some (poll_rounds dev pre port (Suc k) ?tr)"
      using Suc.IH [of ?tr] Suc.prems by auto
    then show ?thesis
      using False by (subst poll_step) (auto simp: case_prod_beta intro!: exI [of _ "Suc k"])
  qed
qed

end
