(* ===== verification/Keyboard.thy ===== *)
theory Keyboard
  imports Portio
begin

text \<open>
  The keyboard driver, \<open>keyboard/keyboard.c\<close>: the two translation tables, the state of the
  modifier keys, the ring buffer between the interrupt handler and the readers, and the
  handler itself.  The buffer is shown to be a bounded queue; the clients of the queue use
  only that contract.
\<close>

section \<open>Key codes\<close>

abbreviation KEY_A :: u8 where "KEY_A \<equiv> 0x1E"
abbreviation KEY_B :: u8 where "KEY_B \<equiv> 0x30"
abbreviation KEY_C :: u8 where "KEY_C \<equiv> 0x2E"
abbreviation KEY_D :: u8 where "KEY_D \<equiv> 0x20"
abbreviation KEY_E :: u8 where "KEY_E \<equiv> 0x12"
abbreviation KEY_F :: u8 where "KEY_F \<equiv> 0x21"
abbreviation KEY_G :: u8 where "KEY_G \<equiv> 0x22"
abbreviation KEY_H :: u8 where "KEY_H \<equiv> 0x23"
abbreviation KEY_I :: u8 where "KEY_I \<equiv> 0x17"
abbreviation KEY_J :: u8 where "KEY_J \<equiv> 0x24"
abbreviation KEY_K :: u8 where "KEY_K \<equiv> 0x25"
abbreviation KEY_L :: u8 where "KEY_L \<equiv> 0x26"
abbreviation KEY_M :: u8 where "KEY_M \<equiv> 0x32"
abbreviation KEY_N :: u8 where "KEY_N \<equiv> 0x31"
abbreviation KEY_O :: u8 where "KEY_O \<equiv> 0x18"
abbreviation KEY_P :: u8 where "KEY_P \<equiv> 0x19"
abbreviation KEY_Q :: u8 where "KEY_Q \<equiv> 0x10"
abbreviation KEY_R :: u8 where "KEY_R \<equiv> 0x13"
abbreviation KEY_S :: u8 where "KEY_S \<equiv> 0x1F"
abbreviation KEY_T :: u8 where "KEY_T \<equiv> 0x14"
abbreviation KEY_U :: u8 where "KEY_U \<equiv> 0x16"
abbreviation KEY_V :: u8 where "KEY_V \<equiv> 0x2F"
abbreviation KEY_W :: u8 where "KEY_W \<equiv> 0x11"
abbreviation KEY_X :: u8 where "KEY_X \<equiv> 0x2D"
abbreviation KEY_Y :: u8 where "KEY_Y \<equiv> 0x15"
abbreviation KEY_Z :: u8 where "KEY_Z \<equiv> 0x2C"
abbreviation KEY_1 :: u8 where "KEY_1 \<equiv> 0x02"
abbreviation KEY_2 :: u8 where "KEY_2 \<equiv> 0x03"
abbreviation KEY_3 :: u8 where "KEY_3 \<equiv> 0x04"
abbreviation KEY_4 :: u8 where "KEY_4 \<equiv> 0x05"
abbreviation KEY_5 :: u8 where "KEY_5 \<equiv> 0x06"
abbreviation KEY_6 :: u8 where "KEY_6 \<equiv> 0x07"
abbreviation KEY_7 :: u8 where "KEY_7 \<equiv> 0x08"
abbreviation KEY_8 :: u8 where "KEY_8 \<equiv> 0x09"
abbreviation KEY_9 :: u8 where "KEY_9 \<equiv> 0x0A"
abbreviation KEY_0 :: u8 where "KEY_0 \<equiv> 0x0B"
abbreviation KEY_MINUS :: u8 where "KEY_MINUS \<equiv> 0x0C"
abbreviation KEY_EQUAL :: u8 where "KEY_EQUAL \<equiv> 0x0D"
abbreviation KEY_SQUARE_OPEN_BRACKET :: u8 where "KEY_SQUARE_OPEN_BRACKET \<equiv> 0x1A"
abbreviation KEY_SQUARE_CLOSE_BRACKET :: u8 where "KEY_SQUARE_CLOSE_BRACKET \<equiv> 0x1B"
abbreviation KEY_SEMICOLON :: u8 where "KEY_SEMICOLON \<equiv> 0x27"
abbreviation KEY_BACKSLASH :: u8 where "KEY_BACKSLASH \<equiv> 0x2B"
abbreviation KEY_COMMA :: u8 where "KEY_COMMA \<equiv> 0x33"
abbreviation KEY_DOT :: u8 where "KEY_DOT \<equiv> 0x34"
abbreviation KEY_FORESLHASH :: u8 where "KEY_FORESLHASH \<equiv> 0x35"
abbreviation KEY_APOSTROPHE :: u8 where "KEY_APOSTROPHE \<equiv> 0x28"
abbreviation KEY_GRAVE :: u8 where "KEY_GRAVE \<equiv> 0x29"
abbreviation KEY_SPACE :: u8 where "KEY_SPACE \<equiv> 0x39"
abbreviation KEY_ENTER :: u8 where "KEY_ENTER \<equiv> 0x1C"
abbreviation KEY_TAB :: u8 where "KEY_TAB \<equiv> 0x0F"
abbreviation KEY_BACKSPACE :: u8 where "KEY_BACKSPACE \<equiv> 0x0E"
abbreviation KEY_LSHIFT :: u8 where "KEY_LSHIFT \<equiv> 0x2A"
abbreviation KEY_RSHIFT :: u8 where "KEY_RSHIFT \<equiv> 0x36"
abbreviation KEY_CAPSLOCK :: u8 where "KEY_CAPSLOCK \<equiv> 0x3A"
abbreviation KEY_LCONTROL :: u8 where "KEY_LCONTROL \<equiv> 0x1D"

text \<open>The code of the right control key does not fit into a byte.\<close>

abbreviation KEY_RCONTROL :: u32 where "KEY_RCONTROL \<equiv> 0xE01D"

abbreviation INTERNAL_SPACE :: u8 where "INTERNAL_SPACE \<equiv> 0x01"

section \<open>Translation tables\<close>

text \<open>A table with designated entries; the entries not named are 0.\<close>

definition table :: "(u8 \<times> char) list \<Rightarrow> u8 \<Rightarrow> u8" where
  "table es k = (case map_of es k of None \<Rightarrow> 0 | Some c \<Rightarrow> of_char c)"

definition letter_keys :: "u8 list" where
  "letter_keys = [KEY_A, KEY_B, KEY_C, KEY_D, KEY_E, KEY_F, KEY_G, KEY_H, KEY_I, KEY_J, KEY_K, KEY_L, KEY_M,
     KEY_N, KEY_O, KEY_P, KEY_Q, KEY_R, KEY_S, KEY_T, KEY_U, KEY_V, KEY_W, KEY_X, KEY_Y, KEY_Z]"

definition digit_keys :: "u8 list" where
  "digit_keys = [KEY_1, KEY_2, KEY_3, KEY_4, KEY_5, KEY_6, KEY_7, KEY_8, KEY_9, KEY_0]"

definition sign_keys :: "u8 list" where
  "sign_keys = [KEY_MINUS, KEY_EQUAL, KEY_SQUARE_OPEN_BRACKET, KEY_SQUARE_CLOSE_BRACKET, KEY_SEMICOLON,
     KEY_BACKSLASH, KEY_COMMA, KEY_DOT, KEY_FORESLHASH, KEY_APOSTROPHE, KEY_GRAVE]"

definition control_entries :: "(u8 \<times> char) list" where
  "control_entries = [(KEY_SPACE, CHR 0x01), (KEY_ENTER, CHR 0x0A), (KEY_TAB, CHR 0x09), (KEY_BACKSPACE, CHR 0x08)]"

definition scancode_to_ascii :: "u8 \<Rightarrow> u8" where
  "scancode_to_ascii =
     table (zip letter_keys ''abcdefghijklmnopqrstuvwxyz'' @ zip digit_keys ''1234567890'' @
       zip sign_keys [CHR ''-'', CHR ''='', CHR ''['', CHR '']'', CHR '';'', CHR 0x5C, CHR '','', CHR ''.'', CHR ''/'',
         CHR 0x27, CHR 0x60] @ control_entries)"

definition scancode_to_ascii_shifted :: "u8 \<Rightarrow> u8" where
  "scancode_to_ascii_shifted =
     table (zip letter_keys ''ABCDEFGHIJKLMNOPQRSTUVWXYZ'' @ zip digit_keys ''!@#$%^&*()'' @
       zip sign_keys [CHR ''_'', CHR ''+'', CHR ''{'', CHR ''}'', CHR '':'', CHR ''|'', CHR ''<'', CHR ''>'', CHR ''?'',
         CHR 0x22, CHR ''~''] @ control_entries)"

definition my_toupper :: "u8 \<Rightarrow> u8" where
  "my_toupper c = (if of_char CHR ''a'' \<le> c \<and> c \<le> of_char CHR ''z'' then c - 32 else c)"

definition is_alpha :: "u8 \<Rightarrow> bool" where
  "is_alpha scancode \<longleftrightarrow> scancode \<in> set letter_keys"

section \<open>State\<close>

abbreviation KBD_BUF_SIZE :: nat where "KBD_BUF_SIZE \<equiv> 256"

record kbd =
  shift_down :: bool
  caps_lock :: bool
  ctrl_down :: bool
  kbd_buf :: "u8 list"
  kbd_head :: nat
  kbd_tail :: nat
  kbd_if :: bool

definition get_ascii_char :: "kbd \<Rightarrow> u8 \<Rightarrow> u8" where
  "get_ascii_char s scancode =
     (if is_alpha scancode then
        let upper = (shift_down s \<noteq> caps_lock s); base = scancode_to_ascii scancode
        in if upper then my_toupper base else base
      else if shift_down s then scancode_to_ascii_shifted scancode
      else scancode_to_ascii scancode)"

definition irq_save_flags :: "kbd \<Rightarrow> bool \<times> kbd" where
  "irq_save_flags s = (kbd_if s, s\<lparr>kbd_if := False\<rparr>)"

definition irq_restore_flags :: "bool \<Rightarrow> kbd \<Rightarrow> kbd" where
  "irq_restore_flags flags s = s\<lparr>kbd_if := flags\<rparr>"

definition kbd_buffer_push :: "u8 \<Rightarrow> kbd \<Rightarrow> kbd" where
  "kbd_buffer_push c s =
     (let (flags, s) = irq_save_flags s;
          nxt = (kbd_head s + 1) mod KBD_BUF_SIZE;
          s = (if nxt \<noteq> kbd_tail s then s\<lparr>kbd_buf := (kbd_buf s)[kbd_head s := c], kbd_head := nxt\<rparr> else s)
      in irq_restore_flags flags s)"

text \<open>The result of type \<open>char\<close> is -1 when the buffer is empty.\<close>

definition kbd_getchar :: "kbd \<Rightarrow> kbd \<times> u8" where
  "kbd_getchar s =
     (let (flags, s) = irq_save_flags s
      in if kbd_head s = kbd_tail s then (irq_restore_flags flags s, -1)
         else
           let c = kbd_buf s ! kbd_tail s;
               s = s\<lparr>kbd_tail := (kbd_tail s + 1) mod KBD_BUF_SIZE\<rparr>
           in (irq_restore_flags flags s, c))"

text \<open>The part of the handler behind the read of the port.\<close>

definition handle_code :: "u8 \<Rightarrow> kbd \<Rightarrow> kbd" where
  "handle_code code s =
     (let released = (code AND 0x80 \<noteq> 0); key = code AND 0x7F
      in if key = KEY_LCONTROL \<or> ucast key = KEY_RCONTROL then s\<lparr>ctrl_down := \<not> released\<rparr>
         else if \<not> released \<and> ctrl_down s \<and> key = KEY_C then kbd_buffer_push 0x03 s
         else if key = KEY_LSHIFT \<or> key = KEY_RSHIFT then s\<lparr>shift_down := \<not> released\<rparr>
         else if key = KEY_CAPSLOCK \<and> \<not> released then s\<lparr>caps_lock := \<not> caps_lock s\<rparr>
         else if \<not> released then
           let ch = get_ascii_char s key in if ch \<noteq> 0 then kbd_buffer_push ch s else s
         else s)"

text \<open>Every branch of the handler acknowledges the interrupt.\<close>

definition keyboard_handler :: "device \<Rightarrow> kbd \<times> trace \<Rightarrow> kbd \<times> trace" where
  "keyboard_handler dev = (\<lambda>(s, tr).
     let (code, tr) = inb dev 0x60 tr in (handle_code code s, pic_send_eoi 1 tr))"

section \<open>Bounded queues\<close>

text \<open>
  The contract between a producer and a reader: elements are kept in order, a push into a
  full queue is dropped, and reading an empty queue gives a mark that is no element.
\<close>

datatype 'a qop = Push 'a | Pop

fun run_q :: "('a \<Rightarrow> 's \<Rightarrow> 's) \<Rightarrow> ('s \<Rightarrow> 's \<times> 'a) \<Rightarrow> 'a qop list \<Rightarrow> 's \<Rightarrow> 's \<times> 'a list" where
  "run_q push pop [] s = (s, [])"
| "run_q push pop (Push c # ops) s = run_q push pop ops (push c s)"
| "run_q push pop (Pop # ops) s =
     (let (s', c) = pop s; (s'', cs) = run_q push pop ops s' in (s'', c # cs))"

fun pushed :: "'a qop list \<Rightarrow> 'a list" where
  "pushed [] = []"
| "pushed (Push c # ops) = c # pushed ops"
| "pushed (Pop # ops) = pushed ops"

locale bounded_queue =
  fixes inv :: "'s \<Rightarrow> bool" and contents :: "'s \<Rightarrow> 'a list" and cap :: nat
    and push :: "'a \<Rightarrow> 's \<Rightarrow> 's" and pop :: "'s \<Rightarrow> 's \<times> 'a" and empty_mark :: 'a
  assumes push_inv: "inv s \<Longrightarrow> inv (push c s)"
    and push_contents: "inv s \<Longrightarrow>
      contents (push c s) = (if length (contents s) < cap then contents s @ [c] else contents s)"
    and pop_inv: "inv s \<Longrightarrow> inv (fst (pop s))"
    and pop_contents: "inv s \<Longrightarrow> contents (fst (pop s)) = tl (contents s)"
    and pop_value: "inv s \<Longrightarrow> snd (pop s) = (case contents s of [] \<Rightarrow> empty_mark | c # cs \<Rightarrow> c)"
    and bounded: "inv s \<Longrightarrow> length (contents s) \<le> cap"
begin

lemma run_inv: "inv s \<Longrightarrow> inv (fst (run_q push pop ops s))"
proof (induction ops arbitrary: s)
  case (Cons x ops)
  then show ?case by (cases x) (simp_all add: push_inv pop_inv case_prod_beta)
qed simp

text \<open>First in, first out, nothing lost while everything that is pushed fits.\<close>

lemma run_fifo:
  assumes "inv s" "length (contents s) + length (pushed ops) \<le> cap"
    "empty_mark \<notin> set (contents s)" "empty_mark \<notin> set (pushed ops)"
  shows "filter (\<lambda>c. c \<noteq> empty_mark) (snd (run_q push pop ops s)) @ contents (fst (run_q push pop ops s)) =
    contents s @ pushed ops"
  using assms
proof (induction ops arbitrary: s)
  case Nil
  then show ?case by simp
next
  case (Cons x ops)
  show ?case
  proof (cases x)
    case (Push c)
    have k: "contents (push c s) = contents s @ [c]" using Cons.prems Push push_contents by simp
    show ?thesis
      using Cons.IH [of "push c s"] Cons.prems Push push_inv k by auto
  next
    case Pop
    let ?s = "fst (pop s)"
    have IH: "filter (\<lambda>c. c \<noteq> empty_mark) (snd (run_q push pop ops ?s)) @ contents (fst (run_q push pop ops ?s)) =
        contents ?s @ pushed ops"
      using Cons.prems Pop pop_inv pop_contents by (intro Cons.IH) (cases "contents s"; simp)+
    show ?thesis
    proof (cases "contents s")
      case Nil
      then show ?thesis using IH Pop pop_value pop_contents Cons.prems(1) by (simp add: case_prod_beta)
    next
      case (Cons c cs)
      moreover have "c \<noteq> empty_mark" using Cons Cons.prems(3) by auto
      ultimately show ?thesis using IH Pop pop_value pop_contents Cons.prems(1) by (simp add: case_prod_beta)
    qed
  qed
qed

end

section \<open>The ring buffer is a bounded queue\<close>

definition kbd_ok :: "kbd \<Rightarrow> bool" where
  "kbd_ok s \<longleftrightarrow> length (kbd_buf s) = KBD_BUF_SIZE \<and> kbd_head s < KBD_BUF_SIZE \<and> kbd_tail s < KBD_BUF_SIZE"

definition kbd_count :: "kbd \<Rightarrow> nat" where
  "kbd_count s = (kbd_head s + KBD_BUF_SIZE - kbd_tail s) mod KBD_BUF_SIZE"

definition kbd_contents :: "kbd \<Rightarrow> u8 list" where
  "kbd_contents s = map (\<lambda>i. kbd_buf s ! ((kbd_tail s + i) mod KBD_BUF_SIZE)) [0..<kbd_count s]"

lemma mod_wrap: "x < 2 * n \<Longrightarrow> x mod n = (if x < n then x else x - n)" for n :: nat
  by (simp add: mod_if)

lemma kbd_count_cases:
  assumes "kbd_ok s"
  shows "kbd_count s = (if kbd_tail s \<le> kbd_head s then kbd_head s - kbd_tail s else kbd_head s + 256 - kbd_tail s)"
  using assms by (auto simp: kbd_count_def kbd_ok_def mod_wrap)

lemma kbd_push_ok:
  assumes ok: "kbd_ok s"
  shows "kbd_ok (kbd_buffer_push c s)"
    "kbd_contents (kbd_buffer_push c s) =
      (if length (kbd_contents s) < 255 then kbd_contents s @ [c] else kbd_contents s)"
proof -
  let ?s = "kbd_buffer_push c s" and ?h = "kbd_head s" and ?t = "kbd_tail s" and ?n = "(kbd_head s + 1) mod 256"
  have b: "length (kbd_buf s) = 256" "?h < 256" "?t < 256" using ok by (simp_all add: kbd_ok_def)
  have n: "?n = (if ?h = 255 then 0 else ?h + 1)" using b(2) by (auto simp: mod_wrap)
  have s': "?s = (if ?n \<noteq> ?t then s\<lparr>kbd_buf := (kbd_buf s)[?h := c], kbd_head := ?n\<rparr> else s)"
    by (simp add: kbd_buffer_push_def irq_save_flags_def irq_restore_flags_def Let_def)
  show ok': "kbd_ok ?s" using b n by (simp add: s' kbd_ok_def)
  have full: "?n \<noteq> ?t \<longleftrightarrow> kbd_count s < 255"
    unfolding kbd_count_cases [OF ok] n using b(2,3) by auto
  show "kbd_contents ?s = (if length (kbd_contents s) < 255 then kbd_contents s @ [c] else kbd_contents s)"
  proof (cases "?n = ?t")
    case True
    then show ?thesis using full by (simp add: s' kbd_contents_def)
  next
    case False
    have f: "kbd_buf ?s = (kbd_buf s)[?h := c]" "kbd_tail ?s = ?t" "kbd_head ?s = ?n" using False by (simp_all add: s')
    have cnt: "kbd_count ?s = Suc (kbd_count s)"
      unfolding kbd_count_cases [OF ok'] kbd_count_cases [OF ok] f n using b(2,3) False n by auto
    have at: "(?t + kbd_count s) mod 256 = ?h"
      unfolding kbd_count_cases [OF ok] using b(2,3) by (auto simp: mod_wrap)
    have ne: "(?t + i) mod 256 \<noteq> ?h" if "i < kbd_count s" for i
      using that b(2,3) unfolding kbd_count_cases [OF ok] by (auto simp: mod_wrap split: if_splits)
    have "kbd_contents ?s = kbd_contents s @ [c]"
      unfolding kbd_contents_def cnt f using at ne [THEN not_sym] b(1,2) by simp
    then show ?thesis using False full by (simp add: kbd_contents_def)
  qed
qed

lemma kbd_getchar_ok:
  assumes ok: "kbd_ok s"
  shows "kbd_ok (fst (kbd_getchar s))" "kbd_contents (fst (kbd_getchar s)) = tl (kbd_contents s)"
    "snd (kbd_getchar s) = (case kbd_contents s of [] \<Rightarrow> -1 | c # cs \<Rightarrow> c)"
proof -
  let ?s = "fst (kbd_getchar s)" and ?h = "kbd_head s" and ?t = "kbd_tail s" and ?n = "(kbd_tail s + 1) mod 256"
  have b: "length (kbd_buf s) = 256" "?h < 256" "?t < 256" using ok by (simp_all add: kbd_ok_def)
  have n: "?n = (if ?t = 255 then 0 else ?t + 1)" using b(3) by (auto simp: mod_wrap)
  have s': "kbd_getchar s = (if ?h = ?t then (s, -1) else (s\<lparr>kbd_tail := ?n\<rparr>, kbd_buf s ! ?t))"
    by (simp add: kbd_getchar_def irq_save_flags_def irq_restore_flags_def Let_def)
  show ok': "kbd_ok ?s" using b n by (simp add: s' kbd_ok_def)
  have z: "kbd_count s = 0 \<longleftrightarrow> ?h = ?t" unfolding kbd_count_cases [OF ok] using b(2,3) by auto
  have "kbd_contents ?s = tl (kbd_contents s) \<and> snd (kbd_getchar s) = (case kbd_contents s of [] \<Rightarrow> -1 | c # cs \<Rightarrow> c)"
  proof (cases "?h = ?t")
    case True
    then show ?thesis using z by (simp add: s' kbd_contents_def)
  next
    case False
    have f: "kbd_buf ?s = kbd_buf s" "kbd_tail ?s = ?n" "kbd_head ?s = ?h" using False by (simp_all add: s')
    have cnt: "kbd_count s = Suc (kbd_count ?s)"
      unfolding kbd_count_cases [OF ok'] kbd_count_cases [OF ok] f n using b(2,3) False by auto
    have "[0..<kbd_count s] = 0 # map Suc [0..<kbd_count ?s]" unfolding cnt by (simp add: upt_conv_Cons map_Suc_upt del: upt_Suc)
    then have "kbd_contents s = kbd_buf s ! ?t # kbd_contents ?s"
      using b(3) by (simp add: kbd_contents_def f mod_simps)
    then show ?thesis using False by (simp add: s')
  qed
  then show "kbd_contents ?s = tl (kbd_contents s)"
    "snd (kbd_getchar s) = (case kbd_contents s of [] \<Rightarrow> -1 | c # cs \<Rightarrow> c)" by simp_all
qed

interpretation kq: bounded_queue kbd_ok kbd_contents 255 kbd_buffer_push kbd_getchar "-1"
proof unfold_locales
  fix s assume "kbd_ok s"
  moreover have "kbd_count s < 256" by (simp add: kbd_count_def)
  ultimately show "length (kbd_contents s) \<le> 255" by (simp add: kbd_contents_def)
qed (simp_all add: kbd_push_ok kbd_getchar_ok)

section \<open>Typing and reading\<close>

text \<open>
  What the keys mean, without a buffer: the modifiers (shift, caps lock, control) after a
  scan code, and the characters that it types.
\<close>

type_synonym mods = "bool \<times> bool \<times> bool"

definition mods_of :: "kbd \<Rightarrow> mods" where
  "mods_of s = (shift_down s, caps_lock s, ctrl_down s)"

definition key_char :: "bool \<Rightarrow> bool \<Rightarrow> u8 \<Rightarrow> u8" where
  "key_char sh ca k =
     (if k \<in> set letter_keys then (if sh \<noteq> ca then scancode_to_ascii_shifted k else scancode_to_ascii k)
      else if sh then scancode_to_ascii_shifted k else scancode_to_ascii k)"

fun key_step :: "u8 \<Rightarrow> mods \<Rightarrow> mods \<times> u8 list" where
  "key_step code (sh, ca, ct) =
     (let k = code AND 0x7F
      in if code AND 0x80 \<noteq> 0 then
           ((if k = KEY_LSHIFT \<or> k = KEY_RSHIFT then False else sh, ca, if k = KEY_LCONTROL then False else ct), [])
         else if k = KEY_LCONTROL then ((sh, ca, True), [])
         else if k = KEY_LSHIFT \<or> k = KEY_RSHIFT then ((True, ca, ct), [])
         else if k = KEY_CAPSLOCK then ((sh, \<not> ca, ct), [])
         else if ct \<and> k = KEY_C then ((sh, ca, ct), [0x03])
         else ((sh, ca, ct), if key_char sh ca k = 0 then [] else [key_char sh ca k]))"

fun typed :: "u8 list \<Rightarrow> mods \<Rightarrow> u8 list" where
  "typed [] md = []"
| "typed (c # cs) md = (let (md', out) = key_step c md in out @ typed cs md')"

text \<open>Interrupts with a scan code and calls of \<open>kbd_getchar\<close>, in any order.\<close>

datatype kbd_event = Scan u8 | Get

fun run_kbd :: "kbd_event list \<Rightarrow> kbd \<Rightarrow> kbd \<times> u8 list" where
  "run_kbd [] s = (s, [])"
| "run_kbd (Scan c # es) s = run_kbd es (handle_code c s)"
| "run_kbd (Get # es) s = (let (s', c) = kbd_getchar s; (s'', cs) = run_kbd es s' in (s'', c # cs))"

fun scans :: "kbd_event list \<Rightarrow> u8 list" where
  "scans [] = []"
| "scans (Scan c # es) = c # scans es"
| "scans (Get # es) = scans es"

text \<open>The queue operations behind the events.\<close>

fun queue_ops :: "kbd_event list \<Rightarrow> mods \<Rightarrow> u8 qop list" where
  "queue_ops [] md = []"
| "queue_ops (Scan c # es) md = (let (md', out) = key_step c md in map Push out @ queue_ops es md')"
| "queue_ops (Get # es) md = Pop # queue_ops es md"

lemma toupper_letters: "k \<in> set letter_keys \<Longrightarrow> my_toupper (scancode_to_ascii k) = scancode_to_ascii_shifted k"
proof -
  have "list_all (\<lambda>k. my_toupper (scancode_to_ascii k) = scancode_to_ascii_shifted k) letter_keys"
    by code_simp
  then show "k \<in> set letter_keys \<Longrightarrow> my_toupper (scancode_to_ascii k) = scancode_to_ascii_shifted k"
    by (simp add: list_all_iff)
qed

lemma get_ascii_key_char: "get_ascii_char s k = key_char (shift_down s) (caps_lock s) k"
  using toupper_letters by (simp add: get_ascii_char_def key_char_def is_alpha_def Let_def)

lemma buffer_push_mods [simp]: "mods_of (kbd_buffer_push c s) = mods_of s"
  by (simp add: mods_of_def kbd_buffer_push_def irq_save_flags_def irq_restore_flags_def Let_def)

lemma getchar_mods [simp]: "mods_of (fst (kbd_getchar s)) = mods_of s"
  by (simp add: mods_of_def kbd_getchar_def irq_save_flags_def irq_restore_flags_def Let_def)

lemma ucast_key_small: "ucast (code AND 0x7F :: u8) \<noteq> KEY_RCONTROL"
proof
  assume a: "ucast (code AND 0x7F :: u8) = KEY_RCONTROL"
  have "unat (ucast (code AND 0x7F :: u8) :: u32) = unat (code AND 0x7F)"
    by (simp add: unsigned_ucast_eq take_bit_nat_eq_self unat_less_2p [THEN less_trans])
  moreover have "unat (code AND 0x7F) < 256" using unat_less_2p [of "code AND 0x7F"] by simp
  ultimately show False using a by simp
qed

text \<open>The handler sets the modifiers and pushes exactly the characters of the key.\<close>

definition set_mods :: "mods \<Rightarrow> kbd \<Rightarrow> kbd" where
  "set_mods md s = (case md of (sh, ca, ct) \<Rightarrow> s\<lparr>shift_down := sh, caps_lock := ca, ctrl_down := ct\<rparr>)"

lemma mods_of_set [simp]: "mods_of (set_mods md s) = md"
  by (cases md) (simp add: mods_of_def set_mods_def)

lemma fold_push_mods [simp]: "mods_of (fold kbd_buffer_push cs s) = mods_of s"
  by (induction cs arbitrary: s) simp_all

lemma handle_code_step:
  "handle_code c s = fold kbd_buffer_push (snd (key_step c (mods_of s))) (set_mods (fst (key_step c (mods_of s))) s)"
proof -
  have "kbd_buffer_push x (s\<lparr>ctrl_down := True\<rparr>) = kbd_buffer_push x s" if "ctrl_down s" for x
    using that by (cases s) simp
  then show ?thesis
    by (auto simp: handle_code_def mods_of_def set_mods_def Let_def ucast_key_small get_ascii_key_char)
qed

definition same_buf :: "kbd \<Rightarrow> kbd \<Rightarrow> bool" where
  "same_buf s t \<longleftrightarrow> kbd_buf s = kbd_buf t \<and> kbd_head s = kbd_head t \<and> kbd_tail s = kbd_tail t"

lemma same_buf_ops:
  assumes "same_buf s t"
  shows "same_buf (kbd_buffer_push c s) (kbd_buffer_push c t)" "same_buf (set_mods md s) t"
    "same_buf (fst (kbd_getchar s)) (fst (kbd_getchar t))" "snd (kbd_getchar s) = snd (kbd_getchar t)"
    "kbd_contents s = kbd_contents t" "kbd_ok s = kbd_ok t"
  using assms
  by (simp_all add: same_buf_def kbd_buffer_push_def kbd_getchar_def irq_save_flags_def irq_restore_flags_def Let_def
      set_mods_def kbd_contents_def kbd_count_def kbd_ok_def split: prod.split)

lemma run_q_pushes: "run_q push pop (map Push cs @ ops) s = run_q push pop ops (fold push cs s)"
  by (induction cs arbitrary: s) simp_all

lemma same_buf_fold: "same_buf s t \<Longrightarrow> same_buf (fold kbd_buffer_push cs s) (fold kbd_buffer_push cs t)"
  by (induction cs arbitrary: s t) (simp_all add: same_buf_ops(1))

lemma run_kbd_queue:
  assumes "same_buf s t"
  shows "snd (run_kbd es s) = snd (run_q kbd_buffer_push kbd_getchar (queue_ops es (mods_of s)) t) \<and>
    kbd_contents (fst (run_kbd es s)) = kbd_contents (fst (run_q kbd_buffer_push kbd_getchar (queue_ops es (mods_of s)) t))"
  using assms
proof (induction es arbitrary: s t)
  case Nil
  then show ?case using same_buf_ops(5) by simp
next
  case (Cons e es)
  show ?case
  proof (cases e)
    case (Scan c)
    obtain md out where k: "key_step c (mods_of s) = (md, out)" by (rule prod.exhaust)
    have "same_buf (handle_code c s) (fold kbd_buffer_push out t)"
      unfolding handle_code_step k using same_buf_fold [OF same_buf_ops(2) [OF Cons.prems]] by simp
    moreover have "mods_of (handle_code c s) = md" by (simp add: handle_code_step k)
    ultimately show ?thesis using Cons.IH [of "handle_code c s"] by (simp add: Scan k run_q_pushes)
  next
    case Get
    then show ?thesis
      using Cons.IH [OF same_buf_ops(3) [OF Cons.prems]] same_buf_ops(4) [OF Cons.prems]
      by (simp add: case_prod_beta)
  qed
qed

lemma pushed_queue_ops: "pushed (queue_ops es md) = typed (scans es) md"
proof (induction es arbitrary: md)
  case (Cons e es)
  have "pushed (map Push out @ ops) = out @ pushed ops" for out :: "u8 list" and ops by (induction out) simp_all
  then show ?case using Cons by (cases e) (simp_all add: case_prod_beta)
qed simp

text \<open>Typed characters are 7-bit codes, so none is mistaken for the mark of an empty buffer.\<close>

lemma table_small: "\<forall>(k, c) \<in> set es. of_char c < (128 :: u8) \<Longrightarrow> table es k < 128"
  by (auto simp: table_def dest!: map_of_SomeD split: option.split)

lemma key_char_small: "key_char sh ca k < 128"
proof -
  have "scancode_to_ascii k < 128"
    unfolding scancode_to_ascii_def by (rule table_small) code_simp
  moreover have "scancode_to_ascii_shifted k < 128"
    unfolding scancode_to_ascii_shifted_def by (rule table_small) code_simp
  ultimately show ?thesis by (simp add: key_char_def)
qed

lemma typed_small: "\<forall>c \<in> set (typed cs md). c < 128"
proof (induction cs arbitrary: md)
  case (Cons c cs)
  obtain sh ca ct where md: "md = (sh, ca, ct)" by (cases md)
  have "\<forall>d \<in> set (snd (key_step c md)). d < 128" unfolding md using key_char_small [of sh ca "c AND 0x7F"] by (auto simp: Let_def)
  moreover have "\<forall>d \<in> set (typed cs (fst (key_step c md))). d < 128" by (rule Cons.IH)
  ultimately show ?case by (auto simp: case_prod_beta)
qed simp

text \<open>The driver at power-on: no modifier, an empty buffer.\<close>

definition kbd_init :: kbd where
  "kbd_init = \<lparr>shift_down = False, caps_lock = False, ctrl_down = False, kbd_buf = replicate 256 0,
     kbd_head = 0, kbd_tail = 0, kbd_if = True\<rparr>"

lemma kbd_init_ok: "kbd_ok kbd_init" "kbd_contents kbd_init = []" "mods_of kbd_init = (False, False, False)"
  by (simp_all add: kbd_init_def kbd_ok_def kbd_contents_def kbd_count_def mods_of_def)

section \<open>Properties of the keyboard\<close>



text \<open>
  The letter keys type the letters of the alphabet, capitals exactly when one of shift
  and caps lock is on; no key types a code above 127; and a release types nothing.
\<close>

lemma keyboard_layout:
  "(i < 26 \<longrightarrow> get_ascii_char s (letter_keys ! i) =
      (if shift_down s \<noteq> caps_lock s then of_char CHR ''A'' else of_char CHR ''a'') + word_of_nat i) \<and>
   get_ascii_char s k < 128 \<and> (c AND 0x80 \<noteq> 0 \<longrightarrow> kbd_contents (handle_code c s) = kbd_contents s)"
proof (intro conjI impI)
  assume i: "i < 26"
  have "\<forall>i \<in> set [0..<26]. scancode_to_ascii (letter_keys ! i) = of_char CHR ''a'' + word_of_nat i"
    "\<forall>i \<in> set [0..<26]. scancode_to_ascii_shifted (letter_keys ! i) = of_char CHR ''A'' + word_of_nat i"
    "\<forall>i \<in> set [0..<26]. letter_keys ! i \<in> set letter_keys"
    by code_simp+
  then show "get_ascii_char s (letter_keys ! i) =
      (if shift_down s \<noteq> caps_lock s then of_char CHR ''A'' else of_char CHR ''a'') + word_of_nat i"
    using i by (simp add: get_ascii_key_char key_char_def)
next
  show "get_ascii_char s k < 128" by (simp add: get_ascii_key_char key_char_small)
next
  assume c: "c AND 0x80 \<noteq> 0"
  then have "snd (key_step c (mods_of s)) = []" by (simp add: mods_of_def Let_def)
  then have "handle_code c s = set_mods (fst (key_step c (mods_of s))) s" by (simp add: handle_code_step)
  moreover have "same_buf s s" by (simp add: same_buf_def)
  ultimately show "kbd_contents (handle_code c s) = kbd_contents s"
    using same_buf_ops(5) [OF same_buf_ops(2)] by metis
qed

end
