(* ===== verification/Clock.thy ===== *)
theory Clock
  imports Multitask Portio
begin

text \<open>
  Time: the timer interrupt of \<open>time/timer.c\<close> with its counters, the clock of
  \<open>time/clock/clock.c\<close>, and the reader of the CMOS clock, \<open>time/clock/rtc.c\<close>.
\<close>

section \<open>Clock and timer\<close>

record ClockTime =
  hh :: u8
  mm :: u8
  ss :: u8

definition clock_tick :: "ClockTime \<Rightarrow> ClockTime" where
  "clock_tick c =
     (let c = c\<lparr>ss := ss c + 1\<rparr>
      in if 60 \<le> ss c then
           let c = c\<lparr>ss := 0, mm := mm c + 1\<rparr>
           in if 60 \<le> mm c then
                let c = c\<lparr>mm := 0, hh := hh c + 1\<rparr>
                in if 24 \<le> hh c then c\<lparr>hh := 0\<rparr> else c
              else c
         else c)"

record timer =
  tick_time :: u16
  seconds :: u32
  system_clock :: ClockTime

text \<open>The counting that both timer handlers start with.\<close>

definition count_tick :: "timer \<Rightarrow> timer" where
  "count_tick t =
     (let t = t\<lparr>tick_time := tick_time t + 1\<rparr>
      in if 1000 \<le> tick_time t
         then t\<lparr>tick_time := 0, seconds := seconds t + 1, system_clock := clock_tick (system_clock t)\<rparr>
         else t)"

definition timer_tick :: "timer \<times> trace \<Rightarrow> timer \<times> trace" where
  "timer_tick = (\<lambda>(t, tr). (count_tick t, pic_send_eoi 0 tr))"

text \<open>
  What the stub \<open>isr32\<close> calls: first \<open>timer_tick\<close>, then the scheduler; the result is the frame to
  restore.  The older handler \<open>isr_timer_dispatch\<close> does the same in one function.
\<close>

definition timer_calls ::
  "layout \<Rightarrow> ptr \<Rightarrow> timer \<times> trace \<times> sched \<Rightarrow> ((timer \<times> trace \<times> sched) \<times> ptr) option"
where
  "timer_calls L regs = (\<lambda>(t, tr, s).
     let (t, tr) = timer_tick (t, tr)
     in map_option (\<lambda>(s, out_regs). ((t, tr, s), out_regs)) (schedule_from_isr L regs s))"

definition isr_timer_dispatch ::
  "layout \<Rightarrow> ptr \<Rightarrow> timer \<times> trace \<times> sched \<Rightarrow> ((timer \<times> trace \<times> sched) \<times> ptr) option"
where
  "isr_timer_dispatch L regs_ptr = (\<lambda>(t, tr, s).
     let t = count_tick t; tr = pic_send_eoi 0 tr
     in map_option (\<lambda>(s, out_regs). ((t, tr, s), out_regs)) (schedule_from_isr L regs_ptr s))"

definition init_timer :: "u32 \<Rightarrow> trace \<Rightarrow> trace" where
  "init_timer frequency tr =
     (let divisor = 1193180 div frequency;
          tr = outb 0x43 0x36 tr;
          tr = outb 0x40 (ucast (divisor AND 0xFF)) tr
      in outb 0x40 (ucast (drop_bit 8 divisor AND 0xFF)) tr)"

text \<open>The nine bytes \<open>hh:mm:ss\<close> with the terminating zero, stored at \<open>buffer\<close>.\<close>

definition format_clock :: "mem \<Rightarrow> ptr \<Rightarrow> ClockTime \<Rightarrow> mem" where
  "format_clock m buffer t = st_bytes m buffer
     [0x30 + hh t div 10, 0x30 + hh t mod 10, 0x3A, 0x30 + mm t div 10, 0x30 + mm t mod 10, 0x3A,
      0x30 + ss t div 10, 0x30 + ss t mod 10, 0]"

section \<open>The CMOS clock\<close>

abbreviation TIMEZONE_OFFSET :: u32 where "TIMEZONE_OFFSET \<equiv> 7"

definition rtc_wait_ready :: "device \<Rightarrow> trace \<Rightarrow> trace option" where
  "rtc_wait_ready dev tr = poll dev (outb 0x70 0x0A) 0x71 0x80 tr"

definition cmos_read :: "device \<Rightarrow> u8 \<Rightarrow> trace \<Rightarrow> u8 \<times> trace" where
  "cmos_read dev reg tr = inb dev 0x71 (outb 0x70 reg tr)"

definition bcd_to_bin :: "u8 \<Rightarrow> u8" where
  "bcd_to_bin bcd = (bcd AND 0x0F) + drop_bit 4 bcd * 10"

definition read_rtc_time :: "device \<Rightarrow> trace \<Rightarrow> ((u32 \<times> u32 \<times> u32) \<times> trace) option" where
  "read_rtc_time dev tr = Option.bind (rtc_wait_ready dev tr) (\<lambda>tr.
     let (s, tr) = cmos_read dev 0x00 tr;
         (m, tr) = cmos_read dev 0x02 tr;
         (h, tr) = cmos_read dev 0x04 tr;
         (regB, tr) = cmos_read dev 0x0B tr;
         (s, m, h) = (if regB AND 0x04 = 0 then (bcd_to_bin s, bcd_to_bin m, bcd_to_bin (h AND 0x7F))
                      else (s, m, h AND 0x7F));
         (h, tr) = (if regB AND 0x02 = 0 then
                      let (pm, tr) = cmos_read dev 0x04 tr
                      in (if pm AND 0x80 \<noteq> 0 then ucast ((ucast h + 12 :: u32) mod 24) else h, tr)
                    else (h, tr));
         h = (ucast ((ucast h + TIMEZONE_OFFSET + 24 :: u32) mod 24) :: u8)
     in Some ((ucast h, ucast m, ucast s), tr))"

definition init_system_clock :: "device \<Rightarrow> timer \<times> trace \<Rightarrow> (timer \<times> trace) option" where
  "init_system_clock dev = (\<lambda>(t, tr).
     map_option (\<lambda>((h, m, s), tr). (t\<lparr>system_clock := \<lparr>hh = ucast h, mm = ucast m, ss = ucast s\<rparr>\<rparr>, tr))
       (read_rtc_time dev tr))"

section \<open>Counting\<close>

definition clock_ok :: "ClockTime \<Rightarrow> bool" where
  "clock_ok c \<longleftrightarrow> unat (hh c) < 24 \<and> unat (mm c) < 60 \<and> unat (ss c) < 60"

text \<open>Seconds since midnight.\<close>

definition tod :: "ClockTime \<Rightarrow> nat" where
  "tod c = unat (hh c) * 3600 + unat (mm c) * 60 + unat (ss c)"

lemma unat_inc8: "unat (x :: u8) < 255 \<Longrightarrow> unat (x + 1) = unat x + 1"
  using unat_add_small [of x 1] by simp

lemma clock_tick_tod:
  assumes "clock_ok c"
  shows "clock_ok (clock_tick c)" "tod (clock_tick c) = (tod c + 1) mod 86400"
proof -
  have b: "unat (hh c) < 24" "unat (mm c) < 60" "unat (ss c) < 60" using assms by (simp_all add: clock_ok_def)
  have i: "unat (hh c + 1) = unat (hh c) + 1" "unat (mm c + 1) = unat (mm c) + 1" "unat (ss c + 1) = unat (ss c) + 1"
    using b by (simp_all add: unat_inc8)
  have lt: "tod c < 86400" using b by (simp add: tod_def)
  have le: "60 \<le> ss c + 1 \<longleftrightarrow> unat (ss c) = 59" "60 \<le> mm c + 1 \<longleftrightarrow> unat (mm c) = 59" "24 \<le> hh c + 1 \<longleftrightarrow> unat (hh c) = 23"
    using b i by (auto simp: word_le_nat_alt)
  show "clock_ok (clock_tick c)"
    using b i le by (auto simp: clock_tick_def Let_def clock_ok_def)
  show "tod (clock_tick c) = (tod c + 1) mod 86400"
    using b i le lt by (auto simp: clock_tick_def Let_def tod_def)
qed

text \<open>The milliseconds since midnight that the counters stand for.\<close>

lemma count_tick_step:
  assumes "clock_ok (system_clock t)" "unat (tick_time t) < 1000"
  shows "clock_ok (system_clock (count_tick t))" "unat (tick_time (count_tick t)) = (unat (tick_time t) + 1) mod 1000"
    "tod (system_clock (count_tick t)) = (tod (system_clock t) + (unat (tick_time t) + 1) div 1000) mod 86400"
    "seconds (count_tick t) = seconds t + word_of_nat ((unat (tick_time t) + 1) div 1000)"
proof -
  have u: "unat (tick_time t + 1) = unat (tick_time t) + 1" using assms(2) unat_add_small [of "tick_time t" 1] by simp
  have c: "1000 \<le> tick_time t + 1 \<longleftrightarrow> unat (tick_time t) = 999" using assms(2) u by (auto simp: word_le_nat_alt)
  have d: "(unat (tick_time t) + 1) div 1000 = (if unat (tick_time t) = 999 then 1 else 0)" using assms(2) by auto
  have tt: "tod (system_clock t) < 86400" using assms(1) by (simp add: clock_ok_def tod_def)
  show "clock_ok (system_clock (count_tick t))" using assms(1) clock_tick_tod(1) by (simp add: count_tick_def Let_def)
  show "unat (tick_time (count_tick t)) = (unat (tick_time t) + 1) mod 1000"
    using assms(2) u c by (auto simp: count_tick_def Let_def)
  show "tod (system_clock (count_tick t)) = (tod (system_clock t) + (unat (tick_time t) + 1) div 1000) mod 86400"
    using clock_tick_tod(2) [OF assms(1)] c d tt by (simp add: count_tick_def Let_def)
  show "seconds (count_tick t) = seconds t + word_of_nat ((unat (tick_time t) + 1) div 1000)"
    using c d by (simp add: count_tick_def Let_def)
qed

lemma count_ticks:
  assumes "clock_ok (system_clock t)" "unat (tick_time t) < 1000"
  shows "clock_ok (system_clock ((count_tick ^^ n) t)) \<and>
    unat (tick_time ((count_tick ^^ n) t)) = (unat (tick_time t) + n) mod 1000 \<and>
    tod (system_clock ((count_tick ^^ n) t)) = (tod (system_clock t) + (unat (tick_time t) + n) div 1000) mod 86400 \<and>
    seconds ((count_tick ^^ n) t) = seconds t + word_of_nat ((unat (tick_time t) + n) div 1000)"
proof (induction n)
  case 0
  have "tod (system_clock t) < 86400" using assms(1) by (simp add: clock_ok_def tod_def)
  then show ?case using assms by simp
next
  case (Suc n)
  let ?t = "(count_tick ^^ n) t" and ?a = "unat (tick_time t) + n"
  from Suc have ih: "clock_ok (system_clock ?t)" "unat (tick_time ?t) = ?a mod 1000"
    "tod (system_clock ?t) = (tod (system_clock t) + ?a div 1000) mod 86400"
    "seconds ?t = seconds t + word_of_nat (?a div 1000)" by blast+
  have lt: "unat (tick_time ?t) < 1000" unfolding ih(2) by (rule mod_less_divisor) simp
  note st = count_tick_step [OF ih(1) lt, unfolded ih(2,3,4)]
  have "Suc ?a = (?a mod 1000 + 1) + ?a div 1000 * 1000" using div_mult_mod_eq [of ?a 1000] by linarith
  then have dv: "?a div 1000 + (?a mod 1000 + 1) div 1000 = (unat (tick_time t) + Suc n) div 1000"
    using div_mult_self1 [of 1000 "?a mod 1000 + 1" "?a div 1000"] by simp
  have f: "(count_tick ^^ Suc n) t = count_tick ?t" by simp
  have "unat (tick_time (count_tick ?t)) = (unat (tick_time t) + Suc n) mod 1000"
    unfolding st(2) mod_add_left_eq by simp
  moreover have "tod (system_clock (count_tick ?t)) = (tod (system_clock t) + (unat (tick_time t) + Suc n) div 1000) mod 86400"
    unfolding st(3) mod_add_left_eq add.assoc dv ..
  moreover have "seconds (count_tick ?t) = seconds t + word_of_nat ((unat (tick_time t) + Suc n) div 1000)"
    unfolding st(4) dv [symmetric] of_nat_add add.assoc ..
  ultimately show ?case unfolding f using st(1) by blast
qed

text \<open>Successive timer interrupts.\<close>

fun isr_runs :: "layout \<Rightarrow> ptr list \<Rightarrow> timer \<times> trace \<times> sched \<Rightarrow> (timer \<times> trace \<times> sched) option" where
  "isr_runs L [] st = Some st"
| "isr_runs L (r # rs) st = Option.bind (timer_calls L r st) (\<lambda>(st', frame). isr_runs L rs st')"

lemma dispatch_calls: "isr_timer_dispatch = timer_calls"
  by (simp add: fun_eq_iff isr_timer_dispatch_def timer_calls_def timer_tick_def Let_def)

lemma isr_runs_count:
  assumes "sched_ok L s xs"
  shows "\<exists>tr' s'. isr_runs L rs (t, tr, s) = Some ((count_tick ^^ length rs) t, tr', s') \<and> ticks L rs s = Some s' \<and>
    tr' = tr @ replicate (length rs) (Outb PIC1_COMMAND 0x20)"
  using assms
proof (induction rs arbitrary: t tr s)
  case (Cons r rs)
  obtain s1 fr where s1: "schedule_from_isr L r s = Some (s1, fr)" "tick_post L r xs s s1 fr"
    using schedule_ok [OF Cons.prems, of r] by blast
  then have "sched_ok L s1 xs" by (simp add: tick_post_def)
  from Cons.IH [OF this, of "count_tick t" "pic_send_eoi 0 tr"] show ?case
    using s1(1) by (auto simp: timer_calls_def timer_tick_def Let_def funpow_swap1 pic_send_eoi_def outb_def)
qed simp

section \<open>Reading the CMOS clock\<close>

text \<open>The documented interface of the clock chip: a read of port 0x71 returns the register selected on 0x70.\<close>

definition cmos :: "device \<Rightarrow> (u8 \<Rightarrow> u8) \<Rightarrow> bool" where
  "cmos dev R \<longleftrightarrow> (\<forall>tr r. ucast (dev (tr @ [Outb 0x70 r]) 0x71) = R r)"

lemma cmos_read_value: "cmos dev R \<Longrightarrow> cmos_read dev r tr = (R r, tr @ [Outb 0x70 r, Inb 0x71 (R r)])"
  by (simp add: cmos_def cmos_read_def inb_def outb_def Let_def)

lemma rtc_ready:
  assumes "cmos dev R" "R 0x0A AND 0x80 = 0"
  shows "rtc_wait_ready dev tr = Some (tr @ [Outb 0x70 0x0A, Inb 0x71 (R 0x0A)])"
  using assms by (simp add: rtc_wait_ready_def poll_step [of dev _ _ _ tr] cmos_def inb_def outb_def Let_def)

definition bcd :: "nat \<Rightarrow> u8" where
  "bcd n = word_of_nat (n div 10 * 16 + n mod 10)"

lemma bcd_to_bin_bcd: "n < 100 \<Longrightarrow> bcd_to_bin (bcd n) = word_of_nat n"
proof -
  have "\<forall>n \<in> set [0..<100]. bcd_to_bin (bcd n) = word_of_nat n" by code_simp
  then show "n < 100 \<Longrightarrow> bcd_to_bin (bcd n) = word_of_nat n" by simp
qed

lemma bcd_hour:
  assumes "h < 24"
  shows "bcd h AND 0x7F = bcd h"
    "ucast ((ucast (word_of_nat h :: u8) + TIMEZONE_OFFSET + 24 :: u32) mod 24) = (word_of_nat ((h + 7) mod 24) :: u8)"
proof -
  have "\<forall>n \<in> set [0..<24]. bcd n AND 0x7F = bcd n"
    "\<forall>n \<in> set [0..<24]. ucast ((ucast (word_of_nat n :: u8) + TIMEZONE_OFFSET + 24 :: u32) mod 24) = (word_of_nat ((n + 7) mod 24) :: u8)"
    by code_simp+
  then show "bcd h AND 0x7F = bcd h"
    "ucast ((ucast (word_of_nat h :: u8) + TIMEZONE_OFFSET + 24 :: u32) mod 24) = (word_of_nat ((h + 7) mod 24) :: u8)"
    using assms by simp_all
qed

lemma ucast_ucast8: "ucast (ucast (x :: u8) :: u32) = x"
  by (simp add: ucast_up_ucast_id is_up)

text \<open>A clock chip with fixed registers, for the concrete instances.\<close>

definition demo_regs :: "u8 \<Rightarrow> u8" where
  "demo_regs r = (if r = 0x00 then 0x58 else if r = 0x02 then 0x59 else if r = 0x04 then 0x21 else if r = 0x0B then 0x02 else 0)"

definition demo_dev :: device where
  "demo_dev tr p = (case rev tr of Outb q r # _ \<Rightarrow> if q = 0x70 \<and> p = 0x71 then ucast (demo_regs r) else 0 | _ \<Rightarrow> 0)"

lemma demo_cmos: "cmos demo_dev demo_regs"
  by (simp add: cmos_def demo_dev_def ucast_up_ucast_id is_up)

lemma rtc_clock:
  assumes "cmos dev R" "R 0x0A AND 0x80 = 0" "R 0x0B AND 0x04 = 0" "R 0x0B AND 0x02 \<noteq> 0"
    "R 0x04 = bcd h" "R 0x02 = bcd m" "R 0x00 = bcd s" "h < 24" "m < 60" "s < 60"
  shows "\<exists>c tr'. init_system_clock dev (t, tr) = Some (t\<lparr>system_clock := c\<rparr>, tr') \<and> clock_ok c \<and>
    tod c = (h + 7) mod 24 * 3600 + m * 60 + s"
proof -
  let ?c = "\<lparr>hh = word_of_nat ((h + 7) mod 24), mm = word_of_nat m, ss = word_of_nat s\<rparr>"
  have "\<exists>tr'. init_system_clock dev (t, tr) = Some (t\<lparr>system_clock := ?c\<rparr>, tr')"
    using assms(3-10) bcd_to_bin_bcd [of m] bcd_to_bin_bcd [of s] bcd_to_bin_bcd [of h] bcd_hour [OF assms(8)]
    by (simp add: init_system_clock_def read_rtc_time_def rtc_ready [OF assms(1,2)] cmos_read_value [OF assms(1)]
        Let_def ucast_ucast8)
  moreover have "unat (word_of_nat m :: u8) = m" "unat (word_of_nat s :: u8) = s"
    "unat (word_of_nat ((h + 7) mod 24) :: u8) = (h + 7) mod 24" "(h + 7) mod 24 < 24"
    using assms(9,10) by (simp_all add: unat_of_nat)
  then have "clock_ok ?c" "tod ?c = (h + 7) mod 24 * 3600 + m * 60 + s"
    using assms(9,10) by (simp_all add: clock_ok_def tod_def)
  ultimately show ?thesis by blast
qed

section \<open>Properties of the clock\<close>

text \<open>
  C33: The timer interrupt keeps time: after any number \<open>n\<close> of interrupts the second counter
  has grown by the whole thousands and the clock shows the time of day that lies so many
  seconds later, across minutes, hours and midnight; each interrupt is acknowledged once
  and the scheduler sees the same ticks.  The single handler \<open>isr_timer_dispatch\<close> does the same as
  the two calls of the stub.
\<close>

theorem timer_keeps_time:
  assumes "sched_ok L s xs" "clock_ok (system_clock t)" "unat (tick_time t) < 1000"
  shows "\<exists>t' tr' s'. isr_runs L rs (t, tr, s) = Some (t', tr', s') \<and> ticks L rs s = Some s' \<and>
    tr' = tr @ replicate (length rs) (Outb PIC1_COMMAND 0x20) \<and> clock_ok (system_clock t') \<and>
    tod (system_clock t') = (tod (system_clock t) + (unat (tick_time t) + length rs) div 1000) mod 86400 \<and>
    seconds t' = seconds t + word_of_nat ((unat (tick_time t) + length rs) div 1000) \<and>
    isr_timer_dispatch L r (t, tr, s) = timer_calls L r (t, tr, s)"
  using dispatch_calls isr_runs_count [OF assms(1), of rs t tr] count_ticks [OF assms(2,3), of "length rs"] by auto

theorem timer_keeps_time_witness:
  "\<exists>t' tr' s'. isr_runs demo_L (replicate 2000 0x6000)
      (\<lparr>tick_time = 0, seconds = 0, system_clock = \<lparr>hh = 23, mm = 59, ss = 58\<rparr>\<rparr>, [], demo_s0) = Some (t', tr', s') \<and>
     tod (system_clock t') = 0 \<and> seconds t' = 2"
proof -
  let ?t = "\<lparr>tick_time = 0, seconds = 0, system_clock = \<lparr>hh = 23, mm = 59, ss = 58\<rparr>\<rparr>"
  have "sched_ok demo_L demo_s0 [0x800]" using demo_s0_inv by (simp add: life_inv_def sched_inv_def)
  moreover have "clock_ok (system_clock ?t)" "unat (tick_time ?t) < 1000" "tod (system_clock ?t) = 86398"
    by (simp_all add: clock_ok_def tod_def)
  moreover define rs :: "ptr list" where "rs = replicate 2000 0x6000"
  moreover have "length rs = 2000" by (simp add: rs_def)
  ultimately show ?thesis
    unfolding rs_def [symmetric] using timer_keeps_time [of demo_L demo_s0 "[0x800]" ?t rs "[]"] by fastforce
qed

text \<open>
  C34: From a clock chip in BCD and 24-hour mode the start-up code sets the clock to the
  chip's time shifted by the time zone of seven hours, which is a proper time of day.
\<close>

theorem rtc_sets_clock:
  assumes "cmos dev R" "R 0x0A AND 0x80 = 0" "R 0x0B AND 0x04 = 0" "R 0x0B AND 0x02 \<noteq> 0"
    "R 0x04 = bcd h" "R 0x02 = bcd m" "R 0x00 = bcd s" "h < 24" "m < 60" "s < 60"
  shows "\<exists>c tr'. init_system_clock dev (t, tr) = Some (t\<lparr>system_clock := c\<rparr>, tr') \<and> clock_ok c \<and>
    tod c = (h + 7) mod 24 * 3600 + m * 60 + s"
  using assms by (rule rtc_clock)

theorem rtc_sets_clock_witness:
  "\<exists>c tr'. init_system_clock demo_dev (\<lparr>tick_time = 0, seconds = 0, system_clock = \<lparr>hh = 0, mm = 0, ss = 0\<rparr>\<rparr>, []) =
     Some (\<lparr>tick_time = 0, seconds = 0, system_clock = c\<rparr>, tr') \<and> tod c = 4 * 3600 + 59 * 60 + 58"
proof -
  have "demo_regs 0x04 = bcd 21" "demo_regs 0x02 = bcd 59" "demo_regs 0x00 = bcd 58"
    by (simp_all add: demo_regs_def bcd_def)
  moreover have "demo_regs 0x0A AND 0x80 = 0" "demo_regs 0x0B AND 0x04 = 0" "demo_regs 0x0B AND 0x02 \<noteq> 0"
    by (simp_all add: demo_regs_def)
  ultimately show ?thesis
    using rtc_sets_clock [OF demo_cmos, of 21 59 58 "\<lparr>tick_time = 0, seconds = 0, system_clock = \<lparr>hh = 0, mm = 0, ss = 0\<rparr>\<rparr>" "[]"]
    by fastforce
qed

text \<open>
  In 12-hour mode the afternoon flag adds twelve to every hour, also to 12: the chip's
  12 PM is read as hour 0 and, with the time zone, the clock shows 07 instead of 19.
\<close>

lemma rtc_noon_is_midnight:
  assumes "cmos dev R" "R 0x0A AND 0x80 = 0" "R 0x0B = 0" "R 0x04 = 0x92" "R 0x02 = 0" "R 0x00 = 0"
  shows "\<exists>tr'. read_rtc_time dev tr = Some ((7, 0, 0), tr')"
  using assms(3-6)
  by (simp add: read_rtc_time_def rtc_ready [OF assms(1,2)] cmos_read_value [OF assms(1)] Let_def bcd_to_bin_def)

end
