(* ===== verification/Vga.thy ===== *)
theory Vga
  imports Clock Libc_String
begin

text \<open>
  The text console, \<open>vga/vga.c\<close>: the cursor, the video memory at \<open>0xB8000\<close> as a range of the
  byte memory, and the cursor registers of the controller behind the port trace.  The
  console is shown to refine a screen of 2000 cells.
\<close>

section \<open>State and colours\<close>

abbreviation VGA_BUF :: ptr where "VGA_BUF \<equiv> 0xB8000"
definition VGA_WIDTH :: nat where "VGA_WIDTH = 80"
definition VGA_HEIGHT :: nat where "VGA_HEIGHT = 25"
abbreviation TAB_SIZE :: u32 where "TAB_SIZE \<equiv> 8"
abbreviation VGA_CTRL :: u16 where "VGA_CTRL \<equiv> 0x3D4"
abbreviation VGA_DATA :: u16 where "VGA_DATA \<equiv> 0x3D5"

datatype vga_color = BLACK | BLUE | GREEN | CYAN | RED | MAGENTA | BROWN | GREY | DARK_GREY | BRIGHT_BLUE
  | BRIGHT_GREEN | BRIGHT_CYAN | BRIGHT_RED | BRIGHT_MAGENTA | YELLOW | WHITE

fun color_code :: "vga_color \<Rightarrow> u8" where
  "color_code BLACK = 0" | "color_code BLUE = 1" | "color_code GREEN = 2" | "color_code CYAN = 3"
| "color_code RED = 4" | "color_code MAGENTA = 5" | "color_code BROWN = 6" | "color_code GREY = 7"
| "color_code DARK_GREY = 8" | "color_code BRIGHT_BLUE = 9" | "color_code BRIGHT_GREEN = 10"
| "color_code BRIGHT_CYAN = 11" | "color_code BRIGHT_RED = 12" | "color_code BRIGHT_MAGENTA = 13"
| "color_code YELLOW = 14" | "color_code WHITE = 15"

record vga =
  vx :: u8
  vy :: u8
  vmem :: mem
  vio :: trace

definition make_color :: "u8 \<Rightarrow> u8 \<Rightarrow> u8" where
  "make_color fore back = push_bit 4 back OR (fore AND 0x0F)"

text \<open>One cell: a character byte and an attribute byte at an offset in bytes.\<close>

definition put_cell :: "mem \<Rightarrow> u32 \<Rightarrow> u8 \<Rightarrow> u8 \<Rightarrow> mem" where
  "put_cell m offset c color = (m(VGA_BUF + ucast offset := c))(VGA_BUF + ucast (offset + 1) := color)"

text \<open>The address arithmetic \<open>(y * VGA_WIDTH + x) * 2\<close> on \<open>unsigned int\<close>.\<close>

definition cell_offset :: "u32 \<Rightarrow> u32 \<Rightarrow> u32" where
  "cell_offset x y = (y * 80 + x) * 2"

section \<open>Operations\<close>

definition update_hardware_cursor :: "u8 \<Rightarrow> u8 \<Rightarrow> trace \<Rightarrow> trace" where
  "update_hardware_cursor x y tr =
     (let pos = (ucast y * 80 + ucast x :: u16);
          tr = outb VGA_CTRL 0x0E tr;
          tr = outb VGA_DATA (ucast (drop_bit 8 pos AND 0xFF)) tr;
          tr = outb VGA_CTRL 0x0F tr
      in outb VGA_DATA (ucast (pos AND 0xFF)) tr)"

definition clean_screen :: "vga \<Rightarrow> vga" where
  "clean_screen v =
     v\<lparr>vmem := fold (\<lambda>i m. put_cell m (2 * word_of_nat i) 0x20 0x07) [0..<VGA_WIDTH * VGA_HEIGHT] (vmem v),
       vx := 0, vy := 0\<rparr>"

definition copy_cell :: "nat \<Rightarrow> nat \<Rightarrow> mem \<Rightarrow> mem" where
  "copy_cell i j m = put_cell m (2 * word_of_nat i) (m (VGA_BUF + word_of_nat (2 * j))) (m (VGA_BUF + word_of_nat (2 * j + 1)))"

definition scroll_screen :: "vga \<Rightarrow> vga" where
  "scroll_screen v =
     (let m = fold (\<lambda>i. copy_cell i (i + VGA_WIDTH)) [0..<(VGA_HEIGHT - 1) * VGA_WIDTH] (vmem v);
          m = fold (\<lambda>i m. put_cell m (2 * word_of_nat i) 0x20 (make_color 0 0))
                [(VGA_HEIGHT - 1) * VGA_WIDTH..<VGA_HEIGHT * VGA_WIDTH] m
      in v\<lparr>vmem := m, vy := (if 0 < vy v then vy v - 1 else vy v)\<rparr>)"

definition print_char_position :: "u8 \<Rightarrow> u32 \<Rightarrow> u32 \<Rightarrow> u8 \<Rightarrow> u8 \<Rightarrow> vga \<Rightarrow> vga" where
  "print_char_position c x y fore back v =
     (if 80 \<le> x \<or> 25 \<le> y then v
      else v\<lparr>vmem := put_cell (vmem v) (cell_offset x y) c (make_color fore back)\<rparr>)"

text \<open>The cursor goes to the start of the next line, with a scroll at the bottom.\<close>

definition next_line :: "vga \<Rightarrow> vga" where
  "next_line v =
     (let v = v\<lparr>vx := 0, vy := vy v + 1\<rparr>
      in if 25 \<le> vy v then (scroll_screen v)\<lparr>vy := 24\<rparr> else v)"

definition print_char :: "u8 \<Rightarrow> u8 \<Rightarrow> u8 \<Rightarrow> vga \<Rightarrow> vga" where
  "print_char c fore back v =
     (if c = 0x0A then next_line v
      else
        let v = v\<lparr>vmem := put_cell (vmem v) (cell_offset (ucast (vx v)) (ucast (vy v))) c (make_color fore back)\<rparr>;
            v = v\<lparr>vx := vx v + 1\<rparr>;
            v = (if 80 \<le> vx v then next_line v else v)
        in v\<lparr>vio := update_hardware_cursor (vx v) (vy v) (vio v)\<rparr>)"

text \<open>The spaces of a tab, up to the next column that is a multiple of \<open>TAB_SIZE\<close>.\<close>

fun tab_loop :: "nat \<Rightarrow> u8 \<Rightarrow> mem \<times> u32 \<times> u32 \<Rightarrow> mem \<times> u32 \<times> u32" where
  "tab_loop 0 color (m, offset, col) = (m, offset, col)"
| "tab_loop (Suc n) color (m, offset, col) = tab_loop n color (put_cell m offset 0x20 color, offset + 2, col + 1)"

definition position_step :: "u8 \<Rightarrow> u8 \<Rightarrow> mem \<times> u32 \<times> u32 \<Rightarrow> mem \<times> u32 \<times> u32" where
  "position_step c color = (\<lambda>(m, offset, col).
     if c = 0x09 then tab_loop (unat (TAB_SIZE - col mod TAB_SIZE)) color (m, offset, col)
     else (put_cell m offset c color, offset + 2, col + 1))"

partial_function (option) string_position_loop :: "ptr \<Rightarrow> u32 \<Rightarrow> u8 \<Rightarrow> mem \<Rightarrow> u32 \<Rightarrow> u32 \<Rightarrow> mem option" where
  "string_position_loop str i color m offset col =
     (let c = m (str + ucast i)
      in if c = 0 then Some m
         else
           let r = position_step c color (m, offset, col)
           in if 80 \<le> snd (snd r) then Some (fst r)
              else string_position_loop str (i + 1) color (fst r) (fst (snd r)) (snd (snd r)))"

definition print_string_position :: "ptr \<Rightarrow> u32 \<Rightarrow> u32 \<Rightarrow> u8 \<Rightarrow> u8 \<Rightarrow> vga \<Rightarrow> vga option" where
  "print_string_position str x y fore back v =
     map_option (\<lambda>m. v\<lparr>vmem := m\<rparr>)
       (string_position_loop str 0 (make_color fore back) (vmem v) (cell_offset x y) x)"

partial_function (option) print_string_loop :: "ptr \<Rightarrow> u8 \<Rightarrow> u8 \<Rightarrow> vga \<Rightarrow> vga option" where
  "print_string_loop p fore back v =
     (let c = vmem v p
      in if c = 0 then Some v
         else print_string_loop (p + 1) fore back
                (if c = 0x0A then next_line v else print_char c fore back v))"

definition print_string :: "ptr \<Rightarrow> u8 \<Rightarrow> u8 \<Rightarrow> vga \<Rightarrow> vga option" where
  "print_string str fore back v =
     map_option (\<lambda>v. v\<lparr>vio := update_hardware_cursor (vx v) (vy v) (vio v)\<rparr>) (print_string_loop str fore back v)"

definition backspace :: "vga \<Rightarrow> vga" where
  "backspace v =
     (let v = (if vx v = 0 then if 0 < vy v then v\<lparr>vy := vy v - 1, vx := 79\<rparr> else v
               else v\<lparr>vx := vx v - 1\<rparr>);
          v = v\<lparr>vmem := put_cell (vmem v) (cell_offset (ucast (vx v)) (ucast (vy v))) 0x20 (make_color 0 0)\<rparr>
      in v\<lparr>vio := update_hardware_cursor (vx v) (vy v) (vio v)\<rparr>)"

definition format_up :: "mem \<Rightarrow> u32 \<Rightarrow> ptr \<Rightarrow> mem" where
  "format_up m total_seconds buffer =
     (let hours = total_seconds div 3600;
          minutes = (total_seconds mod 3600) div 60;
          secs = total_seconds mod 60
      in st_bytes m buffer
           [0x30 + ucast ((hours div 10) mod 10), 0x30 + ucast (hours mod 10), 0x3A,
            0x30 + ucast (minutes div 10), 0x30 + ucast (minutes mod 10), 0x3A,
            0x30 + ucast (secs div 10), 0x30 + ucast (secs mod 10), 0])"

text \<open>The loop of \<open>print_systemup\<close> and \<open>print_time\<close>: characters from column 70 on, line \<open>y\<close>.\<close>

partial_function (option) print_time_loop :: "ptr \<Rightarrow> u32 \<Rightarrow> u32 \<Rightarrow> vga \<Rightarrow> vga option" where
  "print_time_loop buf i y v =
     (let c = vmem v (buf + ucast i)
      in if c = 0 then Some v
         else print_time_loop buf (i + 1) y
                (print_char_position c (70 + i) y (color_code YELLOW) (color_code BLACK) v))"

definition print_systemup :: "ptr \<Rightarrow> u32 \<Rightarrow> vga \<Rightarrow> vga option" where
  "print_systemup time_up secs v = print_time_loop time_up 0 23 (v\<lparr>vmem := format_up (vmem v) secs time_up\<rparr>)"

definition print_time :: "ptr \<Rightarrow> ClockTime \<Rightarrow> vga \<Rightarrow> vga option" where
  "print_time time_str t v = print_time_loop time_str 0 24 (v\<lparr>vmem := format_clock (vmem v) time_str t\<rparr>)"

declare string_position_loop.simps [code] print_string_loop.simps [code] print_time_loop.simps [code]

section \<open>Cells\<close>

text \<open>The 2000 cells of the screen, kept folded.\<close>

definition CELLS :: nat where "CELLS = VGA_WIDTH * VGA_HEIGHT"

lemma CELLS_value: "CELLS = 2000"
  by (simp add: CELLS_def VGA_WIDTH_def VGA_HEIGHT_def)

definition cell :: "mem \<Rightarrow> nat \<Rightarrow> u8 \<times> u8" where
  "cell m i = (m (VGA_BUF + word_of_nat (2 * i)), m (VGA_BUF + word_of_nat (2 * i + 1)))"

text \<open>Two memories that differ in the video memory at most.\<close>

definition screen_only :: "mem \<Rightarrow> mem \<Rightarrow> bool" where
  "screen_only m m' \<longleftrightarrow> (\<forall>x. \<not> in_range x VGA_BUF 4000 \<longrightarrow> m' x = m x)"

lemma screen_only_refl [simp]: "screen_only m m"
  by (simp add: screen_only_def)

lemma screen_only_trans: "screen_only m m' \<Longrightarrow> screen_only m' m'' \<Longrightarrow> screen_only m m''"
  by (simp add: screen_only_def)

lemma unat_video: "k < 4000 \<Longrightarrow> unat (VGA_BUF + word_of_nat k) = 0xB8000 + k"
  using unat_add_of_nat [of VGA_BUF k] by simp

lemma video_eq: "k < 4000 \<Longrightarrow> l < 4000 \<Longrightarrow> VGA_BUF + word_of_nat k = VGA_BUF + word_of_nat l \<longleftrightarrow> k = l"
  using unat_video [of k] unat_video [of l] by (metis add_left_cancel)

lemma ucast_offset: "unat (off :: u32) = k \<Longrightarrow> (ucast off :: ptr) = word_of_nat k"
  by auto

lemma put_cell_cell:
  assumes "unat off = 2 * i" "i < CELLS"
  shows "\<And>j. j < CELLS \<Longrightarrow> cell (put_cell m off c col) j = (if j = i then (c, col) else cell m j)"
    "screen_only m (put_cell m off c col)"
proof -
  have i: "2 * i + 1 < 4000" using assms(2) by (simp add: CELLS_value)
  have "unat (off + 1) = 2 * i + 1" using unat_add_small [of off 1] assms(1) i by simp
  then have p: "put_cell m off c col =
      (m(VGA_BUF + word_of_nat (2 * i) := c))(VGA_BUF + word_of_nat (2 * i + 1) := col)"
    unfolding put_cell_def using ucast_offset [OF assms(1)] ucast_offset [of "off + 1" "2 * i + 1"] by simp
  show "cell (put_cell m off c col) j = (if j = i then (c, col) else cell m j)" if j: "j < CELLS" for j
  proof -
    have jj: "2 * j + 1 < 4000" using j by (simp add: CELLS_value)
    have "2 * j \<noteq> 2 * i + 1" "2 * j + 1 \<noteq> 2 * i" by presburger+
    then show ?thesis
      unfolding cell_def p fun_upd_apply
      using video_eq [of "2 * j" "2 * i"] video_eq [of "2 * j" "2 * i + 1"] video_eq [of "2 * j + 1" "2 * i"]
        video_eq [of "2 * j + 1" "2 * i + 1"] i jj by (auto simp del: of_nat_add of_nat_mult)
  qed
  have "in_range (VGA_BUF + word_of_nat (2 * i)) VGA_BUF 4000" "in_range (VGA_BUF + word_of_nat (2 * i + 1)) VGA_BUF 4000"
    using unat_video [of "2 * i"] unat_video [of "2 * i + 1"] i by (simp_all add: in_range_def del: of_nat_add of_nat_mult)
  then show "screen_only m (put_cell m off c col)" unfolding screen_only_def p by auto
qed

lemma unat_twice: "i < CELLS \<Longrightarrow> unat (2 * word_of_nat i :: u32) = 2 * i"
  by (simp add: CELLS_value unat_word_ariths unat_of_nat)

lemma fill_cells:
  assumes "a \<le> b" "b \<le> CELLS"
  shows "(\<forall>j < CELLS. cell (fold (\<lambda>i m. put_cell m (2 * word_of_nat i) c col) [a..<b] m) j =
      (if a \<le> j \<and> j < b then (c, col) else cell m j)) \<and>
    screen_only m (fold (\<lambda>i m. put_cell m (2 * word_of_nat i) c col) [a..<b] m)"
  using assms
proof (induction b rule: dec_induct)
  case base
  then show ?case by auto
next
  case (step n)
  let ?m = "fold (\<lambda>i m. put_cell m (2 * word_of_nat i) c col) [a..<n] m"
  have n: "n < CELLS" using step.prems by simp
  have f: "fold (\<lambda>i m. put_cell m (2 * word_of_nat i) c col) [a..<Suc n] m = put_cell ?m (2 * word_of_nat n) c col"
    using step.hyps(1) by simp
  note pc = put_cell_cell [OF unat_twice [OF n] n, where m = ?m and c = c and col = col]
  have "screen_only m (put_cell ?m (2 * word_of_nat n) c col)"
    using step.IH step.prems pc(2) screen_only_trans by (meson Suc_leD)
  moreover have "cell (put_cell ?m (2 * word_of_nat n) c col) j = (if a \<le> j \<and> j < Suc n then (c, col) else cell m j)"
    if "j < CELLS" for j
    unfolding pc(1) [OF that] using step.IH step.prems that step.hyps by auto
  ultimately show ?case unfolding f by blast
qed

lemma copy_cell_cell:
  assumes "i < CELLS" "k < CELLS"
  shows "\<And>j. j < CELLS \<Longrightarrow> cell (copy_cell i k m) j = (if j = i then cell m k else cell m j)"
    "screen_only m (copy_cell i k m)"
  unfolding copy_cell_def using put_cell_cell [OF unat_twice [OF assms(1)] assms(1)] by (simp_all add: cell_def)

lemma scroll_cells:
  assumes "n + VGA_WIDTH \<le> CELLS"
  shows "(\<forall>j < CELLS. cell (fold (\<lambda>i. copy_cell i (i + VGA_WIDTH)) [0..<n] m) j =
      (if j < n then cell m (j + VGA_WIDTH) else cell m j)) \<and>
    screen_only m (fold (\<lambda>i. copy_cell i (i + VGA_WIDTH)) [0..<n] m)"
  using assms
proof (induction n)
  case (Suc n)
  let ?m = "fold (\<lambda>i. copy_cell i (i + VGA_WIDTH)) [0..<n] m"
  have n: "n < CELLS" "n + VGA_WIDTH < CELLS" using Suc.prems by simp_all
  have f: "fold (\<lambda>i. copy_cell i (i + VGA_WIDTH)) [0..<Suc n] m = copy_cell n (n + VGA_WIDTH) ?m" by simp
  note cc = copy_cell_cell [OF n, where m = ?m]
  have ih: "\<forall>j < CELLS. cell ?m j = (if j < n then cell m (j + VGA_WIDTH) else cell m j)" "screen_only m ?m"
    using Suc.IH Suc.prems by simp_all
  have "cell (copy_cell n (n + VGA_WIDTH) ?m) j = (if j < Suc n then cell m (j + VGA_WIDTH) else cell m j)"
    if "j < CELLS" for j
    unfolding cc(1) [OF that] using ih(1) that n by auto
  then show ?case unfolding f using screen_only_trans [OF ih(2) cc(2)] by blast
qed simp

section \<open>The screen\<close>

text \<open>The screen as a list of cells with a cursor, and what printing means on it.\<close>

type_synonym screen = "(u8 \<times> u8) list \<times> nat \<times> nat"

definition blank_line :: "(u8 \<times> u8) list" where
  "blank_line = replicate VGA_WIDTH (0x20, 0x00)"

fun a_newline :: "screen \<Rightarrow> screen" where
  "a_newline (cs, x, y) =
     (if y + 1 < VGA_HEIGHT then (cs, 0, y + 1) else (drop VGA_WIDTH cs @ blank_line, 0, VGA_HEIGHT - 1))"

fun a_putc :: "u8 \<Rightarrow> u8 \<Rightarrow> screen \<Rightarrow> screen" where
  "a_putc col c (cs, x, y) =
     (if c = 0x0A then a_newline (cs, x, y)
      else
        let cs' = cs[y * VGA_WIDTH + x := (c, col)]
        in if x + 1 < VGA_WIDTH then (cs', x + 1, y) else a_newline (cs', x, y))"

definition cells_of :: "mem \<Rightarrow> (u8 \<times> u8) list" where
  "cells_of m = map (cell m) [0..<CELLS]"

definition screen_of :: "vga \<Rightarrow> screen" where
  "screen_of v = (cells_of (vmem v), unat (vx v), unat (vy v))"

definition cursor_ok :: "vga \<Rightarrow> bool" where
  "cursor_ok v \<longleftrightarrow> unat (vx v) < VGA_WIDTH \<and> unat (vy v) < VGA_HEIGHT"

lemma scroll_screen_ok:
  "cells_of (vmem (scroll_screen v)) = drop VGA_WIDTH (cells_of (vmem v)) @ blank_line"
  "screen_only (vmem v) (vmem (scroll_screen v))"
proof -
  let ?n = "(VGA_HEIGHT - 1) * VGA_WIDTH"
  let ?m1 = "fold (\<lambda>i. copy_cell i (i + VGA_WIDTH)) [0..<?n] (vmem v)"
  let ?m2 = "fold (\<lambda>i m. put_cell m (2 * word_of_nat i) 0x20 (make_color 0 0)) [?n..<VGA_HEIGHT * VGA_WIDTH] ?m1"
  have w: "?n + VGA_WIDTH = CELLS" "VGA_HEIGHT * VGA_WIDTH = CELLS" "?n \<le> CELLS" "VGA_WIDTH \<le> CELLS"
    by (simp_all add: CELLS_def VGA_WIDTH_def VGA_HEIGHT_def)
  have c1: "\<forall>j < CELLS. cell ?m1 j = (if j < ?n then cell (vmem v) (j + VGA_WIDTH) else cell (vmem v) j)"
    and s1: "screen_only (vmem v) ?m1" using scroll_cells [of ?n "vmem v"] w(1) by simp_all
  have mc: "make_color 0 0 = 0" by (simp add: make_color_def)
  have c2: "\<forall>j < CELLS. cell ?m2 j = (if ?n \<le> j \<and> j < CELLS then (0x20, 0) else cell ?m1 j)" and s2: "screen_only ?m1 ?m2"
    using fill_cells [of ?n CELLS "0x20" "0" ?m1] w(3) unfolding mc w(2) by blast+
  have v: "vmem (scroll_screen v) = ?m2" by (simp add: scroll_screen_def Let_def)
  show "screen_only (vmem v) (vmem (scroll_screen v))" unfolding v by (rule screen_only_trans [OF s1 s2])
  show "cells_of (vmem (scroll_screen v)) = drop VGA_WIDTH (cells_of (vmem v)) @ blank_line"
    unfolding v
  proof (rule nth_equalityI)
    show "length (cells_of ?m2) = length (drop VGA_WIDTH (cells_of (vmem v)) @ blank_line)"
      using w(4) by (simp add: cells_of_def blank_line_def)
    fix j assume "j < length (cells_of ?m2)"
    then have j: "j < CELLS" by (simp add: cells_of_def)
    then have "cells_of ?m2 ! j = (if j < ?n then cell (vmem v) (j + VGA_WIDTH) else (0x20, 0))"
      using c1 c2 by (simp add: cells_of_def)
    moreover have "CELLS - VGA_WIDTH = ?n" using w(1) by arith
    ultimately show "cells_of ?m2 ! j = (drop VGA_WIDTH (cells_of (vmem v)) @ blank_line) ! j"
      using j w(1) by (auto simp: cells_of_def blank_line_def nth_append add.commute)
  qed
qed

lemma length_cells [simp]: "length (cells_of m) = CELLS"
  by (simp add: cells_of_def)

lemma put_cell_list:
  assumes "unat off = 2 * i" "i < CELLS"
  shows "cells_of (put_cell m off c col) = (cells_of m)[i := (c, col)]"
  by (rule nth_equalityI) (simp_all add: cells_of_def put_cell_cell [OF assms] nth_list_update)

lemma cursor_offset:
  assumes "cursor_ok v"
  shows "unat (cell_offset (ucast (vx v)) (ucast (vy v))) = 2 * (unat (vy v) * VGA_WIDTH + unat (vx v))"
    "unat (vy v) * VGA_WIDTH + unat (vx v) < CELLS"
proof -
  have b: "unat (vx v) < 80" "unat (vy v) < 25" using assms by (simp_all add: cursor_ok_def VGA_WIDTH_def VGA_HEIGHT_def)
  have u: "unat (ucast (vx v) :: u32) = unat (vx v)" "unat (ucast (vy v) :: u32) = unat (vy v)"
    by (simp_all add: unsigned_ucast_eq take_bit_nat_eq_self unat_less_2p [THEN less_trans])
  show "unat (cell_offset (ucast (vx v)) (ucast (vy v))) = 2 * (unat (vy v) * VGA_WIDTH + unat (vx v))"
    using b by (simp add: cell_offset_def unat_word_ariths u VGA_WIDTH_def)
  show "unat (vy v) * VGA_WIDTH + unat (vx v) < CELLS" using b by (simp add: CELLS_value VGA_WIDTH_def)
qed

lemma next_line_ok:
  assumes "unat (vy v) < VGA_HEIGHT"
  shows "screen_of (next_line v) = a_newline (cells_of (vmem v), x, unat (vy v))" "cursor_ok (next_line v)"
    "screen_only (vmem v) (vmem (next_line v))"
proof -
  let ?v = "v\<lparr>vx := 0, vy := vy v + 1\<rparr>"
  have u: "unat (vy v + 1) = unat (vy v) + 1" using assms by (simp add: unat_inc8 VGA_HEIGHT_def)
  have c: "25 \<le> vy v + 1 \<longleftrightarrow> \<not> unat (vy v) + 1 < VGA_HEIGHT" using u by (auto simp: word_le_nat_alt VGA_HEIGHT_def)
  have n: "next_line v = (if unat (vy v) + 1 < VGA_HEIGHT then ?v else (scroll_screen ?v)\<lparr>vy := 24\<rparr>)"
    by (simp add: next_line_def Let_def c)
  have x: "vx (scroll_screen ?v) = 0" by (simp add: scroll_screen_def Let_def)
  note sc = scroll_screen_ok [of ?v]
  show "screen_of (next_line v) = a_newline (cells_of (vmem v), x, unat (vy v))"
    using u x sc(1) by (simp add: n screen_of_def) (simp add: VGA_HEIGHT_def)
  show "cursor_ok (next_line v)" using u x by (simp add: n cursor_ok_def) (simp add: VGA_HEIGHT_def VGA_WIDTH_def)
  show "screen_only (vmem v) (vmem (next_line v))" using sc(2) by (simp add: n)
qed

lemma print_char_ok:
  assumes ok: "cursor_ok v"
  shows "screen_of (print_char c fore back v) = a_putc (make_color fore back) c (screen_of v)"
    "cursor_ok (print_char c fore back v)" "screen_only (vmem v) (vmem (print_char c fore back v))"
proof -
  have y: "unat (vy v) < VGA_HEIGHT" "unat (vx v) < VGA_WIDTH" using ok by (simp_all add: cursor_ok_def)
  let ?col = "make_color fore back" let ?i = "unat (vy v) * VGA_WIDTH + unat (vx v)"
  let ?m = "put_cell (vmem v) (cell_offset (ucast (vx v)) (ucast (vy v))) c ?col"
  let ?v = "v\<lparr>vmem := ?m, vx := vx v + 1\<rparr>"
  note off = cursor_offset [OF ok]
  have cl: "cells_of ?m = (cells_of (vmem v))[?i := (c, ?col)]" "screen_only (vmem v) ?m"
    using put_cell_list [OF off] put_cell_cell(2) [OF off] by simp_all
  have u: "unat (vx v + 1) = unat (vx v) + 1" using y(2) by (simp add: unat_inc8 VGA_WIDTH_def)
  have g: "80 \<le> vx v + 1 \<longleftrightarrow> \<not> unat (vx v) + 1 < VGA_WIDTH" using u by (auto simp: word_le_nat_alt VGA_WIDTH_def)
  have vy: "unat (vy ?v) < VGA_HEIGHT" using y(1) by simp
  note nl = next_line_ok [OF y(1)] and nl2 = next_line_ok [OF vy]
  have p: "print_char c fore back v = (if c = 0x0A then next_line v
      else (let w = (if unat (vx v) + 1 < VGA_WIDTH then ?v else next_line ?v)
            in w\<lparr>vio := update_hardware_cursor (vx w) (vy w) (vio w)\<rparr>))"
    by (simp add: print_char_def Let_def g)
  have s: "screen_of (w\<lparr>vio := t\<rparr>) = screen_of w" "cursor_ok (w\<lparr>vio := t\<rparr>) = cursor_ok w" for w t
    by (simp_all add: screen_of_def cursor_ok_def)
  show "screen_of (print_char c fore back v) = a_putc ?col c (screen_of v)"
  proof (cases "c = 0x0A")
    case True
    then show ?thesis unfolding p using nl(1) by (simp add: screen_of_def [of v])
  next
    case False
    then show ?thesis
      using nl2(1) cl(1) u by (simp add: p Let_def s screen_of_def [of v]) (simp add: screen_of_def)
  qed
  show "cursor_ok (print_char c fore back v)"
    using nl(2) nl2(2) y u by (simp add: p Let_def s) (simp add: cursor_ok_def)
  have "screen_only (vmem v) (vmem (next_line ?v))" using nl2(3) cl(2) screen_only_trans by fastforce
  then show "screen_only (vmem v) (vmem (print_char c fore back v))"
    using nl(3) cl(2) by (simp add: p Let_def)
qed

lemma print_newline: "print_char 0x0A fore back v = next_line v"
  by (simp add: print_char_def)

lemma print_string_loop_ok:
  assumes "cursor_ok v" "cstr (vmem v) p cs" "disjoint p (Suc (length cs)) VGA_BUF 4000"
    "unat p + Suc (length cs) \<le> 2 ^ 64"
  shows "\<exists>v'. print_string_loop p fore back v = Some v' \<and>
    screen_of v' = fold (a_putc (make_color fore back)) cs (screen_of v) \<and> cursor_ok v' \<and> screen_only (vmem v) (vmem v')"
  using assms
proof (induction cs arbitrary: p v)
  case Nil
  then show ?case by (subst print_string_loop.simps) simp
next
  case (Cons c cs)
  let ?v = "print_char c fore back v"
  have c: "vmem v p = c" "c \<noteq> 0" "cstr (vmem v) (p + 1) cs" using Cons.prems(2) by simp_all
  have e: "unat (p + 1) = unat p + 1" using Cons.prems(4) by (intro unat_Suc_addr) simp
  note pc = print_char_ok [OF Cons.prems(1), of c fore "back"]
  have d: "disjoint (p + 1) (Suc (length cs)) VGA_BUF 4000" "unat (p + 1) + Suc (length cs) \<le> 2 ^ 64"
    using Cons.prems(3,4) e by (auto simp: disjoint_def)
  have "same_on (vmem v) (vmem ?v) (p + 1) (Suc (length cs))"
    using pc(3) d(1) by (auto simp: same_on_def screen_only_def in_range_def disjoint_def)
  then have "cstr (vmem ?v) (p + 1) cs" using c(3) cstr_cong [OF _ d(2)] by blast
  then obtain v' where v': "print_string_loop (p + 1) fore back ?v = Some v'"
      "screen_of v' = fold (a_putc (make_color fore back)) cs (screen_of ?v)" "cursor_ok v'" "screen_only (vmem ?v) (vmem v')"
    using Cons.IH [OF pc(2) _ d] by blast
  have "print_string_loop p fore back v = Some v'"
    using c(1,2) v'(1) print_newline [of fore "back" v] by (subst print_string_loop.simps) auto
  then show ?case using v'(2,3) pc(1) screen_only_trans [OF pc(3) v'(4)] by simp
qed

lemma backspace_ok:
  assumes ok: "cursor_ok v"
  shows "cursor_ok (backspace v)" "screen_only (vmem v) (vmem (backspace v))"
    "unat (vy (backspace v)) * VGA_WIDTH + unat (vx (backspace v)) = unat (vy v) * VGA_WIDTH + unat (vx v) - 1"
    "cell (vmem (backspace v)) (unat (vy (backspace v)) * VGA_WIDTH + unat (vx (backspace v))) = (0x20, 0)"
proof -
  define w where "w = (if vx v = 0 then if 0 < vy v then v\<lparr>vy := vy v - 1, vx := 79\<rparr> else v else v\<lparr>vx := vx v - 1\<rparr>)"
  have b: "unat (vx v) < 80" "unat (vy v) < 25" using ok by (simp_all add: cursor_ok_def VGA_WIDTH_def VGA_HEIGHT_def)
  have ux: "vx v \<noteq> 0 \<Longrightarrow> unat (vx v - 1) = unat (vx v) - 1 \<and> 0 < unat (vx v)"
    "0 < vy v \<Longrightarrow> unat (vy v - 1) = unat (vy v) - 1 \<and> 0 < unat (vy v)"
    using unat_sub_le [of 1 "vx v"] unat_sub_le [of 1 "vy v"] by (auto simp: word_less_nat_alt unat_gt_0 Suc_le_eq)
  have w: "cursor_ok w" "vmem w = vmem v"
    "unat (vy w) * VGA_WIDTH + unat (vx w) = unat (vy v) * VGA_WIDTH + unat (vx v) - 1"
  proof -
    have n79: "unat (79 :: u8) = 79" by simp
    have d: "vx v = 0 \<Longrightarrow> \<not> 0 < vy v \<Longrightarrow> w = v" "vx v = 0 \<Longrightarrow> 0 < vy v \<Longrightarrow> w = v\<lparr>vy := vy v - 1, vx := 79\<rparr>"
      "vx v \<noteq> 0 \<Longrightarrow> w = v\<lparr>vx := vx v - 1\<rparr>" by (simp_all add: w_def)
    consider (a) "vx v = 0" "\<not> 0 < vy v" | (b) "vx v = 0" "0 < vy v" | (c) "vx v \<noteq> 0" by blast
    then have "cursor_ok w \<and> vmem w = vmem v \<and>
        unat (vy w) * VGA_WIDTH + unat (vx w) = unat (vy v) * VGA_WIDTH + unat (vx v) - 1"
    proof cases
      case a
      then have "unat (vy v) = 0" by (simp add: word_less_nat_alt)
      then show ?thesis using a ok d(1) by simp
    next
      case b
      then have "unat (vy v) * 80 = (unat (vy v) - 1) * 80 + 80" using ux(2) by (cases "unat (vy v)") simp_all
      then show ?thesis
        using b ux(2) d(2) \<open>unat (vy v) < 25\<close> by (simp add: cursor_ok_def VGA_WIDTH_def VGA_HEIGHT_def n79 del: unsigned_numeral)
    next
      case c
      then show ?thesis
        using ux(1) d(3) \<open>unat (vx v) < 80\<close> \<open>unat (vy v) < 25\<close>
        by (simp add: cursor_ok_def VGA_WIDTH_def VGA_HEIGHT_def)
    qed
    then show "cursor_ok w" "vmem w = vmem v"
      "unat (vy w) * VGA_WIDTH + unat (vx w) = unat (vy v) * VGA_WIDTH + unat (vx v) - 1" by blast+
  qed
  note off = cursor_offset [OF w(1)]
  have r: "vx (backspace v) = vx w" "vy (backspace v) = vy w"
    "vmem (backspace v) = put_cell (vmem w) (cell_offset (ucast (vx w)) (ucast (vy w))) 0x20 (make_color 0 0)"
    by (simp_all add: backspace_def Let_def flip: w_def)
  show "cursor_ok (backspace v)" using w(1) r by (simp add: cursor_ok_def)
  show "screen_only (vmem v) (vmem (backspace v))" using put_cell_cell(2) [OF off] r(3) w(2) by simp
  show "unat (vy (backspace v)) * VGA_WIDTH + unat (vx (backspace v)) = unat (vy v) * VGA_WIDTH + unat (vx v) - 1"
    using w(3) r by simp
  show "cell (vmem (backspace v)) (unat (vy (backspace v)) * VGA_WIDTH + unat (vx (backspace v))) = (0x20, 0)"
    unfolding r using put_cell_cell(1) [OF off off(2)] by (simp add: make_color_def)
qed

lemma clean_screen_ok:
  "cursor_ok (clean_screen v)" "screen_only (vmem v) (vmem (clean_screen v))" "i < CELLS \<Longrightarrow> cell (vmem (clean_screen v)) i = (0x20, 0x07)"
proof -
  have f: "vmem (clean_screen v) = fold (\<lambda>i m. put_cell m (2 * word_of_nat i) 0x20 0x07) [0..<CELLS] (vmem v)"
    by (simp add: clean_screen_def CELLS_def)
  note fc = fill_cells [of 0 CELLS "0x20" "0x07" "vmem v"]
  show "cursor_ok (clean_screen v)" by (simp add: clean_screen_def cursor_ok_def) (simp add: VGA_WIDTH_def VGA_HEIGHT_def)
  show "screen_only (vmem v) (vmem (clean_screen v))" unfolding f using fc by blast
  show "i < CELLS \<Longrightarrow> cell (vmem (clean_screen v)) i = (0x20, 0x07)" unfolding f using fc by simp
qed

lemma print_char_position_ok:
  "screen_only (vmem v) (vmem (print_char_position c x y fore back v))"
  "x < 80 \<Longrightarrow> y < 25 \<Longrightarrow> cells_of (vmem (print_char_position c x y fore back v)) =
     (cells_of (vmem v))[unat y * VGA_WIDTH + unat x := (c, make_color fore back)]"
proof -
  have o: "unat (cell_offset x y) = 2 * (unat y * VGA_WIDTH + unat x)" "unat y * VGA_WIDTH + unat x < CELLS"
    if "x < 80" "y < 25"
    using that by (simp_all add: cell_offset_def unat_word_ariths word_less_nat_alt VGA_WIDTH_def CELLS_value)
  show "screen_only (vmem v) (vmem (print_char_position c x y fore back v))"
    using put_cell_cell(2) [OF o] by (auto simp: print_char_position_def not_le)
  show "cells_of (vmem (print_char_position c x y fore back v)) =
     (cells_of (vmem v))[unat y * VGA_WIDTH + unat x := (c, make_color fore back)]" if "x < 80" "y < 25"
    using put_cell_list [OF o] that by (simp add: print_char_position_def linorder_not_le [symmetric])
qed

text \<open>
  A string printed at a position of the screen stays in its line: the loop ends at the last
  column at the latest, also behind a tab, whatever bytes the string has.
\<close>

lemma tab_loop_screen:
  "unat off = 2 * i \<Longrightarrow> i + n \<le> CELLS \<Longrightarrow>
     screen_only m (fst (tab_loop n color (m, off, col))) \<and>
     unat (fst (snd (tab_loop n color (m, off, col)))) = 2 * (i + n) \<and>
     snd (snd (tab_loop n color (m, off, col))) = col + word_of_nat n"
proof (induction n arbitrary: m off col i)
  case (Suc n)
  have i: "i < CELLS" using Suc.prems(2) by simp
  have "unat (off + 2) = 2 * (i + 1)" using Suc.prems i unat_add_small [of off 2] by (simp add: CELLS_value)
  from Suc.IH [OF this, of "put_cell m off 0x20 color" "col + 1"] Suc.prems(2)
  show ?case using put_cell_cell(2) [OF Suc.prems(1) i, of m "0x20" color] screen_only_trans
    by (auto simp: algebra_simps)
qed simp

lemma position_step_ok:
  assumes y: "y < 25" and col: "unat col < 80" and off: "unat off = 2 * (y * 80 + unat col)"
    and res: "position_step c color (m, off, col) = (m', off', col')"
  shows "screen_only m m'" "unat col < unat col'" "unat col' \<le> 80" "unat off' = 2 * (y * 80 + unat col')"
proof -
  have i: "y * 80 + unat col < CELLS" using y col by (simp add: CELLS_value)
  have "screen_only m m' \<and> unat col < unat col' \<and> unat col' \<le> 80 \<and> unat off' = 2 * (y * 80 + unat col')"
  proof (cases "c = 0x09")
    case True
    define n where "n = unat (TAB_SIZE - col mod TAB_SIZE)"
    have md: "unat (col mod TAB_SIZE) = unat col mod 8" by (simp add: unat_mod)
    have n: "n = 8 - unat col mod 8" unfolding n_def using md by (subst unat_sub_le) (simp_all add: word_le_nat_alt)
    have le: "unat col + n \<le> 80" "0 < n" "n \<le> 8" unfolding n using col by presburger+
    have e: "tab_loop n color (m, off, col) = (m', off', col')"
      using res True by (simp add: position_step_def n_def)
    have "y * 80 + unat col + n \<le> CELLS" using le y by (simp add: CELLS_value)
    from tab_loop_screen [OF off this, of m color col] e
    have t: "screen_only m m'" "unat off' = 2 * (y * 80 + unat col + n)" "col' = col + word_of_nat n" by simp_all
    have "unat col' = unat col + n" unfolding t(3) using le by (simp add: unat_word_ariths unat_of_nat)
    then show ?thesis using t le by simp
  next
    case False
    have u: "unat (off + 2) = unat off + 2" "unat (col + 1) = unat col + 1"
      using off y col unat_add_small [of off 2] unat_add_small [of col 1] by simp_all
    show ?thesis
      using res False put_cell_cell(2) [OF off i, of m c color] u off col by (auto simp: position_step_def)
  qed
  then show "screen_only m m'" "unat col < unat col'" "unat col' \<le> 80" "unat off' = 2 * (y * 80 + unat col')" by blast+
qed

lemma string_position_loop_ok:
  assumes y: "y < 25"
  shows "unat col < 80 \<Longrightarrow> unat off = 2 * (y * 80 + unat col) \<Longrightarrow>
    \<exists>m'. string_position_loop str i color m off col = Some m' \<and> screen_only m m'"
proof (induction "80 - unat col" arbitrary: i m off col rule: less_induct)
  case less
  let ?c = "m (str + ucast i)"
  obtain m1 off1 col1 where r: "position_step ?c color (m, off, col) = (m1, off1, col1)" using prod_cases3 by blast
  note p = position_step_ok [OF y less.prems r]
  show ?case
  proof (cases "?c = 0 \<or> 80 \<le> col1")
    case True
    then show ?thesis using r p(1) by (subst string_position_loop.simps) (auto simp: Let_def)
  next
    case False
    then have c1: "unat col1 < 80" by (simp add: word_le_nat_alt)
    have "80 - unat col1 < 80 - unat col" using p(2) c1 by linarith
    from less.hyps [OF this c1 p(4)] obtain m' where
      "string_position_loop str (i + 1) color m1 off1 col1 = Some m'" "screen_only m1 m'"
      by blast
    then show ?thesis
      using False r screen_only_trans [OF p(1)] by (subst string_position_loop.simps) (auto simp: Let_def)
  qed
qed

lemma print_string_position_ok:
  assumes "x < 80" "y < 25"
  shows "\<exists>v'. print_string_position str x y fore back v = Some v' \<and> screen_only (vmem v) (vmem v') \<and>
    vx v' = vx v \<and> vy v' = vy v"
proof -
  have b: "unat y < 25" "unat x < 80" using assms by (simp_all add: word_less_nat_alt)
  have "unat (cell_offset x y) = 2 * (unat y * 80 + unat x)" using b by (simp add: cell_offset_def unat_word_ariths)
  from string_position_loop_ok [OF b(1,2) this, of str 0 "make_color fore back" "vmem v"]
  show ?thesis by (auto simp: print_string_position_def)
qed

section \<open>Properties of the console\<close>

text \<open>A blank console with a string outside the video memory, for the concrete instances.\<close>

definition demo_vga :: vga where
  "demo_vga = \<lparr>vx = 79, vy = 24, vmem = st_bytes (\<lambda>_. 0) 0x1000 [0x48, 0x69, 0x0A, 0x21, 0], vio = []\<rparr>"

text \<open>
  C31: Printing a string is what it means on a screen of 25 lines of 80 cells: character
  after character, with line breaks at the end of a line and at line feeds and a scroll
  at the bottom.  The cursor stays on the screen and no byte outside the video memory
  changes.
\<close>

theorem print_string_refines:
  assumes "cursor_ok v" "cstr (vmem v) p cs" "disjoint p (Suc (length cs)) VGA_BUF 4000"
    "unat p + Suc (length cs) \<le> 2 ^ 64"
  shows "\<exists>v'. print_string p fore back v = Some v' \<and>
    screen_of v' = fold (a_putc (make_color fore back)) cs (screen_of v) \<and> cursor_ok v' \<and> screen_only (vmem v) (vmem v')"
  using print_string_loop_ok [OF assms, of fore "back"]
  by (auto simp: print_string_def screen_of_def cursor_ok_def)

theorem print_string_refines_witness:
  "\<exists>v'. print_string 0x1000 15 0 demo_vga = Some v' \<and> cursor_ok v' \<and> snd (screen_of v') = (1, 24)"
proof -
  have "cursor_ok demo_vga" by (simp add: cursor_ok_def demo_vga_def VGA_WIDTH_def VGA_HEIGHT_def)
  moreover have "cstr (vmem demo_vga) 0x1000 [0x48, 0x69, 0x0A, 0x21]" by (simp add: demo_vga_def)
  ultimately obtain v' where "print_string 0x1000 15 0 demo_vga = Some v'" "cursor_ok v'"
      "screen_of v' = fold (a_putc (make_color 15 0)) [0x48, 0x69, 0x0A, 0x21] (screen_of demo_vga)"
    using print_string_refines [of demo_vga "0x1000" "[0x48, 0x69, 0x0A, 0x21]" 15 0] by (auto simp: disjoint_def)
  moreover have "screen_of demo_vga = (cells_of (vmem demo_vga), 79, 24)" by (simp add: screen_of_def demo_vga_def)
  ultimately show ?thesis by (intro exI [of _ v']) (simp add: VGA_WIDTH_def VGA_HEIGHT_def)
qed



end
