(* ===== verification/Decimal.thy ===== *)
theory Decimal
  imports Libc_String
begin

text \<open>
  Decimal text of numbers: \<open>u32_to_dec\<close> and \<open>kstrlen\<close> of \<open>malloc/malloc.c\<close> and \<open>uint_to_str\<close>
  of \<open>syscall/syscall.c\<close>.  The digits go to a private buffer in the order they are found
  (here a list) and are copied back to front.
\<close>

function dec_loop :: "u32 \<Rightarrow> u8 list" where
  "dec_loop v = (if v = 0 then [] else (0x30 + ucast (v mod 10)) # dec_loop (v div 10))"
  by pat_completeness auto

termination
proof (relation "measure unat")
  fix v :: u32 assume "v \<noteq> 0"
  then have "unat v div 10 < unat v" by (intro div_less_dividend) (simp_all add: unat_gt_0)
  then show "(v div 10, v) \<in> measure unat" by (simp add: unat_div)
qed simp

declare dec_loop.simps [simp del]

lemma dec_loop_0 [simp]: "dec_loop 0 = []"
  by (subst dec_loop.simps) simp

definition u32_to_dec :: "mem \<Rightarrow> u32 \<Rightarrow> ptr \<Rightarrow> mem \<times> ptr" where
  "u32_to_dec m v buf =
     (if v = 0 then (st_bytes m buf [0x30, 0], buf)
      else (st_bytes m buf (rev (dec_loop v) @ [0]), buf))"

definition uint_to_str :: "mem \<Rightarrow> u32 \<Rightarrow> ptr \<Rightarrow> mem \<times> ptr" where
  "uint_to_str m v buf =
     (if v = 0 then (st_bytes m buf [0x30, 0], buf)
      else (st_bytes m buf (rev (dec_loop v) @ [0]), buf))"

definition kstrlen :: "mem \<Rightarrow> ptr \<Rightarrow> u64 option" where
  "kstrlen m s = (if s = NULL then Some 0 else strlen_loop m s 0)"

lemma kstrlen_cstr: "cstr m s bs \<Longrightarrow> kstrlen m s = (if s = NULL then Some 0 else Some (of_nat (length bs)))"
  using strlen_loop_cstr [of m s bs 0] by (simp add: kstrlen_def)

section \<open>Digits\<close>

text \<open>The number that a list of digits denotes, most significant first.\<close>

definition dec_value :: "u8 list \<Rightarrow> nat" where
  "dec_value ds = foldl (\<lambda>n d. n * 10 + (unat d - 48)) 0 ds"

definition dec_text :: "u32 \<Rightarrow> u8 list" where
  "dec_text v = (if v = 0 then [0x30] else rev (dec_loop v))"

lemma dec_value_snoc: "dec_value (ds @ [d]) = dec_value ds * 10 + (unat d - 48)"
  by (simp add: dec_value_def)

lemma digit_unat:
  fixes v :: u32
  shows "unat (0x30 + ucast (v mod 10) :: u8) = 48 + unat v mod 10"
proof -
  have l: "unat (v mod 10) < 10" by (simp add: unat_mod)
  have u: "unat (ucast (v mod 10) :: u8) = unat (v mod 10)" using l by (simp add: unsigned_ucast_eq take_bit_nat_eq_self)
  have "unat (0x30 + ucast (v mod 10) :: u8) = unat (0x30 :: u8) + unat (ucast (v mod 10) :: u8)"
    using l u by (intro unat_add_small) simp
  then show ?thesis using u by (simp add: unat_mod)
qed

lemma dec_loop_props:
  "dec_value (rev (dec_loop v)) = unat v \<and> (\<forall>d \<in> set (dec_loop v). 48 \<le> unat d \<and> unat d < 58) \<and>
   (v \<noteq> 0 \<longrightarrow> 10 ^ (length (dec_loop v) - 1) \<le> unat v \<and> last (dec_loop v) \<noteq> 0x30 \<and> dec_loop v \<noteq> [])"
proof (induction v rule: dec_loop.induct)
  case (1 v)
  show ?case
  proof (cases "v = 0")
    case True
    then show ?thesis by (simp add: dec_value_def)
  next
    case False
    let ?w = "v div 10"
    have u: "unat ?w = unat v div 10" by (simp add: unat_div)
    note ih = 1 [OF False]
    have e: "dec_loop v = (0x30 + ucast (v mod 10)) # dec_loop ?w" using False by (subst dec_loop.simps) simp
    have val: "dec_value (rev (dec_loop v)) = unat v"
      unfolding e using ih by (simp add: dec_value_snoc digit_unat u)
    have dig: "\<forall>d \<in> set (dec_loop v). 48 \<le> unat d \<and> unat d < 58"
      unfolding e using ih digit_unat [of v] mod_less_divisor [of 10 "unat v"] by auto
    have "10 ^ (length (dec_loop v) - 1) \<le> unat v \<and> last (dec_loop v) \<noteq> 0x30"
    proof (cases "?w = 0")
      case True
      then have "dec_loop ?w = []" "unat v < 10" using u by simp_all
      moreover have "0 < unat v" using False by (simp add: unat_gt_0)
      moreover have "unat (0x30 + ucast (v mod 10) :: u8) \<noteq> unat (0x30 :: u8)"
        using digit_unat [of v] calculation False by simp
      ultimately show ?thesis unfolding e using False by auto
    next
      case F: False
      have l: "10 ^ (length (dec_loop ?w) - 1) \<le> unat v div 10" "last (dec_loop ?w) \<noteq> 0x30" "dec_loop ?w \<noteq> []"
        using ih F u by simp_all
      then obtain k where k: "length (dec_loop ?w) = Suc k" by (cases "dec_loop ?w") auto
      have "10 ^ Suc k \<le> unat v div 10 * 10" using l(1) k by simp
      also have "\<dots> \<le> unat v" by simp
      finally show ?thesis unfolding e using l(2,3) k by simp
    qed
    then show ?thesis using val dig e by simp
  qed
qed

lemma dec_text_length: "length (dec_text v) \<le> 10"
proof (cases "v = 0")
  case False
  have "10 ^ (length (dec_loop v) - 1) \<le> unat v" using dec_loop_props [of v] False by blast
  moreover have "unat v < 10 ^ 10" using unat_less_2p [of v] by simp
  ultimately have "(10 :: nat) ^ (length (dec_loop v) - 1) < 10 ^ 10" by (rule le_less_trans)
  then have "length (dec_loop v) - 1 < 10" by (rule power_less_imp_less_exp [rotated]) simp
  then show ?thesis using False by (simp add: dec_text_def)
qed (simp add: dec_text_def)

lemma dec_text_digits: "d \<in> set (dec_text v) \<Longrightarrow> 48 \<le> unat d \<and> unat d < 58"
  using dec_loop_props [of v] by (cases "v = 0") (auto simp: dec_text_def)

lemma dec_text_nonzero: "0 \<notin> set (dec_text v)"
  using dec_text_digits [of 0 v] by auto

lemma dec_text_value: "dec_value (dec_text v) = unat v"
  using dec_loop_props [of v] by (simp add: dec_text_def dec_value_def)

lemma u32_to_dec_text: "u32_to_dec m v buf = (st_bytes m buf (dec_text v @ [0]), buf)"
  by (simp add: u32_to_dec_def dec_text_def)

lemma uint_to_str_text: "uint_to_str m v buf = u32_to_dec m v buf"
  by (simp add: uint_to_str_def u32_to_dec_def)

lemma u32_to_dec_cstr:
  assumes "unat buf + 11 \<le> 2 ^ 64"
  shows "cstr (fst (u32_to_dec m v buf)) buf (dec_text v)"
proof -
  have l: "unat buf + length (dec_text v @ [0]) \<le> 2 ^ 64" using dec_text_length [of v] assms by simp
  show ?thesis using ld_st_bytes [OF l, of m] dec_text_nonzero [of v] by (simp add: cstr_bytes u32_to_dec_text)
qed

section \<open>Property\<close>

text \<open>
  C35: The text that \<open>u32_to_dec\<close> and \<open>uint_to_str\<close> leave in the buffer is a terminated string
  of at most ten decimal digits without leading zeros whose value is the number; the buffer
  itself is returned, and no byte outside it changes.
\<close>

theorem decimal_roundtrip:
  assumes "unat buf + 11 \<le> 2 ^ 64"
  shows "\<exists>ds m'. u32_to_dec m v buf = (m', buf) \<and> uint_to_str m v buf = (m', buf) \<and>
    cstr m' buf ds \<and> kstrlen m' buf = (if buf = NULL then Some 0 else Some (of_nat (length ds))) \<and>
    dec_value ds = unat v \<and> length ds \<le> 10 \<and> (\<forall>d \<in> set ds. 48 \<le> unat d \<and> unat d < 58) \<and>
    (v \<noteq> 0 \<longrightarrow> hd ds \<noteq> 0x30) \<and> (\<forall>x. \<not> in_range x buf (length ds + 1) \<longrightarrow> m' x = m x)"
proof -
  let ?ds = "dec_text v" and ?m = "st_bytes m buf (dec_text v @ [0])"
  have l: "unat buf + length (?ds @ [0]) \<le> 2 ^ 64" using dec_text_length [of v] assms by simp
  have "cstr ?m buf ?ds" using u32_to_dec_cstr [OF assms, of m v] by (simp add: u32_to_dec_text)
  moreover have "kstrlen ?m buf = (if buf = NULL then Some 0 else Some (of_nat (length ?ds)))"
    using calculation by (simp add: kstrlen_cstr)
  moreover have "v \<noteq> 0 \<longrightarrow> hd ?ds \<noteq> 0x30" using dec_loop_props [of v] by (simp add: dec_text_def hd_rev)
  moreover have "?m x = m x" if "\<not> in_range x buf (length ?ds + 1)" for x
    using that by (intro st_bytes_outside [OF _ l]) simp
  ultimately show ?thesis
    using dec_text_length dec_text_digits dec_text_value u32_to_dec_text uint_to_str_text
    by (intro exI [of _ ?ds] exI [of _ ?m] conjI ballI) simp_all
qed

theorem decimal_roundtrip_witness:
  "\<exists>ds m'. u32_to_dec (\<lambda>_. 0xFF) 1048576 0x1000 = (m', 0x1000) \<and> cstr m' 0x1000 ds \<and> dec_value ds = 1048576"
  using decimal_roundtrip [of "0x1000" "\<lambda>_. 0xFF" 1048576] by auto

end
