(* ===== verification/Idt.thy ===== *)
theory Idt
  imports Portio
begin

text \<open>
  The interrupt descriptor table, \<open>idt.c\<close>.  The handlers are assembler stubs: their
  addresses are parameters, and loading the table register with \<open>lidt\<close> is a field of the state.
\<close>

section \<open>Gates\<close>

abbreviation IDT_ENTRIES :: nat where "IDT_ENTRIES \<equiv> 256"
abbreviation TIMER :: u8 where "TIMER \<equiv> 32"
abbreviation KEYBOARD :: u8 where "KEYBOARD \<equiv> 33"
abbreviation INTERRUPT :: u8 where "INTERRUPT \<equiv> 0x80"

record idt_entry =
  offset_low :: u16
  selector :: u16
  ist :: u8
  type_attr :: u8
  offset_mid :: u16
  offset_high :: u32
  reserved :: u32

record idt_ptr =
  idt_limit :: u16
  idt_base :: u64

record idt_state =
  idt :: "idt_entry list"
  idtp :: idt_ptr
  idtr :: "idt_ptr option"

text \<open>The table has 256 entries, so no value of the 8-bit index is out of range.\<close>

definition idt_set_gate :: "u8 \<Rightarrow> ptr \<Rightarrow> u16 \<Rightarrow> u8 \<Rightarrow> idt_entry list \<Rightarrow> idt_entry list" where
  "idt_set_gate num handler sel flags t =
     t[unat num := \<lparr>offset_low = ucast (handler AND 0xFFFF), selector = sel, ist = 0, type_attr = flags,
        offset_mid = ucast (drop_bit 16 handler AND 0xFFFF),
        offset_high = ucast (drop_bit 32 handler AND 0xFFFFFFFF), reserved = 0\<rparr>]"

text \<open>The addresses of the assembler entry points.\<close>

record isr_addrs =
  isr_stubs :: "ptr list"
  isr32 :: ptr
  isr33 :: ptr
  isr80 :: ptr

definition stub_gates :: "ptr list \<Rightarrow> idt_entry list \<Rightarrow> idt_entry list" where
  "stub_gates stubs t = fold (\<lambda>i t. idt_set_gate (word_of_nat i) (stubs ! i) 0x08 0x8E t) [0..<32] t"

definition lidt_load :: "idt_state \<Rightarrow> idt_state" where
  "lidt_load s = s\<lparr>idtr := Some (idtp s)\<rparr>"

definition idt_install :: "device \<Rightarrow> ptr \<Rightarrow> isr_addrs \<Rightarrow> idt_state \<times> trace \<Rightarrow> idt_state \<times> trace" where
  "idt_install dev idt_addr h = (\<lambda>(s, tr).
     let tr = pic_remap dev 0x20 0x28 tr;
         s = s\<lparr>idtp := \<lparr>idt_limit = 16 * 256 - 1, idt_base = idt_addr\<rparr>\<rparr>;
         t = stub_gates (isr_stubs h) (idt s);
         t = idt_set_gate TIMER (isr32 h) 0x08 0x8E t;
         t = idt_set_gate KEYBOARD (isr33 h) 0x08 0x8E t;
         t = idt_set_gate INTERRUPT (isr80 h) 0x08 0xEE t
     in (lidt_load (s\<lparr>idt := t\<rparr>), tr))"

section \<open>What the processor reads\<close>

text \<open>The processor puts the three parts of the offset together again.\<close>

definition gate_target :: "idt_entry \<Rightarrow> ptr" where
  "gate_target e = ucast (offset_low e) OR push_bit 16 (ucast (offset_mid e)) OR push_bit 32 (ucast (offset_high e))"

text \<open>The handler that an interrupt vector leads to, and whether user code may raise it.\<close>

definition vector_handler :: "isr_addrs \<Rightarrow> nat \<Rightarrow> ptr option" where
  "vector_handler h v =
     (if v < 32 then Some (isr_stubs h ! v) else if v = 32 then Some (isr32 h)
      else if v = 33 then Some (isr33 h) else if v = 128 then Some (isr80 h) else None)"

definition gate_ok :: "ptr \<Rightarrow> u8 \<Rightarrow> idt_entry \<Rightarrow> bool" where
  "gate_ok handler flags e \<longleftrightarrow> gate_target e = handler \<and> selector e = 0x08 \<and> ist e = 0 \<and> type_attr e = flags \<and> reserved e = 0"

lemma split_offset:
  fixes a :: ptr
  shows "ucast (ucast (a AND 0xFFFF) :: u16) OR push_bit 16 (ucast (ucast (drop_bit 16 a AND 0xFFFF) :: u16)) OR
    push_bit 32 (ucast (ucast (drop_bit 32 a AND 0xFFFFFFFF) :: u32)) = a" (is "?l = _")
proof (rule bit_word_eqI)
  have m: "(0xFFFF :: ptr) = mask 16" "(0xFFFFFFFF :: ptr) = mask 32" by (simp_all add: mask_eq_exp_minus_1)
  fix n assume n: "n < LENGTH(64)"
  then have "n < 16 \<or> 16 \<le> n \<and> n - 16 < 16 \<and> n - 16 < 64 \<and> n < 32 \<or> 32 \<le> n \<and> n - 32 < 32 \<and> n - 32 < 64 \<and> \<not> n - 16 < 16"
    by auto
  then show "bit ?l n = bit a n"
    using n by (elim disjE conjE) (simp_all add: m bit_simps)
qed

lemma idt_set_gate_nth:
  assumes "length t = IDT_ENTRIES"
  shows "length (idt_set_gate num handler sel flags t) = IDT_ENTRIES"
    "gate_ok handler flags (idt_set_gate num handler 0x08 flags t ! unat num)"
    "v \<noteq> unat num \<Longrightarrow> idt_set_gate num handler sel flags t ! v = t ! v"
proof -
  have "unat num < IDT_ENTRIES" using unat_less_2p [of num] by simp
  then show "length (idt_set_gate num handler sel flags t) = IDT_ENTRIES"
    "gate_ok handler flags (idt_set_gate num handler 0x08 flags t ! unat num)"
    "v \<noteq> unat num \<Longrightarrow> idt_set_gate num handler sel flags t ! v = t ! v"
    using assms by (simp_all add: idt_set_gate_def gate_ok_def gate_target_def split_offset)
qed

lemma stub_gates_nth:
  assumes "length t = IDT_ENTRIES" "k \<le> 32"
  shows "let t' = fold (\<lambda>i t. idt_set_gate (word_of_nat i) (stubs ! i) 0x08 0x8E t) [0..<k] t
    in length t' = IDT_ENTRIES \<and> (if v < k then gate_ok (stubs ! v) 0x8E (t' ! v) else t' ! v = t ! v)"
  using assms(2)
proof (induction k)
  case (Suc k)
  have u: "unat (word_of_nat k :: u8) = k" using Suc.prems by (simp add: unat_of_nat)
  let ?t = "fold (\<lambda>i t. idt_set_gate (word_of_nat i) (stubs ! i) 0x08 0x8E t) [0..<k] t"
  have ih: "length ?t = IDT_ENTRIES" "if v < k then gate_ok (stubs ! v) 0x8E (?t ! v) else ?t ! v = t ! v"
    using Suc by (simp_all add: Let_def)
  note g = idt_set_gate_nth [OF ih(1), where num = "word_of_nat k", unfolded u]
  show ?case
  proof (cases "v = k")
    case True
    then show ?thesis using g(1,2) by (simp add: Let_def)
  next
    case False
    then show ?thesis using ih g(1) g(3) [OF False] by (auto simp: Let_def)
  qed
qed (simp add: assms(1))

section \<open>Property\<close>

text \<open>
  C36: After \<open>idt_install\<close> the processor finds, for every vector, the handler meant for it: the
  32 exception stubs, the timer and the keyboard as kernel gates and vector 0x80 as a gate that
  user code may use; the gates of all other vectors are as before.  The register
  describes the whole table, and the interrupt controllers have been remapped first.
\<close>

theorem idt_install_correct:
  assumes "length (idt s) = IDT_ENTRIES"
  shows "case idt_install dev idt_addr h (s, tr) of (s', tr') \<Rightarrow>
    (case vector_handler h v of Some a \<Rightarrow> gate_ok a (if v = 128 then 0xEE else 0x8E) (idt s' ! v) | None \<Rightarrow> idt s' ! v = idt s ! v) \<and>
    length (idt s') = IDT_ENTRIES \<and> idtr s' = Some \<lparr>idt_limit = 4095, idt_base = idt_addr\<rparr> \<and>
    tr' = pic_remap dev 0x20 0x28 tr"
proof -
  let ?t0 = "stub_gates (isr_stubs h) (idt s)"
  have t0: "length ?t0 = IDT_ENTRIES" "if v < 32 then gate_ok (isr_stubs h ! v) 0x8E (?t0 ! v) else ?t0 ! v = idt s ! v"
    using stub_gates_nth [OF assms, of 32 "isr_stubs h" v] by (simp_all add: Let_def stub_gates_def)
  let ?t1 = "idt_set_gate TIMER (isr32 h) 0x08 0x8E ?t0"
  let ?t2 = "idt_set_gate KEYBOARD (isr33 h) 0x08 0x8E ?t1"
  let ?t3 = "idt_set_gate INTERRUPT (isr80 h) 0x08 0xEE ?t2"
  note g1 = idt_set_gate_nth [OF t0(1), where num = TIMER, simplified]
  note g2 = idt_set_gate_nth [OF g1(1), where num = KEYBOARD, simplified]
  note g3 = idt_set_gate_nth [OF g2(1), where num = INTERRUPT, simplified]
  have "case vector_handler h v of Some a \<Rightarrow> gate_ok a (if v = 128 then 0xEE else 0x8E) (?t3 ! v) | None \<Rightarrow> ?t3 ! v = idt s ! v"
  proof -
    consider "v = 32" | "v = 33" | "v = 128" | "v \<noteq> 32" "v \<noteq> 33" "v \<noteq> 128" by blast
    then show ?thesis
    proof cases
      case 4
      then have "?t3 ! v = ?t0 ! v" by (simp add: g1(3) g2(3) g3(3))
      then show ?thesis using t0(2) 4 by (simp add: vector_handler_def)
    qed (simp_all add: vector_handler_def g1(2,3) g2(2,3) g3(2,3))
  qed
  then show ?thesis using g3(1) by (cases "vector_handler h v") (simp_all add: idt_install_def lidt_load_def Let_def)
qed

definition demo_idt :: idt_state where
  "demo_idt = \<lparr>idt = replicate IDT_ENTRIES \<lparr>offset_low = 0, selector = 0, ist = 0, type_attr = 0, offset_mid = 0, offset_high = 0, reserved = 0\<rparr>,
     idtp = \<lparr>idt_limit = 0, idt_base = 0\<rparr>, idtr = None\<rparr>"

theorem idt_install_correct_witness:
  "gate_target (idt (fst (idt_install (\<lambda>_ _. 0) 0x9000 \<lparr>isr_stubs = replicate 32 0x1000, isr32 = 0x123456789ABC, isr33 = 0x2000, isr80 = 0x3000\<rparr>
      (demo_idt, []))) ! 32) = 0x123456789ABC"
proof -
  have "length (idt demo_idt) = IDT_ENTRIES" unfolding demo_idt_def idt_state.simps by (rule length_replicate)
  from idt_install_correct [OF this, where v = 32 and dev = "\<lambda>_ _. 0" and idt_addr = "0x9000" and tr = "[]" and
      h = "\<lparr>isr_stubs = replicate 32 0x1000, isr32 = 0x123456789ABC, isr33 = 0x2000, isr80 = 0x3000\<rparr>"]
  show ?thesis unfolding vector_handler_def gate_ok_def by (simp add: case_prod_beta)
qed

end
