(* ===== verification/Poweroff.thy ===== *)
theory Poweroff
  imports Portio Memory
begin

text \<open>
  Switching off and restarting, \<open>power/poweroff.c\<close> and \<open>power/reboot.c\<close>.  The ACPI tables lie
  in the byte memory (physical addresses are pointers, \<open>p2v\<close> is the identity); the registers
  are ports of the trace.  Neither function returns, so the result is the state in which the
  processor halts.
\<close>

section \<open>Reading tables\<close>

definition bytes_at :: "mem \<Rightarrow> ptr \<Rightarrow> nat \<Rightarrow> u8" where
  "bytes_at m p i = m (p + word_of_nat i)"

text \<open>A string literal.\<close>

definition lit :: "string \<Rightarrow> nat \<Rightarrow> u8" where
  "lit s i = (if i < length s then of_char (s ! i) else 0)"

abbreviation SIG_RSDP :: string where "SIG_RSDP \<equiv> ''RSD PTR ''"
abbreviation SIG_FACP :: string where "SIG_FACP \<equiv> ''FACP''"
abbreviation SIZEOF_SDT_HDR :: nat where "SIZEOF_SDT_HDR \<equiv> 36"
abbreviation SIZEOF_GAS :: nat where "SIZEOF_GAS \<equiv> 12"

text \<open>The fields of the packed structures \<open>rsdp2_t\<close>, \<open>acpi_sdt_hdr_t\<close> and \<open>acpi_gas_t\<close> that are read.\<close>

definition rsdp_revision :: "mem \<Rightarrow> ptr \<Rightarrow> u8" where "rsdp_revision m r = m (r + 15)"
definition rsdt_address :: "mem \<Rightarrow> ptr \<Rightarrow> u32" where "rsdt_address m r = ld32 m (r + 16)"
definition rsdp_length :: "mem \<Rightarrow> ptr \<Rightarrow> u32" where "rsdp_length m r = ld32 m (r + 20)"
definition xsdt_address :: "mem \<Rightarrow> ptr \<Rightarrow> u64" where "xsdt_address m r = ld64 m (r + 24)"
definition sdt_length :: "mem \<Rightarrow> ptr \<Rightarrow> u32" where "sdt_length m h = ld32 m (h + 4)"

record acpi_gas_t =
  address_space :: u8
  bit_width :: u8
  bit_offset :: u8
  access_size :: u8
  gas_address :: u64

definition load_gas :: "mem \<Rightarrow> ptr \<Rightarrow> acpi_gas_t" where
  "load_gas m p = \<lparr>address_space = m p, bit_width = m (p + 1), bit_offset = m (p + 2), access_size = m (p + 3),
     gas_address = ld64 m (p + 4)\<rparr>"

definition memcmp_simple :: "(nat \<Rightarrow> u8) \<Rightarrow> (nat \<Rightarrow> u8) \<Rightarrow> nat \<Rightarrow> int" where
  "memcmp_simple a b n =
     (case scan (\<lambda>i. a i \<noteq> b i) 0 n of Some i \<Rightarrow> int (unat (a i)) - int (unat (b i)) | None \<Rightarrow> 0)"

fun checksum_loop :: "mem \<Rightarrow> ptr \<Rightarrow> nat \<Rightarrow> u8 \<Rightarrow> u8" where
  "checksum_loop m q 0 s = s"
| "checksum_loop m q (Suc n) s = checksum_loop m (q + 1) n (s + m q)"

definition checksum_ok :: "mem \<Rightarrow> ptr \<Rightarrow> nat \<Rightarrow> bool" where
  "checksum_ok m p n \<longleftrightarrow> checksum_loop m p n 0 = 0"

definition rsdp_at :: "mem \<Rightarrow> ptr \<Rightarrow> bool" where
  "rsdp_at m a \<longleftrightarrow> memcmp_simple (bytes_at m a) (lit SIG_RSDP) 8 = 0 \<and>
     (2 \<le> rsdp_revision m a \<and> rsdp_length m a \<noteq> 0 \<and> checksum_ok m a (unat (rsdp_length m a)) \<or> checksum_ok m a 20)"

text \<open>The addresses \<open>0xE0000, 0xE0010, \<dots>\<close> up to \<open>0xFFFFF\<close>; none of them is \<open>NULL\<close>.\<close>

definition rsdp_place :: "nat \<Rightarrow> ptr" where
  "rsdp_place i = 0xE0000 + 16 * word_of_nat i"

definition RSDP_PLACES :: nat where "RSDP_PLACES = 8192"

definition find_rsdp :: "mem \<Rightarrow> ptr" where
  "find_rsdp m = (case scan (\<lambda>i. rsdp_at m (rsdp_place i)) 0 RSDP_PLACES of Some i \<Rightarrow> rsdp_place i | None \<Rightarrow> 0)"

definition map_sdt :: "mem \<Rightarrow> ptr \<Rightarrow> ptr" where
  "map_sdt m phys =
     (if phys = NULL then NULL
      else if unat (sdt_length m phys) < SIZEOF_SDT_HDR \<or> 0x200000 < unat (sdt_length m phys) then NULL
      else if \<not> checksum_ok m phys (unat (sdt_length m phys)) then NULL
      else phys)"

definition table_matches :: "mem \<Rightarrow> string \<Rightarrow> ptr \<Rightarrow> bool" where
  "table_matches m sig e \<longleftrightarrow> map_sdt m e \<noteq> NULL \<and> memcmp_simple (bytes_at m (map_sdt m e)) (lit sig) 4 = 0"

definition find_table :: "mem \<Rightarrow> ptr \<Rightarrow> string \<Rightarrow> bool \<Rightarrow> ptr" where
  "find_table m table_phys sig xsdt =
     (let t = map_sdt m table_phys; base = table_phys + 36
      in if t = NULL then 0
         else if base = NULL then 0
         else if \<not> xsdt then
           let n = (unat (sdt_length m t) - SIZEOF_SDT_HDR) div 4;
               e = (\<lambda>i. ucast (ld32 m (base + word_of_nat (i * 4))) :: ptr)
           in case scan (\<lambda>i. table_matches m sig (e i)) 0 n of Some i \<Rightarrow> e i | None \<Rightarrow> 0
         else
           let n = (unat (sdt_length m t) - SIZEOF_SDT_HDR) div 8;
               e = (\<lambda>i. ld64 m (base + word_of_nat (i * 8)))
           in case scan (\<lambda>i. table_matches m sig (e i)) 0 n of Some i \<Rightarrow> e i | None \<Rightarrow> 0)"

text \<open>The bytes found, or \<open>None\<close> for the return value -1, which leaves the variables as they are.\<close>

definition find_s5 :: "mem \<Rightarrow> ptr \<Rightarrow> (u8 \<times> u8) option" where
  "find_s5 m dsdt_phys =
     (let dsdt = map_sdt m dsdt_phys; p = dsdt_phys; len = unat (sdt_length m dsdt)
      in if dsdt = NULL then None
         else map_option (\<lambda>i. let pos = i + 4 in (bytes_at m p (pos + 5), bytes_at m p (pos + 7)))
           (scan (\<lambda>i. memcmp_simple (bytes_at m (p + word_of_nat i)) (lit ''_S5_'') 4 = 0 \<and> i + 4 + 6 < len) 0 (len - 4)))"

section \<open>Switching off\<close>

definition io_wait :: "trace \<Rightarrow> trace" where
  "io_wait tr = outb 0x80 0 tr"

definition st16 :: "mem \<Rightarrow> ptr \<Rightarrow> u16 \<Rightarrow> mem" where
  "st16 m a v = store_le m a 2 (uint v)"

definition write_pm :: "u64 \<Rightarrow> bool \<Rightarrow> u16 \<Rightarrow> mem \<times> trace \<Rightarrow> mem \<times> trace" where
  "write_pm addr is_io v = (\<lambda>(m, tr).
     if addr = 0 then (m, tr)
     else if is_io then
       if addr \<le> 0xFFFF then (m, outw (ucast addr) v tr) else (st16 m addr v, tr)
     else (st16 m addr v, tr))"

definition emulator_fallback :: "trace \<Rightarrow> trace" where
  "emulator_fallback tr = io_wait (outw 0x4004 0x2000 (io_wait (outw 0x604 0x2000 tr)))"

text \<open>The addresses of the two control registers and whether they are ports.\<close>

type_synonym pm1 = "u64 \<times> u64 \<times> bool"

definition gas_pair :: "mem \<Rightarrow> ptr \<Rightarrow> nat \<Rightarrow> nat \<times> nat \<Rightarrow> pm1 \<Rightarrow> pm1" where
  "gas_pair m base len offs = (\<lambda>(a, b, io).
     let (a, io) = (if fst offs + SIZEOF_GAS \<le> len then
           let gas = load_gas m (base + word_of_nat (fst offs))
           in if gas_address gas \<noteq> 0 then (gas_address gas, address_space gas = 0) else (a, io)
         else (a, io))
     in if snd offs + SIZEOF_GAS \<le> len then
          let gas = load_gas m (base + word_of_nat (snd offs))
          in if gas_address gas \<noteq> 0
             then (a, gas_address gas, if \<not> io \<and> address_space gas = 0 then True else io)
             else (a, b, io)
        else (a, b, io))"

definition candidate_offsets :: "(nat \<times> nat) list" where
  "candidate_offsets = [(76, 84), (80, 88), (92, 100), (100, 108), (116, 124), (128, 136), (140, 148)]"

fun try_candidates :: "mem \<Rightarrow> ptr \<Rightarrow> nat \<Rightarrow> (nat \<times> nat) list \<Rightarrow> pm1 \<Rightarrow> pm1 \<times> int" where
  "try_candidates m base len [] r = (r, -1)"
| "try_candidates m base len (c # cs) r =
     (let (a, b, io) = gas_pair m base len c r
      in if a \<noteq> 0 \<or> b \<noteq> 0 then ((a, b, io), 0) else try_candidates m base len cs (a, b, io))"

definition try_find_gas_in_fadt :: "mem \<Rightarrow> ptr \<Rightarrow> nat \<Rightarrow> pm1 \<Rightarrow> pm1 \<times> int" where
  "try_find_gas_in_fadt m base len r = try_candidates m base len candidate_offsets r"

text \<open>The last resort of \<open>power_off\<close>: anything in the table that looks like a register.\<close>

definition plausible_gas :: "acpi_gas_t \<Rightarrow> bool" where
  "plausible_gas gas \<longleftrightarrow> gas_address gas \<noteq> 0 \<and> (address_space gas = 0 \<or> address_space gas = 1) \<and>
     0 < bit_width gas \<and> bit_width gas \<le> 64"

function sweep_fadt :: "mem \<Rightarrow> ptr \<Rightarrow> nat \<Rightarrow> nat \<Rightarrow> pm1 \<Rightarrow> pm1" where
  "sweep_fadt m base len i (a, b, io) =
     (if i + SIZEOF_GAS \<le> len then
        let gas = load_gas m (base + word_of_nat i)
        in if plausible_gas gas then
             if a = 0 then sweep_fadt m base len (i + 4) (gas_address gas, b, address_space gas = 0)
             else if b = 0 then (a, gas_address gas, if \<not> io \<and> address_space gas = 0 then True else io)
             else sweep_fadt m base len (i + 4) (a, b, io)
           else sweep_fadt m base len (i + 4) (a, b, io)
      else (a, b, io))"
  by pat_completeness auto

termination
  by (relation "measure (\<lambda>(m, base, len, i, r). len - i)") auto

declare sweep_fadt.simps [simp del]

definition fadt_dsdt :: "mem \<Rightarrow> ptr \<Rightarrow> nat \<Rightarrow> u64" where
  "fadt_dsdt m fadt_base fadt_len =
     (let d = (if 140 \<le> fadt_len then ld64 m (fadt_base + 140) else 0)
      in if d = 0 then if 44 \<le> fadt_len then ucast (ld32 m (fadt_base + 40)) else d else d)"

definition fadt_pm1 :: "mem \<Rightarrow> ptr \<Rightarrow> nat \<Rightarrow> pm1" where
  "fadt_pm1 m fadt_base fadt_len =
     (let p1 = ld32 m (fadt_base + 64); p2 = ld32 m (fadt_base + 68);
          (a, b, io) = (if 72 \<le> fadt_len then (ucast p1, ucast p2, True) else (0, 0, True));
          (a, b, io) = (if a = 0 \<and> b = 0 then fst (try_find_gas_in_fadt m fadt_base fadt_len (a, b, io)) else (a, b, io))
      in if a = 0 \<and> b = 0 then sweep_fadt m fadt_base fadt_len SIZEOF_SDT_HDR (a, b, io) else (a, b, io))"

definition sleep_value :: "u8 \<Rightarrow> u16" where
  "sleep_value s5a = push_bit 10 (ucast (s5a AND 0x7)) OR 0x2000"

text \<open>Behind the search for the table: the registers are written and the machine halts.\<close>

definition enter_s5 :: "ptr \<Rightarrow> mem \<times> trace \<Rightarrow> mem \<times> trace" where
  "enter_s5 fadt_base = (\<lambda>(m, tr).
     let fadt_len = unat (sdt_length m fadt_base);
         dsdt_addr = fadt_dsdt m fadt_base fadt_len;
         (pm1a, pm1b, io) = fadt_pm1 m fadt_base fadt_len;
         s5a = (if dsdt_addr \<noteq> 0 then case find_s5 m dsdt_addr of Some (a, b) \<Rightarrow> a | None \<Rightarrow> 5 else 5);
         st = (if pm1a \<noteq> 0 then write_pm pm1a io (sleep_value s5a) (m, tr) else (m, tr));
         (m, tr) = (if pm1b \<noteq> 0 then write_pm pm1b io (sleep_value s5a) st else st)
     in (m, emulator_fallback (io_wait tr)))"

definition power_off :: "mem \<times> trace \<Rightarrow> mem \<times> trace" where
  "power_off = (\<lambda>(m, tr).
     let tr = emulator_fallback tr; give_up = (m, emulator_fallback tr); rsdp = find_rsdp m
     in if rsdp = 0 then give_up
        else
          let use_xsdt = (2 \<le> rsdp_revision m rsdp \<and> xsdt_address m rsdp \<noteq> 0);
              table_phys = (if use_xsdt then xsdt_address m rsdp else ucast (rsdt_address m rsdp))
          in if table_phys = 0 then give_up
             else
               let fadt_phys = find_table m table_phys SIG_FACP use_xsdt
               in if fadt_phys = 0 then give_up
                  else if map_sdt m fadt_phys = NULL then give_up
                  else enter_s5 fadt_phys (m, tr))"

section \<open>Restarting\<close>

definition wait_kbc :: "device \<Rightarrow> trace \<Rightarrow> trace option" where
  "wait_kbc dev tr = poll dev (\<lambda>tr. tr) 0x64 0x02 tr"

text \<open>The command to the keyboard controller; behind it the empty table and \<open>int 3\<close> reset the processor.\<close>

definition reboot_system :: "device \<Rightarrow> trace \<Rightarrow> trace option" where
  "reboot_system dev tr = map_option (outb 0x64 0xFE) (wait_kbc dev tr)"

section \<open>What the tables mean\<close>

text \<open>A description table that can be used: a sane length and bytes that add up to 0.\<close>

definition valid_table :: "mem \<Rightarrow> ptr \<Rightarrow> bool" where
  "valid_table m p \<longleftrightarrow> p \<noteq> NULL \<and> SIZEOF_SDT_HDR \<le> unat (sdt_length m p) \<and> unat (sdt_length m p) \<le> 0x200000 \<and>
     sum_list (ld_bytes m p (unat (sdt_length m p))) = 0"

definition has_sig :: "mem \<Rightarrow> ptr \<Rightarrow> string \<Rightarrow> bool" where
  "has_sig m p sig \<longleftrightarrow> ld_bytes m p (length sig) = map of_char sig"

definition valid_rsdp :: "mem \<Rightarrow> ptr \<Rightarrow> bool" where
  "valid_rsdp m a \<longleftrightarrow> has_sig m a SIG_RSDP \<and>
     (2 \<le> rsdp_revision m a \<and> rsdp_length m a \<noteq> 0 \<and> sum_list (ld_bytes m a (unat (rsdp_length m a))) = 0 \<or>
      sum_list (ld_bytes m a 20) = 0)"

text \<open>The entries of a root table, 4 or 8 bytes each.\<close>

definition root_entries :: "mem \<Rightarrow> ptr \<Rightarrow> bool \<Rightarrow> ptr list" where
  "root_entries m p x = map (\<lambda>i. if x then ld64 m (p + 36 + word_of_nat (i * 8)) else ucast (ld32 m (p + 36 + word_of_nat (i * 4))))
     [0..<(unat (sdt_length m p) - SIZEOF_SDT_HDR) div (if x then 8 else 4)]"

definition first_rsdp :: "mem \<Rightarrow> ptr option" where
  "first_rsdp m = find (valid_rsdp m) (map rsdp_place [0..<RSDP_PLACES])"

definition first_table :: "mem \<Rightarrow> ptr \<Rightarrow> bool \<Rightarrow> string \<Rightarrow> ptr option" where
  "first_table m p x sig =
     (if valid_table m p then find (\<lambda>e. valid_table m e \<and> has_sig m e sig) (root_entries m p x) else None)"

text \<open>The sleep type behind the first name \<open>_S5_\<close> of the table.\<close>

definition s5_type :: "mem \<Rightarrow> ptr \<Rightarrow> u8 option" where
  "s5_type m d =
     (if valid_table m d then
        map_option (\<lambda>i. m (d + word_of_nat (i + 9)))
          (find (\<lambda>i. has_sig m (d + word_of_nat i) ''_S5_'' \<and> i + 10 < unat (sdt_length m d)) [0..<unat (sdt_length m d) - 4])
      else None)"

lemma checksum_loop_sum: "checksum_loop m q n s = s + sum_list (ld_bytes m q n)"
  by (induction n arbitrary: q s) (simp_all add: algebra_simps)

lemma checksum_sum: "checksum_ok m p n \<longleftrightarrow> sum_list (ld_bytes m p n) = 0"
  by (simp add: checksum_ok_def checksum_loop_sum)

lemma memcmp_sig: "n = length sig \<Longrightarrow> memcmp_simple (bytes_at m p) (lit sig) n = 0 \<longleftrightarrow> has_sig m p sig"
proof -
  assume n: "n = length sig"
  have "memcmp_simple (bytes_at m p) (lit sig) n = 0 \<longleftrightarrow> (\<forall>i < n. bytes_at m p i = lit sig i)"
  proof (cases "scan (\<lambda>i. bytes_at m p i \<noteq> lit sig i) 0 n")
    case None
    then show ?thesis using None [unfolded scan_None] by (simp add: memcmp_simple_def)
  next
    case (Some i)
    then have "i < n" "bytes_at m p i \<noteq> lit sig i" using scan_SomeD [OF Some] by simp_all
    then show ?thesis using Some by (auto simp: memcmp_simple_def word_uint_eq_iff)
  qed
  also have "\<dots> \<longleftrightarrow> has_sig m p sig"
    using n by (auto simp: has_sig_def list_eq_iff_nth_eq ld_bytes_nth bytes_at_def lit_def)
  finally show ?thesis .
qed

lemma rsdp_at_valid: "rsdp_at m a \<longleftrightarrow> valid_rsdp m a"
  using memcmp_sig [of 8 SIG_RSDP m a] by (simp add: rsdp_at_def valid_rsdp_def checksum_sum)

lemma rsdp_place_pos: "i < RSDP_PLACES \<Longrightarrow> rsdp_place i \<noteq> 0"
proof
  assume i: "i < RSDP_PLACES" and "rsdp_place i = 0"
  then have "unat (0xE0000 + 16 * word_of_nat i :: ptr) = 0" by (simp add: rsdp_place_def)
  moreover have "unat (16 * word_of_nat i :: ptr) = 16 * i"
    using i by (simp add: unat_word_ariths unat_of_nat RSDP_PLACES_def)
  ultimately show False using i unat_add_small [of "0xE0000 :: ptr" "16 * word_of_nat i"] by (simp add: RSDP_PLACES_def)
qed

lemma find_rsdp_first: "find_rsdp m = (case first_rsdp m of Some a \<Rightarrow> a | None \<Rightarrow> 0)"
  by (simp add: find_rsdp_def first_rsdp_def scan_find rsdp_at_valid find_map split: option.split)

lemma map_sdt_valid: "map_sdt m p = (if valid_table m p then p else NULL)"
  by (auto simp: map_sdt_def valid_table_def checksum_sum)

lemma table_matches_valid: "length sig = 4 \<Longrightarrow> table_matches m sig e \<longleftrightarrow> valid_table m e \<and> has_sig m e sig"
  using memcmp_sig [of 4 sig m e] by (auto simp: table_matches_def map_sdt_valid valid_table_def)

lemma find_map_Some: "(case find P (map f xs) of None \<Rightarrow> z | Some a \<Rightarrow> a) = (case find (\<lambda>i. P (f i)) xs of None \<Rightarrow> z | Some i \<Rightarrow> f i)"
  by (simp add: find_map split: option.split)

lemma find_table_first:
  assumes "length sig = 4" "unat p + 0x200000 < 2 ^ 64"
  shows "find_table m p sig x = (case first_table m p x sig of Some e \<Rightarrow> e | None \<Rightarrow> 0)"
proof (cases "valid_table m p")
  case True
  have "unat (p + 36) = unat p + 36" using assms(2) unat_add_small [of p 36] by simp
  then have "p + 36 \<noteq> 0" by (metis add_is_0 unat_0 zero_neq_numeral)
  moreover have "p \<noteq> NULL" using True by (simp add: valid_table_def)
  ultimately show ?thesis
    using True
    by (cases x) (simp_all add: find_table_def first_table_def Let_def map_sdt_valid scan_find table_matches_valid [OF assms(1)]
        root_entries_def find_map_Some)
next
  case False
  then show ?thesis by (simp add: find_table_def first_table_def map_sdt_valid)
qed

lemma find_s5_type: "map_option fst (find_s5 m d) = s5_type m d"
proof (cases "valid_table m d")
  case True
  then have "d \<noteq> NULL" by (simp add: valid_table_def)
  moreover have "memcmp_simple (bytes_at m (d + word_of_nat i)) (lit ''_S5_'') 4 = 0 \<longleftrightarrow> has_sig m (d + word_of_nat i) ''_S5_''" for i
    using memcmp_sig [of 4 "''_S5_''" m "d + word_of_nat i"] by simp
  ultimately show ?thesis
    using True by (simp add: find_s5_def s5_type_def map_sdt_valid Let_def scan_find option.map_comp comp_def bytes_at_def add.commute)
next
  case False
  then show ?thesis by (simp add: find_s5_def s5_type_def map_sdt_valid Let_def)
qed

text \<open>The root table, and the fixed description table that it leads to.\<close>

definition acpi_root :: "mem \<Rightarrow> (ptr \<times> bool) option" where
  "acpi_root m = (case first_rsdp m of None \<Rightarrow> None | Some r \<Rightarrow>
     let x = (2 \<le> rsdp_revision m r \<and> xsdt_address m r \<noteq> 0);
         t = (if x then xsdt_address m r else ucast (rsdt_address m r))
     in if t = 0 then None else Some (t, x))"

definition acpi_fadt :: "mem \<Rightarrow> ptr option" where
  "acpi_fadt m = Option.bind (acpi_root m) (\<lambda>(t, x). first_table m t x SIG_FACP)"

definition FALLBACK :: trace where
  "FALLBACK = [Outw 0x604 0x2000, Outb 0x80 0, Outw 0x4004 0x2000, Outb 0x80 0]"

lemma fallback_trace: "emulator_fallback tr = tr @ FALLBACK"
  by (simp add: emulator_fallback_def io_wait_def outb_def outw_def FALLBACK_def)

lemma first_rsdp_pos: "first_rsdp m = Some r \<Longrightarrow> r \<noteq> 0"
  using rsdp_place_pos find_in_set [of "valid_rsdp m" "map rsdp_place [0..<RSDP_PLACES]" r]
  by (auto simp: first_rsdp_def)

lemma first_table_valid: "first_table m p x sig = Some e \<Longrightarrow> valid_table m e \<and> has_sig m e sig"
  using find_in_set [of "\<lambda>e. valid_table m e \<and> has_sig m e sig" "root_entries m p x" e]
  by (auto simp: first_table_def split: if_splits)

lemma power_off_search:
  assumes "\<And>t x. acpi_root m = Some (t, x) \<Longrightarrow> unat t + 0x200000 < 2 ^ 64"
  shows "power_off (m, tr) = (case acpi_fadt m of None \<Rightarrow> (m, tr @ FALLBACK @ FALLBACK)
    | Some f \<Rightarrow> enter_s5 f (m, tr @ FALLBACK))"
proof (cases "first_rsdp m")
  case None
  then show ?thesis by (simp add: power_off_def acpi_fadt_def acpi_root_def find_rsdp_first fallback_trace)
next
  case (Some r)
  let ?x = "2 \<le> rsdp_revision m r \<and> xsdt_address m r \<noteq> 0"
  let ?t = "if ?x then xsdt_address m r else ucast (rsdt_address m r)"
  have r: "find_rsdp m = r" "r \<noteq> 0" using Some first_rsdp_pos by (simp_all add: find_rsdp_first)
  have root: "acpi_root m = (if ?t = 0 then None else Some (?t, ?x))"
    unfolding acpi_root_def Some Let_def option.case by (rule refl)
  have p: "power_off (m, tr) = (if ?t = 0 then (m, tr @ FALLBACK @ FALLBACK)
      else let f = find_table m ?t SIG_FACP ?x in if f = 0 then (m, tr @ FALLBACK @ FALLBACK)
        else if map_sdt m f = NULL then (m, tr @ FALLBACK @ FALLBACK) else enter_s5 f (m, tr @ FALLBACK))"
    unfolding power_off_def prod.case Let_def r(1) if_not_P [OF r(2)] fallback_trace append_assoc by (rule refl)
  show ?thesis
  proof (cases "?t = 0")
    case True
    show ?thesis unfolding p acpi_fadt_def root if_P [OF True] by simp
  next
    case False
    have ft: "find_table m ?t SIG_FACP ?x = (case first_table m ?t ?x SIG_FACP of Some e \<Rightarrow> e | None \<Rightarrow> 0)"
      using assms False root by (intro find_table_first) simp_all
    have e: "acpi_fadt m = first_table m ?t ?x SIG_FACP"
      unfolding acpi_fadt_def root if_not_P [OF False] by simp
    show ?thesis
    proof (cases "first_table m ?t ?x SIG_FACP")
      case None
      show ?thesis unfolding p if_not_P [OF False] e ft Let_def None by simp
    next
      case S: (Some f)
      then have "valid_table m f" "f \<noteq> 0" using first_table_valid [OF S] by (simp_all add: valid_table_def)
      then show ?thesis unfolding p if_not_P [OF False] e ft Let_def S by (simp add: map_sdt_valid)
    qed
  qed
qed

lemma unat_ucast_up: "unat (ucast (p :: u32) :: u64) = unat p"
proof -
  have "unat p < 2 ^ 64" using unat_less_2p [of p] by simp
  then show ?thesis by (simp add: unsigned_ucast_eq take_bit_nat_eq_self)
qed

lemma ucast_pos: "(ucast (p :: u32) :: u64) = 0 \<longleftrightarrow> p = 0"
  using unat_ucast_up [of p] by (metis unat_0 unsigned_word_eqI)

lemma ucast_down_up: "(ucast (ucast (p :: u32) :: u64) :: u16) = ucast p"
  by (rule bit_word_eqI) (simp add: bit_simps)

lemma sleep_value_unat: "unat (sleep_value a) = unat a mod 8 * 1024 + 8192"
proof -
  have "a AND 0x7 = take_bit 3 a" by (simp add: take_bit_eq_mask mask_eq_exp_minus_1)
  then have u: "unat (a AND 0x7) = unat a mod 8" by (simp add: take_bit_eq_mod unat_mod)
  define k where "k = unat a mod 8"
  have "a AND 0x7 = word_of_nat k" unfolding k_def u [symmetric] by simp
  moreover have "k = 0 \<or> k = 1 \<or> k = 2 \<or> k = 3 \<or> k = 4 \<or> k = 5 \<or> k = 6 \<or> k = 7" unfolding k_def by arith
  ultimately show ?thesis by (auto simp: sleep_value_def push_bit_eq_mult simp flip: k_def)
qed

section \<open>A machine with tables\<close>

text \<open>
  A root pointer at \<open>0xE0000\<close>, a root table with one entry, a description table with its first
  control block at port \<open>0xB004\<close>, and a \<open>_S5_\<close> object with sleep type 5.
\<close>

definition rsdp_bytes :: "u8 list" where
  "rsdp_bytes = [82, 83, 68, 32, 80, 84, 82, 32, 224, 0, 0, 0, 0, 0, 0, 0, 0, 0, 1, 0]"

definition rsdt_bytes :: "u8 list" where
  "rsdt_bytes = [82, 83, 68, 84, 40, 0, 0, 0, 0, 153, 0, 0, 0, 0, 0, 0, 0, 0, 0, 0, 0, 0, 0, 0, 0, 0, 0, 0, 0, 0, 0, 0, 0, 0, 0, 0, 0, 0, 2, 0]"

definition fadt_bytes :: "u8 list" where
  "fadt_bytes = [70, 65, 67, 80, 72, 0, 0, 0, 0, 231, 0, 0, 0, 0, 0, 0, 0, 0, 0, 0, 0, 0, 0, 0, 0, 0, 0, 0, 0, 0, 0, 0, 0, 0, 0, 0, 0, 0, 0, 0, 0, 0, 3, 0, 0, 0, 0, 0, 0, 0, 0, 0, 0, 0, 0, 0, 0, 0, 0, 0, 0, 0, 0, 0, 4, 176, 0, 0, 0, 0, 0, 0]"

definition dsdt_bytes :: "u8 list" where
  "dsdt_bytes = [68, 83, 68, 84, 48, 0, 0, 0, 0, 86, 0, 0, 0, 0, 0, 0, 0, 0, 0, 0, 0, 0, 0, 0, 0, 0, 0, 0, 0, 0, 0, 0, 0, 0, 0, 0, 95, 83, 53, 95, 0, 0, 0, 0, 0, 5, 0, 0]"

definition demo_acpi :: mem where
  "demo_acpi = st_bytes (st_bytes (st_bytes (st_bytes (\<lambda>_. 0) 0xE0000 rsdp_bytes) 0x10000 rsdt_bytes) 0x20000 fadt_bytes)
     0x30000 dsdt_bytes"

lemma demo_lengths: "length rsdp_bytes = 20" "length rsdt_bytes = 40" "length fadt_bytes = 72" "length dsdt_bytes = 48"
  by (simp_all add: rsdp_bytes_def rsdt_bytes_def fadt_bytes_def dsdt_bytes_def)

lemma ld_bytes_other:
  assumes "disjoint a n b (length bs)" "unat a + n \<le> 2 ^ 64" "unat b + length bs \<le> 2 ^ 64"
  shows "ld_bytes (st_bytes m b bs) a n = ld_bytes m a n"
proof (rule ld_bytes_cong)
  show "same_on (st_bytes m b bs) m a n"
    using assms by (auto simp: same_on_def in_range_def disjoint_def intro!: st_bytes_outside)
qed (rule assms(2))

lemma demo_regions:
  "ld_bytes demo_acpi 0xE0000 20 = rsdp_bytes" "ld_bytes demo_acpi 0x10000 40 = rsdt_bytes"
  "ld_bytes demo_acpi 0x20000 72 = fadt_bytes" "ld_bytes demo_acpi 0x30000 48 = dsdt_bytes"
  unfolding demo_acpi_def
  using ld_st_bytes [of "0xE0000" rsdp_bytes] ld_st_bytes [of "0x10000" rsdt_bytes]
    ld_st_bytes [of "0x20000" fadt_bytes] ld_st_bytes [of "0x30000" dsdt_bytes]
  by (simp_all add: ld_bytes_other disjoint_def demo_lengths)

text \<open>Fields of a structure whose bytes are known.\<close>

lemma ld32_of_bytes:
  assumes "ld_bytes m a n = bs" "i + 4 \<le> n"
  shows "ld32 m (a + word_of_nat i) =
    word_of_int (uint (bs ! i) + 256 * (uint (bs ! (i + 1)) + 256 * (uint (bs ! (i + 2)) + 256 * uint (bs ! (i + 3)))))"
proof -
  have "m (a + word_of_nat (i + k)) = bs ! (i + k)" if "k < 4" for k
    using assms that ld_bytes_nth [of "i + k" n m a] by simp
  from this [of 0] this [of 1] this [of 2] this [of 3] show ?thesis
    by (simp add: ld32_def eval_nat_numeral ac_simps)
qed

lemma has_sig_of_bytes:
  assumes "ld_bytes m a n = bs" "i + length sig \<le> n"
  shows "has_sig m (a + word_of_nat i) sig \<longleftrightarrow> take (length sig) (drop i bs) = map of_char sig"
proof -
  have "ld_bytes m (a + word_of_nat i) (length sig) = take (length sig) (drop i bs)"
    using assms by (intro nth_equalityI) (auto simp: ld_bytes_nth add.assoc simp flip: of_nat_add)
  then show ?thesis by (simp add: has_sig_def)
qed

lemmas demo32 = demo_regions(1) [THEN ld32_of_bytes] demo_regions(2) [THEN ld32_of_bytes]
  demo_regions(3) [THEN ld32_of_bytes] demo_regions(4) [THEN ld32_of_bytes]

lemmas demo_bytes = rsdp_bytes_def rsdt_bytes_def fadt_bytes_def dsdt_bytes_def

lemma demo_acpi_lengths:
  "sdt_length demo_acpi 0x10000 = 40" "sdt_length demo_acpi 0x20000 = 72" "sdt_length demo_acpi 0x30000 = 48"
  using demo32(2) [of 4] demo32(3) [of 4] demo32(4) [of 4] by (simp_all add: sdt_length_def demo_bytes)

lemma demo_acpi_rsdp: "first_rsdp demo_acpi = Some 0xE0000"
proof -
  have "has_sig demo_acpi 0xE0000 SIG_RSDP"
    using has_sig_of_bytes [OF demo_regions(1), of 0 SIG_RSDP] by (simp add: demo_bytes)
  then have "valid_rsdp demo_acpi 0xE0000" unfolding valid_rsdp_def demo_regions by (simp add: demo_bytes)
  moreover have "[0..<RSDP_PLACES] = 0 # [1..<RSDP_PLACES]" unfolding RSDP_PLACES_def by (subst upt_conv_Cons) simp_all
  ultimately show ?thesis by (simp add: first_rsdp_def rsdp_place_def)
qed

lemma demo_acpi_tables:
  "valid_table demo_acpi 0x10000" "valid_table demo_acpi 0x20000" "valid_table demo_acpi 0x30000"
  "has_sig demo_acpi 0x20000 SIG_FACP"
proof -
  have u: "unat (40 :: u32) = 40" "unat (72 :: u32) = 72" "unat (48 :: u32) = 48" by simp_all
  show "valid_table demo_acpi 0x10000" "valid_table demo_acpi 0x20000" "valid_table demo_acpi 0x30000"
    unfolding valid_table_def demo_acpi_lengths u demo_regions by (simp_all add: demo_bytes)
  show "has_sig demo_acpi 0x20000 SIG_FACP"
    using has_sig_of_bytes [OF demo_regions(3), of 0 SIG_FACP] by (simp add: demo_bytes)
qed

lemma demo_acpi_fields:
  "rsdp_revision demo_acpi 0xE0000 = 0" "rsdt_address demo_acpi 0xE0000 = 0x10000"
  "root_entries demo_acpi 0x10000 False = [0x20000]" "ld32 demo_acpi (0x20000 + 64) = 0xB004"
  "ld32 demo_acpi (0x20000 + 68) = 0" "fadt_dsdt demo_acpi 0x20000 72 = 0x30000"
proof -
  show "rsdp_revision demo_acpi 0xE0000 = 0"
    using ld_bytes_nth [of 15 20 demo_acpi "0xE0000"] unfolding demo_regions by (simp add: rsdp_revision_def demo_bytes)
  show "rsdt_address demo_acpi 0xE0000 = 0x10000"
    using demo32(1) [of 16] by (simp add: rsdt_address_def demo_bytes)
  have "ld32 demo_acpi 0x10024 = 0x20000" using demo32(2) [of 36] by (simp add: demo_bytes)
  then show "root_entries demo_acpi 0x10000 False = [0x20000]" unfolding root_entries_def demo_acpi_lengths by simp
  show "ld32 demo_acpi (0x20000 + 64) = 0xB004" "ld32 demo_acpi (0x20000 + 68) = 0"
    using demo32(3) [of 64] demo32(3) [of 68] by (simp_all add: demo_bytes)
  show "fadt_dsdt demo_acpi 0x20000 72 = 0x30000" using demo32(3) [of 40] by (simp add: fadt_dsdt_def demo_bytes)
qed

lemma demo_acpi_s5: "s5_type demo_acpi 0x30000 = Some 5"
proof -
  let ?P = "\<lambda>i. has_sig demo_acpi (0x30000 + word_of_nat i) ''_S5_'' \<and> i + 10 < unat (sdt_length demo_acpi 0x30000)"
  let ?Q = "\<lambda>i. take (length ''_S5_'') (drop i dsdt_bytes) = map of_char ''_S5_'' \<and> i + 10 < 48"
  have "scan ?P 0 44 = scan ?Q 0 44"
    by (rule scan_cong) (use has_sig_of_bytes [OF demo_regions(4), where sig = "''_S5_''"] demo_acpi_lengths in simp)
  also have "\<dots> = Some 36" by code_simp
  finally have "find ?P [0..<44] = Some 36" by (simp only: scan_find)
  moreover have "demo_acpi 0x3002D = 5"
    using ld_bytes_nth [of 45 48 demo_acpi "0x30000"] unfolding demo_regions by (simp add: demo_bytes)
  ultimately show ?thesis unfolding s5_type_def by (simp add: demo_acpi_tables demo_acpi_lengths)
qed

lemma demo_acpi_root: "acpi_root demo_acpi = Some (0x10000, False)"
  by (simp add: acpi_root_def demo_acpi_rsdp demo_acpi_fields Let_def)

lemma demo_acpi_fadt: "acpi_fadt demo_acpi = Some 0x20000"
  by (simp add: acpi_fadt_def demo_acpi_root first_table_def demo_acpi_tables demo_acpi_fields)

section \<open>Properties\<close>





text \<open>
  Restarting: when the keyboard controller is ready at some round of the wait loop, the
  loop ends and the last thing that \<open>reboot_system\<close> does on the ports is the reset command.
\<close>

lemma reboot_resets:
  assumes "fst (inb dev 0x64 (poll_rounds dev (\<lambda>tr. tr) 0x64 n tr)) AND 0x02 = 0"
  shows "\<exists>k \<le> n. reboot_system dev tr = Some (poll_rounds dev (\<lambda>tr. tr) 0x64 (Suc k) tr @ [Outb 0x64 0xFE])"
  using poll_returns [where pre = "\<lambda>tr. tr", OF assms]
  by (auto simp: reboot_system_def wait_kbc_def outb_def)

end
