(* ===== verification/Programs.thy ===== *)
theory Programs
  imports Fat16 Multitask
begin

text \<open>
  Programs: installing them into the file system (\<open>load_app_to_fs\<close> of \<open>kernel.c\<close>), loading and
  starting them (\<open>load_and_run_program\<close> of \<open>syscall/syscall.c\<close>, \<open>tasks/tasks.c\<close>).  File system,
  both heaps and scheduler work on the same byte memory here.  Addresses of literals, of the
  RAM disk and of the program images that are linked into the kernel are fields of \<open>image\<close>.
\<close>

section \<open>Operations\<close>

record app =
  app_name :: ptr
  app_data :: ptr
  app_len :: u32

record image =
  ramdisk :: ptr
  str_bin :: ptr
  str_terminal :: ptr
  im_terminal :: app
  im_htop :: app
  im_clear :: app
  im_shutdown :: app
  im_reboot :: app
  user_task1 :: ptr
  zombie_reaper_task :: ptr

definition load_app_to_fs :: "image \<Rightarrow> ptr \<Rightarrow> ptr \<Rightarrow> ptr \<Rightarrow> ptr \<Rightarrow> u32 \<Rightarrow> fs \<times> mem \<Rightarrow> fs \<times> mem" where
  "load_app_to_fs I folder name ext data dat = (\<lambda>(f, m).
     let b = fs_find_in_dir m folder NULL (int FS_ROOT_IDX) f;
         (f, b) = (if b < 0 then fs_mkdir m folder (int FS_ROOT_IDX) f else (f, b))
     in if b < 0 then (f, m) else fst (fs_write_file_in_dir (ramdisk I) name ext b data (ucast dat) (f, m)))"

text \<open>
  \<open>load_and_run_program\<close>: the result is the state and the return value.  The file system is
  only read.  The size is a 32-bit number, and so is its sum with 1024.
\<close>

definition load_and_run_program :: "layout \<Rightarrow> image \<Rightarrow> fs \<Rightarrow> ptr \<Rightarrow> sched \<Rightarrow> (sched \<times> u64) option" where
  "load_and_run_program L I f str s =
     (let s = cli s
      in if str = NULL \<or> ram s str = 0 then Some (sti s, -1)
         else
           let b = fs_find_in_dir (ram s) (str_bin I) NULL (int FS_ROOT_IDX) f
           in if b < 0 then Some (sti s, 0)
              else
                let i = fs_find_in_dir (ram s) str (str_bin I) b f; e = entries f ! nat i
                in if i < 0 then Some (sti s, 0)
                   else if e_size e = 0 then Some (sti s, 0)
                   else Option.bind (u_malloc L (ucast (e_size e + 1024)) s) (\<lambda>(s, user_mem).
                     if user_mem = NULL then Some (sti s, 0)
                     else
                       let s = s\<lparr>ram := memset (ram s) user_mem 0 (ucast (e_size e))\<rparr>;
                           s = s\<lparr>ram := fst (fs_read_file_in_dir (ramdisk I) str (str_bin I) b user_mem (ucast (e_size e)) (f, ram s))\<rparr>
                       in Option.bind (utask_create L user_mem 16384 user_mem (ucast (e_size e)) s) (\<lambda>(s, pid).
                            if pid = 0 then Some (sti (u_free user_mem s), 0) else Some (sti s, pid))))"

definition load_and_run_terminal :: "layout \<Rightarrow> image \<Rightarrow> fs \<Rightarrow> sched \<Rightarrow> sched option" where
  "load_and_run_terminal L I f s =
     (let b = fs_find_in_dir (ram s) (str_bin I) NULL (int FS_ROOT_IDX) f
      in if b < 0 then Some s
         else
           let i = fs_find_in_dir (ram s) (str_terminal I) (str_bin I) b f; e = entries f ! nat i
           in if i < 0 then Some s
              else Option.bind (u_malloc L (ucast (e_size e + 1024)) s) (\<lambda>(s, user_mem).
                if user_mem = NULL then Some s
                else
                  let s = s\<lparr>ram := fst (fs_read_file_in_dir (ramdisk I) (str_terminal I) (str_bin I) b user_mem (ucast (e_size e)) (f, ram s))\<rparr>
                  in map_option fst (utask_create L user_mem 0 user_mem (ucast (e_size e)) s)))"

definition tasks_init :: "layout \<Rightarrow> image \<Rightarrow> fs \<Rightarrow> sched \<Rightarrow> sched option" where
  "tasks_init L I f s =
     Option.bind (task_create L (user_task1 I) 0 s) (\<lambda>s.
       Option.bind (load_and_run_terminal L I f s) (task_create L (zombie_reaper_task I) 0))"

section \<open>Memory that an allocation leaves alone\<close>

lemma k_malloc_region:
  assumes h: "heaps_ok L s bs ubs" and n: "k_admissible bs n" and r: "k_malloc L n s = Some (s', p)"
    and x: "unat x < unat (l_heap_start L) \<or> unat (l_heap_end L) \<le> unat x"
  shows "ram s' x = ram s x"
proof -
  let ?st = "(kern_heap s, ram s)"
  have k: "krep (l_heap_start L) (l_heap_end L) ?st bs" using h by (simp add: heaps_ok_def)
  obtain st' where st': "malloc (l_heap_start L) n ?st = Some (st', snd (a_malloc n bs))"
      "krep (l_heap_start L) (l_heap_end L) st' (fst (a_malloc n bs))"
      "only_hdrs (ram s) (snd st') (fst ` set (fst (a_malloc n bs)))"
    using malloc_refines [OF k n, of "l_heap_start L"] by auto
  have "tiles (unat (l_heap_start L)) (fst (a_malloc n bs)) (unat (l_heap_end L))"
    using st'(2) by (simp add: krep_def heap_wf_def)
  then have "snd st' x = ram s x" by (rule only_hdrs_region [OF st'(3) _ x])
  then show ?thesis using r st'(1) by (auto simp: k_malloc_def split: prod.splits)
qed

lemma new_task_region:
  assumes h: "heaps_ok L s bs ubs" and room: "room_for_task L n0 s" and r: "new_task L entry n0 um usz s = Some (s', t)"
    and x: "unat x < unat (l_heap_start L) \<or> unat (l_heap_end L) \<le> unat x"
  shows "ram s' x = ram s x"
proof -
  let ?n = "stack_of n0"
  note adm = room_for_task_admissible [OF h room]
  have n: "192 \<le> unat ?n" using room by (simp add: room_for_task_def)
  obtain s1 t1 s2 ks m sp bs' j k where
    a: "k_malloc L SIZEOF_TASK s = Some (s1, t1)" "t1 \<noteq> NULL" "k_malloc L ?n s1 = Some (s2, ks)" "ks \<noteq> NULL"
      "prepare_initial_stack entry (ks + ?n) (ram s2) = (m, sp)"
    and h': "heaps_ok L (s2\<lparr>ram := m\<rparr>) bs' ubs" and lv: "live bs' = {(t1, j), (ks, k)} \<union> live bs" "unat ?n \<le> k"
    by (rule new_task_memory [OF h n adm]) blast
  have "heaps_ok L s1 (fst (a_malloc SIZEOF_TASK bs)) ubs" using k_malloc_ok [OF h _ adm(1)] a(1) by auto
  from k_malloc_region [OF this adm(2) a(3) x] k_malloc_region [OF h adm(1) a(1) x]
  have s2: "ram s2 x = ram s x" by simp
  have wf: "heap_wf m KERNEL_MAGIC (unat (l_heap_start L)) bs' (unat (l_heap_end L))"
    using h' by (simp add: heaps_ok_def krep_def)
  have lk: "(ks, k) \<in> live bs'" using lv by simp
  note b = live_bounds(1,2) [OF wf lk]
  have "unat ks + unat ?n < 2 ^ 64" using b lv(2) wf by (simp add: heap_wf_def)
  note f = prepare_initial_stack_ok [OF this n a(5)]
  have "m x = ram s2 x" using f(4) [of x] b lv(2) x by (auto simp: in_range_def)
  moreover have "ram s' = m"
    using r a unfolding new_task_def stack_of_def [symmetric]
    by (auto simp: Let_def ring_insert_def upd_task_def stack_of_def split: if_splits)
  ultimately show ?thesis using s2 by simp
qed

lemma u_malloc_keeps:
  assumes h: "heaps_ok L s bs ubs" and n: "unat k + 7 < 2 ^ 64" and r: "u_malloc L k s = Some (s1, um)"
  shows "unat x < unat (l_user_start L) \<or> unat (l_user_end L) \<le> unat x \<Longrightarrow> ram s1 x = ram s x"
    "(q, l) \<in> live ubs \<Longrightarrow> same_on (ram s) (ram s1) q l"
proof -
  let ?st = "(user_heap s, ram s)"
  have u: "urep (l_user_start L) (l_user_end L) ?st ubs" using h by (simp add: heaps_ok_def)
  have adm: "u_admissible ubs k" using n by (simp add: u_admissible_def)
  obtain uh m where al: "user_malloc (l_user_start L) (l_user_end L) k ?st = Some ((uh, m), um)" and s1: "ram s1 = m"
    using r by (auto simp: u_malloc_def)
  have rep: "urep (l_user_start L) (l_user_end L) (uh, m) (fst (a_malloc k ubs))"
    and oh: "only_hdrs (ram s) m (fst ` set (fst (a_malloc k ubs)))"
    using user_malloc_refines [OF u, of k] al by auto
  have ti: "tiles (unat (l_user_start L)) (fst (a_malloc k ubs)) (unat (l_user_end L))"
    using rep by (simp add: urep_def heap_wf_def)
  show "ram s1 x = ram s x" if "unat x < unat (l_user_start L) \<or> unat (l_user_end L) \<le> unat x"
    unfolding s1 by (rule only_hdrs_region [OF oh ti that])
  show "same_on (ram s) (ram s1) q l" if "(q, l) \<in> live ubs"
    using um.alloc_keeps(1) [OF u adm al that] by (simp add: s1)
qed

text \<open>
  Arguments that survive the loading of a program: bytes outside the user section, or
  inside a payload that is in use.
\<close>

definition steady :: "layout \<Rightarrow> blk list \<Rightarrow> ptr \<Rightarrow> nat \<Rightarrow> bool" where
  "steady L ubs p n \<longleftrightarrow> unat p + n \<le> 2 ^ 64 \<and>
     (unat p + n \<le> unat (l_user_start L) \<or> unat (l_user_end L) \<le> unat p \<or>
      (\<exists>(q, l) \<in> live ubs. unat q \<le> unat p \<and> unat p + n \<le> unat q + l))"

lemma user_image_keeps:
  assumes h: "heaps_ok L s bs ubs" and n: "unat k + 7 < 2 ^ 64" and r: "u_malloc L k s = Some (s1, um)" "um \<noteq> NULL"
    and m: "\<And>x. \<not> in_range x um (unat k) \<Longrightarrow> m x = ram s1 x"
  shows "unat x < unat (l_user_start L) \<or> unat (l_user_end L) \<le> unat x \<Longrightarrow> m x = ram s x"
    "(q, l) \<in> live ubs \<Longrightarrow> same_on (ram s) m q l"
    "unat (l_user_start L) \<le> unat um" "unat um + unat k \<le> unat (l_user_end L)"
proof -
  obtain ubs' j where u: "heaps_ok L s1 bs ubs'" "live ubs' = insert (um, j) (live ubs)" "unat k \<le> j" "um \<notin> fst ` live ubs"
    using u_malloc_ok(1) [OF h n r] by blast
  have wf: "heap_wf (ram s1) USER_MAGIC (unat (l_user_start L)) ubs' (unat (l_user_end L))"
    using u(1) by (simp add: heaps_ok_def urep_def)
  have lv: "(um, j) \<in> live ubs'" using u(2) by simp
  show b: "unat (l_user_start L) \<le> unat um" "unat um + unat k \<le> unat (l_user_end L)"
    using live_bounds(1,2) [OF wf lv] u(3) by simp_all
  show "m x = ram s x" if "unat x < unat (l_user_start L) \<or> unat (l_user_end L) \<le> unat x"
    using m [of x] u_malloc_keeps(1) [OF h n r(1) that] that b by (auto simp: in_range_def)
  show "same_on (ram s) m q l" if q: "(q, l) \<in> live ubs"
  proof -
    have "(q, l) \<in> live ubs'" "q \<noteq> um" using q u(2,4) by force+
    then have "disjoint um j q l" using live_disjoint [OF wf lv] by auto
    then have "m x = ram s1 x" if "in_range x q l" for x
      using that u(3) by (intro m) (auto simp: in_range_def disjoint_def)
    then show ?thesis using u_malloc_keeps(2) [OF h n r(1) q] by (auto simp: same_on_def)
  qed
qed

lemma steady_kept:
  assumes st: "steady L ubs p n" and i: "i < n"
    and out: "\<And>x. unat x < unat (l_user_start L) \<or> unat (l_user_end L) \<le> unat x \<Longrightarrow> m x = m0 x"
    and lv: "\<And>q l. (q, l) \<in> live ubs \<Longrightarrow> same_on m0 m q l"
  shows "arg_at m p i = arg_at m0 p i"
proof -
  let ?x = "p + word_of_nat i"
  have x: "unat ?x = unat p + i" using st i by (intro unat_add_of_nat) (simp add: steady_def)
  from st consider "unat p + n \<le> unat (l_user_start L) \<or> unat (l_user_end L) \<le> unat p"
    | q l where "(q, l) \<in> live ubs" "unat q \<le> unat p" "unat p + n \<le> unat q + l"
    by (auto simp: steady_def)
  then show ?thesis
  proof cases
    case 1
    then show ?thesis using out [of ?x] x i by (auto simp: arg_at_def)
  next
    case 2
    then have "in_range ?x q l" using x i by (simp add: in_range_def)
    then show ?thesis using lv [OF 2(1)] by (auto simp: arg_at_def same_on_def)
  qed
qed

lemma fs_find_cong:
  assumes "\<And>i. i < 64 \<Longrightarrow> arg_at m' name i = arg_at m name i"
    "ext \<noteq> NULL \<Longrightarrow> (\<And>i. i < 64 \<Longrightarrow> arg_at m' ext i = arg_at m ext i)"
  shows "fs_find_in_dir m' name ext parent f = fs_find_in_dir m name ext parent f"
  using entry_matches_cong [OF assms] by (simp add: fs_find_in_dir_def)

text \<open>The room for a task is a matter of the kernel heap only.\<close>

lemma admissible_room:
  assumes h: "heaps_ok L s bs ubs" and n: "192 \<le> unat (stack_of n)"
    and a: "k_admissible bs SIZEOF_TASK" "k_admissible (fst (a_malloc SIZEOF_TASK bs)) (stack_of n)"
  shows "room_for_task L n s"
proof -
  have room: "room k s'" if h': "heaps_ok L s' bs' ubs" and k: "k \<noteq> 0" "k_admissible bs' k" for s' bs' k
  proof -
    obtain b where b: "find (fits (align_up k)) bs' = Some b" using k by (auto simp: k_admissible_def)
    moreover have "fst b \<noteq> NULL"
    proof -
      have "heap_wf (ram s') KERNEL_MAGIC (unat (l_heap_start L)) bs' (unat (l_heap_end L))"
        using h' by (simp add: heaps_ok_def krep_def)
      then show ?thesis using find_in_set [OF b] heap_wf_nonnull [of "ram s'" KERNEL_MAGIC _ bs' _ "fst b"]
        by (cases b) auto
    qed
    ultimately show ?thesis
      using k(2) h' roomI [OF h', of k "fst b" "fst (snd b)" "snd (snd b)"] by (simp add: k_admissible_def)
  qed
  obtain s1 t where m: "k_malloc L SIZEOF_TASK s = Some (s1, t)" "heaps_ok L s1 (fst (a_malloc SIZEOF_TASK bs)) ubs"
    using k_malloc_ok [OF h _ a(1)] by auto
  have "stack_of n \<noteq> 0" using n by auto
  then show ?thesis using n m(1) room [OF h _ a(1)] room [OF m(2) _ a(2)] by (simp add: room_for_task_def)
qed

section \<open>Starting a program\<close>

lemma life_flag [simp]: "life_inv L (cli s) xs zs bs ubs = life_inv L s xs zs bs ubs" "life_inv L (sti s) xs zs bs ubs = life_inv L s xs zs bs ubs"
  by (simp_all add: life_inv_def book_def)

lemma u_malloc_cli: "u_malloc L k (cli s) = map_option (\<lambda>(s', p). (cli s', p)) (u_malloc L k s)"
  by (auto simp: u_malloc_def cli_def option.map_comp comp_def case_prod_beta intro: map_option_cong)

text \<open>The sizes of a file as the words that the code computes.\<close>

lemma file_words:
  assumes "holds rd f m i data" "length data + 1024 < 2 ^ 32"
  shows "ucast (e_size (entries f ! i)) = (word_of_nat (length data) :: u64)"
    "ucast (e_size (entries f ! i) + 1024) = (word_of_nat (length data + 1024) :: u64)"
    "unat (word_of_nat (length data) :: u64) = length data"
    "unat (word_of_nat (length data + 1024) :: u64) = length data + 1024"
    "data \<noteq> [] \<Longrightarrow> e_size (entries f ! i) \<noteq> 0"
proof -
  have sz: "e_size (entries f ! i) = word_of_nat (length data)" using assms(1) by (auto simp: holds_def)
  show "data \<noteq> [] \<Longrightarrow> e_size (entries f ! i) \<noteq> 0" using assms(1) by (auto simp: holds_def)
  show "unat (word_of_nat (length data) :: u64) = length data" "unat (word_of_nat (length data + 1024) :: u64) = length data + 1024"
    using assms(2) unat_of_nat [of "length data", where 'a = 64] unat_of_nat [of "length data + 1024", where 'a = 64] by simp_all
  have up: "ucast (word_of_nat a :: u32) = (word_of_nat a :: u64)" if "a < 2 ^ 32" for a
    using that of_nat_unat [of "word_of_nat a :: u32", where 'a = "64 word"] unat_of_nat [of a, where 'a = 32] by simp
  have "e_size (entries f ! i) + 1024 = word_of_nat (length data + 1024)" by (simp add: sz)
  then show "ucast (e_size (entries f ! i)) = (word_of_nat (length data) :: u64)"
    "ucast (e_size (entries f ! i) + 1024) = (word_of_nat (length data + 1024) :: u64)"
    using up [of "length data"] up [of "length data + 1024"] assms(2) by (simp_all only: sz)
qed

lemma next_pid_nonzero: "life_inv L s xs zs bs ubs \<Longrightarrow> (scast (next_pid s) :: u64) \<noteq> 0"
proof
  assume l: "life_inv L s xs zs bs ubs" and z: "(scast (next_pid s) :: u64) = 0"
  have "0 < unat (next_pid s)" "unat (next_pid s) < 2 ^ 31"
    using l life_init(1) [OF l] by (auto simp: life_inv_def book_def)
  moreover have "next_pid s = 0"
  proof -
    have "bit (next_pid s) n = bit (scast (next_pid s) :: u64) n" if "n < 32" for n using that by (simp add: bit_simps)
    then show ?thesis unfolding z by (intro bit_word_eqI) simp
  qed
  ultimately show False by simp
qed

lemma run_program:
  assumes l: "life_inv L s xs zs bs ubs" and room: "room_for_task L 16384 s" and np: "unat (next_pid s) + 1 < 2 ^ 31"
    and disk: "disk_ok (ramdisk I)" "disjoint (ramdisk I) RAMDISK_SIZE (l_user_start L) (unat (l_user_end L) - unat (l_user_start L))"
    and arg: "str \<noteq> NULL" "ram s str \<noteq> 0" "steady L ubs str 64" "steady L ubs (str_bin I) 64"
    and bin: "fs_find_in_dir (ram s) (str_bin I) NULL (int FS_ROOT_IDX) f = b" "0 \<le> b"
    and fil: "fs_find_in_dir (ram s) str (str_bin I) b f = int i" "holds (ramdisk I) f (ram s) i data"
      "data \<noteq> []" "length data + 1024 < 2 ^ 32"
    and mem: "u_malloc L (word_of_nat (length data + 1024)) s = Some (s1, um)" "um \<noteq> NULL"
  shows "\<exists>s' t bs' ubs' j. load_and_run_program L I f str s = Some (s', scast (next_pid s)) \<and>
    life_inv L s' (xs @ [t]) zs bs' ubs' \<and> live ubs' = insert (um, j) (live ubs) \<and> um \<notin> fst ` live ubs \<and>
    t_pid (tasks s' t) = next_pid s \<and> t_state (tasks s' t) = TASK_READY \<and> t_user_mem (tasks s' t) = um \<and>
    ld64 (ram s') (t_regs (tasks s' t) + 8 * 17) = um \<and> ld_bytes (ram s') um (length data) = data \<and>
    if_flag s' \<and> (\<forall>(q, k) \<in> live ubs. same_on (ram s) (ram s') q k)"
proof -
  let ?k = "word_of_nat (length data + 1024) :: u64" and ?n = "word_of_nat (length data) :: u64"
  let ?m1 = "memset (ram s1) um 0 ?n" and ?s0 = "cli s" and ?rd = "ramdisk I"
  let ?m2 = "st_bytes ?m1 um data"
  note w = file_words [OF fil(2,4)]
  have k7: "unat ?k + 7 < 2 ^ 64" using w(4) fil(4) by simp
  have h: "heaps_ok L s bs ubs" using l by (simp add: life_inv_def sched_inv_def)
  have b0: "unat um + unat ?k \<le> unat (l_user_end L)" "unat (l_user_start L) \<le> unat um"
    using user_image_keeps(3,4) [OF h k7 mem, of "ram s1"] by simp_all
  have ul: "unat um + length data < 2 ^ 64" using b0(1) w(4) unat_less_2p [of "l_user_end L"] by simp
  have m1: "?m1 x = ram s1 x" if "\<not> in_range x um (unat ?k)" for x
    using that ul w(3,4) by (auto simp: memset_eq in_range_def intro!: st_bytes_outside)
  have m2: "?m2 x = ram s1 x" if "\<not> in_range x um (unat ?k)" for x
    using that m1 [OF that] ul w(4) st_bytes_outside [of x um data ?m1] by (auto simp: in_range_def)
  have k1: "?m1 x = ram s x" if "unat x < unat (l_user_start L) \<or> unat (l_user_end L) \<le> unat x" for x
    by (rule user_image_keeps(1) [OF h k7 mem]) (rule m1, assumption, rule that)
  have k2: "same_on (ram s) ?m1 q l" "same_on (ram s) ?m2 q l" if "(q, l) \<in> live ubs" for q l
    by (rule user_image_keeps(2) [OF h k7 mem]; (rule m1 m2 that; assumption?))+
  have find: "fs_find_in_dir ?m1 str (str_bin I) b f = int i"
    unfolding fil(1) [symmetric] using steady_kept [OF arg(3), of _ ?m1 "ram s"] steady_kept [OF arg(4), of _ ?m1 "ram s"] k1 k2(1) by (intro fs_find_cong) blast+
  have "same_on (ram s) ?m1 ?rd RAMDISK_SIZE"
    unfolding same_on_def using disk k1 b0 by (auto simp: in_range_def disjoint_def)
  then have hold: "holds ?rd f ?m1 i data" by (rule holds_cong [OF disk(1) fil(2)])
  have buf: "buf_ok ?rd um (length data)"
    using ul disk(2) b0 w(4) by (auto simp: buf_ok_def disjoint_def)
  have rd: "fs_read_file_in_dir ?rd str (str_bin I) b um ?n (f, ?m1) = (?m2, 0, Some ?n)"
    using fs_read_file_exact [OF disk(1) find hold buf] w(3) by simp
  let ?s2 = "(cli s1)\<lparr>ram := ?m2\<rparr>"
  have um0: "u_malloc L ?k ?s0 = Some (cli s1, um)" unfolding u_malloc_cli mem(1) by simp
  have l0: "life_inv L ?s0 xs zs bs ubs" using l by simp
  have m2': "?m2 x = ram (cli s1) x" if "\<not> in_range x um (unat ?k)" for x using m2 [OF that] by simp
  obtain ubs' j where u: "life_inv L ?s2 xs zs bs ubs'" "live ubs' = insert (um, j) (live ubs)" "next_pid ?s2 = next_pid ?s0"
      "\<forall>x \<in> (set xs \<union> set zs) - {l_init_task L}. t_user_mem (tasks ?s2 x) \<noteq> um"
    using user_space_ready [OF l0 k7 um0 mem(2) m2'] by blast
  have fresh: "um \<notin> fst ` live ubs" using u_malloc_ok(1) [OF h k7 mem] by blast
  have h2: "heaps_ok L ?s2 bs ubs'" using u(1) by (simp add: life_inv_def sched_inv_def)
  have r2: "room_for_task L 16384 ?s2"
    using room_for_task_admissible [OF h room] room by (intro admissible_room [OF h2]) (simp_all add: room_for_task_def)
  have np2: "unat (next_pid ?s2) + 1 < 2 ^ 31" using np u(3) by simp
  have um2: "um = NULL \<or> um \<in> fst ` live ubs' \<and> (\<forall>x \<in> (set xs \<union> set zs) - {l_init_task L}. t_user_mem (tasks ?s2 x) \<noteq> um)"
    using u(2,4) by force
  obtain s3 t bs' where t: "new_task L um 16384 um ?n ?s2 = Some (s3, t)" "life_inv L s3 (xs @ [t]) zs bs' ubs'"
      "created ?s2 s3 t um (stack_of 16384) um ?n bs bs'"
    using life_new [OF u(1) r2 np2 um2] by blast
  have c: "t \<noteq> NULL" "t_pid (tasks s3 t) = next_pid s" "t_state (tasks s3 t) = TASK_READY" "t_user_mem (tasks s3 t) = um"
      "ld64 (ram s3) (t_regs (tasks s3 t) + 8 * 17) = um"
    using t(3) u(3) unfolding created_def Let_def by simp_all
  have ap: "unat (l_heap_end L) \<le> unat (l_user_start L) \<or> unat (l_user_end L) \<le> unat (l_heap_start L)"
    using h by (simp add: heaps_ok_def)
  have r3: "ram s3 x = ?m2 x" if "unat (l_user_start L) \<le> unat x" "unat x < unat (l_user_end L)" for x
    using new_task_region [OF h2 r2 t(1), of x] ap that by auto
  have "ld_bytes (ram s3) um (length data) = ld_bytes ?m2 um (length data)"
    using r3 b0 w(4) ul by (intro ld_bytes_cong) (auto simp: same_on_def in_range_def)
  then have image: "ld_bytes (ram s3) um (length data) = data" using ul ld_st_bytes [of um data ?m1] by simp
  have keep: "same_on (ram s) (ram s3) q k" if q: "(q, k) \<in> live ubs" for q k
  proof -
    have "heap_wf (ram s) USER_MAGIC (unat (l_user_start L)) ubs (unat (l_user_end L))"
      using h by (simp add: heaps_ok_def urep_def)
    from live_bounds(1,2) [OF this q] show ?thesis using k2(2) [OF q] r3 by (auto simp: same_on_def in_range_def)
  qed
  have "utask_create L um 16384 um ?n ?s2 = Some (s3, scast (next_pid s))"
    using t(1) c(1,2) by (simp add: utask_create_def)
  then have "load_and_run_program L I f str s = Some (sti s3, scast (next_pid s))"
    unfolding load_and_run_program_def
    using arg(1,2) bin fil(1,3) w(1,2,5) um0 mem(2) rd next_pid_nonzero [OF l] by (simp add: Let_def)
  then show ?thesis
    using t(2) u(2) fresh c image keep
    by (intro exI [of _ "sti s3"] exI [of _ t] exI [of _ bs'] exI [of _ ubs'] exI [of _ j] conjI) auto
qed

section \<open>Installing a program\<close>

text \<open>The directory that \<open>load_app_to_fs\<close> writes to: found, or made.\<close>

definition app_dir :: "mem \<Rightarrow> ptr \<Rightarrow> fs \<Rightarrow> fs \<times> int" where
  "app_dir m folder f =
     (let b = fs_find_in_dir m folder NULL (int FS_ROOT_IDX) f
      in if b < 0 then fs_mkdir m folder (int FS_ROOT_IDX) f else (f, b))"

lemma app_dir_ok:
  assumes "fs_wf f" "name_ok rd m folder" "app_dir m folder f = (f1, b)" "0 \<le> b"
  shows "fs_wf f1" "fs_find_in_dir m folder NULL (int FS_ROOT_IDX) f1 = b" "b \<noteq> 0"
proof -
  show w: "fs_wf f1" using assms fs_mkdir_wf(1) by (auto simp: app_dir_def Let_def split: if_splits)
  show find: "fs_find_in_dir m folder NULL (int FS_ROOT_IDX) f1 = b"
    using assms fs_mkdir_find [OF assms(1) _ assms(2), of "int FS_ROOT_IDX" f1 b] by (auto simp: app_dir_def Let_def split: if_splits)
  show "b \<noteq> 0"
  proof
    assume "b = 0"
    then have "entry_matches m folder NULL (int FS_ROOT_IDX) (entries f1 ! 0)"
      using fs_find_Some(5) [OF find assms(4)] by simp
    then have "e_parent (entries f1 ! 0) = 0" by (simp add: entry_matches_def FS_ROOT_IDX_def)
    then show False using w by (simp add: fs_wf_def tree_ok_def)
  qed
qed

lemma load_app_dir:
  assumes "app_dir m folder f = (f1, b)"
  shows "load_app_to_fs I folder name ext data dat (f, m) =
    (if b < 0 then (f1, m) else fst (fs_write_file_in_dir (ramdisk I) name ext b data (ucast dat) (f1, m)))"
  using assms by (auto simp: load_app_to_fs_def app_dir_def Let_def split: if_splits)

text \<open>A file that is written into a directory below the root does not hide the directory.\<close>

lemma write_keeps_dir:
  assumes wf: "fs_wf f1" and rd: "disk_ok rd" and n: "name_ok rd m folder" "name_ok rd m name" "ext = NULL \<or> name_ok rd m ext"
    and buf: "buf_ok rd data (unat n)" "unat n < 2 ^ 32"
    and res: "fs_write_file_in_dir rd name ext b data n (f1, m) = ((f', m'), 0)"
    and b: "fs_find_in_dir m folder NULL (int FS_ROOT_IDX) f1 = b" "b \<noteq> 0"
  shows "\<exists>i. fs_find_in_dir m' folder NULL (int FS_ROOT_IDX) f' = b \<and> fs_find_in_dir m' name ext b f' = int i \<and>
    holds rd f' m' i (ld_bytes m data (unat n)) \<and> fs_wf f' \<and> (\<forall>x. \<not> in_range x rd RAMDISK_SIZE \<longrightarrow> m' x = m x)"
proof -
  obtain i where i: "fs_find_in_dir m' name ext b f' = int i" "i < FS_MAX_ENTRIES" "fs_wf f'"
      "holds rd f' m' i (ld_bytes m data (unat n))"
      "\<And>j. j \<noteq> i \<Longrightarrow> entries f' ! j = entries f1 ! j" "\<And>x. \<not> in_range x rd RAMDISK_SIZE \<Longrightarrow> m' x = m x"
      "e_used (entries f1 ! i) \<Longrightarrow> e_parent (entries f1 ! i) = b"
    by (rule fs_write_file_ok [OF wf rd n(2,3) buf res]) blast
  have "0 \<le> b" using fs_find_Some(2) [OF i(1)] by (simp add: bad_index_def)
  note fb = fs_find_Some [OF b(1) this]
  have arg: "arg_at m' folder k = arg_at m folder k" if "k < 64" for k
  proof -
    have "unat (folder + word_of_nat k) = unat folder + k"
      using n(1) that by (intro unat_add_of_nat) (simp add: name_ok_def buf_ok_def)
    then show ?thesis using i(6) [of "folder + word_of_nat k"] n(1) that
      by (auto simp: arg_at_def in_range_def name_ok_def buf_ok_def disjoint_def)
  qed
  have "e_parent (entries f' ! i) = b" using fs_find_Some(5) [OF i(1)] by (simp add: entry_matches_def)
  then have no': "\<not> entry_matches m folder NULL 0 (entries f' ! i)" using b(2) by (simp add: entry_matches_def)
  have no: "\<not> entry_matches m folder NULL 0 (entries f1 ! i)" using i(7) b(2) by (auto simp: entry_matches_def)
  have "entry_matches m' folder NULL 0 (entries f' ! j) = entry_matches m folder NULL 0 (entries f1 ! j)" for j
    using entry_matches_cong [of m' folder m NULL 0 "entries f' ! j"] arg i(5) [of j] no no' by (cases "j = i") auto
  then have "fs_find_in_dir m' folder NULL (int FS_ROOT_IDX) f' = b"
    unfolding b(1) [symmetric] by (simp add: fs_find_in_dir_def FS_ROOT_IDX_def)
  then show ?thesis using i by blast
qed

text \<open>Changes outside the two heaps do not matter to the scheduler.\<close>

lemma life_ram:
  assumes l: "life_inv L s xs zs bs ubs"
    and k: "\<And>x. unat (l_heap_start L) \<le> unat x \<Longrightarrow> unat x < unat (l_heap_end L) \<Longrightarrow> m x = ram s x"
    and u: "\<And>x. unat (l_user_start L) \<le> unat x \<Longrightarrow> unat x < unat (l_user_end L) \<Longrightarrow> m x = ram s x"
  shows "life_inv L (s\<lparr>ram := m\<rparr>) xs zs bs ubs"
proof -
  have h: "heaps_ok L s bs ubs" using l by (simp add: life_inv_def sched_inv_def)
  have "heap_wf m KERNEL_MAGIC (unat (l_heap_start L)) bs (unat (l_heap_end L))"
    by (rule heap_wf_region [OF _ k]) (use h in \<open>simp_all add: heaps_ok_def krep_def\<close>)
  moreover have "heap_wf m USER_MAGIC (unat (l_user_start L)) ubs (unat (l_user_end L))"
    by (rule heap_wf_region [OF _ u]) (use h in \<open>simp_all add: heaps_ok_def urep_def\<close>)
  ultimately have "heaps_ok L (s\<lparr>ram := m\<rparr>) bs ubs" using h by (simp add: heaps_ok_def krep_def urep_def)
  then show ?thesis
    using l by (simp add: life_inv_def sched_inv_def sched_ok_def book_def task_mem_def)
qed

text \<open>The RAM disk lies in neither heap.\<close>

definition disk_apart :: "layout \<Rightarrow> ptr \<Rightarrow> bool" where
  "disk_apart L rd \<longleftrightarrow> disk_ok rd \<and>
     disjoint rd RAMDISK_SIZE (l_user_start L) (unat (l_user_end L) - unat (l_user_start L)) \<and>
     disjoint rd RAMDISK_SIZE (l_heap_start L) (unat (l_heap_end L) - unat (l_heap_start L))"

lemma install_run:
  assumes l: "life_inv L s xs zs bs ubs" and room: "room_for_task L 16384 s" and np: "unat (next_pid s) + 1 < 2 ^ 31"
    and disk: "disk_apart L (ramdisk I)" and wf: "fs_wf f"
    and nam: "name_ok (ramdisk I) (ram s) (str_bin I)" "name_ok (ramdisk I) (ram s) name"
      "name \<noteq> NULL" "ram s name \<noteq> 0" "steady L ubs name 64" "steady L ubs (str_bin I) 64"
    and dat: "buf_ok (ramdisk I) data (unat dat)" "dat \<noteq> 0" "unat dat + 1024 < 2 ^ 32"
    and dir: "app_dir (ram s) (str_bin I) f = (f1, b)" "0 \<le> b"
    and wr: "fs_write_file_in_dir (ramdisk I) name (str_bin I) b data (ucast dat) (f1, ram s) = ((f', m'), 0)"
    and mem: "u_malloc L (ucast dat + 1024) (s\<lparr>ram := m'\<rparr>) = Some (s1, um)" "um \<noteq> NULL"
  shows "load_app_to_fs I (str_bin I) name (str_bin I) data dat (f, ram s) = (f', m') \<and>
    (\<exists>s' t bs' ubs' j. load_and_run_program L I f' name (s\<lparr>ram := m'\<rparr>) = Some (s', scast (next_pid s)) \<and>
      life_inv L s' (xs @ [t]) zs bs' ubs' \<and> live ubs' = insert (um, j) (live ubs) \<and>
      t_pid (tasks s' t) = next_pid s \<and> t_user_mem (tasks s' t) = um \<and>
      ld64 (ram s') (t_regs (tasks s' t) + 8 * 17) = um \<and> ld_bytes (ram s') um (unat dat) = ld_bytes (ram s) data (unat dat))"
proof -
  let ?rd = "ramdisk I" and ?d = "ld_bytes (ram s) data (unat dat)" and ?s = "s\<lparr>ram := m'\<rparr>"
  have rd: "disk_ok ?rd" using disk by (simp add: disk_apart_def)
  have ud: "unat (ucast dat :: u64) = unat dat"
  proof -
    have "unat dat < 2 ^ 64" using dat(3) by simp
    then show ?thesis by (simp add: unsigned_ucast_eq take_bit_nat_eq_self)
  qed
  note ad = app_dir_ok [OF wf nam(1) dir]
  obtain i where i: "fs_find_in_dir m' (str_bin I) NULL (int FS_ROOT_IDX) f' = b" "fs_find_in_dir m' name (str_bin I) b f' = int i"
      "holds ?rd f' m' i ?d" "\<And>x. \<not> in_range x ?rd RAMDISK_SIZE \<Longrightarrow> m' x = ram s x"
    using write_keeps_dir [OF ad(1) rd nam(1,2) _ _ _ wr ad(2,3)] nam(1) dat ud by auto
  have l': "life_inv L ?s xs zs bs ubs"
    using disk i(4) by (intro life_ram [OF l]) (auto simp: disk_apart_def disjoint_def in_range_def)
  have h: "heaps_ok L s bs ubs" "heaps_ok L ?s bs ubs" using l l' by (simp_all add: life_inv_def sched_inv_def)
  have room': "room_for_task L 16384 ?s"
    using room_for_task_admissible [OF h(1) room] room by (intro admissible_room [OF h(2)]) (simp_all add: room_for_task_def)
  have "m' name = ram s name"
    using i(4) [of name] nam(2) by (auto simp: name_ok_def buf_ok_def disjoint_def in_range_def)
  then have n0: "ram ?s name \<noteq> 0" using nam(4) by simp
  have "ucast dat + 1024 = (word_of_nat (length ?d + 1024) :: u64)" using ud by (metis length_ld_bytes of_nat_add of_nat_numeral of_nat_unat)
  then have um: "u_malloc L (word_of_nat (length ?d + 1024)) ?s = Some (s1, um)" using mem(1) by simp
  have ne: "?d \<noteq> []" using dat(2) by (metis length_0_conv length_ld_bytes unat_eq_zero)
  have disk': "disjoint ?rd RAMDISK_SIZE (l_user_start L) (unat (l_user_end L) - unat (l_user_start L))"
    using disk by (simp add: disk_apart_def)
  have np': "unat (next_pid ?s) + 1 < 2 ^ 31" using np by simp
  have "fs_find_in_dir (ram ?s) (str_bin I) NULL (int FS_ROOT_IDX) f' = b" "fs_find_in_dir (ram ?s) name (str_bin I) b f' = int i"
    "holds ?rd f' (ram ?s) i ?d" "length ?d + 1024 < 2 ^ 32" using i dat(3) by simp_all
  from run_program [OF l' room' np' rd disk' nam(3) n0 nam(5,6) this(1) dir(2) this(2,3) ne this(4) um mem(2)]
  obtain s' t bs' ubs' j where "load_and_run_program L I f' name ?s = Some (s', scast (next_pid s))"
      "life_inv L s' (xs @ [t]) zs bs' ubs'" "live ubs' = insert (um, j) (live ubs)"
      "t_pid (tasks s' t) = next_pid s" "t_user_mem (tasks s' t) = um"
      "ld64 (ram s') (t_regs (tasks s' t) + 8 * 17) = um" "ld_bytes (ram s') um (length ?d) = ?d"
    by auto
  moreover have "load_app_to_fs I (str_bin I) name (str_bin I) data dat (f, ram s) = (f', m')"
    using load_app_dir [OF dir(1), of I name "str_bin I" data dat] dir(2) wr by simp
  ultimately show ?thesis by auto
qed

section \<open>A machine with one program\<close>

definition big_L :: layout where
  "big_L = \<lparr>l_heap_start = 0x10000, l_heap_end = 0x20000, l_user_start = 0x30000, l_user_end = 0x40000,
     l_init_task = 0x800, l_init_task_stack = 0x5000\<rparr>"

text \<open>The directory \<open>bin\<close>, the name \<open>a\<close>, and the program.\<close>

definition big_mem :: mem where
  "big_mem = (\<lambda>_. 0)(0x200 := 98, 0x201 := 105, 0x202 := 110, 0x300 := 97, 0x400 := 1, 0x401 := 2, 0x402 := 3)"

definition big_app :: app where
  "big_app = \<lparr>app_name = 0x300, app_data = 0x400, app_len = 3\<rparr>"

definition big_I :: image where
  "big_I = \<lparr>ramdisk = 0x100000, str_bin = 0x200, str_terminal = 0x300, im_terminal = big_app, im_htop = big_app,
     im_clear = big_app, im_shutdown = big_app, im_reboot = big_app, user_task1 = 0x7000, zombie_reaper_task = 0x7100\<rparr>"

definition big_s :: sched where
  "big_s = boot big_L (demo_raw\<lparr>ram := big_mem\<rparr>)"

lemma big_L_simps [simp]:
  "l_heap_start big_L = 0x10000" "l_heap_end big_L = 0x20000" "l_user_start big_L = 0x30000" "l_user_end big_L = 0x40000"
  "l_init_task big_L = 0x800" "ramdisk big_I = 0x100000" "str_bin big_I = 0x200"
  by (simp_all add: big_L_def big_I_def)

text \<open>Boot writes two headers.\<close>

lemma boot_frame:
  assumes L: "layout_ok L" and u: "user_head (user_heap s) = NULL"
    and x: "\<not> in_range x (l_heap_start L) 40" "\<not> in_range x (l_user_start L) 40"
  shows "ram (boot L s) x = ram s x"
proof -
  let ?hs = "l_heap_start L" and ?us = "l_user_start L"
  obtain k m where km: "malloc_init ?hs (l_heap_end L - ?hs) (kern_heap s, ram s) = (k, m)" by force
  obtain uh m' where um: "user_malloc_init ?us (l_user_end L) (user_heap s, m) = (uh, m')" by force
  have at: "hdr_at ?us" "hdr_at ?hs" using L by (simp_all add: hdr_at_def layout_ok_def)
  have "only_hdrs m m' {?us}"
    using um at u by (auto simp: user_malloc_init_def Let_def mem_simps intro!: only_hdrs_set_field)
  moreover have "only_hdrs (ram s) m {?hs}"
    using km at by (auto simp: malloc_init_def Let_def mem_simps intro!: only_hdrs_set_field split: if_splits)
  ultimately have "m' x = ram s x" using x by (simp add: only_hdrs_def)
  then show ?thesis by (simp add: boot_def km um scheduler_init_def upd_task_def Let_def)
qed

lemma big_layout: "layout_ok big_L"
  by (simp add: layout_ok_def)

lemma big_s_ram: "unat x < 0x1000 \<Longrightarrow> ram big_s x = big_mem x"
  unfolding big_s_def
  using boot_frame [OF big_layout, of "demo_raw\<lparr>ram := big_mem\<rparr>" x] by (simp add: demo_raw_def in_range_def)

lemma big_s_inv: "life_inv big_L big_s [0x800] [] [(0x10000, 0xFFD8, True)] [(0x30000, 0xFFD8, True)]"
proof -
  have "sched_inv big_L big_s [0x800] [] [(0x10000, 0xFFD8, True)] [(0x30000, 0xFFD8, True)]"
    using boot_inv [OF big_layout, of "demo_raw\<lparr>ram := big_mem\<rparr>"] by (simp add: big_s_def demo_raw_def)
  moreover have "book big_L big_s [0x800] []"
    by (simp add: book_def big_s_def boot_def scheduler_init_def upd_task_def zero_task_def runnable_def Let_def case_prod_beta)
  ultimately show ?thesis by (simp add: life_inv_def)
qed

lemma big_np: "next_pid big_s = 1"
  by (simp add: big_s_def boot_def scheduler_init_def Let_def case_prod_beta)

lemma big_heaps: "heaps_ok big_L big_s [(0x10000, 0xFFD8, True)] [(0x30000, 0xFFD8, True)]"
  using big_s_inv by (simp add: life_inv_def sched_inv_def)

lemma big_room: "room_for_task big_L 16384 big_s"
proof (rule admissible_room [OF big_heaps])
  have am: "a_malloc SIZEOF_TASK [(0x10000, 0xFFD8, True)] = ([(0x10000, 72, False), (0x10070, 0xFF68, True)], 0x10028)"
    by (simp add: a_malloc_def align_up_def cut_def)
  show "k_admissible [(0x10000, 0xFFD8, True)] SIZEOF_TASK" by (simp add: k_admissible_def align_up_def)
  show "k_admissible (fst (a_malloc SIZEOF_TASK [(0x10000, 0xFFD8, True)])) (stack_of 16384)"
    unfolding am by (simp add: k_admissible_def align_up_def stack_of_def)
qed (simp add: stack_of_def)

lemma big_names: "name_ok 0x100000 (ram big_s) 0x200" "name_ok 0x100000 (ram big_s) 0x300" "ram big_s 0x300 = 97"
  "steady big_L [(0x30000, 0xFFD8, True)] 0x300 64" "steady big_L [(0x30000, 0xFFD8, True)] 0x200 64"
  "disk_apart big_L 0x100000" "buf_ok 0x100000 0x400 3"
proof -
  have "ram big_s 0x203 = 0" "ram big_s 0x301 = 0" by (simp_all add: big_s_ram big_mem_def)
  then show "name_ok 0x100000 (ram big_s) 0x200" "name_ok 0x100000 (ram big_s) 0x300"
    unfolding name_ok_def
    by (auto simp: buf_ok_def RAMDISK_SIZE_def disjoint_def arg_at_def intro: exI [of _ 3] exI [of _ 1])
  show "ram big_s 0x300 = 97" by (simp add: big_s_ram big_mem_def)
  show "steady big_L [(0x30000, 0xFFD8, True)] 0x300 64" "steady big_L [(0x30000, 0xFFD8, True)] 0x200 64"
    by (simp_all add: steady_def)
  show "disk_apart big_L 0x100000" by (simp add: disk_apart_def disk_ok_def disjoint_def RAMDISK_SIZE_def)
  show "buf_ok 0x100000 0x400 3" by (simp add: buf_ok_def disjoint_def RAMDISK_SIZE_def)
qed

text \<open>Installing the program into the fresh file system works.\<close>

lemma big_dir:
  obtains f1 where "app_dir (ram big_s) 0x200 demo_fs = (f1, 1)" "fs_wf f1" "\<not> e_used (entries f1 ! 2)" "fat f1 = (\<lambda>c. 0)"
    "is_directory (entries f1) 1" "\<And>i. i < FS_MAX_ENTRIES \<Longrightarrow> e_used (entries f1 ! i) \<Longrightarrow> e_parent (entries f1 ! i) \<noteq> 1"
proof -
  have wf: "fs_wf demo_fs" by (simp add: demo_fs_def fs_init_ok)
  have free: "find_free_entry (entries demo_fs) = 1"
  proof -
    have "\<not> e_used (entries demo_fs ! 1)" using demo_fs_entries(3) [of 1] by (simp add: FS_MAX_ENTRIES_def)
    then have "scan (\<lambda>i. \<not> e_used (entries demo_fs ! i)) 1 FS_MAX_ENTRIES = Some 1"
      by (simp add: scan_Some FS_MAX_ENTRIES_def)
    then show ?thesis unfolding find_free_entry_def by simp
  qed
  have none: "scan (\<lambda>i. entry_matches m name ext 0 (entries demo_fs ! i)) 0 FS_MAX_ENTRIES = None" for m name ext
    using demo_fs_unused by (auto simp: scan_None entry_matches_def)
  have dup: "scan (\<lambda>i. let e = entries demo_fs ! i in e_used e \<and> e_parent e = 0 \<and> P e) 0 FS_MAX_ENTRIES = None" for P
    using demo_fs_unused by (auto simp: scan_None Let_def)
  obtain f1 where mk: "fs_mkdir (ram big_s) 0x200 0 demo_fs = (f1, 1)"
    using free dup demo_fs_entries(1) by (auto simp: fs_mkdir_def bad_index_def FS_MAX_ENTRIES_def)
  have ad: "app_dir (ram big_s) 0x200 demo_fs = (f1, 1)"
    using mk none by (simp add: app_dir_def fs_find_in_dir_def FS_ROOT_IDX_def)
  note k = fs_mkdir_wf [OF wf mk]
  have len: "length (entries demo_fs) = 512" using wf by (simp add: fs_wf_def FS_MAX_ENTRIES_def)
  have es: "entries f1 ! i = (if i = 1 then zero_entry\<lparr>e_name := new_name (ram big_s) 0x200 64, e_parent := 0,
      e_is_dir := True, e_used := True\<rparr> else entries demo_fs ! i)" for i
    using k(3) len by (auto simp: nth_list_update)
  show thesis
  proof (rule that [OF ad k(1)])
    show "\<not> e_used (entries f1 ! 2)" using es [of 2] demo_fs_entries(3) [of 2] by (simp add: FS_MAX_ENTRIES_def)
    show "fat f1 = (\<lambda>c. 0)" using k(3) by (simp add: demo_fs_def fs_init_def)
    show "is_directory (entries f1) 1" using es [of 1] by (simp add: is_directory_def)
    fix i assume "i < FS_MAX_ENTRIES" "e_used (entries f1 ! i)"
    then show "e_parent (entries f1 ! i) \<noteq> 1"
      using es [of i] demo_fs_entries(2) demo_fs_entries(3) [of i] by (cases "i = 0") (auto split: if_splits)
  qed
qed

lemma big_write:
  obtains f1 f' m' where "app_dir (ram big_s) 0x200 demo_fs = (f1, 1)"
    "fs_write_file_in_dir 0x100000 0x300 0x200 1 0x400 3 (f1, ram big_s) = ((f', m'), 0)"
proof -
  obtain f1 where f1: "app_dir (ram big_s) 0x200 demo_fs = (f1, 1)" "fs_wf f1" "\<not> e_used (entries f1 ! 2)"
      "fat f1 = (\<lambda>c. 0)" "is_directory (entries f1) 1"
      "\<And>i. i < FS_MAX_ENTRIES \<Longrightarrow> e_used (entries f1 ! i) \<Longrightarrow> e_parent (entries f1 ! i) \<noteq> 1"
    by (rule big_dir) blast
  have "scan (\<lambda>i. entry_matches (ram big_s) 0x300 0x200 1 (entries f1 ! i)) 0 FS_MAX_ENTRIES = None"
    using f1(6) by (auto simp: scan_None entry_matches_def)
  then have "fs_find_in_dir (ram big_s) 0x300 0x200 1 f1 < 0" by (simp add: fs_find_in_dir_def)
  then have "\<exists>f' m'. fs_write_file_in_dir 0x100000 0x300 0x200 1 0x400 3 (f1, ram big_s) = ((f', m'), 0)"
    using f1(2-5) by (intro write_small_ok [where j = 2 and c = 2])
      (simp_all add: bad_index_def FS_MAX_ENTRIES_def cluster_ok_def FAT_ENTRIES_def)
  then show thesis using that f1(1) by blast
qed

lemma big_data: "ld_bytes (ram big_s) 0x400 3 = [1, 2, 3]"
proof -
  have "ram big_s 0x400 = 1" "ram big_s 0x401 = 2" "ram big_s 0x402 = 3" by (simp_all add: big_s_ram big_mem_def)
  then show ?thesis by (simp add: numeral_3_eq_3)
qed

lemma big_user_space:
  assumes "heaps_ok big_L s bs [(0x30000, 0xFFD8, True)]"
  shows "\<exists>s1. u_malloc big_L 1027 s = Some (s1, 0x30028)"
proof -
  have "a_malloc 1027 [(0x30000, 0xFFD8, True)] = ([(0x30000, 1032, False), (0x30430, 0xFBA8, True)], 0x30028)"
    by (simp add: a_malloc_def align_up_def cut_def)
  then show ?thesis
    using user_malloc_refines [of "0x30000" "0x40000" "(user_heap s, ram s)" "[(0x30000, 0xFFD8, True)]" 1027] assms
    by (auto simp: heaps_ok_def u_malloc_def)
qed

section \<open>Properties\<close>



text \<open>
  C18: From the kernel image to a running task.  A program that \<open>load_app_to_fs\<close> has stored
  under a name in \<open>/bin\<close> (made when it is missing) is what \<open>load_and_run_program\<close> starts under
  this name: the new task begins at a block that holds the bytes of the linked image.
\<close>

theorem installed_program_runs:
  assumes "life_inv L s xs zs bs ubs" "room_for_task L 16384 s" "unat (next_pid s) + 1 < 2 ^ 31"
    "disk_apart L (ramdisk I)" "fs_wf f"
    "name_ok (ramdisk I) (ram s) (str_bin I)" "name_ok (ramdisk I) (ram s) name"
    "name \<noteq> NULL" "ram s name \<noteq> 0" "steady L ubs name 64" "steady L ubs (str_bin I) 64"
    "buf_ok (ramdisk I) data (unat dat)" "dat \<noteq> 0" "unat dat + 1024 < 2 ^ 32"
    "app_dir (ram s) (str_bin I) f = (f1, b)" "0 \<le> b"
    "fs_write_file_in_dir (ramdisk I) name (str_bin I) b data (ucast dat) (f1, ram s) = ((f', m'), 0)"
    "u_malloc L (ucast dat + 1024) (s\<lparr>ram := m'\<rparr>) = Some (s1, um)" "um \<noteq> NULL"
  shows "load_app_to_fs I (str_bin I) name (str_bin I) data dat (f, ram s) = (f', m') \<and>
    (\<exists>s' t bs' ubs' j. load_and_run_program L I f' name (s\<lparr>ram := m'\<rparr>) = Some (s', scast (next_pid s)) \<and>
      life_inv L s' (xs @ [t]) zs bs' ubs' \<and> live ubs' = insert (um, j) (live ubs) \<and>
      t_pid (tasks s' t) = next_pid s \<and> t_user_mem (tasks s' t) = um \<and>
      ld64 (ram s') (t_regs (tasks s' t) + 8 * 17) = um \<and> ld_bytes (ram s') um (unat dat) = ld_bytes (ram s) data (unat dat))"
  using assms by (rule install_run)

theorem installed_program_runs_witness:
  "\<exists>f' m' s' t. load_app_to_fs big_I 0x200 0x300 0x200 0x400 3 (demo_fs, ram big_s) = (f', m') \<and>
     load_and_run_program big_L big_I f' 0x300 (big_s\<lparr>ram := m'\<rparr>) = Some (s', 1) \<and>
     ld_bytes (ram s') (t_user_mem (tasks s' t)) 3 = [1, 2, 3]"
proof -
  obtain f1 f' m' where w: "app_dir (ram big_s) 0x200 demo_fs = (f1, 1)"
      "fs_write_file_in_dir 0x100000 0x300 0x200 1 0x400 3 (f1, ram big_s) = ((f', m'), 0)"
    by (rule big_write)
  have wf: "fs_wf demo_fs" by (simp add: demo_fs_def fs_init_ok)
  have rd: "disk_ok 0x100000" using big_names(6) by (simp add: disk_apart_def)
  have "(0 :: int) \<le> 1" by simp
  note ad = app_dir_ok [OF wf big_names(1) w(1) this]
  have "\<And>x. \<not> in_range x 0x100000 RAMDISK_SIZE \<Longrightarrow> m' x = ram big_s x"
    using write_keeps_dir [OF ad(1) rd big_names(1,2) _ _ _ w(2) ad(2,3)] big_names(1,7) by auto
  then have "life_inv big_L (big_s\<lparr>ram := m'\<rparr>) [0x800] [] [(0x10000, 0xFFD8, True)] [(0x30000, 0xFFD8, True)]"
    by (intro life_ram [OF big_s_inv]) (auto simp: in_range_def)
  then obtain s1 where um: "u_malloc big_L 1027 (big_s\<lparr>ram := m'\<rparr>) = Some (s1, 0x30028)"
    using big_user_space unfolding life_inv_def sched_inv_def by blast
  have "load_app_to_fs big_I 0x200 0x300 0x200 0x400 3 (demo_fs, ram big_s) = (f', m') \<and>
    (\<exists>s' t. load_and_run_program big_L big_I f' 0x300 (big_s\<lparr>ram := m'\<rparr>) = Some (s', 1) \<and>
       t_user_mem (tasks s' t) = 0x30028 \<and> ld_bytes (ram s') 0x30028 3 = [1, 2, 3])"
    using installed_program_runs [OF big_s_inv big_room, of big_I demo_fs "0x300" "0x400" 3 f1 1 f' m' s1 "0x30028"]
      big_names wf w um big_data by (simp add: big_np) blast
  then show ?thesis by metis
qed

end
