(* ===== verification/Kernel.thy ===== *)
theory Kernel
  imports Programs Keyboard Vga Decimal Idt Poweroff
begin

text \<open>
  The kernel as a whole: one state that joins all components, the system call dispatcher
  (\<open>syscall/syscall.c\<close>), the entry of the kernel (\<open>kernel.c\<close>), the two hardware interrupts, and
  the invariant of everything that can happen after boot.  There is one byte memory, the field
  \<open>ram\<close> of the scheduler state, one interrupt flag and one trace of port accesses.
\<close>

section \<open>The state\<close>

record machine =
  mc_sched :: sched
  mc_fs :: fs
  mc_kbd :: kbd
  mc_timer :: timer
  mc_x :: u8
  mc_y :: u8
  mc_io :: trace

text \<open>The console, the keyboard and the file system as views of the state.\<close>

definition vga_of :: "machine \<Rightarrow> vga" where
  "vga_of M = \<lparr>vx = mc_x M, vy = mc_y M, vmem = ram (mc_sched M), vio = mc_io M\<rparr>"

definition put_vga :: "vga \<Rightarrow> machine \<Rightarrow> machine" where
  "put_vga v M = M\<lparr>mc_x := vx v, mc_y := vy v, mc_sched := (mc_sched M)\<lparr>ram := vmem v\<rparr>, mc_io := vio v\<rparr>"

definition kbd_of :: "machine \<Rightarrow> kbd" where
  "kbd_of M = (mc_kbd M)\<lparr>kbd_if := if_flag (mc_sched M)\<rparr>"

definition put_kbd :: "kbd \<Rightarrow> machine \<Rightarrow> machine" where
  "put_kbd k M = M\<lparr>mc_kbd := k, mc_sched := (mc_sched M)\<lparr>if_flag := kbd_if k\<rparr>\<rparr>"

definition put_ram :: "mem \<Rightarrow> machine \<Rightarrow> machine" where
  "put_ram m M = M\<lparr>mc_sched := (mc_sched M)\<lparr>ram := m\<rparr>\<rparr>"

section \<open>System calls\<close>

abbreviation (input) SYSCALL_PRINT_CHAR_POSITION :: u32 where "SYSCALL_PRINT_CHAR_POSITION \<equiv> 0"
abbreviation (input) SYSCALL_PRINT_STRING_POSITION :: u32 where "SYSCALL_PRINT_STRING_POSITION \<equiv> 1"
abbreviation (input) SYSCALL_PRINT_CHAR :: u32 where "SYSCALL_PRINT_CHAR \<equiv> 2"
abbreviation (input) SYSCALL_PRINT_STRING :: u32 where "SYSCALL_PRINT_STRING \<equiv> 3"
abbreviation (input) SYSCALL_BACKSPACE :: u32 where "SYSCALL_BACKSPACE \<equiv> 4"
abbreviation (input) SYSCALL_GET_TIME :: u32 where "SYSCALL_GET_TIME \<equiv> 5"
abbreviation (input) SYSCALL_CLEAN_SCREEN :: u32 where "SYSCALL_CLEAN_SCREEN \<equiv> 6"
abbreviation (input) SYSCALL_MALLOC :: u32 where "SYSCALL_MALLOC \<equiv> 10"
abbreviation (input) SYSCALL_REALLOC :: u32 where "SYSCALL_REALLOC \<equiv> 11"
abbreviation (input) SYSCALL_FREE :: u32 where "SYSCALL_FREE \<equiv> 12"
abbreviation (input) SYSCALL_KMALLOC_STATS :: u32 where "SYSCALL_KMALLOC_STATS \<equiv> 13"
abbreviation (input) SYSCALL_GETCHAR :: u32 where "SYSCALL_GETCHAR \<equiv> 30"
abbreviation (input) SYSCALL_SETPOSCURSOR :: u32 where "SYSCALL_SETPOSCURSOR \<equiv> 31"
abbreviation (input) SYSCALL_POWER_OFF :: u32 where "SYSCALL_POWER_OFF \<equiv> 100"
abbreviation (input) SYSCALL_REBOOT :: u32 where "SYSCALL_REBOOT \<equiv> 101"
abbreviation (input) SYSCALL_TASK_CREATE :: u32 where "SYSCALL_TASK_CREATE \<equiv> 200"
abbreviation (input) SYSCALL_TASK_LIST :: u32 where "SYSCALL_TASK_LIST \<equiv> 201"
abbreviation (input) SYSCALL_TASK_STOP :: u32 where "SYSCALL_TASK_STOP \<equiv> 202"
abbreviation (input) SYSCALL_REAP_ZOMBIES :: u32 where "SYSCALL_REAP_ZOMBIES \<equiv> 203"
abbreviation (input) SYSCALL_TASK_EXIT :: u32 where "SYSCALL_TASK_EXIT \<equiv> 204"
abbreviation (input) SYSCALL_TASK_IS_ALIVE :: u32 where "SYSCALL_TASK_IS_ALIVE \<equiv> 205"

text \<open>A call returns a value in \<open>rax\<close>, or the processor waits with \<open>hlt\<close> and the caller does not go on.\<close>

datatype sys_result = Ret machine u64 | Stop machine

text \<open>The structures that calls fill for the caller.\<close>

definition stats_words :: "malloc_stats_t \<Rightarrow> u64 list" where
  "stats_words st = [total_managed st, used_payload st, free_payload st, largest_free st, num_blocks st, num_used st, num_free st]"

fun state_code :: "task_state_t \<Rightarrow> u32" where
  "state_code TASK_RUNNING = 0"
| "state_code TASK_READY = 1"
| "state_code TASK_BLOCKED = 2"
| "state_code TASK_ZOMBIE = 3"

fun st_task_infos :: "mem \<Rightarrow> ptr \<Rightarrow> (i32 \<times> task_state_t) list \<Rightarrow> mem" where
  "st_task_infos m p [] = m"
| "st_task_infos m p ((pid, st) # ts) = st_task_infos (st32 (st32 m p pid) (p + 4) (state_code st)) (p + 8) ts"

definition k_realloc :: "layout \<Rightarrow> ptr \<Rightarrow> u64 \<Rightarrow> sched \<Rightarrow> (sched \<times> ptr) option" where
  "k_realloc L p n s = map_option (\<lambda>((k, m), q). (s\<lparr>kern_heap := k, ram := m\<rparr>, q))
     (realloc (l_heap_start L) p n (kern_heap s, ram s))"

text \<open>\<open>kbd_getchar\<close> returns a signed \<open>char\<close>; it is widened to \<open>int\<close> and to the register.\<close>

definition getchar_value :: "u8 \<Rightarrow> u64" where
  "getchar_value c = (if c = -1 then 0 else scast c)"

definition syscall_handler ::
  "layout \<Rightarrow> image \<Rightarrow> device \<Rightarrow> u64 \<Rightarrow> u64 \<Rightarrow> u64 \<Rightarrow> u64 \<Rightarrow> u64 \<Rightarrow> u64 \<Rightarrow> machine \<Rightarrow> sys_result option"
where
  "syscall_handler L I dev rax rdi rsi rdx r10 r8 M =
     (let nr = (ucast rax :: u32); s = mc_sched M; done = (\<lambda>s. Ret (M\<lparr>mc_sched := s\<rparr>))
      in if nr = SYSCALL_PRINT_CHAR_POSITION then
           Some (Ret (put_vga (print_char_position (ucast rdi) (ucast rsi) (ucast rdx) (ucast r10) (ucast r8) (vga_of M)) M) 0)
         else if nr = SYSCALL_PRINT_STRING_POSITION then
           map_option (\<lambda>v. Ret (put_vga v M) 0) (print_string_position rdi (ucast rsi) (ucast rdx) (ucast r10) (ucast r8) (vga_of M))
         else if nr = SYSCALL_PRINT_CHAR then
           Some (Ret (put_vga (print_char (ucast rdi) (ucast rsi) (ucast rdx) (vga_of M)) M) 0)
         else if nr = SYSCALL_PRINT_STRING then
           map_option (\<lambda>v. Ret (put_vga v M) 0) (print_string rdi (ucast rsi) (ucast rdx) (vga_of M))
         else if nr = SYSCALL_BACKSPACE then Some (Ret (put_vga (backspace (vga_of M)) M) 0)
         else if nr = SYSCALL_GET_TIME then
           (case uint_to_str (ram s) (ucast rdi) rsi of (m, p) \<Rightarrow> Some (Ret (put_ram m M) p))
         else if nr = SYSCALL_CLEAN_SCREEN then Some (Ret (put_vga (clean_screen (vga_of M)) M) 0)
         else if nr = SYSCALL_MALLOC then map_option (\<lambda>(s, p). done s p) (k_malloc L rdi s)
         else if nr = SYSCALL_FREE then Some (done (k_free rdi s) 0)
         else if nr = SYSCALL_REALLOC then map_option (\<lambda>(s, p). done s p) (k_realloc L rdi rsi s)
         else if nr = SYSCALL_KMALLOC_STATS then
           if rdi \<noteq> 0 then
             map_option (\<lambda>st. Ret (put_ram (st_qwords (ram s) rdi (stats_words st)) M) 0) (get_kmalloc_stats (kern_heap s, ram s))
           else Some (Ret M 0)
         else if nr = SYSCALL_GETCHAR then
           (case kbd_getchar (kbd_of M) of (k, c) \<Rightarrow> Some (Ret (put_kbd k M) (getchar_value c)))
         else if nr = SYSCALL_SETPOSCURSOR then
           Some (Ret (M\<lparr>mc_io := update_hardware_cursor (ucast rdi) (ucast rsi) (mc_io M)\<rparr>) 0)
         else if nr = SYSCALL_POWER_OFF then
           (case power_off (ram s, mc_io M) of (m, tr) \<Rightarrow> Some (Stop ((put_ram m M)\<lparr>mc_io := tr\<rparr>)))
         else if nr = SYSCALL_REBOOT then map_option (\<lambda>tr. Stop (M\<lparr>mc_io := tr\<rparr>)) (reboot_system dev (mc_io M))
         else if nr = SYSCALL_TASK_CREATE then
           map_option (\<lambda>(s, pid). done s pid) (load_and_run_program L I (mc_fs M) rdi s)
         else if nr = SYSCALL_TASK_LIST then
           map_option (\<lambda>(s, ts). done (s\<lparr>ram := st_task_infos (ram s) rdi ts\<rparr>) (word_of_nat (length ts))) (task_list rsi s)
         else if nr = SYSCALL_TASK_STOP then
           map_option (\<lambda>r. case r of Returned s rc \<Rightarrow> done s (word_of_int rc) | Halted s \<Rightarrow> Stop (M\<lparr>mc_sched := s\<rparr>))
             (task_stop L (ucast rdi) s)
         else if nr = SYSCALL_REAP_ZOMBIES then map_option (\<lambda>s. done s 0) (reap_zombies L s)
         else if nr = SYSCALL_TASK_EXIT then map_option (\<lambda>s. done s 0) (task_exit L (ucast rdi) s)
         else if nr = SYSCALL_TASK_IS_ALIVE then
           map_option (\<lambda>(s, b). done s (if b then 1 else 0)) (task_is_alive L (ucast rdi) s)
         else Some (Ret M (-1)))"

section \<open>Hardware interrupts\<close>

text \<open>The timer; the second component is the frame that the stub restores.\<close>

definition timer_interrupt :: "layout \<Rightarrow> ptr \<Rightarrow> machine \<Rightarrow> (machine \<times> ptr) option" where
  "timer_interrupt L regs M =
     map_option (\<lambda>((t, tr, s), frame). (M\<lparr>mc_timer := t, mc_io := tr, mc_sched := s\<rparr>, frame))
       (timer_calls L regs (mc_timer M, mc_io M, mc_sched M))"

definition keyboard_interrupt :: "device \<Rightarrow> machine \<Rightarrow> machine" where
  "keyboard_interrupt dev M =
     (case keyboard_handler dev (kbd_of M, mc_io M) of (k, tr) \<Rightarrow> (put_kbd k M)\<lparr>mc_io := tr\<rparr>)"

section \<open>Boot\<close>

definition load_apps :: "image \<Rightarrow> fs \<times> mem \<Rightarrow> fs \<times> mem" where
  "load_apps I = fold (\<lambda>a. load_app_to_fs I (str_bin I) (app_name a) (str_bin I) (app_data a) (app_len a))
     [im_terminal I, im_htop I, im_clear I, im_shutdown I, im_reboot I]"

text \<open>The state in which \<open>kmain\<close> enters its idle loop.\<close>

definition kmain :: "layout \<Rightarrow> image \<Rightarrow> device \<Rightarrow> ptr \<Rightarrow> isr_addrs \<Rightarrow> idt_state \<times> machine \<Rightarrow> (idt_state \<times> machine) option" where
  "kmain L I dev idt_addr h = (\<lambda>(d, M).
     let (d, tr) = idt_install dev idt_addr h (d, mc_io M)
     in Option.bind (init_system_clock dev (mc_timer M, tr)) (\<lambda>(t, tr).
          let tr = init_timer 1000 tr;
              tr = outb 0x21 0xFC tr;
              s = mc_sched M;
              (k, m) = malloc_init (l_heap_start L) (l_heap_end L - l_heap_start L) (kern_heap s, ram s);
              (u, m) = user_malloc_init (l_user_start L) (l_user_end L) (user_heap s, m);
              (f, m) = load_apps I (fs_init (mc_fs M), m);
              M = M\<lparr>mc_timer := t, mc_io := tr, mc_fs := f, mc_sched := s\<lparr>kern_heap := k, user_heap := u, ram := m\<rparr>\<rparr>;
              M = put_vga (clean_screen (vga_of M)) M
          in map_option (\<lambda>s. (d, M\<lparr>mc_sched := sti s\<rparr>)) (tasks_init L I (mc_fs M) (scheduler_init L (mc_sched M)))))"

end
