(* ===== verification/Stubs.thy ===== *)
theory Stubs
  imports Kernel
begin

text \<open>
  The interrupt stubs (\<open>interrupt/isr32.asm\<close>, \<open>interrupt/isr33.asm\<close>, \<open>interrupt/isr80.asm\<close>,
  \<open>interrupt/isr_stubs.asm\<close>): the processor and the stub push the registers of the interrupted
  code on its stack, a C function runs, and the registers are popped again, in the timer
  interrupt from the stack of the task that the scheduler chose.  What the C code leaves in
  the registers, and what it does to the stack below the frame, is not part of the
  model; the former is a parameter.
\<close>

section \<open>Registers and the stack\<close>

datatype reg = RAX | RBX | RCX | RDX | RBP | RSI | RDI | R8 | R9 | R10 | R11 | R12 | R13 | R14 | R15

record cpu =
  gpr :: "reg \<Rightarrow> u64"
  cpu_rip :: u64
  cpu_cs :: u64
  cpu_rflags :: u64
  cpu_rsp :: u64
  cpu_ss :: u64

definition push64 :: "u64 \<Rightarrow> mem \<times> ptr \<Rightarrow> mem \<times> ptr" where
  "push64 v = (\<lambda>(m, sp). (st64 m (sp - 8) v, sp - 8))"

definition pop_reg :: "mem \<Rightarrow> reg \<Rightarrow> (reg \<Rightarrow> u64) \<times> ptr \<Rightarrow> (reg \<Rightarrow> u64) \<times> ptr" where
  "pop_reg m r = (\<lambda>(g, sp). (g(r := ld64 m sp), sp + 8))"

text \<open>
  The processor: an interrupt aligns the stack and pushes where it came from; \<open>iretq\<close> goes back.
  Bit 9 of the flags is the interrupt flag.
\<close>

definition irq_entry :: "cpu \<Rightarrow> mem \<Rightarrow> mem \<times> ptr" where
  "irq_entry c m = fold push64 [cpu_ss c, cpu_rsp c, cpu_rflags c, cpu_cs c, cpu_rip c] (m, cpu_rsp c AND NOT 0xF)"

definition iretq :: "mem \<Rightarrow> (reg \<Rightarrow> u64) \<times> ptr \<Rightarrow> cpu" where
  "iretq m = (\<lambda>(g, sp). \<lparr>gpr = g, cpu_rip = ld64 m sp, cpu_cs = ld64 m (sp + 8), cpu_rflags = ld64 m (sp + 16),
     cpu_rsp = ld64 m (sp + 24), cpu_ss = ld64 m (sp + 32)\<rparr>)"

definition set_flag :: "cpu \<Rightarrow> machine \<Rightarrow> machine" where
  "set_flag c M = M\<lparr>mc_sched := (mc_sched M)\<lparr>if_flag := bit (cpu_rflags c) 9\<rparr>\<rparr>"

definition cli_machine :: "machine \<Rightarrow> machine" where
  "cli_machine M = M\<lparr>mc_sched := cli (mc_sched M)\<rparr>"

section \<open>The timer\<close>

definition isr32_saved :: "reg list" where
  "isr32_saved = [RAX, RCX, RDX, RBX, RBP, RSI, RDI, R8, R9, R10, R11, R12, R13, R14, R15]"

definition isr32_restored :: "reg list" where
  "isr32_restored = [R15, R14, R13, R12, R11, R10, R9, R8, RDI, RSI, RBP, RBX, RDX, RCX, RAX]"

definition isr32_save :: "cpu \<Rightarrow> mem \<Rightarrow> mem \<times> ptr" where
  "isr32_save c m = fold push64 (map (gpr c) isr32_saved @ [0, 32]) (irq_entry c m)"

definition isr32_restore :: "(reg \<Rightarrow> u64) \<Rightarrow> mem \<Rightarrow> ptr \<Rightarrow> cpu" where
  "isr32_restore g m sp = iretq m (fold (pop_reg m) ([RAX, RAX] @ isr32_restored) (g, sp))"

definition isr32 :: "layout \<Rightarrow> (reg \<Rightarrow> u64) \<Rightarrow> cpu \<times> machine \<Rightarrow> (cpu \<times> machine) option" where
  "isr32 L g = (\<lambda>(c, M).
     let M = cli_machine M;
         (m, sp) = isr32_save c (ram (mc_sched M))
     in map_option (\<lambda>(M, out_regs).
          let c = isr32_restore g (ram (mc_sched M)) out_regs in (c, set_flag c M))
        (timer_interrupt L sp (put_ram m M)))"

section \<open>The keyboard\<close>

definition isr33_saved :: "reg list" where
  "isr33_saved = [RAX, RBX, RCX, RDX, RBP, RSI, RDI, R8, R9, R10, R11, R12, R13, R14, R15]"

definition isr33_restored :: "reg list" where
  "isr33_restored = [R15, R14, R13, R12, R11, R10, R9, R8, RDI, RSI, RBP, RDX, RCX, RBX, RAX]"

definition isr33 :: "device \<Rightarrow> (reg \<Rightarrow> u64) \<Rightarrow> cpu \<times> machine \<Rightarrow> cpu \<times> machine" where
  "isr33 dev g = (\<lambda>(c, M).
     let M = cli_machine M;
         (m, sp) = fold push64 (map (gpr c) isr33_saved) (irq_entry c (ram (mc_sched M)));
         M = keyboard_interrupt dev (put_ram m M);
         m = ram (mc_sched M);
         c = iretq m (fold (pop_reg m) isr33_restored (g, sp))
     in (c, set_flag c M))"

section \<open>System calls\<close>

definition isr80_saved :: "reg list" where
  "isr80_saved = [RAX, RCX, RDX, RSI, RDI, R8, R9, R10, R11, RBX, RBP, R12, R13, R14, R15]"

definition isr80_restored :: "reg list" where
  "isr80_restored = [R15, R14, R13, R12, RBP, RBX, R11, R10, R9, R8, RDI, RSI, RDX, RCX, RAX]"

text \<open>
  The sixth argument goes on top of the saved registers, and the stub makes room for another
  word if the stack pointer does not end in 8.  The result of the handler is stored
  over the saved \<open>rax\<close>, the slot furthest from the top of the stack.
\<close>

definition isr80_save :: "cpu \<Rightarrow> mem \<Rightarrow> mem \<times> ptr" where
  "isr80_save c m = fold push64 (map (gpr c) isr80_saved @ [gpr c R9]) (irq_entry c m)"

definition isr80 :: "layout \<Rightarrow> image \<Rightarrow> device \<Rightarrow> (reg \<Rightarrow> u64) \<Rightarrow> cpu \<times> machine \<Rightarrow> (cpu option \<times> machine) option" where
  "isr80 L I dev g = (\<lambda>(c, M).
     let M = cli_machine M;
         (m, sp) = isr80_save c (ram (mc_sched M));
         slot = (if sp AND 15 = 8 then sp + 120 else (sp - 8) + 128);
         a = gpr c
     in map_option (\<lambda>r. case r of
            Ret M v \<Rightarrow>
              let m = st64 (ram (mc_sched M)) slot v;
                  c = iretq m (fold (pop_reg m) isr80_restored (g, sp + 8))
              in (Some c, set_flag c (put_ram m M))
          | Stop M \<Rightarrow> (None, M))
        (syscall_handler L I dev (a RAX) (a RDI) (a RSI) (a RDX) (a R10) (a R8) (put_ram m M)))"

section \<open>Exceptions\<close>

text \<open>
  The stubs of the vectors 0 to 31 only save and restore the registers.  For some vectors the
  processor pushes an error code on top of the return address.
\<close>

definition isr_stub :: "u64 option \<Rightarrow> cpu \<times> mem \<Rightarrow> cpu \<times> mem" where
  "isr_stub err = (\<lambda>(c, m).
     let (m, sp) = fold push64 ((case err of None \<Rightarrow> [] | Some e \<Rightarrow> [e]) @ map (gpr c) isr32_saved) (irq_entry c m)
     in (iretq m (fold (pop_reg m) isr32_restored (gpr c, sp)), m))"

section \<open>Frames\<close>

definition words_at :: "mem \<Rightarrow> ptr \<Rightarrow> u64 list \<Rightarrow> bool" where
  "words_at m sp ws \<longleftrightarrow> (\<forall>i < length ws. ld64 m (sp + 8 * word_of_nat i) = ws ! i)"

lemma words_at_Nil [simp]: "words_at m sp []"
  by (simp add: words_at_def)

lemma words_at_Cons [simp]: "words_at m sp (w # ws) \<longleftrightarrow> ld64 m sp = w \<and> words_at m (sp + 8) ws"
proof -
  have e: "sp + 8 * word_of_nat (Suc i) = sp + 8 + 8 * word_of_nat i" for i by (simp add: algebra_simps)
  have "(\<forall>i < Suc (length ws). P i) \<longleftrightarrow> P 0 \<and> (\<forall>i < length ws. P (Suc i))" for P :: "nat \<Rightarrow> bool"
    by (auto simp: less_Suc_eq_0_disj)
  then show ?thesis unfolding words_at_def length_Cons by (simp add: e add.assoc)
qed

lemma words_at_append:
  "words_at m sp (us @ vs) \<longleftrightarrow> words_at m sp us \<and> words_at m (sp + 8 * word_of_nat (length us)) vs"
  by (induction us arbitrary: sp) (simp_all add: algebra_simps)

lemma words_at_cong:
  assumes "words_at m sp ws" "same_on m m' sp (8 * length ws)" "unat sp + 8 * length ws \<le> 2 ^ 64"
  shows "words_at m' sp ws"
  unfolding words_at_def
proof (intro allI impI)
  fix i assume i: "i < length ws"
  then have u: "unat (sp + 8 * word_of_nat i) = unat sp + 8 * i"
    using assms(3) unat_add_of_nat [of sp "8 * i"] by simp
  have "same_on m m' (sp + 8 * word_of_nat i) 8" using i u by (intro same_on_sub [OF assms(2)]) simp_all
  then have "ld64 m (sp + 8 * word_of_nat i) = ld64 m' (sp + 8 * word_of_nat i)" using i u assms(3) by (intro ld64_cong) simp_all
  then show "ld64 m' (sp + 8 * word_of_nat i) = ws ! i" using assms(1) i by (simp add: words_at_def)
qed

text \<open>What has been pushed is on the stack, last value first, and nothing else has changed.\<close>

definition pushed :: "mem \<Rightarrow> mem \<Rightarrow> ptr \<Rightarrow> u64 list \<Rightarrow> bool" where
  "pushed m m' a vs \<longleftrightarrow> words_at m' a (rev vs) \<and> (\<forall>x. \<not> in_range x a (8 * length vs) \<longrightarrow> m' x = m x)"

lemma push_base: "snd (fold push64 vs (m, a)) = a - 8 * word_of_nat (length vs)"
proof (induction vs arbitrary: m a)
  case (Cons v vs)
  then show ?case using Cons.IH [of "st64 m (a - 8) v" "a - 8"] by (simp add: push64_def [of v] algebra_simps)
qed simp

lemma pushes:
  assumes "fold push64 vs (m, sp) = (m', a)" "unat a + 8 * length vs \<le> 2 ^ 64"
  shows "pushed m m' a vs"
  using assms
proof (induction vs arbitrary: m' a rule: rev_induct)
  case Nil
  then show ?case by (simp add: pushed_def)
next
  case (snoc v vs)
  obtain m1 b where f: "fold push64 vs (m, sp) = (m1, b)" by force
  have e: "m' = st64 m1 a v" "b = a + 8" using snoc.prems(1) f by (auto simp: push64_def [of v])
  have u: "unat b = unat a + 8" if "vs \<noteq> []"
  proof -
    have "8 \<le> 8 * length vs" using that by (cases vs) auto
    then show ?thesis using snoc.prems(2) unat_add_small [of a 8] by (simp add: e(2))
  qed
  have top: "unat b + 8 * length vs \<le> 2 ^ 64"
    using u snoc.prems(2) unat_less_2p [of b] by (cases "vs = []") simp_all
  note ih = snoc.IH [OF f top]
  have "same_on m1 m' b (8 * length (rev vs))"
  proof (cases "vs = []")
    case True
    then show ?thesis by (auto simp: same_on_def in_range_def)
  next
    case False
    then show ?thesis unfolding e(1) using u snoc.prems(2) by (intro same_on_st64) (simp_all add: disjoint_def)
  qed
  then have "words_at m' b (rev vs)" using ih top words_at_cong [of m1 b "rev vs" m'] by (simp add: pushed_def)
  then have "words_at m' a (rev (vs @ [v]))" using snoc.prems(2) e ld64_st64 [of a m1 v] by simp
  moreover have "m' x = m x" if x: "\<not> in_range x a (8 * length (vs @ [v]))" for x
  proof -
    have "m' x = m1 x" unfolding e(1) st64_def using x snoc.prems(2) by (intro st_outside) (auto simp: in_range_def)
    moreover have "\<not> in_range x b (8 * length vs)" using x u by (cases "vs = []") (auto simp: in_range_def)
    ultimately show ?thesis using ih by (simp add: pushed_def)
  qed
  ultimately show ?case by (simp add: pushed_def)
qed

text \<open>Popping a list of registers from a frame that holds them.\<close>

lemma pops:
  assumes "words_at m sp (map h rs)"
  shows "fold (pop_reg m) rs (g, sp) = (\<lambda>r. if r \<in> set rs then h r else g r, sp + 8 * word_of_nat (length rs))"
  using assms
proof (induction rs arbitrary: g sp)
  case (Cons r rs)
  then have "fold (pop_reg m) rs (g(r := h r), sp + 8) =
      (\<lambda>x. if x \<in> set rs then h x else (g(r := h r)) x, sp + 8 + 8 * word_of_nat (length rs))" by simp
  then show ?case using Cons.prems by (auto simp: pop_reg_def [of m r] fun_eq_iff algebra_simps)
qed simp

definition return_words :: "cpu \<Rightarrow> u64 list" where
  "return_words c = [cpu_rip c, cpu_cs c, cpu_rflags c, cpu_rsp c, cpu_ss c]"

lemma length_return [simp]: "length (return_words c) = 5"
  by (simp add: return_words_def)

lemma restored:
  assumes "words_at m sp (map h rs @ return_words c)" "set rs = UNIV"
  shows "iretq m (fold (pop_reg m) rs (g, sp)) = c\<lparr>gpr := h\<rparr>"
proof -
  have w: "words_at m sp (map h rs)" "words_at m (sp + 8 * word_of_nat (length rs)) (return_words c)"
    using assms(1) by (simp_all add: words_at_append)
  have "(\<lambda>r. if r \<in> set rs then h r else g r) = h" using assms(2) by simp
  then show ?thesis
    using w(2) unfolding pops [OF w(1)] by (simp add: iretq_def return_words_def add.assoc)
qed

text \<open>Each stub restores all registers in the reverse order.\<close>

lemma stub_registers:
  "isr32_restored = rev isr32_saved" "isr33_restored = rev isr33_saved" "isr80_restored = rev isr80_saved"
  "set isr32_restored = UNIV" "set isr33_restored = UNIV" "set isr80_restored = UNIV"
proof -
  show "isr32_restored = rev isr32_saved" "isr33_restored = rev isr33_saved" "isr80_restored = rev isr80_saved"
    by (simp_all add: isr32_restored_def isr32_saved_def isr33_restored_def isr33_saved_def isr80_restored_def isr80_saved_def)
  have "r \<in> set isr32_restored" "r \<in> set isr33_restored" "r \<in> set isr80_restored" for r
    by (cases r; simp add: isr32_restored_def isr33_restored_def isr80_restored_def)+
  then show "set isr32_restored = UNIV" "set isr33_restored = UNIV" "set isr80_restored = UNIV" by blast+
qed

lemma stub_lengths [simp]: "length isr32_saved = 15" "length isr33_saved = 15" "length isr80_saved = 15"
  by (simp_all add: isr32_saved_def isr33_saved_def isr80_saved_def)

section \<open>The frame of the timer interrupt\<close>

text \<open>
  The 22 words that \<open>isr32\<close> leaves on the stack, in the order of the comment in
  \<open>multitask.c\<close>; \<open>frame_base\<close> is where they end up.
\<close>

definition frame_words :: "cpu \<Rightarrow> u64 list" where
  "frame_words c = [32, 0] @ map (gpr c) isr32_restored @ return_words c"

definition frame_base :: "cpu \<Rightarrow> ptr" where
  "frame_base c = (cpu_rsp c AND NOT 0xF) - 22 * 8"

abbreviation frame_holds :: "mem \<Rightarrow> ptr \<Rightarrow> cpu \<Rightarrow> bool" where
  "frame_holds m sp c \<equiv> words_at m sp (frame_words c)"

lemma length_frame [simp]: "length (frame_words c) = 22"
  by (simp add: frame_words_def stub_registers(1))

lemma restore_frame: "frame_holds m sp c \<Longrightarrow> isr32_restore g m sp = c"
proof -
  assume "frame_holds m sp c"
  then have "words_at m (sp + 16) (map (gpr c) isr32_restored @ return_words c)" by (simp add: frame_words_def add.assoc)
  from restored [OF this stub_registers(4)] show ?thesis
    by (simp add: isr32_restore_def pop_reg_def add.assoc)
qed

lemma save_frame:
  assumes "isr32_save c m = (m', sp)" "unat (frame_base c) + 176 \<le> 2 ^ 64"
  shows "sp = frame_base c" "frame_holds m' sp c" "\<And>x. \<not> in_range x sp 176 \<Longrightarrow> m' x = m x"
proof -
  let ?vs = "rev (frame_words c)"
  have f: "fold push64 ?vs (m, cpu_rsp c AND NOT 0xF) = (m', sp)"
    using assms(1) by (simp add: isr32_save_def irq_entry_def frame_words_def return_words_def stub_registers(1) rev_map)
  show sp: "sp = frame_base c" using push_base [of ?vs m "cpu_rsp c AND NOT 0xF"] f by (simp add: frame_base_def)
  have "unat sp + 8 * length ?vs \<le> 2 ^ 64" using assms(2) unfolding sp by (simp only: length_rev length_frame)
  with f have "pushed m m' sp ?vs" by (rule pushes)
  then show "frame_holds m' sp c" "\<And>x. \<not> in_range x sp 176 \<Longrightarrow> m' x = m x" by (simp_all add: pushed_def)
qed

lemma stub_frame:
  assumes "fold push64 (map (gpr c) rs) (irq_entry c m) = (m', sp)" "length rs = 15" "unat (frame_base c) + 176 \<le> 2 ^ 64"
  shows "unat sp = unat (frame_base c) + 16" "words_at m' sp (map (gpr c) (rev rs) @ return_words c)"
    "\<And>x. \<not> in_range x (frame_base c) 176 \<Longrightarrow> m' x = m x"
proof -
  let ?vs = "rev (return_words c) @ map (gpr c) rs"
  have f: "fold push64 ?vs (m, cpu_rsp c AND NOT 0xF) = (m', sp)"
    using assms(1) by (simp add: irq_entry_def return_words_def)
  have n: "length ?vs = 20" using assms(2) by simp
  have "sp = frame_base c + 16" using push_base [of ?vs m "cpu_rsp c AND NOT 0xF"] f assms(2) by (simp add: frame_base_def)
  then show u: "unat sp = unat (frame_base c) + 16" using assms(3) unat_add_small [of "frame_base c" 16] by simp
  have "unat sp + 8 * length ?vs \<le> 2 ^ 64" using u assms(3) by (simp only: n)
  with f have "pushed m m' sp ?vs" by (rule pushes)
  then have p: "words_at m' sp (rev ?vs)" "\<And>x. \<not> in_range x sp 160 \<Longrightarrow> m' x = m x" unfolding pushed_def n by simp_all
  then show "words_at m' sp (map (gpr c) (rev rs) @ return_words c)" by (simp add: rev_map)
  show "m' x = m x" if "\<not> in_range x (frame_base c) 176" for x using that u by (intro p(2)) (auto simp: in_range_def)
qed

lemma save80_frame:
  assumes "isr80_save c m = (m', sp)" "unat (frame_base c) + 176 \<le> 2 ^ 64"
  shows "unat (sp + 8) = unat (frame_base c) + 16" "words_at m' (sp + 8) (map (gpr c) isr80_restored @ return_words c)"
    "\<And>x. \<not> in_range x (frame_base c) 176 \<Longrightarrow> m' x = m x"
proof -
  obtain m0 sp0 where f: "fold push64 (map (gpr c) isr80_saved) (irq_entry c m) = (m0, sp0)" by force
  note sf = stub_frame [OF f stub_lengths(3) assms(2)]
  have e: "m' = st64 m0 sp (gpr c R9)" "sp + 8 = sp0" using assms(1) f by (auto simp: isr80_save_def push64_def [of "gpr c R9"])
  show "unat (sp + 8) = unat (frame_base c) + 16" using sf(1) e(2) by simp
  have "sp = sp0 - 8" using e(2) by auto
  then have u: "unat sp = unat (frame_base c) + 8" using sf(1) by (simp add: unat_sub_le word_le_nat_alt)
  have s8: "unat sp + 8 \<le> 2 ^ 64" using u assms(2) by simp
  have "same_on m0 m' sp0 (8 * length (map (gpr c) (rev isr80_saved) @ return_words c))"
    unfolding e(1) using u sf(1) by (intro same_on_st64 s8) (simp add: disjoint_def)
  then have "words_at m' sp0 (map (gpr c) (rev isr80_saved) @ return_words c)"
    by (rule words_at_cong [OF sf(2)]) (use sf(1) assms(2) in simp)
  then show "words_at m' (sp + 8) (map (gpr c) isr80_restored @ return_words c)" by (simp add: e(2) stub_registers(3))
  show "m' x = m x" if x: "\<not> in_range x (frame_base c) 176" for x
  proof -
    have "m' x = m0 x" unfolding e(1) st64_def using x u s8 by (intro st_outside) (auto simp: in_range_def)
    then show ?thesis using sf(3) [OF x] by simp
  qed
qed

text \<open>The frame that \<open>prepare_initial_stack\<close> makes is one of these.\<close>

definition initial_cpu :: "ptr \<Rightarrow> ptr \<Rightarrow> cpu" where
  "initial_cpu entry kstack_top = \<lparr>gpr = \<lambda>_. 0, cpu_rip = entry, cpu_cs = 0x08, cpu_rflags = 0x202, cpu_rsp = kstack_top, cpu_ss = 0x10\<rparr>"

lemma initial_frame_words: "initial_frame entry kstack_top = frame_words (initial_cpu entry kstack_top)"
  by (simp add: initial_frame_def frame_words_def initial_cpu_def return_words_def isr32_restored_def numeral_eq_Suc)

section \<open>Tasks that have not run yet\<close>

text \<open>
  A task that waits for its first turn: on its stack is a frame with which the timer stub starts
  it at \<open>entry\<close>, with cleared registers, an empty stack and interrupts enabled.
\<close>

abbreviation first_cpu :: "task_t \<Rightarrow> ptr \<Rightarrow> cpu" where
  "first_cpu T entry \<equiv> initial_cpu entry (t_kstack T + t_kstack_size T)"

definition ready_at :: "sched \<Rightarrow> blk list \<Rightarrow> ptr \<Rightarrow> ptr \<Rightarrow> bool" where
  "ready_at s bs t entry \<longleftrightarrow>
     (let T = tasks s t
      in t_state T = TASK_READY \<and> frame_holds (ram s) (t_regs T) (first_cpu T entry) \<and>
         t_regs T = frame_base (first_cpu T entry) \<and>
         (\<exists>k. (t_kstack T, k) \<in> live bs \<and> unat (t_kstack T) \<le> unat (t_regs T) \<and>
            unat (t_regs T) + 176 \<le> unat (t_kstack T) + k))"

lemma created_ready:
  assumes "created s s' t entry n um usz bs bs'"
  shows "ready_at s' bs' t entry"
proof -
  let ?T = "tasks s' t"
  have c: "t_state ?T = TASK_READY" "t_kstack_size ?T = n" "(t_kstack ?T + n) AND NOT 0xF = t_regs ?T + 22 * 8"
      "\<forall>i < 22. ld64 (ram s') (t_regs ?T + 8 * word_of_nat i) = initial_frame entry (t_kstack ?T + n) ! i"
      "\<exists>j k. live bs' = {(t, j), (t_kstack ?T, k)} \<union> live bs \<and> unat SIZEOF_TASK \<le> j \<and> unat n \<le> k"
      "unat (t_kstack ?T) \<le> unat (t_regs ?T)" "unat (t_regs ?T) + 176 \<le> unat (t_kstack ?T) + unat n"
    using assms unfolding created_def Let_def by blast+
  have "frame_holds (ram s') (t_regs ?T) (first_cpu ?T entry)"
    using c(4) unfolding words_at_def length_frame c(2) initial_frame_words by blast
  moreover have "t_regs ?T = frame_base (first_cpu ?T entry)" using c(3) by (simp add: c(2) frame_base_def initial_cpu_def)
  moreover from c(5) obtain k where "(t_kstack ?T, k) \<in> live bs'" "unat n \<le> k" by blast
  ultimately show ?thesis using c(1,6,7) unfolding ready_at_def Let_def by fastforce
qed

text \<open>A frame on a stack is safe while the stack is.\<close>

lemma frame_on_stack:
  assumes h: "heaps_ok L s bs ubs" and k: "(q, k) \<in> live bs" "unat q \<le> unat sp" "unat sp + 176 \<le> unat q + k"
    and f: "frame_holds (ram s) sp c" and m: "same_on (ram s) m q k"
  shows "frame_holds m sp c"
proof -
  have wf: "heap_wf (ram s) KERNEL_MAGIC (unat (l_heap_start L)) bs (unat (l_heap_end L))"
    using h by (simp add: heaps_ok_def krep_def)
  have "same_on (ram s) m sp (8 * length (frame_words c))" using k(2,3) by (intro same_on_sub [OF m]) simp_all
  moreover have "unat sp + 8 * length (frame_words c) \<le> 2 ^ 64" using live_bounds(3) [OF wf k(1)] k(3) by simp
  ultimately show ?thesis by (rule words_at_cong [OF f])
qed

lemma ready_cong:
  assumes r: "ready_at s bs t entry" and h: "heaps_ok L s bs ubs" and sub: "live bs \<subseteq> live bs'"
    and t: "t_state (tasks s' t) = t_state (tasks s t)" "t_regs (tasks s' t) = t_regs (tasks s t)"
      "t_kstack (tasks s' t) = t_kstack (tasks s t)" "t_kstack_size (tasks s' t) = t_kstack_size (tasks s t)"
    and m: "\<And>q k. (q, k) \<in> live bs \<Longrightarrow> same_on (ram s) (ram s') q k"
  shows "ready_at s' bs' t entry"
proof -
  let ?T = "tasks s t"
  obtain k where k: "(t_kstack ?T, k) \<in> live bs" "unat (t_kstack ?T) \<le> unat (t_regs ?T)"
      "unat (t_regs ?T) + 176 \<le> unat (t_kstack ?T) + k"
    using r by (auto simp: ready_at_def Let_def)
  have "frame_holds (ram s) (t_regs ?T) (first_cpu ?T entry)" using r unfolding ready_at_def Let_def by blast
  then have "frame_holds (ram s') (t_regs ?T) (first_cpu ?T entry)" by (rule frame_on_stack [OF h k _ m [OF k(1)]])
  then show ?thesis using r sub unfolding ready_at_def Let_def t by auto
qed

lemma ready_region:
  assumes "ready_at s bs x e" "heaps_ok L s bs ubs" "tasks s' = tasks s"
    "\<And>x. unat x < unat (l_user_start L) \<or> unat (l_user_end L) \<le> unat x \<Longrightarrow> ram s' x = ram s x"
  shows "ready_at s' bs x e"
proof (rule ready_cong [OF assms(1,2)])
  have wf: "heap_wf (ram s) KERNEL_MAGIC (unat (l_heap_start L)) bs (unat (l_heap_end L))"
    and ap: "unat (l_heap_end L) \<le> unat (l_user_start L) \<or> unat (l_user_end L) \<le> unat (l_heap_start L)"
    using assms(2) by (simp_all add: heaps_ok_def krep_def)
  show "same_on (ram s) (ram s') q k" if "(q, k) \<in> live bs" for q k
    using live_bounds(1,2) [OF wf that] ap assms(4) by (auto simp: same_on_def in_range_def)
qed (simp_all add: assms(3))

lemma created_others:
  assumes "created s s' t entry n um usz bs bs'"
  shows "x \<noteq> t \<Longrightarrow> \<exists>nx. tasks s' x = (tasks s x)\<lparr>t_next := nx\<rparr>" "live bs \<subseteq> live bs'"
    "(q, k) \<in> live bs \<Longrightarrow> same_on (ram s) (ram s') q k"
  using assms unfolding created_def Let_def by (elim conjE; auto)+

lemma created_keeps_ready:
  assumes "created s s' t entry n um usz bs bs'" "heaps_ok L s bs ubs" "ready_at s bs x e" "x \<noteq> t"
  shows "ready_at s' bs' x e"
proof (rule ready_cong [OF assms(3,2)])
  obtain nx where "tasks s' x = (tasks s x)\<lparr>t_next := nx\<rparr>" using created_others(1) [OF assms(1,4)] by blast
  then show "t_state (tasks s' x) = t_state (tasks s x)" "t_regs (tasks s' x) = t_regs (tasks s x)"
    "t_kstack (tasks s' x) = t_kstack (tasks s x)" "t_kstack_size (tasks s' x) = t_kstack_size (tasks s x)" by simp_all
qed (rule created_others(2,3) [OF assms(1)]; assumption?)+

end
