(* ===== verification/Kernel_Invariant.thy ===== *)
theory Kernel_Invariant
  imports Stubs
begin

text \<open>
  What holds of the kernel as a whole: after boot, between any interrupts and system calls
  whose arguments make sense, the heaps, the ring of tasks, the file system, the keyboard
  buffer, the console and the clock are well formed, and every system call returns.
\<close>

section \<open>The kernel heap as callers use it\<close>

text \<open>The blocks of the kernel heap that belong to tasks: records and stacks.\<close>

definition records :: "layout \<Rightarrow> ptr list \<Rightarrow> ptr list \<Rightarrow> ptr set" where
  "records L xs zs = (set xs \<union> set zs) - {l_init_task L}"

definition task_blocks :: "layout \<Rightarrow> sched \<Rightarrow> ptr list \<Rightarrow> ptr list \<Rightarrow> ptr set" where
  "task_blocks L s xs zs = records L xs zs \<union> (\<lambda>t. t_kstack (tasks s t)) ` records L xs zs"

lemma life_kern:
  assumes l: "life_inv L s xs zs bs ubs" and s': "s' = s\<lparr>kern_heap := k, ram := m\<rparr>"
    and h: "heaps_ok L s' bs' ubs" and sub: "task_blocks L s xs zs \<subseteq> fst ` live bs'"
  shows "life_inv L s' xs zs bs' ubs"
proof -
  have tm: "task_mem s (records L xs zs) bs ubs" using l by (simp add: life_inv_def sched_inv_def records_def)
  then have "task_mem s' (records L xs zs) bs' ubs"
    using sub unfolding task_mem_def task_blocks_def s' by (auto simp: subset_iff)
  then show ?thesis
    using l h unfolding life_inv_def sched_inv_def sched_ok_def book_def by (simp add: s' records_def)
qed

lemma life_owned: "life_inv L s xs zs bs ubs \<Longrightarrow> task_blocks L s xs zs \<subseteq> fst ` live bs"
  by (auto simp: life_inv_def sched_inv_def task_mem_def task_blocks_def records_def)

lemma life_heaps_ok: "life_inv L s xs zs bs ubs \<Longrightarrow> heaps_ok L s bs ubs"
  by (simp add: life_inv_def sched_inv_def)

text \<open>What a call of the allocator for \<open>p\<close> leaves alone.\<close>

definition heap_call :: "layout \<Rightarrow> ptr \<Rightarrow> sched \<Rightarrow> blk list \<Rightarrow> sched \<Rightarrow> blk list \<Rightarrow> bool" where
  "heap_call L p s bs s' bs' \<longleftrightarrow>
     (\<forall>q l. (q, l) \<in> live bs \<longrightarrow> q \<noteq> p \<longrightarrow> (q, l) \<in> live bs' \<and> same_on (ram s) (ram s') q l) \<and>
     (\<forall>x. unat x < unat (l_heap_start L) \<or> unat (l_heap_end L) \<le> unat x \<longrightarrow> ram s' x = ram s x) \<and>
     (\<exists>k m. s' = s\<lparr>kern_heap := k, ram := m\<rparr>)"

lemma heap_call_refl: "heap_call L p s bs s bs"
  unfolding heap_call_def by (intro conjI allI impI exI [of _ "kern_heap s"] exI [of _ "ram s"]) simp_all

lemma life_malloc:
  assumes l: "life_inv L s xs zs bs ubs" and n: "n = 0 \<or> room n s"
  shows "\<exists>s' p bs'. k_malloc L n s = Some (s', p) \<and> life_inv L s' xs zs bs' ubs \<and> live bs \<subseteq> live bs' \<and>
    (n \<noteq> 0 \<longrightarrow> p \<noteq> NULL \<and> p \<notin> fst ` live bs \<and> (\<exists>k. (p, k) \<in> live bs' \<and> unat n \<le> k)) \<and> heap_call L NULL s bs s' bs'"
proof (cases "n = 0")
  case True
  then have "k_malloc L n s = Some (s, NULL)" by (simp add: k_malloc_def malloc_def)
  then show ?thesis using l True heap_call_refl by blast
next
  case False
  note h = life_heaps_ok [OF l]
  have adm: "k_admissible bs n" using n False room_admissible [OF h] by blast
  then obtain s' p k where m: "k_malloc L n s = Some (s', p)" "p \<noteq> NULL" "heaps_ok L s' (fst (a_malloc n bs)) ubs"
      "live (fst (a_malloc n bs)) = insert (p, k) (live bs)" "unat n \<le> k" "p \<notin> fst ` live bs"
      "\<exists>kh m. s' = s\<lparr>kern_heap := kh, ram := m\<rparr>" "\<forall>(q, l) \<in> live bs. same_on (ram s) (ram s') q l"
    using k_malloc_ok [OF h False] by blast
  from m(7) obtain kh mm where s': "s' = s\<lparr>kern_heap := kh, ram := mm\<rparr>" by blast
  have "life_inv L s' xs zs (fst (a_malloc n bs)) ubs"
    using life_owned [OF l] m(4) by (intro life_kern [OF l s' m(3)]) auto
  moreover have "heap_call L NULL s bs s' (fst (a_malloc n bs))"
    unfolding heap_call_def using m(4,7,8) k_malloc_region [OF h adm m(1)] by auto
  ultimately show ?thesis
    using m by (intro exI [of _ s'] exI [of _ p] exI [of _ "fst (a_malloc n bs)"]) auto
qed

lemma life_free:
  assumes l: "life_inv L s xs zs bs ubs" and p: "p = NULL \<or> p \<in> fst ` live bs - task_blocks L s xs zs"
  shows "\<exists>bs'. life_inv L (k_free p s) xs zs bs' ubs \<and> heap_call L p s bs (k_free p s) bs'"
proof (cases "p = NULL")
  case True
  then have "k_free p s = s" by (simp add: k_free_def free_def)
  then show ?thesis using l heap_call_refl by auto
next
  case False
  then obtain k where k: "(p, k) \<in> live bs" "p \<notin> task_blocks L s xs zs" using p by auto
  note h = life_heaps_ok [OF l]
  obtain bs' where b: "heaps_ok L (k_free p s) bs' ubs" "live bs' = live bs - {(p, k)}" "mem_kept L s (k_free p s) bs'"
    using k_free_ok(1) [OF h k(1)] by blast
  obtain kh m where s': "k_free p s = s\<lparr>kern_heap := kh, ram := m\<rparr>" using k_free_ok(2) [OF h k(1)] by blast
  have "task_blocks L s xs zs \<subseteq> fst ` live bs'"
  proof
    fix x assume x: "x \<in> task_blocks L s xs zs"
    then obtain j where "(x, j) \<in> live bs" using life_owned [OF l] by force
    then have "(x, j) \<in> live bs'" using b(2) k(2) x by auto
    then show "x \<in> fst ` live bs'" by force
  qed
  then have "life_inv L (k_free p s) xs zs bs' ubs" by (rule life_kern [OF l s' b(1)])
  moreover have "heap_call L p s bs (k_free p s) bs'"
    unfolding heap_call_def
  proof (intro conjI)
    show "\<forall>q l. (q, l) \<in> live bs \<longrightarrow> q \<noteq> p \<longrightarrow> (q, l) \<in> live bs' \<and> same_on (ram s) (ram (k_free p s)) q l"
      using b(2,3) by (auto simp: mem_kept_def)
    show "\<forall>x. unat x < unat (l_heap_start L) \<or> unat (l_heap_end L) \<le> unat x \<longrightarrow> ram (k_free p s) x = ram s x"
      using k_free_ok(3) [OF h k(1)] by blast
  qed (use s' in blast)
  ultimately show ?thesis by blast
qed

lemma life_realloc:
  assumes l: "life_inv L s xs zs bs ubs"
    and p: "p = NULL \<or> p \<in> fst ` live bs - task_blocks L s xs zs" "n = 0 \<or> room n s"
  shows "\<exists>s' q bs'. k_realloc L p n s = Some (s', q) \<and> life_inv L s' xs zs bs' ubs \<and> heap_call L p s bs s' bs'"
proof -
  note h = life_heaps_ok [OF l]
  consider "p = NULL" | "p \<noteq> NULL" "n = 0" | "p \<noteq> NULL" "n \<noteq> 0" by blast
  then show ?thesis
  proof cases
    case 1
    then have "k_realloc L p n s = k_malloc L n s"
      by (auto simp: k_realloc_def k_malloc_def realloc_def)
    then show ?thesis using life_malloc [OF l p(2)] 1 by auto
  next
    case 2
    then have "k_realloc L p n s = Some (k_free p s, NULL)"
      by (auto simp: k_realloc_def k_free_def realloc_def split: prod.splits)
    then show ?thesis using life_free [OF l, of p] p 2 by auto
  next
    case 3
    then obtain j where j: "(p, j) \<in> live bs" "p \<notin> task_blocks L s xs zs" "room n s" using p by auto
    have rep: "krep (l_heap_start L) (l_heap_end L) (kern_heap s, ram s) bs" using h by (simp add: heaps_ok_def)
    have adm: "k_admissible bs n" "unat n + 7 < 2 ^ 64" using room_admissible [OF h j(3)] by (simp_all add: k_admissible_def)
    obtain k m q where r: "realloc (l_heap_start L) p n (kern_heap s, ram s) = Some ((k, m), q)"
        "realloc_post (krep (l_heap_start L) (l_heap_end L) (k, m)) (unat (l_heap_start L)) (unat (l_heap_end L)) (ram s) m bs p j q n"
      using realloc_cases [OF rep j(1) 3(2) adm(2) disjI2 [OF adm(1)]] by auto
    from r(2) obtain bs' where b: "krep (l_heap_start L) (l_heap_end L) (k, m) bs'"
        "\<And>r l. (r, l) \<in> live bs \<Longrightarrow> r \<noteq> p \<Longrightarrow> (r, l) \<in> live bs' \<and> same_on (ram s) m r l"
      and out: "\<And>x. unat x < unat (l_heap_start L) \<or> unat (l_heap_end L) \<le> unat x \<Longrightarrow> m x = ram s x"
      unfolding realloc_post_def same_outside_def by auto
    let ?s = "s\<lparr>kern_heap := k, ram := m\<rparr>"
    have ap: "unat (l_heap_end L) \<le> unat (l_user_start L) \<or> unat (l_user_end L) \<le> unat (l_heap_start L)"
      and u: "heap_wf (ram s) USER_MAGIC (unat (l_user_start L)) ubs (unat (l_user_end L))"
      using h by (simp_all add: heaps_ok_def urep_def)
    have "m x = ram s x" if "unat (l_user_start L) \<le> unat x" "unat x < unat (l_user_end L)" for x
      using ap that by (intro out) linarith
    with u have "heap_wf m USER_MAGIC (unat (l_user_start L)) ubs (unat (l_user_end L))" by (rule heap_wf_region)
    then have "heaps_ok L ?s bs' ubs" using h b(1) by (simp add: heaps_ok_def urep_def)
    moreover have "task_blocks L s xs zs \<subseteq> fst ` live bs'"
    proof
      fix x assume x: "x \<in> task_blocks L s xs zs"
      then obtain i where "(x, i) \<in> live bs" using life_owned [OF l] by force
      then have "(x, i) \<in> live bs'" using b(2) j(2) x by blast
      then show "x \<in> fst ` live bs'" by force
    qed
    ultimately have "life_inv L ?s xs zs bs' ubs" by (intro life_kern [OF l refl])
    moreover have "k_realloc L p n s = Some (?s, q)" using r(1) by (simp add: k_realloc_def)
    moreover have "heap_call L p s bs ?s bs'" unfolding heap_call_def using b(2) out by auto
    ultimately show ?thesis by blast
  qed
qed

lemma stats_walk: "krep hs he st bs \<Longrightarrow> \<exists>s. get_kmalloc_stats st = Some s"
  using blk_stats_wf [of "snd st" KERNEL_MAGIC "unat hs" bs "unat he"] krep_hd(1) [of hs he st bs]
  by (auto simp: krep_def get_kmalloc_stats_def case_prod_beta)

section \<open>Writes of the kernel for its callers\<close>

text \<open>
  A buffer that a caller may pass: inside a payload in use that is not the record of a task.
\<close>

definition caller_buf :: "layout \<Rightarrow> ptr list \<Rightarrow> ptr list \<Rightarrow> blk list \<Rightarrow> blk list \<Rightarrow> ptr \<Rightarrow> nat \<Rightarrow> bool" where
  "caller_buf L xs zs bs ubs p n \<longleftrightarrow> n = 0 \<or>
     (\<exists>(q, k) \<in> live bs. q \<notin> records L xs zs \<and> unat q \<le> unat p \<and> unat p + n \<le> unat q + k) \<or>
     (\<exists>(q, k) \<in> live ubs. unat q \<le> unat p \<and> unat p + n \<le> unat q + k)"

lemma caller_buf_top:
  assumes "heaps_ok L s bs ubs" "caller_buf L xs zs bs ubs p n" "n \<noteq> 0"
  shows "unat p + n \<le> 2 ^ 64"
proof -
  have "heap_wf (ram s) KERNEL_MAGIC (unat (l_heap_start L)) bs (unat (l_heap_end L))"
    "heap_wf (ram s) USER_MAGIC (unat (l_user_start L)) ubs (unat (l_user_end L))"
    using assms(1) by (simp_all add: heaps_ok_def krep_def urep_def)
  then have "unat q + k \<le> 2 ^ 64" if "(q, k) \<in> live bs \<or> (q, k) \<in> live ubs" for q k
    using live_bounds(3) that by blast
  then show ?thesis using assms(2,3) unfolding caller_buf_def by (fastforce dest: le_trans)
qed

lemma life_buffer:
  assumes l: "life_inv L s xs zs bs ubs" and b: "caller_buf L xs zs bs ubs p n"
    and m: "\<And>x. \<not> in_range x p n \<Longrightarrow> m x = ram s x"
  shows "life_inv L (s\<lparr>ram := m\<rparr>) xs zs bs ubs"
proof -
  note h = life_heaps_ok [OF l]
  from b consider "n = 0" | q k where "(q, k) \<in> live bs" "unat q \<le> unat p" "unat p + n \<le> unat q + k"
    | q k where "(q, k) \<in> live ubs" "unat q \<le> unat p" "unat p + n \<le> unat q + k"
    unfolding caller_buf_def by blast
  then show ?thesis
  proof cases
    case 1
    then show ?thesis using m by (intro life_ram [OF l]) (simp_all add: in_range_def)
  next
    case 2
    have "heaps_ok L (s\<lparr>ram := m\<rparr>) bs ubs"
      using 2 by (intro heaps_ok_payload(1) [OF h 2(1)] m) (auto simp: in_range_def)
    moreover have "s\<lparr>ram := m\<rparr> = s\<lparr>kern_heap := kern_heap s, ram := m\<rparr>" by simp
    ultimately show ?thesis using life_kern [OF l] life_owned [OF l] by blast
  next
    case 3
    have "heaps_ok L (s\<lparr>ram := m\<rparr>) bs ubs"
      using 3 by (intro heaps_ok_user_payload [OF h 3(1)] m) (auto simp: in_range_def)
    moreover have "s\<lparr>ram := m\<rparr> = s\<lparr>user_heap := user_heap s, ram := m\<rparr>" by simp
    ultimately show ?thesis using life_heaps [OF l] by blast
  qed
qed

text \<open>The video memory lies in neither heap.\<close>

definition video_apart :: "layout \<Rightarrow> bool" where
  "video_apart L \<longleftrightarrow>
     disjoint VGA_BUF 4000 (l_user_start L) (unat (l_user_end L) - unat (l_user_start L)) \<and>
     disjoint VGA_BUF 4000 (l_heap_start L) (unat (l_heap_end L) - unat (l_heap_start L))"

lemma life_screen:
  assumes l: "life_inv L s xs zs bs ubs" and v: "video_apart L" and m: "screen_only (ram s) m"
  shows "life_inv L (s\<lparr>ram := m\<rparr>) xs zs bs ubs"
proof -
  have "m x = ram s x" if "\<not> in_range x VGA_BUF 4000" for x using m that by (simp add: screen_only_def)
  then show ?thesis using v by (intro life_ram [OF l]) (auto simp: video_apart_def disjoint_def in_range_def)
qed

lemma st_task_infos_outside:
  "unat p + 8 * length ts \<le> 2 ^ 64 \<Longrightarrow> \<not> in_range x p (8 * length ts) \<Longrightarrow> st_task_infos m p ts x = m x"
proof (induction ts arbitrary: m p)
  case (Cons t ts)
  obtain pid st where t: "t = (pid, st)" by force
  have p4: "unat (p + 4) = unat p + 4" using Cons.prems(1) unat_add_small [of p 4] by simp
  let ?m = "st32 (st32 m p pid) (p + 4) (state_code st)"
  have "?m x = m x"
    using Cons.prems p4 by (auto simp: st32_def in_range_def intro!: st_outside [THEN trans])
  moreover have "st_task_infos ?m (p + 8) ts x = ?m x"
  proof (cases "ts = []")
    case False
    have "unat (p + 8) = unat p + 8" using Cons.prems(1) False unat_add_small [of p 8] by (cases ts) simp_all
    then show ?thesis using Cons.prems by (intro Cons.IH) (auto simp: in_range_def)
  qed simp
  ultimately show ?case by (simp add: t)
qed simp

section \<open>Starting programs, whatever the arguments\<close>

text \<open>No file comes near the size at which the 32-bit sum with 1024 wraps.\<close>

definition small_files :: "fs \<Rightarrow> bool" where
  "small_files f \<longleftrightarrow> (\<forall>e \<in> set (entries f). unat (e_size e) + 1024 < 2 ^ 32)"

lemma small_file_words:
  assumes "unat (z :: u32) + 1024 < 2 ^ 32"
  shows "unat (ucast (z + 1024) :: u64) = unat z + 1024" "unat (ucast z :: u64) = unat z"
proof -
  have "unat (z + 1024) = unat z + 1024" using assms unat_add_small [of z 1024] by simp
  moreover have "unat (ucast y :: u64) = unat y" for y :: u32
    using unat_less_2p [of y] by (simp add: unsigned_ucast_eq take_bit_nat_eq_self)
  ultimately show "unat (ucast (z + 1024) :: u64) = unat z + 1024" "unat (ucast z :: u64) = unat z" by simp_all
qed

lemma u_malloc_returns:
  assumes "heaps_ok L s bs ubs"
  obtains s1 um where "u_malloc L k s = Some (s1, um)"
  using user_malloc_refines [of "l_user_start L" "l_user_end L" "(user_heap s, ram s)" ubs k] assms
  by (auto simp: heaps_ok_def u_malloc_def)

lemma life_u_malloc:
  assumes l: "life_inv L s xs zs bs ubs" and n: "unat k + 7 < 2 ^ 64" and r: "u_malloc L k s = Some (s1, um)"
  shows "\<exists>ubs'. life_inv L s1 xs zs bs ubs'"
proof -
  let ?ubs = "fst (a_malloc k ubs)"
  note h = life_heaps_ok [OF l]
  have u: "urep (l_user_start L) (l_user_end L) (user_heap s, ram s) ubs"
    and ap: "unat (l_heap_end L) \<le> unat (l_user_start L) \<or> unat (l_user_end L) \<le> unat (l_heap_start L)"
    using h by (simp_all add: heaps_ok_def)
  obtain uh m where al: "user_malloc (l_user_start L) (l_user_end L) k (user_heap s, ram s) = Some ((uh, m), um)"
    and s1: "s1 = s\<lparr>user_heap := uh, ram := m\<rparr>"
    using r by (auto simp: u_malloc_def)
  have rep: "urep (l_user_start L) (l_user_end L) (uh, m) ?ubs" using user_malloc_refines [OF u, of k] al by auto
  have k: "heap_wf (ram s) KERNEL_MAGIC (unat (l_heap_start L)) bs (unat (l_heap_end L))"
    using h by (simp add: heaps_ok_def krep_def)
  have "ram s1 x = ram s x" if "unat (l_heap_start L) \<le> unat x" "unat x < unat (l_heap_end L)" for x
    using ap that by (intro u_malloc_keeps(1) [OF h n r]) linarith
  with k have "heap_wf (ram s1) KERNEL_MAGIC (unat (l_heap_start L)) bs (unat (l_heap_end L))" by (rule heap_wf_region)
  then have "heaps_ok L s1 bs ?ubs" using h rep by (simp add: s1 heaps_ok_def krep_def)
  moreover have "live ubs \<subseteq> live ?ubs"
  proof (rule subrelI)
    fix q j assume "(q, j) \<in> live ubs"
    then show "(q, j) \<in> live ?ubs" using n by (intro um.alloc_keeps(2) [OF u _ al]) (simp_all add: u_admissible_def)
  qed
  ultimately show ?thesis using life_heaps [OF l s1] by blast
qed

text \<open>What starting a program leaves alone, and what a new task looks like.\<close>

definition started :: "layout \<Rightarrow> sched \<Rightarrow> ptr list \<Rightarrow> blk list \<Rightarrow> sched \<Rightarrow> ptr list \<Rightarrow> blk list \<Rightarrow> bool" where
  "started L s xs bs s' xs' bs' \<longleftrightarrow>
     current s' = current s \<and> live bs \<subseteq> live bs' \<and> mem_kept L s s' bs \<and> set xs \<subseteq> set xs' \<and>
     (\<forall>x \<in> set xs. t_regs (tasks s' x) = t_regs (tasks s x)) \<and>
     (\<forall>x \<in> fst ` live bs. t_kstack (tasks s' x) = t_kstack (tasks s x)) \<and>
     (\<forall>x \<in> set xs' - set xs. \<exists>entry. ready_at s' bs' x entry)"

lemma started_flag:
  "started L s xs bs (sti s') xs' bs' = started L s xs bs s' xs' bs'"
  "started L (cli s) xs bs s' xs' bs' = started L s xs bs s' xs' bs'"
  by (simp_all add: started_def mem_kept_def ready_at_def)

text \<open>A change of the user heap only.\<close>

lemma started_user:
  assumes h: "heaps_ok L s bs ubs" and s: "tasks s' = tasks s" "current s' = current s"
    and m: "\<And>x. unat x < unat (l_user_start L) \<or> unat (l_user_end L) \<le> unat x \<Longrightarrow> ram s' x = ram s x"
  shows "started L s xs bs s' xs bs"
proof -
  have wf: "heap_wf (ram s) KERNEL_MAGIC (unat (l_heap_start L)) bs (unat (l_heap_end L))"
    and ap: "unat (l_heap_end L) \<le> unat (l_user_start L) \<or> unat (l_user_end L) \<le> unat (l_heap_start L)"
    using h by (simp_all add: heaps_ok_def krep_def)
  have "same_on (ram s) (ram s') q k" if "(q, k) \<in> live bs" for q k
    using live_bounds(1,2) [OF wf that] ap m by (auto simp: same_on_def in_range_def)
  then show ?thesis using s m by (simp add: started_def mem_kept_def)
qed

lemma started_created:
  assumes c: "created s s' t entry n um usz bs bs'" and l: "life_inv L s' (xs @ [t]) zs bs' ubs"
    and out: "\<And>x. unat x < unat (l_heap_start L) \<or> unat (l_heap_end L) \<le> unat x \<Longrightarrow> ram s' x = ram s x"
  shows "started L s xs bs s' (xs @ [t]) bs'"
proof -
  have t: "t \<notin> set xs" using l by (auto simp: life_inv_def sched_inv_def sched_ok_def ring_def)
  have old: "t_regs (tasks s' x) = t_regs (tasks s x) \<and> t_kstack (tasks s' x) = t_kstack (tasks s x)" if x: "x \<noteq> t" for x
  proof -
    obtain nx where "tasks s' x = (tasks s x)\<lparr>t_next := nx\<rparr>" using created_others(1) [OF c x] by blast
    then show ?thesis by simp
  qed
  then have "\<forall>x \<in> set xs. t_regs (tasks s' x) = t_regs (tasks s x)" using t by metis
  moreover have "t \<notin> fst ` live bs" using c unfolding created_def Let_def by (elim conjE) simp
  then have "\<forall>x \<in> fst ` live bs. t_kstack (tasks s' x) = t_kstack (tasks s x)" using old by metis
  moreover have "current s' = current s" using c unfolding created_def Let_def by (elim conjE) simp
  moreover have "mem_kept L s s' bs" using created_others(3) [OF c] out by (simp add: mem_kept_def)
  ultimately show ?thesis
    unfolding started_def using created_others(2) [OF c] created_ready [OF c] by auto
qed

lemma started_trans:
  assumes "started L s xs bs s1 xs bs" "started L s1 xs bs s2 xs' bs'"
  shows "started L s xs bs s2 xs' bs'"
  using assms mem_kept_trans [of L s s1 bs s2 bs] unfolding started_def by auto

lemma start_image:
  assumes l: "life_inv L s xs zs bs ubs" and room: "room_for_task L n s" and np: "unat (next_pid s) + 1 < 2 ^ 31"
    and k: "unat k + 7 < 2 ^ 64" and um: "u_malloc L k s = Some (s1, um)" "um \<noteq> NULL"
    and m: "\<And>x. \<not> in_range x um (unat k) \<Longrightarrow> m x = ram s1 x"
  shows "\<exists>s' t bs' ubs'. utask_create L um n um sz (s1\<lparr>ram := m\<rparr>) = Some (s', scast (next_pid s)) \<and>
    life_inv L s' (xs @ [t]) zs bs' ubs' \<and> created (s1\<lparr>ram := m\<rparr>) s' t um (stack_of n) um sz bs bs' \<and>
    next_pid (s1\<lparr>ram := m\<rparr>) = next_pid s \<and> started L (s1\<lparr>ram := m\<rparr>) xs bs s' (xs @ [t]) bs'"
proof -
  let ?s = "s1\<lparr>ram := m\<rparr>"
  obtain ubs' j where u: "life_inv L ?s xs zs bs ubs'" "live ubs' = insert (um, j) (live ubs)" "next_pid ?s = next_pid s"
      "\<forall>x \<in> (set xs \<union> set zs) - {l_init_task L}. t_user_mem (tasks ?s x) \<noteq> um"
    using user_space_ready [OF l k um m] by blast
  have r: "room_for_task L n ?s"
    using room_for_task_admissible [OF life_heaps_ok [OF l] room] room
    by (intro admissible_room [OF life_heaps_ok [OF u(1)]]) (simp_all add: room_for_task_def)
  have "unat (next_pid ?s) + 1 < 2 ^ 31" using np u(3) by simp
  moreover have "um = NULL \<or> um \<in> fst ` live ubs' \<and> (\<forall>x \<in> (set xs \<union> set zs) - {l_init_task L}. t_user_mem (tasks ?s x) \<noteq> um)"
    using u(2,4) by force
  ultimately obtain s' t bs' where t: "new_task L um n um sz ?s = Some (s', t)" "life_inv L s' (xs @ [t]) zs bs' ubs'"
      "created ?s s' t um (stack_of n) um sz bs bs'"
    using life_new [OF u(1) r] by blast
  have "t \<noteq> NULL" "t_pid (tasks s' t) = next_pid s" using t(3) u(3) unfolding created_def Let_def by simp_all
  then have "utask_create L um n um sz ?s = Some (s', scast (next_pid s))" using t(1) by (simp add: utask_create_def)
  moreover have "started L ?s xs bs s' (xs @ [t]) bs'"
    by (rule started_created [OF t(3,2) new_task_region [OF life_heaps_ok [OF u(1)] r t(1)]])
  ultimately show ?thesis using t u(3) by blast
qed

text \<open>The size of a file that has been found is small.\<close>

lemma found_small:
  assumes "fs_wf f" "small_files f" "\<not> fs_find_in_dir m name ext b f < 0"
  shows "unat (e_size (entries f ! nat (fs_find_in_dir m name ext b f))) + 1024 < 2 ^ 32"
proof -
  have "nat (fs_find_in_dir m name ext b f) < FS_MAX_ENTRIES" using fs_find_Some(3) [OF refl] assms(3) by simp
  then show ?thesis using assms(1,2) nth_mem unfolding fs_wf_def small_files_def by metis
qed

lemma life_program:
  assumes l: "life_inv L s xs zs bs ubs" and fs: "fs_wf f" "small_files f"
    and room: "room_for_task L 16384 s" and np: "unat (next_pid s) + 1 < 2 ^ 31"
  shows "\<exists>s' v xs' bs' ubs'. load_and_run_program L I f str s = Some (s', v) \<and> life_inv L s' xs' zs bs' ubs' \<and>
    started L s xs bs s' xs' bs'"
proof -
  let ?s = "cli s" and ?bin = "str_bin I"
  let ?b = "fs_find_in_dir (ram s) ?bin NULL (int FS_ROOT_IDX) f"
  let ?i = "fs_find_in_dir (ram s) str ?bin ?b f" let ?z = "e_size (entries f ! nat ?i)" and ?k = "ucast (e_size (entries f ! nat ?i) + 1024) :: u64"
  have l0: "life_inv L ?s xs zs bs ubs" using l by simp
  obtain s1 um where um: "u_malloc L ?k ?s = Some (s1, um)" by (rule u_malloc_returns [OF life_heaps_ok [OF l0]])
  show ?thesis
  proof (cases "str = NULL \<or> ram s str = 0 \<or> ?b < 0 \<or> ?i < 0 \<or> ?z = 0")
    case True
    then have "\<exists>v. load_and_run_program L I f str s = Some (sti ?s, v)" by (auto simp: load_and_run_program_def Let_def)
    moreover have "started L s xs bs (sti ?s) xs bs" by (rule started_user [OF life_heaps_ok [OF l]]) simp_all
    ultimately show ?thesis using l life_flag by blast
  next
    case False
    then have ok: "str \<noteq> NULL" "ram s str \<noteq> 0" "\<not> ?b < 0" "\<not> ?i < 0" "?z \<noteq> 0" by blast+
    note sm = found_small [OF fs ok(4)]
    note w = small_file_words [OF sm]
    have k7: "unat ?k + 7 < 2 ^ 64" using w(1) sm by simp
    have u1: "tasks s1 = tasks s" "current s1 = current s" using um by (auto simp: u_malloc_def)
    show ?thesis
    proof (cases "um = NULL")
      case True
      then have "load_and_run_program L I f str s = Some (sti s1, 0)"
        using ok um by (simp add: load_and_run_program_def Let_def)
      moreover have "started L s xs bs (sti s1) xs bs"
        using u1 u_malloc_keeps(1) [OF life_heaps_ok [OF l0] k7 um] by (intro started_user [OF life_heaps_ok [OF l]]) simp_all
      ultimately show ?thesis using life_u_malloc [OF l0 k7 um] life_flag(2) by blast
    next
      case False
      define m1 where "m1 = memset (ram s1) um 0 (ucast ?z)"
      define m2 where "m2 = fst (fs_read_file_in_dir (ramdisk I) str ?bin ?b um (ucast ?z) (f, m1))"
      have top: "unat um + unat ?k \<le> 2 ^ 64"
        using user_image_keeps(4) [OF life_heaps_ok [OF l0] k7 um False, of "ram s1"] unat_less_2p [of "l_user_end L"] by simp
      have m2: "m2 x = ram s1 x" if "\<not> in_range x um (unat ?k)" for x
      proof -
        have x: "\<not> in_range x um (unat (ucast ?z :: u64))" using that w by (auto simp: in_range_def)
        have "m2 x = m1 x" unfolding m2_def using top w by (intro fs_read_file_outside [OF _ x]) simp
        also have "m1 x = ram s1 x"
          unfolding m1_def memset_eq using x top w by (intro st_bytes_outside) simp_all
        finally show ?thesis .
      qed
      moreover have "room_for_task L 16384 ?s"
        using room_for_task_admissible [OF life_heaps_ok [OF l] room]
        by (intro admissible_room [OF life_heaps_ok [OF l0]]) (simp_all add: stack_of_def)
      ultimately obtain s' t bs' ubs' where
        t: "utask_create L um 16384 um (ucast ?z) (s1\<lparr>ram := m2\<rparr>) = Some (s', scast (next_pid s))" "life_inv L s' (xs @ [t]) zs bs' ubs'"
          "started L (s1\<lparr>ram := m2\<rparr>) xs bs s' (xs @ [t]) bs'"
        using start_image [OF l0 _ _ k7 um False, of 16384 m2 "ucast ?z"] np unfolding cli_sti_simps by blast
      have "started L s xs bs (s1\<lparr>ram := m2\<rparr>) xs bs"
        using u1 user_image_keeps(1) [OF life_heaps_ok [OF l0] k7 um False m2] by (intro started_user [OF life_heaps_ok [OF l]]) simp_all
      then have "started L s xs bs s' (xs @ [t]) bs'" by (rule started_trans [OF _ t(3)])
      then have st: "started L s xs bs (sti s') (xs @ [t]) bs'" by (simp only: started_flag)
      have "load_and_run_program L I f str s = Some (sti s', scast (next_pid s))"
        using ok um False t(1) next_pid_nonzero [OF l]
        by (simp add: load_and_run_program_def Let_def m1_def m2_def)
      then show ?thesis using t(2) st life_flag(2) by blast
    qed
  qed
qed

section \<open>The invariant of the kernel\<close>

definition kernel_inv :: "layout \<Rightarrow> machine \<Rightarrow> bool" where
  "kernel_inv L M \<longleftrightarrow>
     (\<exists>xs zs bs ubs. life_inv L (mc_sched M) xs zs bs ubs) \<and>
     fs_wf (mc_fs M) \<and> small_files (mc_fs M) \<and> kbd_ok (mc_kbd M) \<and> cursor_ok (vga_of M) \<and>
     clock_ok (system_clock (mc_timer M)) \<and> unat (tick_time (mc_timer M)) < 1000"

text \<open>
  When a system call makes sense: buffers are memory of the caller, memory that is given
  back is in use and not part of a task, a request finds room, and the tasks are managed by a task
  that has not ended.  The other calls take any arguments.
\<close>

definition sys_pre ::
  "layout \<Rightarrow> device \<Rightarrow> u64 \<Rightarrow> u64 \<Rightarrow> u64 \<Rightarrow> u64 \<Rightarrow> machine \<Rightarrow> ptr list \<Rightarrow> ptr list \<Rightarrow> blk list \<Rightarrow> blk list \<Rightarrow> bool"
where
  "sys_pre L dev rax rdi rsi rdx M xs zs bs ubs \<longleftrightarrow>
     (let nr = (ucast rax :: u32); s = mc_sched M
      in if nr = SYSCALL_PRINT_STRING_POSITION then (ucast rsi :: u32) < 80 \<and> (ucast rdx :: u32) < 25
         else if nr = SYSCALL_PRINT_STRING then
           \<exists>cs. cstr (ram s) rdi cs \<and> disjoint rdi (Suc (length cs)) VGA_BUF 4000 \<and> unat rdi + Suc (length cs) \<le> 2 ^ 64
         else if nr = SYSCALL_GET_TIME then caller_buf L xs zs bs ubs rsi 11
         else if nr = SYSCALL_MALLOC then rdi = 0 \<or> room rdi s
         else if nr = SYSCALL_FREE then rdi = NULL \<or> rdi \<in> fst ` live bs - task_blocks L s xs zs
         else if nr = SYSCALL_REALLOC then
           (rdi = NULL \<or> rdi \<in> fst ` live bs - task_blocks L s xs zs) \<and> (rsi = 0 \<or> room rsi s)
         else if nr = SYSCALL_KMALLOC_STATS then rdi = NULL \<or> caller_buf L xs zs bs ubs rdi 56
         else if nr = SYSCALL_REBOOT then reboot_system dev (mc_io M) \<noteq> None
         else if nr = SYSCALL_TASK_CREATE then room_for_task L 16384 s \<and> unat (next_pid s) + 1 < 2 ^ 31
         else if nr = SYSCALL_TASK_LIST then
           caller_buf L xs zs bs ubs rdi (8 * min (length xs) (nat (sint (ucast rsi :: i32))))
         else if nr \<in> {SYSCALL_TASK_STOP, SYSCALL_REAP_ZOMBIES, SYSCALL_TASK_EXIT, SYSCALL_TASK_IS_ALIVE} then caller_alive s
         else True)"

definition sys_ok :: "layout \<Rightarrow> device \<Rightarrow> u64 \<Rightarrow> u64 \<Rightarrow> u64 \<Rightarrow> u64 \<Rightarrow> machine \<Rightarrow> bool" where
  "sys_ok L dev rax rdi rsi rdx M \<longleftrightarrow>
     (\<exists>xs zs bs ubs. life_inv L (mc_sched M) xs zs bs ubs \<and> sys_pre L dev rax rdi rsi rdx M xs zs bs ubs)"

fun sys_machine :: "sys_result \<Rightarrow> machine" where
  "sys_machine (Ret M v) = M"
| "sys_machine (Stop M) = M"

lemma kernel_inv_sched:
  "kernel_inv L M \<Longrightarrow> life_inv L s xs zs bs ubs \<Longrightarrow> kernel_inv L (M\<lparr>mc_sched := s\<rparr>)"
  by (auto simp: kernel_inv_def vga_of_def cursor_ok_def)

lemma kernel_inv_vga:
  assumes k: "kernel_inv L M" and v: "video_apart L" "screen_only (ram (mc_sched M)) (vmem v)" "cursor_ok v"
  shows "kernel_inv L (put_vga v M)"
proof -
  obtain xs zs bs ubs where l: "life_inv L (mc_sched M) xs zs bs ubs" using k by (auto simp: kernel_inv_def)
  have "life_inv L ((mc_sched M)\<lparr>ram := vmem v\<rparr>) xs zs bs ubs" by (rule life_screen [OF l v(1,2)])
  then show ?thesis using k v(3) by (auto simp: kernel_inv_def put_vga_def vga_of_def cursor_ok_def)
qed

lemma kernel_inv_buffer:
  assumes k: "kernel_inv L M" and l: "life_inv L (mc_sched M) xs zs bs ubs" and b: "caller_buf L xs zs bs ubs p n"
    and m: "\<And>x. \<not> in_range x p n \<Longrightarrow> m x = ram (mc_sched M) x"
  shows "kernel_inv L (put_ram m M)"
  unfolding put_ram_def by (rule kernel_inv_sched [OF k life_buffer [OF l b m]])

lemma kernel_inv_kbd:
  assumes k: "kernel_inv L M" and kb: "kbd_ok kb"
  shows "kernel_inv L (put_kbd kb M)"
proof -
  have "life_inv L (s\<lparr>if_flag := b\<rparr>) xs zs bs ubs = life_inv L s xs zs bs ubs" for s b xs zs bs ubs
    by (cases b) (use life_flag in \<open>simp_all add: cli_def sti_def\<close>)
  then show ?thesis using k kb by (auto simp: kernel_inv_def put_kbd_def vga_of_def cursor_ok_def)
qed

lemma kernel_inv_io: "kernel_inv L (M\<lparr>mc_io := tr\<rparr>) = kernel_inv L M"
  by (simp add: kernel_inv_def vga_of_def cursor_ok_def)

lemma kbd_of_ok: "kbd_ok (kbd_of M) = kbd_ok (mc_kbd M)"
  by (simp add: kbd_of_def kbd_ok_def)

lemma vga_of_simps [simp]: "vmem (vga_of M) = ram (mc_sched M)"
  by (simp add: vga_of_def)

section \<open>System calls, one group after the other\<close>

text \<open>The call returns, and the kernel is in a good state afterwards.\<close>

definition call_good ::
  "layout \<Rightarrow> image \<Rightarrow> device \<Rightarrow> u64 \<Rightarrow> u64 \<Rightarrow> u64 \<Rightarrow> u64 \<Rightarrow> u64 \<Rightarrow> u64 \<Rightarrow> machine \<Rightarrow> bool"
where
  "call_good L I dev rax rdi rsi rdx r10 r8 M \<longleftrightarrow>
     (\<exists>r. syscall_handler L I dev rax rdi rsi rdx r10 r8 M = Some r \<and> kernel_inv L (sys_machine r))"

lemma console_result:
  assumes k: "kernel_inv L M" and ok: "sys_ok L dev rax rdi rsi rdx M"
    and nr: "ucast rax \<in> {SYSCALL_PRINT_CHAR_POSITION, SYSCALL_PRINT_STRING_POSITION, SYSCALL_PRINT_CHAR,
      SYSCALL_PRINT_STRING, SYSCALL_BACKSPACE, SYSCALL_CLEAN_SCREEN}"
  obtains w where "syscall_handler L I dev rax rdi rsi rdx r10 r8 M = Some (Ret (put_vga w M) 0)"
    "screen_only (ram (mc_sched M)) (vmem w)" "cursor_ok w"
proof -
  have c: "cursor_ok (vga_of M)" using k by (simp add: kernel_inv_def)
  consider "ucast rax = SYSCALL_PRINT_CHAR_POSITION" | "ucast rax = SYSCALL_PRINT_STRING_POSITION"
    | "ucast rax = SYSCALL_PRINT_CHAR" | "ucast rax = SYSCALL_PRINT_STRING"
    | "ucast rax = SYSCALL_BACKSPACE" | "ucast rax = SYSCALL_CLEAN_SCREEN"
    using nr by blast
  then show thesis
  proof cases
    case 1
    let ?w = "print_char_position (ucast rdi) (ucast rsi) (ucast rdx) (ucast r10) (ucast r8) (vga_of M)"
    have "cursor_ok ?w" using c by (simp add: print_char_position_def cursor_ok_def)
    then show thesis
      using 1 print_char_position_ok(1) [of "vga_of M"] by (intro that [of ?w]) (simp_all add: syscall_handler_def)
  next
    case 2
    then have "(ucast rsi :: u32) < 80" "(ucast rdx :: u32) < 25" using ok by (auto simp: sys_ok_def sys_pre_def Let_def)
    then obtain w where w: "print_string_position rdi (ucast rsi) (ucast rdx) (ucast r10) (ucast r8) (vga_of M) = Some w"
        "screen_only (ram (mc_sched M)) (vmem w)" "vx w = vx (vga_of M)" "vy w = vy (vga_of M)"
      using print_string_position_ok [of "ucast rsi" "ucast rdx" rdi "ucast r10" "ucast r8" "vga_of M"] by auto
    then show thesis using 2 c by (intro that [of w]) (simp_all add: syscall_handler_def cursor_ok_def)
  next
    case 3
    then show thesis
      using print_char_ok(2,3) [OF c, of "ucast rdi" "ucast rsi" "ucast rdx"] by (intro that) (simp_all add: syscall_handler_def)
  next
    case 4
    then obtain cs where "cstr (ram (mc_sched M)) rdi cs" "disjoint rdi (Suc (length cs)) VGA_BUF 4000"
        "unat rdi + Suc (length cs) \<le> 2 ^ 64"
      using ok by (auto simp: sys_ok_def sys_pre_def Let_def)
    then obtain w where w: "print_string_loop rdi (ucast rsi) (ucast rdx) (vga_of M) = Some w" "cursor_ok w"
        "screen_only (ram (mc_sched M)) (vmem w)"
      using print_string_loop_ok [OF c, of rdi cs "ucast rsi" "ucast rdx"] by auto
    let ?w = "w\<lparr>vio := update_hardware_cursor (vx w) (vy w) (vio w)\<rparr>"
    have "print_string rdi (ucast rsi) (ucast rdx) (vga_of M) = Some ?w" using w(1) by (simp add: print_string_def)
    then show thesis using 4 w(2,3) by (intro that [of ?w]) (simp_all add: syscall_handler_def cursor_ok_def)
  next
    case 5
    then show thesis using backspace_ok(1,2) [OF c] by (intro that) (simp_all add: syscall_handler_def)
  next
    case 6
    then show thesis using clean_screen_ok(1,2) [of "vga_of M"] by (intro that) (simp_all add: syscall_handler_def)
  qed
qed

lemma console_call:
  assumes k: "kernel_inv L M" and v: "video_apart L" and ok: "sys_ok L dev rax rdi rsi rdx M"
    and nr: "ucast rax \<in> {SYSCALL_PRINT_CHAR_POSITION, SYSCALL_PRINT_STRING_POSITION, SYSCALL_PRINT_CHAR,
      SYSCALL_PRINT_STRING, SYSCALL_BACKSPACE, SYSCALL_CLEAN_SCREEN}"
  shows "call_good L I dev rax rdi rsi rdx r10 r8 M"
proof -
  obtain w where "syscall_handler L I dev rax rdi rsi rdx r10 r8 M = Some (Ret (put_vga w M) 0)"
      "screen_only (ram (mc_sched M)) (vmem w)" "cursor_ok w" by (rule console_result [OF k ok nr])
  then show ?thesis using kernel_inv_vga [OF k v] by (simp add: call_good_def)
qed

lemma memory_call:
  assumes k: "kernel_inv L M" and ok: "sys_ok L dev rax rdi rsi rdx M"
    and nr: "ucast rax \<in> {SYSCALL_MALLOC, SYSCALL_FREE, SYSCALL_REALLOC, SYSCALL_KMALLOC_STATS, SYSCALL_GET_TIME}"
  shows "call_good L I dev rax rdi rsi rdx r10 r8 M"
proof -
  let ?s = "mc_sched M"
  have good: "call_good L I dev rax rdi rsi rdx r10 r8 M"
    if "syscall_handler L I dev rax rdi rsi rdx r10 r8 M = Some (Ret M' q)" "kernel_inv L M'" for M' q
    using that by (simp add: call_good_def)
  consider "ucast rax = SYSCALL_MALLOC" | "ucast rax = SYSCALL_FREE" | "ucast rax = SYSCALL_REALLOC"
    | "ucast rax = SYSCALL_KMALLOC_STATS" | "ucast rax = SYSCALL_GET_TIME"
    using nr by blast
  then show ?thesis
  proof cases
    case 1
    then obtain xs zs bs ubs where l: "life_inv L ?s xs zs bs ubs" "rdi = 0 \<or> room rdi ?s"
      using ok by (auto simp: sys_ok_def sys_pre_def Let_def)
    obtain s' p bs' where "k_malloc L rdi ?s = Some (s', p)" "life_inv L s' xs zs bs' ubs" using life_malloc [OF l] by blast
    then show ?thesis using 1 kernel_inv_sched [OF k] by (intro good [of "M\<lparr>mc_sched := s'\<rparr>" p]) (simp_all add: syscall_handler_def)
  next
    case 2
    then obtain xs zs bs ubs where l: "life_inv L ?s xs zs bs ubs" "rdi = NULL \<or> rdi \<in> fst ` live bs - task_blocks L ?s xs zs"
      using ok by (simp add: sys_ok_def sys_pre_def Let_def) blast
    obtain bs' where "life_inv L (k_free rdi ?s) xs zs bs' ubs" using life_free [OF l] by blast
    then show ?thesis using 2 kernel_inv_sched [OF k] by (intro good [of "M\<lparr>mc_sched := k_free rdi ?s\<rparr>" 0]) (simp_all add: syscall_handler_def)
  next
    case 3
    then obtain xs zs bs ubs where l: "life_inv L ?s xs zs bs ubs"
        "rdi = NULL \<or> rdi \<in> fst ` live bs - task_blocks L ?s xs zs" "rsi = 0 \<or> room rsi ?s"
      using ok by (simp add: sys_ok_def sys_pre_def Let_def) blast
    obtain s' q bs' where "k_realloc L rdi rsi ?s = Some (s', q)" "life_inv L s' xs zs bs' ubs" using life_realloc [OF l] by blast
    then show ?thesis using 3 kernel_inv_sched [OF k] by (intro good [of "M\<lparr>mc_sched := s'\<rparr>" q]) (simp_all add: syscall_handler_def)
  next
    case 4
    then obtain xs zs bs ubs where l: "life_inv L ?s xs zs bs ubs" "rdi = NULL \<or> caller_buf L xs zs bs ubs rdi 56"
      using ok by (auto simp: sys_ok_def sys_pre_def Let_def)
    have "krep (l_heap_start L) (l_heap_end L) (kern_heap ?s, ram ?s) bs" using life_heaps_ok [OF l(1)] by (simp add: heaps_ok_def)
    then obtain st where st: "get_kmalloc_stats (kern_heap ?s, ram ?s) = Some st" using stats_walk by blast
    show ?thesis
    proof (cases "rdi = NULL")
      case True
      then show ?thesis using 4 k by (intro good [of M 0]) (simp_all add: syscall_handler_def)
    next
      case False
      then have b: "caller_buf L xs zs bs ubs rdi 56" using l(2) by blast
      have "unat rdi + 56 \<le> 2 ^ 64" using caller_buf_top [OF life_heaps_ok [OF l(1)] b] by simp
      then have "st_qwords (ram ?s) rdi (stats_words st) x = ram ?s x" if "\<not> in_range x rdi 56" for x
        using that by (intro st_qwords_outside) (simp_all add: stats_words_def)
      then have "kernel_inv L (put_ram (st_qwords (ram ?s) rdi (stats_words st)) M)" by (rule kernel_inv_buffer [OF k l(1) b])
      then show ?thesis using 4 False st by (intro good) (simp_all add: syscall_handler_def)
    qed
  next
    case 5
    then obtain xs zs bs ubs where l: "life_inv L ?s xs zs bs ubs" "caller_buf L xs zs bs ubs rsi 11"
      using ok by (auto simp: sys_ok_def sys_pre_def Let_def)
    let ?m = "fst (uint_to_str (ram ?s) (ucast rdi) rsi)"
    have top: "unat rsi + 11 \<le> 2 ^ 64" using caller_buf_top [OF life_heaps_ok [OF l(1)] l(2)] by simp
    have "?m x = ram ?s x" if "\<not> in_range x rsi 11" for x
      unfolding uint_to_str_text u32_to_dec_text fst_conv using that top dec_text_length [of "ucast rdi"]
      by (intro st_bytes_outside) (auto simp: in_range_def)
    then have "kernel_inv L (put_ram ?m M)" by (rule kernel_inv_buffer [OF k l])
    then show ?thesis
      using 5 by (intro good [of "put_ram ?m M" "snd (uint_to_str (ram ?s) (ucast rdi) rsi)"]) (simp_all add: syscall_handler_def case_prod_beta Let_def)
  qed
qed

lemma life_task_exit:
  assumes l: "life_inv L s xs zs bs ubs" and c: "caller_alive s"
  shows "\<exists>s' xs' zs' bs' ubs'. task_exit L code s = Some s' \<and> life_inv L s' xs' zs' bs' ubs'"
proof (cases "current s = NULL \<or> current s = l_init_task L")
  case True
  have "life_inv L (cli s) xs zs bs ubs" "caller_alive (cli s)" using l c by (simp_all add: caller_alive_def)
  then obtain s' bs' ubs' where "reap_zombies_internal L (cli s) = Some s'" "life_inv L s' (survivors zs xs) [] bs' ubs'"
      "current s' = current (cli s)"
    using life_reap by blast
  moreover from this have "task_exit L code s = Some s'" using True by (simp add: task_exit_def)
  ultimately show ?thesis by blast
next
  case False
  then show ?thesis using life_exit [OF l c, of code] by blast
qed

lemma task_call:
  assumes k: "kernel_inv L M" and ok: "sys_ok L dev rax rdi rsi rdx M"
    and nr: "ucast rax \<in> {SYSCALL_TASK_CREATE, SYSCALL_TASK_LIST, SYSCALL_TASK_STOP, SYSCALL_REAP_ZOMBIES,
      SYSCALL_TASK_EXIT, SYSCALL_TASK_IS_ALIVE}"
  shows "call_good L I dev rax rdi rsi rdx r10 r8 M"
proof -
  let ?s = "mc_sched M"
  have good: "call_good L I dev rax rdi rsi rdx r10 r8 M"
    if "syscall_handler L I dev rax rdi rsi rdx r10 r8 M = Some r" "sys_machine r = M\<lparr>mc_sched := s'\<rparr>" "life_inv L s' xs zs bs ubs"
    for r s' xs zs bs ubs
    using that kernel_inv_sched [OF k] by (simp add: call_good_def)
  have alive: "\<exists>xs zs bs ubs. life_inv L ?s xs zs bs ubs \<and> caller_alive ?s"
    if "ucast rax = SYSCALL_TASK_STOP \<or> ucast rax = SYSCALL_REAP_ZOMBIES \<or> ucast rax = SYSCALL_TASK_EXIT \<or>
      ucast rax = SYSCALL_TASK_IS_ALIVE"
    using that ok by (elim disjE) (auto simp: sys_ok_def sys_pre_def Let_def)
  consider "ucast rax = SYSCALL_TASK_CREATE" | "ucast rax = SYSCALL_TASK_LIST" | "ucast rax = SYSCALL_TASK_STOP"
    | "ucast rax = SYSCALL_REAP_ZOMBIES" | "ucast rax = SYSCALL_TASK_EXIT" | "ucast rax = SYSCALL_TASK_IS_ALIVE"
    using nr by blast
  then show ?thesis
  proof cases
    case 1
    obtain xs zs bs ubs where l: "life_inv L ?s xs zs bs ubs" "room_for_task L 16384 ?s" "unat (next_pid ?s) + 1 < 2 ^ 31"
      using ok 1 by (auto simp: sys_ok_def sys_pre_def Let_def)
    have "fs_wf (mc_fs M)" "small_files (mc_fs M)" using k by (simp_all add: kernel_inv_def)
    then obtain s' v xs' bs' ubs' where "load_and_run_program L I (mc_fs M) rdi ?s = Some (s', v)" "life_inv L s' xs' zs bs' ubs'"
      using life_program [OF l(1) _ _ l(2,3)] by blast
    then show ?thesis using 1 by (intro good [of "Ret (M\<lparr>mc_sched := s'\<rparr>) v" s']) (simp_all add: syscall_handler_def)
  next
    case 2
    obtain xs zs bs ubs where l: "life_inv L ?s xs zs bs ubs"
      and b0: "caller_buf L xs zs bs ubs rdi (8 * min (length xs) (nat (sint (ucast rsi :: i32))))"
      using ok 2 by (auto simp: sys_ok_def sys_pre_def Let_def)
    define n where "n = nat (sint (ucast rsi :: i32))"
    define ts where "ts = take n (map (\<lambda>x. (t_pid (tasks ?s x), t_state (tasks ?s x))) xs)"
    define m where "m = st_task_infos (ram ?s) rdi ts"
    have "ring (tasks ?s) (task_ring ?s) xs" using l by (simp add: life_inv_def sched_inv_def sched_ok_def)
    then have tl: "task_list rsi ?s = Some (sti (cli ?s), ts)" unfolding ts_def n_def by (rule task_list_ok)
    have "length ts = min (length xs) n" by (simp add: ts_def min.commute)
    then have b: "caller_buf L xs zs bs ubs rdi (8 * length ts)" using b0 by (simp only: n_def)
    have "m x = ram ?s x" if x: "\<not> in_range x rdi (8 * length ts)" for x
    proof (cases "ts = []")
      case False
      then have "unat rdi + 8 * length ts \<le> 2 ^ 64" by (intro caller_buf_top [OF life_heaps_ok [OF l] b]) simp
      then show ?thesis unfolding m_def using x by (rule st_task_infos_outside)
    qed (simp add: m_def)
    then have "life_inv L (?s\<lparr>ram := m\<rparr>) xs zs bs ubs" by (rule life_buffer [OF l b])
    then have l': "life_inv L (sti (?s\<lparr>ram := m\<rparr>)) xs zs bs ubs" by simp
    have "(sti (cli ?s))\<lparr>ram := m\<rparr> = sti (?s\<lparr>ram := m\<rparr>)" by (simp add: sti_def cli_def)
    then have "syscall_handler L I dev rax rdi rsi rdx r10 r8 M =
        Some (Ret (M\<lparr>mc_sched := sti (?s\<lparr>ram := m\<rparr>)\<rparr>) (word_of_nat (length ts)))"
      using 2 tl by (simp add: syscall_handler_def m_def)
    then show ?thesis by (rule good [OF _ _ l']) simp
  next
    case 3
    then obtain xs zs bs ubs where l: "life_inv L ?s xs zs bs ubs" and c: "caller_alive ?s" using alive by blast
    obtain r xs' zs' bs' ubs' where r: "task_stop L (ucast rdi) ?s = Some r" "life_inv L (stop_state r) xs' zs' bs' ubs'"
      using life_stop [OF l c, of "ucast rdi"] l by (cases "(ucast rdi :: i32) = 0") (auto simp: task_stop_def [of L 0])
    show ?thesis using 3 r by (cases r) (auto intro!: good simp: syscall_handler_def)
  next
    case 4
    then obtain xs zs bs ubs where l: "life_inv L ?s xs zs bs ubs" and c: "caller_alive ?s" using alive by blast
    obtain s' bs' ubs' where "reap_zombies L ?s = Some s'" "life_inv L s' (survivors zs xs) [] bs' ubs'"
      using life_reap [OF l c] by (auto simp: reap_zombies_def)
    then show ?thesis using 4 by (intro good [of "Ret (M\<lparr>mc_sched := s'\<rparr>) 0" s']) (simp_all add: syscall_handler_def)
  next
    case 5
    then obtain xs zs bs ubs where l: "life_inv L ?s xs zs bs ubs" and c: "caller_alive ?s" using alive by blast
    obtain s' xs' zs' bs' ubs' where "task_exit L (ucast rdi) ?s = Some s'" "life_inv L s' xs' zs' bs' ubs'"
      using life_task_exit [OF l c] by blast
    then show ?thesis using 5 by (intro good [of "Ret (M\<lparr>mc_sched := s'\<rparr>) 0" s']) (simp_all add: syscall_handler_def)
  next
    case 6
    then obtain xs zs bs ubs where l: "life_inv L ?s xs zs bs ubs" and c: "caller_alive ?s" using alive by blast
    obtain s' b xs' zs' bs' ubs' where "task_is_alive L (ucast rdi) ?s = Some (s', b)" "life_inv L s' xs' zs' bs' ubs'"
    proof (cases "0 < sint (ucast rdi :: i32)")
      case True
      then show thesis using that life_alive [OF l c] by blast
    next
      case False
      then have "task_is_alive L (ucast rdi) ?s = Some (cli ?s, (ucast rdi :: i32) = 0)" by (simp add: task_is_alive_def)
      then show thesis using that l life_flag(1) by blast
    qed
    then show ?thesis using 6 by (intro good [of "Ret (M\<lparr>mc_sched := s'\<rparr>) (if b then 1 else 0)" s']) (simp_all add: syscall_handler_def)
  qed
qed

lemma device_call:
  assumes k: "kernel_inv L M" and ok: "sys_ok L dev rax rdi rsi rdx M"
    and nr: "ucast rax \<in> {SYSCALL_GETCHAR, SYSCALL_SETPOSCURSOR, SYSCALL_REBOOT}"
  shows "call_good L I dev rax rdi rsi rdx r10 r8 M"
proof -
  consider "ucast rax = SYSCALL_GETCHAR" | "ucast rax = SYSCALL_SETPOSCURSOR" | "ucast rax = SYSCALL_REBOOT" using nr by blast
  then show ?thesis
  proof cases
    case 1
    have "kbd_ok (kbd_of M)" using k by (simp add: kernel_inv_def kbd_of_ok)
    then have "kernel_inv L (put_kbd (fst (kbd_getchar (kbd_of M))) M)" by (intro kernel_inv_kbd [OF k] kbd_getchar_ok(1))
    then show ?thesis using 1 by (simp add: call_good_def syscall_handler_def case_prod_beta)
  next
    case 2
    then show ?thesis using k by (simp add: call_good_def syscall_handler_def kernel_inv_io)
  next
    case 3
    then have "reboot_system dev (mc_io M) \<noteq> None" using ok by (auto simp: sys_ok_def sys_pre_def Let_def)
    then show ?thesis using 3 k by (auto simp: call_good_def syscall_handler_def kernel_inv_io)
  qed
qed

text \<open>The numbers of the calls.\<close>

definition syscall_numbers :: "u32 set" where
  "syscall_numbers = {SYSCALL_PRINT_CHAR_POSITION, SYSCALL_PRINT_STRING_POSITION, SYSCALL_PRINT_CHAR, SYSCALL_PRINT_STRING,
     SYSCALL_BACKSPACE, SYSCALL_GET_TIME, SYSCALL_CLEAN_SCREEN, SYSCALL_MALLOC, SYSCALL_REALLOC, SYSCALL_FREE,
     SYSCALL_KMALLOC_STATS, SYSCALL_GETCHAR, SYSCALL_SETPOSCURSOR, SYSCALL_POWER_OFF, SYSCALL_REBOOT, SYSCALL_TASK_CREATE,
     SYSCALL_TASK_LIST, SYSCALL_TASK_STOP, SYSCALL_REAP_ZOMBIES, SYSCALL_TASK_EXIT, SYSCALL_TASK_IS_ALIVE}"

lemma unknown_call: "ucast rax \<notin> syscall_numbers \<Longrightarrow> syscall_handler L I dev rax rdi rsi rdx r10 r8 M = Some (Ret M (-1))"
  by (simp add: syscall_numbers_def syscall_handler_def)

lemma any_call:
  assumes k: "kernel_inv L M" and v: "video_apart L" and ok: "sys_ok L dev rax rdi rsi rdx M"
    and nr: "ucast rax \<noteq> SYSCALL_POWER_OFF"
  shows "call_good L I dev rax rdi rsi rdx r10 r8 M"
proof (cases "ucast rax \<in> syscall_numbers")
  case True
  then show ?thesis
    using console_call [OF k v ok] memory_call [OF k ok] task_call [OF k ok] device_call [OF k ok] nr
    unfolding syscall_numbers_def by blast
next
  case False
  then show ?thesis using k by (simp add: call_good_def unknown_call)
qed

section \<open>Interrupts\<close>

lemma timer_good:
  assumes k: "kernel_inv L M"
  shows "\<exists>M' frame. timer_interrupt L regs M = Some (M', frame) \<and> kernel_inv L M'"
proof -
  obtain xs zs bs ubs where l: "life_inv L (mc_sched M) xs zs bs ubs" using k by (auto simp: kernel_inv_def)
  then have "sched_ok L (mc_sched M) xs" by (simp add: life_inv_def sched_inv_def)
  then obtain s' fr where s: "schedule_from_isr L regs (mc_sched M) = Some (s', fr)" using schedule_ok by blast
  have t: "clock_ok (system_clock (mc_timer M))" "unat (tick_time (mc_timer M)) < 1000" using k by (simp_all add: kernel_inv_def)
  have "unat (tick_time (count_tick (mc_timer M))) < 1000" using count_tick_step(2) [OF t] by simp
  moreover have "kernel_inv L (M\<lparr>mc_sched := s'\<rparr>)" by (rule kernel_inv_sched [OF k life_tick [OF l s]])
  ultimately have "kernel_inv L (M\<lparr>mc_timer := count_tick (mc_timer M), mc_io := pic_send_eoi 0 (mc_io M), mc_sched := s'\<rparr>)"
    using count_tick_step(1) [OF t] by (simp add: kernel_inv_def vga_of_def cursor_ok_def)
  then show ?thesis using s by (simp add: timer_interrupt_def timer_calls_def timer_tick_def Let_def)
qed

lemma handle_code_ok: "kbd_ok s \<Longrightarrow> kbd_ok (handle_code c s)"
proof -
  have "kbd_ok (fold kbd_buffer_push cs s)" if "kbd_ok s" for cs s
    using that by (induction cs arbitrary: s) (simp_all add: kbd_push_ok(1))
  then show "kbd_ok s \<Longrightarrow> kbd_ok (handle_code c s)"
    by (simp add: handle_code_step kbd_ok_def set_mods_def split: prod.split)
qed

lemma keyboard_good: "kernel_inv L M \<Longrightarrow> kernel_inv L (keyboard_interrupt dev M)"
proof -
  assume k: "kernel_inv L M"
  have "kbd_ok (kbd_of M)" using k by (simp add: kernel_inv_def kbd_of_ok)
  then have "kernel_inv L (put_kbd (handle_code c (kbd_of M)) M)" for c by (intro kernel_inv_kbd [OF k] handle_code_ok)
  then show ?thesis
    by (simp add: keyboard_interrupt_def keyboard_handler_def kernel_inv_io Let_def case_prod_beta)
qed

end
