(* ===== verification/Kernel_Boot.thy ===== *)
theory Kernel_Boot
  imports Kernel_Invariant
begin

text \<open>
  Boot: \<open>kmain\<close> sets up every component in turn and establishes the invariant of the kernel,
  with the two kernel tasks and the terminal in the ring.  Together with the lemmas on
  interrupts and system calls this gives the invariant of all states that the kernel reaches.
\<close>

section \<open>A heap with one free block at its end\<close>

text \<open>All blocks are in use but the last, which has at least \<open>n\<close> bytes.\<close>

definition top_free :: "blk list \<Rightarrow> nat \<Rightarrow> bool" where
  "top_free bs n \<longleftrightarrow> (\<exists>us a z. bs = us @ [(a, z, True)] \<and> (\<forall>(b, y, f) \<in> set us. \<not> f) \<and> n \<le> unat z)"

lemma top_free_mono: "top_free bs n \<Longrightarrow> k \<le> n \<Longrightarrow> top_free bs k"
  unfolding top_free_def using le_trans by blast

lemma top_malloc:
  assumes t: "top_free bs (n + unat (align_up k) + 48)" and k: "k \<noteq> 0" "unat k + 7 < 2 ^ 64"
  shows "k_admissible bs k" "top_free (fst (a_malloc k bs)) n"
proof -
  let ?k = "align_up k"
  obtain us a z where u: "bs = us @ [(a, z, True)]" "\<forall>(b, y, f) \<in> set us. \<not> f" "n + unat ?k + 48 \<le> unat z"
    using t by (auto simp: top_free_def)
  have no: "\<forall>b \<in> set us. \<not> fits ?k b" using u(2) by auto
  have fit: "fits ?k (a, z, True)" using u(3) by (simp add: word_le_nat_alt)
  have "find (fits ?k) bs = Some (a, z, True)"
    using find_append_None [of "fits ?k" us "[(a, z, True)]"] no fit
    unfolding u(1) find_None_iff by (metis find.simps(2))
  then show "k_admissible bs k" using k by (simp add: k_admissible_def)
  have "fst (a_malloc k bs) = us @ cut ?k a z False"
    using a_alloc_split [OF no fit, of "[]"] k(1) by (simp add: a_malloc_def u(1))
  moreover have "cut ?k a z False = [(a, ?k, False), (a + 40 + ?k, z - ?k - 40, True)]" using u(3) by (simp add: cut_def)
  moreover have "unat (z - ?k - 40) = unat z - unat ?k - 40"
    using u(3) by (simp add: unat_sub_le word_le_nat_alt)
  ultimately show "top_free (fst (a_malloc k bs)) n"
    unfolding top_free_def using u(2,3)
    by (intro exI [of _ "us @ [(a, ?k, False)]"] exI [of _ "a + 40 + ?k"] exI [of _ "z - ?k - 40"]) auto
qed

text \<open>A task with a stack of the default size takes 8192 bytes, its record 72, and there are two headers.\<close>

lemma top_task:
  assumes "top_free bs (n + 8360)"
  shows "k_admissible bs SIZEOF_TASK" "k_admissible (fst (a_malloc SIZEOF_TASK bs)) (stack_of 0)"
    "top_free (fst (a_malloc (stack_of 0) (fst (a_malloc SIZEOF_TASK bs)))) n"
proof -
  have al: "align_up SIZEOF_TASK = 72" "align_up (stack_of 0) = 8192" "stack_of 0 = 8192"
    by (simp_all add: align_up_def stack_of_def KSTACK_SIZE_def)
  have "unat (align_up (stack_of 0)) = 8192" "unat (align_up SIZEOF_TASK) = 72" using al(1,2) by simp_all
  then have t: "top_free bs (n + unat (align_up (stack_of 0)) + 48 + unat (align_up SIZEOF_TASK) + 48)"
    using assms by (intro top_free_mono [OF assms]) linarith
  note r = top_malloc [OF t]
  show "k_admissible bs SIZEOF_TASK" using r(1) by simp
  have "top_free (fst (a_malloc SIZEOF_TASK bs)) (n + unat (align_up (stack_of 0)) + 48)" using r(2) by simp
  note s = top_malloc [OF this]
  show "k_admissible (fst (a_malloc SIZEOF_TASK bs)) (stack_of 0)"
    "top_free (fst (a_malloc (stack_of 0) (fst (a_malloc SIZEOF_TASK bs)))) n"
    using s by (simp_all add: al)
qed

lemma top_room:
  assumes "life_inv L s xs zs bs ubs" "top_free bs (n + 8360)"
  shows "room_for_task L 0 s"
  using top_task(1,2) [OF assms(2)] life_heaps_ok [OF assms(1)]
  by (intro admissible_room) (simp_all add: stack_of_def KSTACK_SIZE_def)

lemma ring_new:
  assumes "life_inv L s (xs @ [t]) zs bs ubs" "x \<in> set xs"
  shows "x \<noteq> t"
  using assms by (auto simp: life_inv_def sched_inv_def sched_ok_def ring_def)

lemma boot_task:
  assumes l: "life_inv L s xs zs bs ubs" and t: "top_free bs (n + 8360)" and np: "unat (next_pid s) + 1 < 2 ^ 31"
  shows "\<exists>s' t bs'. task_create L entry 0 s = Some s' \<and> life_inv L s' (xs @ [t]) zs bs' ubs \<and> top_free bs' n \<and>
    t_pid (tasks s' t) = next_pid s \<and> next_pid s' = next_pid s + 1 \<and> ready_at s' bs' t entry \<and> current s' = current s \<and>
    (\<forall>x \<in> set xs. t_user_mem (tasks s' x) = t_user_mem (tasks s x) \<and> (\<forall>e. ready_at s bs x e \<longrightarrow> ready_at s' bs' x e))"
proof -
  obtain s' t bs' where n: "new_task L entry 0 NULL 0 s = Some (s', t)" "life_inv L s' (xs @ [t]) zs bs' ubs"
      "created s s' t entry (stack_of 0) NULL 0 bs bs'"
    using life_new [OF l top_room [OF l t] np, of NULL entry 0] by blast
  have c: "bs' = fst (a_malloc (stack_of 0) (fst (a_malloc SIZEOF_TASK bs)))" "t_pid (tasks s' t) = next_pid s"
      "next_pid s' = next_pid s + 1" "current s' = current s"
    using n(3) unfolding created_def Let_def by simp_all
  have "top_free bs' n" using top_task(3) [OF t] c(1) by simp
  moreover have "ready_at s' bs' x e" if "x \<in> set xs" "ready_at s bs x e" for x e
    by (rule created_keeps_ready [OF n(3) life_heaps_ok [OF l] that(2) ring_new [OF n(2) that(1)]])
  moreover have "t_user_mem (tasks s' x) = t_user_mem (tasks s x)" if x: "x \<in> set xs" for x
  proof -
    obtain nx where "tasks s' x = (tasks s x)\<lparr>t_next := nx\<rparr>"
      using created_others(1) [OF n(3) ring_new [OF n(2) x]] by blast
    then show ?thesis by simp
  qed
  ultimately show ?thesis using n c created_ready [OF n(3)] by (auto simp: task_create_def)
qed

text \<open>The terminal is started when it is found and there is memory for it.\<close>

lemma boot_terminal:
  assumes l: "life_inv L s xs zs bs ubs" and t: "top_free bs (n + 8360)" and np: "unat (next_pid s) + 1 < 2 ^ 31"
    and fs: "fs_wf f" "small_files f"
  shows "\<exists>s' ts bs' ubs'. load_and_run_terminal L I f s = Some s' \<and> length ts \<le> 1 \<and> life_inv L s' (xs @ ts) zs bs' ubs' \<and>
    top_free bs' n \<and> unat (next_pid s') \<le> unat (next_pid s) + 1 \<and> current s' = current s \<and>
    (\<forall>x \<in> set ts. t_user_mem (tasks s' x) \<noteq> NULL \<and> ready_at s' bs' x (t_user_mem (tasks s' x))) \<and>
    (\<forall>x \<in> set xs. \<forall>e. ready_at s bs x e \<longrightarrow> ready_at s' bs' x e)"
proof -
  let ?b = "fs_find_in_dir (ram s) (str_bin I) NULL (int FS_ROOT_IDX) f"
  let ?i = "fs_find_in_dir (ram s) (str_terminal I) (str_bin I) ?b f"
  let ?z = "e_size (entries f ! nat ?i)" and ?k = "ucast (e_size (entries f ! nat ?i) + 1024) :: u64"
  note h = life_heaps_ok [OF l]
  obtain s1 um where um: "u_malloc L ?k s = Some (s1, um)" by (rule u_malloc_returns [OF h])
  have top: "top_free bs n" by (rule top_free_mono [OF t]) simp
  have fields: "tasks s1 = tasks s" "next_pid s1 = next_pid s" "current s1 = current s" using um by (auto simp: u_malloc_def)
  show ?thesis
  proof (cases "?b < 0 \<or> ?i < 0")
    case True
    then have "load_and_run_terminal L I f s = Some s" by (auto simp: load_and_run_terminal_def Let_def)
    then show ?thesis using l top by (intro exI [of _ s] exI [of _ "[]"] exI [of _ bs] exI [of _ ubs]) simp
  next
    case False
    then have ok: "\<not> ?b < 0" "\<not> ?i < 0" by blast+
    note sm = found_small [OF fs ok(2)]
    note w = small_file_words [OF sm]
    have k7: "unat ?k + 7 < 2 ^ 64" using w(1) sm by simp
    show ?thesis
    proof (cases "um = NULL")
      case True
      then have r: "load_and_run_terminal L I f s = Some s1" using ok um by (simp add: load_and_run_terminal_def Let_def)
      obtain ubs' where u: "life_inv L s1 xs zs bs ubs'" using life_u_malloc [OF l k7 um] by blast
      have "ready_at s1 bs x e" if "ready_at s bs x e" for x e
        by (rule ready_region [OF that h fields(1) u_malloc_keeps(1) [OF h k7 um]])
      then show ?thesis using r u top fields
        by (intro exI [of _ s1] exI [of _ "[]"] exI [of _ bs] exI [of _ ubs']) simp
    next
      case False
      define m where "m = fst (fs_read_file_in_dir (ramdisk I) (str_terminal I) (str_bin I) ?b um (ucast ?z) (f, ram s1))"
      have tp: "unat um + unat ?k \<le> 2 ^ 64"
        using user_image_keeps(4) [OF h k7 um False, of "ram s1"] unat_less_2p [of "l_user_end L"] by simp
      have m: "m x = ram s1 x" if "\<not> in_range x um (unat ?k)" for x
        unfolding m_def using that w tp by (intro fs_read_file_outside) (auto simp: in_range_def)
      let ?s = "s1\<lparr>ram := m\<rparr>"
      from start_image [OF l top_room [OF l t] np k7 um False m, of "ucast ?z"]
      obtain s' t bs' ubs' where c: "utask_create L um 0 um (ucast ?z) ?s = Some (s', scast (next_pid s))"
          "life_inv L s' (xs @ [t]) zs bs' ubs'" "created ?s s' t um (stack_of 0) um (ucast ?z) bs bs'" "next_pid ?s = next_pid s"
        by blast
      have d: "bs' = fst (a_malloc (stack_of 0) (fst (a_malloc SIZEOF_TASK bs)))" "next_pid s' = next_pid s + 1"
          "t_user_mem (tasks s' t) = um" "current s' = current s"
        using c(3,4) fields(3) unfolding created_def Let_def by simp_all
      have "unat (next_pid s') = unat (next_pid s) + 1" unfolding d(2) using np unat_add_small [of "next_pid s" 1] by simp
      moreover have "load_and_run_terminal L I f s = Some s'"
        using ok um False c(1) by (simp add: load_and_run_terminal_def Let_def m_def)
      moreover have "top_free bs' n" using top_task(3) [OF t] d(1) by simp
      moreover have "ready_at s' bs' x e" if x: "x \<in> set xs" "ready_at s bs x e" for x e
      proof -
        have "ready_at ?s bs x e"
          using user_image_keeps(1) [OF h k7 um False m] fields(1) by (intro ready_region [OF x(2) h]) simp_all
        moreover obtain ubs2 where "life_inv L ?s xs zs bs ubs2" using user_space_ready [OF l k7 um False m] by blast
        ultimately show ?thesis using created_keeps_ready [OF c(3) life_heaps_ok] ring_new [OF c(2) x(1)] by blast
      qed
      ultimately show ?thesis
        using c(2) created_ready [OF c(3)] d(3,4) False by (intro exI [of _ s'] exI [of _ "[t]"] exI [of _ bs'] exI [of _ ubs']) simp
    qed
  qed
qed

section \<open>Installing the programs\<close>

lemma small_files_update:
  assumes "small_files f" "unat (e_size e) + 1024 < 2 ^ 32" "entries f' = (entries f)[i := e]"
  shows "small_files f'"
  using assms set_update_subset_insert [of "entries f" i e] by (auto simp: small_files_def)

lemma create_small: "small_files f \<Longrightarrow> small_files (fst (fs_create_file m name ext parent f))"
  by (auto simp: fs_create_file_def Let_def zero_entry_def small_files_def split: prod.splits
      dest!: set_update_subset_insert [THEN subsetD])

lemma mkdir_small: "small_files f \<Longrightarrow> small_files (fst (fs_mkdir m name parent f))"
  by (auto simp: fs_mkdir_def Let_def zero_entry_def small_files_def dest!: set_update_subset_insert [THEN subsetD])

lemma target_small:
  assumes "fs_wf f" "small_files f"
  shows "small_files (fst (write_target m name ext parent f))"
proof (cases "fs_find_in_dir m name ext parent f < 0")
  case True
  then show ?thesis using create_small [OF assms(2), of m name ext parent] by (auto simp: write_target_def Let_def split: prod.splits)
next
  case False
  then show ?thesis
    using found_small [OF assms False] assms(2)
    by (auto simp: write_target_def set_entry_def Let_def small_files_def split: prod.splits
        dest!: set_update_subset_insert [THEN subsetD])
qed

lemma write_small:
  assumes wf: "fs_wf f" and sm: "small_files f" and rd: "disk_ok rd" and buf: "buf_ok rd data (unat n)" "unat n + 1024 < 2 ^ 32"
    and res: "fs_write_file_in_dir rd name ext parent data n (f, m) = ((f', m'), r)"
  shows "small_files f'"
proof -
  obtain f1 i e where tg: "write_target m name ext parent f = (f1, i, e)" using prod_cases3 by blast
  note w = write_target_wf [OF wf tg]
  have s1: "small_files f1" using target_small [OF wf sm, of m name ext parent] tg by simp
  have n: "unat n < 2 ^ 32" using buf(2) by simp
  consider "f' = f" | "f' = f1" | "\<not> e < 0" "write_contents rd (nat i) data n (f1, m) = ((f', m'), r)"
    using res tg by (auto simp: fs_write_file_in_dir_def split: if_splits)
  then show ?thesis
  proof cases
    case 3
    then have "e = 0" using tg by (auto simp: write_target_def Let_def split: if_splits prod.splits)
    then have "one_cluster f1 (nat i)" using w(2) by blast
    then obtain z :: u64 where z: "unat z \<le> unat n"
        "entries f' = (entries f1)[nat i := (entries f1 ! nat i)\<lparr>e_size := ucast z\<rparr>]"
      using write_contents_ok [OF w(1) _ rd buf(1) n 3(2)] by blast
    have "unat (ucast z :: u32) \<le> unat z" by (simp add: unsigned_ucast_eq)
    then show ?thesis using z buf(2) by (intro small_files_update [OF s1 _ z(2)]) simp
  qed (use sm s1 in simp_all)
qed

text \<open>An image that the kernel can install: outside the RAM disk and not huge.\<close>

definition app_ok :: "ptr \<Rightarrow> app \<Rightarrow> bool" where
  "app_ok rd a \<longleftrightarrow> buf_ok rd (app_data a) (unat (app_len a)) \<and> unat (app_len a) + 1024 < 2 ^ 32"

lemma init_small: "small_files (fs_init f)"
  by (auto simp: small_files_def fs_init_def zero_entry_def dest!: set_update_subset_insert [THEN subsetD])

lemma load_app_ok:
  assumes f: "fs_wf f" "small_files f" and rd: "disk_ok (ramdisk I)"
    and buf: "buf_ok (ramdisk I) data (unat dat)" "unat dat + 1024 < 2 ^ 32"
    and res: "load_app_to_fs I folder name ext data dat (f, m) = (f', m')"
  shows "fs_wf f' \<and> small_files f' \<and> (\<forall>x. \<not> in_range x (ramdisk I) RAMDISK_SIZE \<longrightarrow> m' x = m x)"
proof -
  obtain f1 b where d: "app_dir m folder f = (f1, b)" by force
  have f1: "fs_wf f1" "small_files f1"
    using f d fs_mkdir_wf(1) [OF f(1)] mkdir_small [OF f(2), of m folder "int FS_ROOT_IDX"]
    by (auto simp: app_dir_def Let_def split: if_splits)
  have u: "unat (ucast dat :: u64) = unat dat" using small_file_words(2) [OF buf(2)] .
  show ?thesis
  proof (cases "b < 0")
    case True
    then show ?thesis using load_app_dir [OF d, of I name ext data dat] res f1 by simp
  next
    case False
    obtain r where w: "fs_write_file_in_dir (ramdisk I) name ext b data (ucast dat) (f1, m) = ((f', m'), r)"
      using load_app_dir [OF d, of I name ext data dat] res False by (metis prod.collapse fst_conv)
    have b: "buf_ok (ramdisk I) data (unat (ucast dat :: u64))" "unat (ucast dat :: u64) < 2 ^ 32"
      "unat (ucast dat :: u64) + 1024 < 2 ^ 32" using buf u by simp_all
    show ?thesis
      using fs_write_file_wf [OF f1(1) rd b(1,2) w] write_small [OF f1 rd b(1,3) w] fs_write_file_outside [OF f1(1) rd b(1,2) w]
      by blast
  qed
qed

lemma load_apps_ok:
  assumes "fs_wf f" "small_files f" "disk_ok (ramdisk I)"
    "\<forall>a \<in> {im_terminal I, im_htop I, im_clear I, im_shutdown I, im_reboot I}. app_ok (ramdisk I) a"
    "load_apps I (f, m) = (f', m')"
  shows "fs_wf f'" "small_files f'" "\<And>x. \<not> in_range x (ramdisk I) RAMDISK_SIZE \<Longrightarrow> m' x = m x"
proof -
  let ?load = "\<lambda>a. load_app_to_fs I (str_bin I) (app_name a) (str_bin I) (app_data a) (app_len a)"
  have "fs_wf f' \<and> small_files f' \<and> (\<forall>x. \<not> in_range x (ramdisk I) RAMDISK_SIZE \<longrightarrow> m' x = m x)"
    if "fold ?load as (f, m) = (f', m')" "\<forall>a \<in> set as. app_ok (ramdisk I) a" "fs_wf f" "small_files f" for as f m f' m'
    using that
  proof (induction as arbitrary: f m)
    case (Cons a as)
    obtain f1 m1 where a: "?load a (f, m) = (f1, m1)" by force
    have ok: "buf_ok (ramdisk I) (app_data a) (unat (app_len a))" "unat (app_len a) + 1024 < 2 ^ 32"
      using Cons.prems(2) by (simp_all add: app_ok_def)
    note r = load_app_ok [OF Cons.prems(3,4) assms(3) ok a]
    then show ?case using Cons.IH [of f1 m1] Cons.prems(1,2) a by simp
  qed simp
  from this [OF assms(5) [unfolded load_apps_def]] assms(1,2,4)
  show "fs_wf f'" "small_files f'" "\<And>x. \<not> in_range x (ramdisk I) RAMDISK_SIZE \<Longrightarrow> m' x = m x" by simp_all
qed

section \<open>Boot\<close>

text \<open>
  What the linker script and the machine provide: regions that do not overlap, a kernel heap
  with room for three tasks, program images outside the RAM disk, and a clock chip that shows
  a time of day in BCD and 24-hour mode.
\<close>

definition platform_ok :: "layout \<Rightarrow> image \<Rightarrow> bool" where
  "platform_ok L I \<longleftrightarrow>
     layout_ok L \<and> video_apart L \<and> disk_apart L (ramdisk I) \<and> 25120 \<le> unat (l_heap_end L) - unat (l_heap_start L) \<and>
     (\<forall>a \<in> {im_terminal I, im_htop I, im_clear I, im_shutdown I, im_reboot I}. app_ok (ramdisk I) a)"

definition rtc_valid :: "device \<Rightarrow> bool" where
  "rtc_valid dev \<longleftrightarrow>
     (\<exists>R h m s. cmos dev R \<and> R 0x0A AND 0x80 = 0 \<and> R 0x0B AND 0x04 = 0 \<and> R 0x0B AND 0x02 \<noteq> 0 \<and>
        R 0x04 = bcd h \<and> R 0x02 = bcd m \<and> R 0x00 = bcd s \<and> h < 24 \<and> m < 60 \<and> s < 60)"

text \<open>The static variables before \<open>kmain\<close>.\<close>

definition power_on :: "machine \<Rightarrow> bool" where
  "power_on M \<longleftrightarrow> user_head (user_heap (mc_sched M)) = NULL \<and> zombie_list (mc_sched M) = NULL \<and>
     kbd_ok (mc_kbd M) \<and> unat (tick_time (mc_timer M)) < 1000"

lemma rtc_starts:
  assumes "rtc_valid dev"
  obtains t' tr' where "init_system_clock dev (t, tr) = Some (t', tr')" "clock_ok (system_clock t')" "tick_time t' = tick_time t"
proof -
  obtain R h m s where "cmos dev R" "R 0x0A AND 0x80 = 0" "R 0x0B AND 0x04 = 0" "R 0x0B AND 0x02 \<noteq> 0"
      "R 0x04 = bcd h" "R 0x02 = bcd m" "R 0x00 = bcd s" "h < 24" "m < 60" "s < 60"
    using assms unfolding rtc_valid_def by blast
  from rtc_clock [OF this, of t tr] show thesis using that by fastforce
qed

lemma boot_sched:
  assumes L: "layout_ok L" and u: "user_head (user_heap s) = NULL" and z: "zombie_list s = NULL"
    and km: "malloc_init (l_heap_start L) (l_heap_end L - l_heap_start L) (kern_heap s, ram s) = (k, m)"
    and um: "user_malloc_init (l_user_start L) (l_user_end L) (user_heap s, m) = (uh, m1)"
    and m2: "\<And>x. unat (l_heap_start L) \<le> unat x \<Longrightarrow> unat x < unat (l_heap_end L) \<Longrightarrow> m2 x = m1 x"
      "\<And>x. unat (l_user_start L) \<le> unat x \<Longrightarrow> unat x < unat (l_user_end L) \<Longrightarrow> m2 x = m1 x"
  defines "s' \<equiv> scheduler_init L (s\<lparr>kern_heap := k, user_heap := uh, ram := m2\<rparr>)"
  shows "life_inv L s' [l_init_task L] [] [(l_heap_start L, l_heap_end L - l_heap_start L - 40, True)]
    [(l_user_start L, l_user_end L - l_user_start L - 40, True)]" "next_pid s' = 1" "current s' = NULL"
proof -
  have b: "boot L s = scheduler_init L (s\<lparr>kern_heap := k, user_heap := uh, ram := m1\<rparr>)" by (simp add: boot_def km um)
  have "book L (boot L s) [l_init_task L] []"
    by (simp add: book_def boot_def scheduler_init_def upd_task_def zero_task_def runnable_def Let_def case_prod_beta)
  then have l: "life_inv L (boot L s) [l_init_task L] [] [(l_heap_start L, l_heap_end L - l_heap_start L - 40, True)]
      [(l_user_start L, l_user_end L - l_user_start L - 40, True)]"
    using boot_inv [OF L u z] by (simp add: life_inv_def)
  have "ram (boot L s) = m1" by (simp add: b scheduler_init_def upd_task_def Let_def)
  then have "life_inv L ((boot L s)\<lparr>ram := m2\<rparr>) [l_init_task L] [] [(l_heap_start L, l_heap_end L - l_heap_start L - 40, True)]
      [(l_user_start L, l_user_end L - l_user_start L - 40, True)]"
    using m2 by (intro life_ram [OF l]) simp_all
  moreover have "(boot L s)\<lparr>ram := m2\<rparr> = s'" by (simp add: b s'_def scheduler_init_def upd_task_def Let_def)
  ultimately show "life_inv L s' [l_init_task L] [] [(l_heap_start L, l_heap_end L - l_heap_start L - 40, True)]
    [(l_user_start L, l_user_end L - l_user_start L - 40, True)]" by simp
  show "next_pid s' = 1" "current s' = NULL" by (simp_all add: s'_def scheduler_init_def Let_def)
qed

lemma boot_tasks:
  assumes l: "life_inv L s [i] [] bs ubs" and t: "top_free bs 25080" and np: "next_pid s = 1"
    and fs: "fs_wf f" "small_files f"
  shows "\<exists>s' t1 ts t2 bs' ubs'. tasks_init L I f s = Some s' \<and> life_inv L s' (i # t1 # ts @ [t2]) [] bs' ubs' \<and> length ts \<le> 1 \<and>
    ready_at s' bs' t1 (user_task1 I) \<and> ready_at s' bs' t2 (zombie_reaper_task I) \<and>
    (\<forall>x \<in> set ts. ready_at s' bs' x (t_user_mem (tasks s' x))) \<and> current s' = current s"
proof -
  have t0: "top_free bs (16720 + 8360)" using t by simp
  have np0: "unat (next_pid s) + 1 < 2 ^ 31" using np by simp
  obtain s1 t1 bs1 where a: "task_create L (user_task1 I) 0 s = Some s1" "life_inv L s1 ([i] @ [t1]) [] bs1 ubs" "top_free bs1 16720"
      "next_pid s1 = next_pid s + 1" "ready_at s1 bs1 t1 (user_task1 I)" "current s1 = current s"
    using boot_task [OF l t0 np0, of "user_task1 I"] by blast
  have "unat (next_pid s1) = 2" unfolding a(4) np by simp
  then have p1: "unat (next_pid s1) = 2" "unat (next_pid s1) + 1 < 2 ^ 31" by simp_all
  have t1: "top_free bs1 (8360 + 8360)" using a(3) by simp
  obtain s2 ts bs2 ubs2 where b: "load_and_run_terminal L I f s1 = Some s2" "length ts \<le> 1" "life_inv L s2 (([i] @ [t1]) @ ts) [] bs2 ubs2"
      "top_free bs2 8360" "unat (next_pid s2) \<le> unat (next_pid s1) + 1"
      "\<forall>x \<in> set ts. t_user_mem (tasks s2 x) \<noteq> NULL \<and> ready_at s2 bs2 x (t_user_mem (tasks s2 x))"
      "\<forall>x \<in> set ([i] @ [t1]). \<forall>e. ready_at s1 bs1 x e \<longrightarrow> ready_at s2 bs2 x e" "current s2 = current s1"
    using boot_terminal [OF a(2) t1 p1(2) fs, of I] by blast
  have t2: "top_free bs2 (0 + 8360)" using b(4) by simp
  have p2: "unat (next_pid s2) + 1 < 2 ^ 31" using b(5) p1(1) by simp
  obtain s3 t2 bs3 where c: "task_create L (zombie_reaper_task I) 0 s2 = Some s3" "life_inv L s3 ((([i] @ [t1]) @ ts) @ [t2]) [] bs3 ubs2"
      "ready_at s3 bs3 t2 (zombie_reaper_task I)" "current s3 = current s2"
      "\<forall>x \<in> set (([i] @ [t1]) @ ts). t_user_mem (tasks s3 x) = t_user_mem (tasks s2 x) \<and> (\<forall>e. ready_at s2 bs2 x e \<longrightarrow> ready_at s3 bs3 x e)"
    using boot_task [OF b(3) t2 p2, of "zombie_reaper_task I"] by blast
  have "tasks_init L I f s = Some s3" using a(1) b(1) c(1) by (simp add: tasks_init_def)
  moreover have "ready_at s3 bs3 t1 (user_task1 I)" using c(5) b(7) a(5) by simp
  moreover have "\<forall>x \<in> set ts. ready_at s3 bs3 x (t_user_mem (tasks s3 x))" using c(5) b(6) by simp
  ultimately show ?thesis using c(2,3,4) b(2,8) a(6) by (intro exI [of _ s3] exI [of _ t1] exI [of _ ts] exI [of _ t2] exI [of _ bs3] exI [of _ ubs2]) simp
qed

lemma kmain_runs:
  assumes P: "platform_ok L I" and rtc: "rtc_valid dev" and on: "power_on M"
  shows "\<exists>M' t1 ts t2 bs ubs. kmain L I dev idt_addr h (d, M) = Some (fst (idt_install dev idt_addr h (d, mc_io M)), M') \<and>
    kernel_inv L M' \<and> if_flag (mc_sched M') \<and> current (mc_sched M') = NULL \<and> length ts \<le> 1 \<and>
    life_inv L (mc_sched M') (l_init_task L # t1 # ts @ [t2]) [] bs ubs \<and>
    ready_at (mc_sched M') bs t1 (user_task1 I) \<and> ready_at (mc_sched M') bs t2 (zombie_reaper_task I) \<and>
    (\<forall>x \<in> set ts. ready_at (mc_sched M') bs x (t_user_mem (tasks (mc_sched M') x)))"
proof -
  let ?s = "mc_sched M" let ?rd = "ramdisk I"
  have L: "layout_ok L" "video_apart L" "disk_apart L ?rd" "25120 \<le> unat (l_heap_end L) - unat (l_heap_start L)"
    "\<forall>a \<in> {im_terminal I, im_htop I, im_clear I, im_shutdown I, im_reboot I}. app_ok ?rd a"
    using P by (simp_all add: platform_ok_def)
  obtain k m where km: "malloc_init (l_heap_start L) (l_heap_end L - l_heap_start L) (kern_heap ?s, ram ?s) = (k, m)" by force
  obtain uh m1 where um: "user_malloc_init (l_user_start L) (l_user_end L) (user_heap ?s, m) = (uh, m1)" by force
  obtain f m2 where ap: "load_apps I (fs_init (mc_fs M), m1) = (f, m2)" by force
  have rd: "disk_ok ?rd" using L(3) by (simp add: disk_apart_def)
  note f = load_apps_ok [OF fs_init_ok init_small rd L(5) ap]
  obtain d' tr where id: "idt_install dev idt_addr h (d, mc_io M) = (d', tr)" by force
  obtain t tr' where ck: "init_system_clock dev (mc_timer M, tr) = Some (t, tr')" "clock_ok (system_clock t)" "tick_time t = tick_time (mc_timer M)"
    by (rule rtc_starts [OF rtc])
  let ?tr = "outb 0x21 0xFC (init_timer 1000 tr')"
  let ?v = "\<lparr>vx = mc_x M, vy = mc_y M, vmem = m2, vio = ?tr\<rparr>" let ?w = "clean_screen ?v"
  have same: "vmem ?w x = m1 x" if "\<not> in_range x ?rd RAMDISK_SIZE" "\<not> in_range x VGA_BUF 4000" for x
    using clean_screen_ok(2) [of ?v] f(3) [OF that(1)] that(2) by (simp add: screen_only_def)
  let ?s1 = "scheduler_init L (?s\<lparr>kern_heap := k, user_heap := uh, ram := vmem ?w\<rparr>)"
  have s1: "life_inv L ?s1 [l_init_task L] [] [(l_heap_start L, l_heap_end L - l_heap_start L - 40, True)]
      [(l_user_start L, l_user_end L - l_user_start L - 40, True)]" "next_pid ?s1 = 1" "current ?s1 = NULL"
    using on L(2,3) by (intro boot_sched [OF L(1) _ _ km um] same; auto simp: power_on_def disk_apart_def video_apart_def disjoint_def in_range_def)+
  have "unat (l_heap_end L - l_heap_start L - 40) = unat (l_heap_end L) - unat (l_heap_start L) - 40"
    using L(4) by (simp add: unat_sub_le word_le_nat_alt)
  then have top: "top_free [(l_heap_start L, l_heap_end L - l_heap_start L - 40, True)] 25080"
    using L(4) by (simp add: top_free_def)
  obtain s2 t1 ts t2 bs ubs where r: "tasks_init L I f ?s1 = Some s2" "life_inv L s2 (l_init_task L # t1 # ts @ [t2]) [] bs ubs" "length ts \<le> 1"
      "ready_at s2 bs t1 (user_task1 I)" "ready_at s2 bs t2 (zombie_reaper_task I)"
      "\<forall>x \<in> set ts. ready_at s2 bs x (t_user_mem (tasks s2 x))" "current s2 = NULL"
    using boot_tasks [OF s1(1) top s1(2) f(1,2), of I] s1(3) by auto
  let ?M = "M\<lparr>mc_sched := sti s2, mc_fs := f, mc_timer := t, mc_x := vx ?w, mc_y := vy ?w, mc_io := vio ?w\<rparr>"
  have "kmain L I dev idt_addr h (d, M) = Some (d', ?M)"
    using id ck(1) km um ap r(1) by (simp add: kmain_def Let_def vga_of_def put_vga_def)
  moreover have l: "life_inv L (sti s2) (l_init_task L # t1 # ts @ [t2]) [] bs ubs" using r(2) by simp
  moreover have "kernel_inv L ?M"
    unfolding kernel_inv_def using l f(1,2) ck(2,3) on clean_screen_ok(1) [of ?v]
    by (intro conjI exI) (simp_all add: vga_of_def cursor_ok_def power_on_def)
  moreover have "ready_at (sti s2) bs x e = ready_at s2 bs x e" for x e by (simp add: ready_at_def)
  ultimately show ?thesis using r id by (intro exI [of _ ?M] exI [of _ t1] exI [of _ ts] exI [of _ t2] exI [of _ bs] exI [of _ ubs]) simp
qed

section \<open>All states of the kernel\<close>

text \<open>
  What happens to the kernel after boot: timer interrupts, keyboard interrupts with whatever the
  controller delivers, and system calls of the running task.  After \<open>power_off\<close> and a reboot nothing
  happens any more.
\<close>

inductive kernel_step :: "layout \<Rightarrow> image \<Rightarrow> device \<Rightarrow> machine \<Rightarrow> machine \<Rightarrow> bool" for L I dev where
  timer: "timer_interrupt L regs M = Some (M', frame) \<Longrightarrow> kernel_step L I dev M M'"
| key: "kernel_step L I dev M (keyboard_interrupt dev M)"
| call: "sys_ok L dev rax rdi rsi rdx M \<Longrightarrow> ucast rax \<noteq> SYSCALL_POWER_OFF \<Longrightarrow> ucast rax \<noteq> SYSCALL_REBOOT \<Longrightarrow>
    syscall_handler L I dev rax rdi rsi rdx r10 r8 M = Some r \<Longrightarrow> kernel_step L I dev M (sys_machine r)"

inductive kernel_reach :: "layout \<Rightarrow> image \<Rightarrow> device \<Rightarrow> machine \<Rightarrow> bool" for L I dev where
  boot: "power_on M \<Longrightarrow> kmain L I dev idt_addr h (d, M) = Some (d', M') \<Longrightarrow> kernel_reach L I dev M'"
| step: "kernel_reach L I dev M \<Longrightarrow> kernel_step L I dev M M' \<Longrightarrow> kernel_reach L I dev M'"

lemma kernel_step_inv:
  assumes "kernel_step L I dev M M'" "kernel_inv L M" "video_apart L"
  shows "kernel_inv L M'"
  using assms
proof (induction rule: kernel_step.induct)
  case (timer regs M M' frame)
  then show ?case using timer_good [of L M regs] by auto
next
  case (key M)
  then show ?case using keyboard_good by blast
next
  case (call rax rdi rsi rdx M r10 r8 r)
  then show ?case using any_call [OF call.prems call.hyps(1,2), of I r10 r8] by (simp add: call_good_def)
qed

lemma kernel_reach_inv: "kernel_reach L I dev M \<Longrightarrow> platform_ok L I \<Longrightarrow> rtc_valid dev \<Longrightarrow> kernel_inv L M"
proof (induction rule: kernel_reach.induct)
  case (boot M idt_addr h d d' M')
  then show ?case using kmain_runs [OF boot.prems boot.hyps(1), of idt_addr h d] by auto
next
  case (step M M')
  then show ?case using kernel_step_inv by (auto simp: platform_ok_def)
qed

section \<open>From the key to the program\<close>

lemma push_if [simp]: "kbd_if (kbd_buffer_push c s) = kbd_if s"
  by (simp add: kbd_buffer_push_def irq_save_flags_def irq_restore_flags_def Let_def)

lemma getchar_if [simp]: "kbd_if (fst (kbd_getchar s)) = kbd_if s"
  by (simp add: kbd_getchar_def irq_save_flags_def irq_restore_flags_def Let_def)

lemma put_kbd_sched: "kbd_if k = if_flag (mc_sched M) \<Longrightarrow> mc_sched (put_kbd k M) = mc_sched M"
  by (cases "mc_sched M") (simp add: put_kbd_def)

lemma key_step_small: "key_step code md = (md', [c]) \<Longrightarrow> c < 128"
  using typed_small [of "[code]" md] by simp

lemma getchar_ascii:
  assumes "c < 128"
  shows "getchar_value c = ucast c"
proof -
  have u: "uint c < 128" using assms by (simp add: word_less_def)
  have "- 128 \<le> uint c" using uint_ge_0 [of c] by linarith
  then have "sint c = uint c" unfolding sint_uint using u by (intro signed_take_bit_int_eq_self) simp_all
  moreover have "c \<noteq> -1" using assms by auto
  ultimately show ?thesis unfolding getchar_value_def scast_eq ucast_eq by (simp only: if_False)
qed

lemma key_read:
  assumes ok: "kbd_ok (mc_kbd M)" "kbd_contents (mc_kbd M) = []"
    and key: "key_step (ucast (dev (mc_io M) 0x60)) (mods_of (mc_kbd M)) = (md, [c])"
  shows "\<exists>M'. syscall_handler L I dev 30 rdi rsi rdx r10 r8 (keyboard_interrupt dev M) = Some (Ret M' (ucast c)) \<and>
    kbd_contents (mc_kbd M') = [] \<and> mc_sched M' = mc_sched M \<and> mods_of (mc_kbd M') = md"
proof -
  let ?code = "ucast (dev (mc_io M) 0x60) :: u8" and ?k = "kbd_of M"
  have c: "c < 128" by (rule key_step_small [OF key])
  define k where "k = handle_code ?code ?k"
  have kk: "same_buf ?k (mc_kbd M)" "mods_of ?k = mods_of (mc_kbd M)" by (simp_all add: same_buf_def kbd_of_def mods_of_def)
  have k: "k = kbd_buffer_push c (set_mods md ?k)" using key kk(2) by (simp add: k_def handle_code_step)
  have sb: "same_buf (set_mods md ?k) (mc_kbd M)" by (rule same_buf_ops(2) [OF kk(1)])
  have ko: "kbd_ok (set_mods md ?k)" "kbd_contents (set_mods md ?k) = []"
    using same_buf_ops(5,6) [OF sb] ok by simp_all
  have kc: "kbd_ok k" "kbd_contents k = [c]" using kbd_push_ok [OF ko(1), of c] ko(2) by (simp_all add: k)
  define M1 where "M1 = keyboard_interrupt dev M"
  have ki: "kbd_if k = if_flag (mc_sched M)" by (cases md) (simp add: k set_mods_def kbd_of_def)
  have M1: "mc_kbd M1 = k" "mc_sched M1 = mc_sched M"
    using put_kbd_sched [of k M] ki
    by (simp_all add: M1_def keyboard_interrupt_def keyboard_handler_def inb_def Let_def k_def put_kbd_def)
  have "kbd_of M1 = k" using M1 ki by (cases k) (simp add: kbd_of_def)
  then have g: "kbd_ok (fst (kbd_getchar (kbd_of M1)))" "kbd_contents (fst (kbd_getchar (kbd_of M1))) = []"
      "snd (kbd_getchar (kbd_of M1)) = c" "mods_of (fst (kbd_getchar (kbd_of M1))) = md" "kbd_if (fst (kbd_getchar (kbd_of M1))) = if_flag (mc_sched M)"
    using kbd_getchar_ok [OF kc(1)] kc(2) ki by (simp_all add: k)
  let ?M = "put_kbd (fst (kbd_getchar (kbd_of M1))) M1"
  have "syscall_handler L I dev 30 rdi rsi rdx r10 r8 M1 = Some (Ret ?M (ucast c))"
    using g(3) getchar_ascii [OF c] by (simp add: syscall_handler_def case_prod_beta)
  moreover have "mc_sched ?M = mc_sched M" using put_kbd_sched [of "fst (kbd_getchar (kbd_of M1))" M1] g(5) M1(2) by simp
  moreover have "mc_kbd ?M = fst (kbd_getchar (kbd_of M1))" by (simp add: put_kbd_def)
  ultimately show ?thesis using g(2,4) M1_def by (intro exI [of _ ?M]) simp
qed

section \<open>A machine that boots\<close>

definition big_machine :: machine where
  "big_machine = \<lparr>mc_sched = demo_raw\<lparr>ram := big_mem\<rparr>, mc_fs = \<lparr>fat = \<lambda>_. 0, entries = []\<rparr>, mc_kbd = kbd_init,
     mc_timer = \<lparr>tick_time = 0, seconds = 0, system_clock = \<lparr>hh = 0, mm = 0, ss = 0\<rparr>\<rparr>, mc_x = 0, mc_y = 0, mc_io = []\<rparr>"

definition demo_isrs :: isr_addrs where
  "demo_isrs = \<lparr>isr_stubs = replicate 32 0x9000, isr32 = 0x9100, isr33 = 0x9200, isr80 = 0x9300\<rparr>"

lemma big_platform: "platform_ok big_L big_I"
  by (simp add: platform_ok_def big_layout big_names(6) video_apart_def disjoint_def big_I_def big_app_def app_ok_def buf_ok_def
      RAMDISK_SIZE_def)

lemma demo_rtc: "rtc_valid demo_dev"
proof -
  have "demo_regs 0x04 = bcd 21" "demo_regs 0x02 = bcd 59" "demo_regs 0x00 = bcd 58" by (simp_all add: demo_regs_def bcd_def)
  moreover have "demo_regs 0x0A AND 0x80 = 0" "demo_regs 0x0B AND 0x04 = 0" "demo_regs 0x0B AND 0x02 \<noteq> 0" by (simp_all add: demo_regs_def)
  ultimately show ?thesis
    unfolding rtc_valid_def using demo_cmos
    by (intro exI [of _ demo_regs] exI [of _ 21] exI [of _ 59] exI [of _ 58]) simp
qed

lemma big_power_on: "power_on big_machine"
  by (simp add: power_on_def big_machine_def demo_raw_def kbd_init_ok)

lemma big_reach:
  obtains M where "kernel_reach big_L big_I demo_dev M"
  using kmain_runs [OF big_platform demo_rtc big_power_on, of "0x8000" demo_isrs demo_idt]
    kernel_reach.boot [OF big_power_on] by blast

section \<open>Properties of the kernel\<close>

text \<open>
  C3: In every state that the kernel reaches from \<open>kmain\<close> by timer and keyboard interrupts and
  by system calls with sensible arguments, in any order, all components are well formed at once:
  the tasks form one ring and own separate blocks of two well-formed heaps, the file
  system is a tree with disjoint cluster chains, the keyboard buffer is a queue, the cursor is
  on the screen and the clock shows a time of day; and the next timer interrupt returns.
\<close>

theorem kernel_keeps_invariant:
  assumes "platform_ok L I" "rtc_valid dev" "kernel_reach L I dev M"
  shows "kernel_inv L M \<and> (\<exists>M' frame. timer_interrupt L regs M = Some (M', frame))"
  using kernel_reach_inv [OF assms(3,1,2)] timer_good by blast

theorem kernel_keeps_invariant_witness:
  "\<exists>M. kernel_reach big_L big_I demo_dev M \<and> kernel_inv big_L M"
proof -
  obtain M where "kernel_reach big_L big_I demo_dev M" by (rule big_reach)
  then show ?thesis using kernel_keeps_invariant [OF big_platform demo_rtc] by blast
qed







end
