(* ===== verification/Context_Switch.thy ===== *)
theory Context_Switch
  imports Kernel_Boot
begin

text \<open>
  The timer interrupt as the tasks see it.  Every task of the ring has its own registers:
  those of the running task are in the processor, those of the others in the frame on
  their stack.  The interrupt exchanges them, and no task notices.
\<close>

section \<open>Stacks\<close>

definition within :: "ptr \<Rightarrow> nat \<Rightarrow> ptr \<Rightarrow> nat \<Rightarrow> bool" where
  "within q k p n \<longleftrightarrow> unat q \<le> unat p \<and> unat p + n \<le> unat q + k"

text \<open>
  The stack of a task is its block in the kernel heap; the init task runs on the stack \<open>B\<close> that
  \<open>kernel.asm\<close> sets up, which lies outside of the heaps and of the video memory.
\<close>

definition in_stack :: "layout \<Rightarrow> ptr \<times> nat \<Rightarrow> sched \<Rightarrow> blk list \<Rightarrow> ptr \<Rightarrow> ptr \<Rightarrow> nat \<Rightarrow> bool" where
  "in_stack L B s bs x p n \<longleftrightarrow>
     (if x = l_init_task L then within (fst B) (snd B) p n
      else \<exists>k. (t_kstack (tasks s x), k) \<in> live bs \<and> within (t_kstack (tasks s x)) k p n)"

definition boot_stack_ok :: "layout \<Rightarrow> ptr \<times> nat \<Rightarrow> bool" where
  "boot_stack_ok L B \<longleftrightarrow> unat (fst B) + snd B \<le> 2 ^ 64 \<and>
     disjoint (fst B) (snd B) (l_heap_start L) (unat (l_heap_end L) - unat (l_heap_start L)) \<and>
     disjoint (fst B) (snd B) (l_user_start L) (unat (l_user_end L) - unat (l_user_start L)) \<and>
     disjoint (fst B) (snd B) VGA_BUF 4000"

lemma within_disjoint: "within a k p n \<Longrightarrow> within b l q j \<Longrightarrow> disjoint a k b l \<Longrightarrow> disjoint p n q j"
  by (auto simp: within_def disjoint_def)

lemma stack_bounds:
  assumes "in_stack L B s bs x p n" "heaps_ok L s bs ubs" "boot_stack_ok L B"
  shows "unat p + n \<le> 2 ^ 64"
proof -
  have wf: "heap_wf (ram s) KERNEL_MAGIC (unat (l_heap_start L)) bs (unat (l_heap_end L))"
    using assms(2) by (simp add: heaps_ok_def krep_def)
  show ?thesis
    using assms(1,3) live_bounds(3) [OF wf] unfolding in_stack_def within_def boot_stack_ok_def
    by (auto split: if_splits intro: order_trans)
qed

lemma stacks_apart:
  assumes l: "life_inv L s xs zs bs ubs" and B: "boot_stack_ok L B" and ne: "x \<noteq> y"
    and x: "x \<in> set xs \<union> set zs" "in_stack L B s bs x p n" and y: "y \<in> set xs \<union> set zs" "in_stack L B s bs y q j"
  shows "disjoint p n q j"
proof -
  let ?k = "\<lambda>x. t_kstack (tasks s x)"
  have wf: "heap_wf (ram s) KERNEL_MAGIC (unat (l_heap_start L)) bs (unat (l_heap_end L))"
    using life_heaps_ok [OF l] by (simp add: heaps_ok_def krep_def)
  have heap: "disjoint (fst B) (snd B) a k" if "(a, k) \<in> live bs" for a k
    using live_bounds(1,2) [OF wf that] B by (auto simp: boot_stack_ok_def disjoint_def)
  have inj: "inj_on ?k ((set xs \<union> set zs) - {l_init_task L})"
    using l by (simp add: life_inv_def sched_inv_def task_mem_def)
  consider "x = l_init_task L" "y \<noteq> l_init_task L" | "x \<noteq> l_init_task L" "y = l_init_task L"
    | "x \<noteq> l_init_task L" "y \<noteq> l_init_task L" using ne by blast
  then show ?thesis
  proof cases
    case 1
    then show ?thesis using x(2) y(2) heap by (auto simp: in_stack_def intro: within_disjoint)
  next
    case 2
    then obtain k where k: "(?k x, k) \<in> live bs" "within (?k x) k p n" "within (fst B) (snd B) q j"
      using x(2) y(2) by (auto simp: in_stack_def)
    have "disjoint q j p n" by (rule within_disjoint [OF k(3,2) heap [OF k(1)]])
    then show ?thesis by (auto simp: disjoint_def)
  next
    case 3
    then obtain k i where k: "(?k x, k) \<in> live bs" "within (?k x) k p n" "(?k y, i) \<in> live bs" "within (?k y) i q j"
      using x(2) y(2) by (auto simp: in_stack_def)
    have "?k x \<noteq> ?k y" using inj ne x(1) y(1) 3 by (auto simp: inj_on_def)
    then have "disjoint (?k x) k (?k y) i" using live_disjoint [OF wf k(1,3)] by simp
    then show ?thesis by (rule within_disjoint [OF k(2,4)])
  qed
qed

text \<open>A write to the stack of a task keeps the invariant.\<close>

lemma life_if [simp]: "life_inv L (s\<lparr>if_flag := b\<rparr>) xs zs bs ubs = life_inv L s xs zs bs ubs"
  by (cases b) (use life_flag in \<open>simp_all add: cli_def sti_def\<close>)

lemma life_stack_write:
  assumes l: "life_inv L s xs zs bs ubs" and B: "boot_stack_ok L B"
    and x: "x \<in> set xs \<union> set zs" "in_stack L B s bs x p n"
    and m: "\<And>a. \<not> in_range a p n \<Longrightarrow> m a = ram s a"
  shows "life_inv L (s\<lparr>ram := m\<rparr>) xs zs bs ubs"
proof (cases "x = l_init_task L")
  case True
  then have "within (fst B) (snd B) p n" using x(2) by (simp add: in_stack_def)
  then show ?thesis using B
    by (intro life_ram [OF l] m) (auto simp: boot_stack_ok_def within_def disjoint_def in_range_def)
next
  case False
  then obtain k where k: "(t_kstack (tasks s x), k) \<in> live bs" "within (t_kstack (tasks s x)) k p n"
    using x(2) by (auto simp: in_stack_def)
  have "t_kstack (tasks s x) \<notin> records L xs zs"
    using l x(1) False by (auto simp: life_inv_def sched_inv_def task_mem_def records_def)
  then have "caller_buf L xs zs bs ubs p n" using k unfolding caller_buf_def within_def by fastforce
  then show ?thesis by (rule life_buffer [OF l _ m])
qed

section \<open>What a tick does to frames\<close>

lemma schedule_frames:
  assumes "schedule_from_isr L regs s = Some (s', fr)"
  shows "ram s' = ram s" "if_flag s' = if_flag s"
    "t_regs (tasks s' x) = (if x = running L s then regs else t_regs (tasks s x))"
    "x \<noteq> l_init_task L \<Longrightarrow> t_kstack (tasks s' x) = t_kstack (tasks s x)"
  using assms
  by (auto simp: schedule_from_isr_def save_current_def running_def upd_task_def Let_def bind_eq_Some_conv split: if_splits)

section \<open>One processor for every task\<close>

text \<open>
  \<open>ctx\<close> gives every task its registers.  For the running task they are in the processor; any
  other task of the ring has them in its frame.  Every task has room for a frame on its stack.
\<close>

definition tasks_see ::
  "layout \<Rightarrow> ptr \<times> nat \<Rightarrow> ptr list \<Rightarrow> blk list \<Rightarrow> cpu \<times> machine \<Rightarrow> (ptr \<Rightarrow> cpu) \<Rightarrow> bool"
where
  "tasks_see L B xs bs st ctx \<longleftrightarrow>
     (let s = mc_sched (snd st); r = running L s
      in ctx r = fst st \<and> in_stack L B s bs r (frame_base (ctx r)) 176 \<and>
         (\<forall>x \<in> set xs - {r}. frame_holds (ram s) (t_regs (tasks s x)) (ctx x) \<and> t_regs (tasks s x) = frame_base (ctx x) \<and>
            in_stack L B s bs x (frame_base (ctx x)) 176))"

lemma running_task: "life_inv L s xs zs bs ubs \<Longrightarrow> running L s \<in> set xs \<union> set zs"
  using life_init(1) by (auto simp: running_def life_inv_def book_def)

lemma frame_kept:
  assumes l: "life_inv L s xs zs bs ubs" and B: "boot_stack_ok L B"
    and x: "x \<in> set xs" "in_stack L B s bs x sp 176" "frame_holds (ram s) sp c"
    and m: "\<And>a. \<not> in_range a p n \<Longrightarrow> m a = ram s a" and ap: "disjoint p n sp 176"
  shows "frame_holds m sp c"
proof (rule words_at_cong [OF x(3)])
  show "same_on (ram s) m sp (8 * length (frame_words c))"
    using m ap by (auto simp: same_on_def in_range_def disjoint_def)
  show "unat sp + 8 * length (frame_words c) \<le> 2 ^ 64" using stack_bounds [OF x(2) life_heaps_ok [OF l] B] by simp
qed

lemma isr32_switch:
  assumes k: "kernel_inv L M" and l: "life_inv L (mc_sched M) xs zs bs ubs" and B: "boot_stack_ok L B"
    and see: "tasks_see L B xs bs (c, M) ctx"
  shows "\<exists>M'. isr32 L g (c, M) = Some (ctx (current (mc_sched M')), M') \<and> kernel_inv L M' \<and>
    life_inv L (mc_sched M') xs zs bs ubs \<and> tasks_see L B xs bs (ctx (current (mc_sched M')), M') ctx \<and>
    find (\<lambda>t. runnable (tasks (mc_sched M) t)) (rot (t_next (tasks (mc_sched M) (running L (mc_sched M)))) xs) =
      Some (current (mc_sched M')) \<and> if_flag (mc_sched M') = bit (cpu_rflags (ctx (current (mc_sched M')))) 9"
proof -
  let ?s = "mc_sched M" let ?r = "running L ?s"
  have c: "ctx ?r = c" "in_stack L B ?s bs ?r (frame_base c) 176" using see by (auto simp: tasks_see_def Let_def)
  have others: "\<And>x. x \<in> set xs - {?r} \<Longrightarrow> frame_holds (ram ?s) (t_regs (tasks ?s x)) (ctx x) \<and>
      t_regs (tasks ?s x) = frame_base (ctx x) \<and> in_stack L B ?s bs x (frame_base (ctx x)) 176"
    using see unfolding tasks_see_def Let_def fst_conv snd_conv by blast
  obtain m sp where sv: "isr32_save c (ram ?s) = (m, sp)" by force
  note sf = save_frame [OF sv stack_bounds [OF c(2) life_heaps_ok [OF l] B]]
  let ?s1 = "(cli ?s)\<lparr>ram := m\<rparr>"
  have "life_inv L (?s\<lparr>ram := m\<rparr>) xs zs bs ubs"
    using c(2) sf(1,3) by (intro life_stack_write [OF l B running_task [OF l]]) simp_all
  moreover have "?s1 = cli (?s\<lparr>ram := m\<rparr>)" by (simp add: cli_def)
  ultimately have l1: "life_inv L ?s1 xs zs bs ubs" by (simp only: life_flag(1))
  have "sched_ok L ?s1 xs" using l1 by (simp only: life_inv_def sched_inv_def)
  then obtain s2 fr where s2: "schedule_from_isr L sp ?s1 = Some (s2, fr)" "tick_post L sp xs ?s1 s2 fr" using schedule_ok by blast
  note fr = schedule_frames [OF s2(1)]
  have r1: "running L ?s1 = ?r" and e1: "tasks ?s1 = tasks ?s" by (simp_all add: running_def)
  let ?n = "current s2"
  have n: "?n \<noteq> NULL" "fr = (if ?n = ?r then sp else t_regs (tasks ?s ?n))"
      "find (\<lambda>t. runnable (tasks ?s t)) (rot (t_next (tasks ?s ?r)) xs) = Some ?n"
    using s2(2) unfolding tick_post_def r1 e1 by blast+
  have nx: "?n \<in> set xs" using find_in_set [OF n(3)] by simp
  have kept: "frame_holds m (t_regs (tasks ?s x)) (ctx x)" if x: "x \<in> set xs" "x \<noteq> ?r" for x
  proof -
    have o: "frame_holds (ram ?s) (t_regs (tasks ?s x)) (ctx x)" "in_stack L B ?s bs x (t_regs (tasks ?s x)) 176"
      using others [of x] x by auto
    have "disjoint sp 176 (t_regs (tasks ?s x)) 176"
      using stacks_apart [OF l B _ running_task [OF l] c(2) _ o(2)] x sf(1) by simp
    then show ?thesis by (intro frame_kept [OF l B x(1) o(2,1), of sp 176 m] sf(3))
  qed
  have "frame_holds m fr (ctx ?n)" using sf(2) kept [OF nx] n(2) c(1) by auto
  then have rs: "isr32_restore g m fr = ctx ?n" by (rule restore_frame)
  have M0: "put_ram m (cli_machine M) = M\<lparr>mc_sched := ?s1\<rparr>" by (simp add: put_ram_def cli_machine_def)
  obtain M1 where M1: "timer_interrupt L sp (put_ram m (cli_machine M)) = Some (M1, fr)" "mc_sched M1 = s2"
    using s2(1) by (auto simp: timer_interrupt_def timer_calls_def timer_tick_def M0)
  have k1: "kernel_inv L M1" using timer_good [OF kernel_inv_sched [OF k l1], of sp] M1(1) by (simp add: M0)
  let ?M = "set_flag (ctx ?n) M1"
  have M: "mc_sched ?M = s2\<lparr>if_flag := bit (cpu_rflags (ctx ?n)) 9\<rparr>" by (simp add: set_flag_def M1(2))
  have "isr32 L g (c, M) = Some (ctx ?n, ?M)"
    using sv M1 rs fr(1) by (simp add: isr32_def Let_def cli_machine_def)
  moreover have l2: "life_inv L (mc_sched ?M) xs zs bs ubs" using life_tick [OF l1 s2(1)] by (simp add: M)
  moreover have "kernel_inv L ?M" using kernel_inv_sched [OF k1 l2] by (simp add: M) (simp add: set_flag_def M1(2))
  moreover have "tasks_see L B xs bs (ctx ?n, ?M) ctx"
  proof -
    have rn: "running L (mc_sched ?M) = ?n" using n(1) by (simp add: M running_def)
    have st: "in_stack L B (mc_sched ?M) bs x p k = in_stack L B ?s bs x p k" for x p k
      using fr(4) [of x] by (simp add: in_stack_def M)
    have "in_stack L B ?s bs x (frame_base (ctx x)) 176" if "x \<in> set xs" for x
      using c others [of x] that by (cases "x = ?r") auto
    moreover have "frame_holds m (t_regs (tasks s2 x)) (ctx x) \<and> t_regs (tasks s2 x) = frame_base (ctx x)" if "x \<in> set xs" for x
      using fr(3) [of x] kept [OF that] others [of x] that sf(1,2) c(1) by (cases "x = ?r") (auto simp: r1)
    moreover have e: "ram (mc_sched ?M) = m" "tasks (mc_sched ?M) = tasks s2" using fr(1) by (simp_all add: M)
    ultimately show ?thesis using nx unfolding tasks_see_def Let_def fst_conv snd_conv rn st e by blast
  qed
  ultimately show ?thesis using n(3) by (intro exI [of _ ?M]) (simp add: M)
qed

end
