(* ===== verification/Kernel_Frame.thy ===== *)
theory Kernel_Frame
  imports Context_Switch
begin

text \<open>
  What system calls leave alone.  Every call keeps the stacks of the caller and of all tasks
  that go on living, and the frames saved on them, apart from the buffer that the caller
  passes.  So the registers of a task survive whatever the other tasks ask the kernel for.
\<close>

section \<open>The invariant determines its parameters\<close>

lemma tiles_grow: "tiles lo bs hi \<Longrightarrow> lo + 40 * length bs \<le> hi"
  by (induction lo bs hi rule: tiles.induct) auto

lemma blocks_unique:
  "chain m K p bs e \<Longrightarrow> tiles lo bs hi \<Longrightarrow> chain m K p bs' e \<Longrightarrow> tiles lo bs' hi \<Longrightarrow> bs = bs'"
proof (induction bs arbitrary: p lo bs')
  case Nil
  then show ?case using tiles_grow [of lo bs' hi] by (cases bs') auto
next
  case (Cons b bs)
  obtain a s f where b: "b = (a, s, f)" by (cases b) auto
  have "bs' \<noteq> []" using Cons.prems(2,4) tiles_grow [of lo "b # bs" hi] by auto
  then obtain a' s' f' cs where c: "bs' = (a', s', f') # cs" by (cases bs') auto
  have "a = a'" using Cons.prems(2,4) by (simp add: b c word_unat_eq_iff)
  then have "s = s' \<and> f = f'" using Cons.prems(1,3) by (auto simp: b c split: if_splits)
  then show ?case using Cons.IH [of a "lo + 40 + unat s" cs] Cons.prems \<open>a = a'\<close> by (simp add: b c)
qed

lemma path_prefix: "path ts a xs b \<Longrightarrow> path ts a ys c \<Longrightarrow> length xs \<le> length ys \<Longrightarrow> xs = take (length xs) ys"
proof (induction xs arbitrary: a ys)
  case (Cons x xs)
  then show ?case by (cases ys) auto
qed simp

lemma ring_prefix:
  assumes "ring ts tail xs" "ring ts tail ys" "length xs \<le> length ys"
  shows "xs = ys"
proof -
  obtain h us where u: "xs = h # us" "path ts h (h # us) h" "t_next (ts tail) = h" by (rule ring_walk [OF assms(1)])
  obtain k vs where v: "ys = k # vs" "path ts k (k # vs) k" "t_next (ts tail) = k" by (rule ring_walk [OF assms(2)])
  have "path ts h ys h" using v u(3) by simp
  then have p: "xs = take (length xs) ys" using path_prefix [of ts h xs h ys h] u(1,2) assms(3) by blast
  have l: "last xs = tail" "last ys = tail" "distinct ys" "xs \<noteq> []" "ys \<noteq> []" using assms(1,2) by (auto simp: ring_def)
  have i: "length xs - 1 < length ys" "length ys - 1 < length ys" using l(4,5) assms(3) by (cases xs; cases ys; simp)+
  have "xs ! (length xs - 1) = ys ! (length xs - 1)" by (subst p) (use l(4) assms(3) in simp)
  then have "ys ! (length xs - 1) = ys ! (length ys - 1)" using l by (simp add: last_conv_nth)
  then have "length xs - 1 = length ys - 1" using nth_eq_iff_index_eq [OF l(3) i] by simp
  then have "length xs = length ys" using l(4,5) by (cases xs; cases ys) simp_all
  then show ?thesis using p by simp
qed

lemma ring_unique: "ring ts tail xs \<Longrightarrow> ring ts tail ys \<Longrightarrow> xs = ys"
  using ring_prefix [of ts tail xs ys] ring_prefix [of ts tail ys xs] by (cases "length xs \<le> length ys") auto

lemma zpath_unique: "zpath ts z xs \<Longrightarrow> zpath ts z ys \<Longrightarrow> xs = ys"
proof (induction xs arbitrary: z ys)
  case Nil
  then show ?case by (cases ys) auto
next
  case (Cons x xs)
  then show ?case by (cases ys) auto
qed

lemma sched_unique:
  assumes "sched_inv L s xs zs bs ubs" "sched_inv L s xs' zs' bs' ubs'"
  shows "xs' = xs" "zs' = zs" "bs' = bs" "ubs' = ubs"
proof -
  show "xs' = xs" using assms by (auto simp: sched_inv_def sched_ok_def intro: ring_unique)
  show "zs' = zs" using assms by (auto simp: sched_inv_def intro: zpath_unique)
  show "bs' = bs" "ubs' = ubs"
    using assms by (auto simp: sched_inv_def heaps_ok_def krep_def urep_def heap_wf_def intro: blocks_unique)
qed

lemma life_unique:
  assumes "life_inv L s xs zs bs ubs" "life_inv L s xs' zs' bs' ubs'"
  shows "xs' = xs" "zs' = zs" "bs' = bs" "ubs' = ubs"
  using assms sched_unique by (auto simp: life_inv_def)

section \<open>Frames of calls\<close>

text \<open>
  A call that writes to \<open>W\<close> for its caller.  The tasks that were in the ring before and are
  there afterwards, and the caller itself, keep their stacks; new tasks are ready to start.
\<close>

definition call_frame ::
  "layout \<Rightarrow> ptr \<times> nat \<Rightarrow> ptr set \<Rightarrow> sched \<Rightarrow> ptr list \<Rightarrow> blk list \<Rightarrow> sched \<Rightarrow> ptr list \<Rightarrow> blk list \<Rightarrow> bool"
where
  "call_frame L B W s xs bs s' xs' bs' \<longleftrightarrow>
     current s' = current s \<and>
     (\<forall>x \<in> set xs \<inter> set xs' - {running L s}. t_regs (tasks s' x) = t_regs (tasks s x)) \<and>
     (\<forall>x \<in> insert (running L s) (set xs \<inter> set xs'). \<forall>p n. in_stack L B s bs x p n \<longrightarrow>
        in_stack L B s' bs' x p n \<and> ((\<forall>a. in_range a p n \<longrightarrow> a \<notin> W) \<longrightarrow> same_on (ram s) (ram s') p n)) \<and>
     (\<forall>x \<in> set xs' - set xs. \<exists>entry. ready_at s' bs' x entry)"

lemma call_frameI:
  assumes cur: "current s' = current s"
    and regs: "\<And>x. x \<in> set xs \<Longrightarrow> x \<in> set xs' \<Longrightarrow> x \<noteq> running L s \<Longrightarrow> t_regs (tasks s' x) = t_regs (tasks s x)"
    and ks: "\<And>x. x = running L s \<or> x \<in> set xs \<inter> set xs' \<Longrightarrow> x \<noteq> l_init_task L \<Longrightarrow> t_kstack (tasks s' x) = t_kstack (tasks s x)"
    and lv: "\<And>x k. x = running L s \<or> x \<in> set xs \<inter> set xs' \<Longrightarrow> x \<noteq> l_init_task L \<Longrightarrow> (t_kstack (tasks s x), k) \<in> live bs \<Longrightarrow>
      (t_kstack (tasks s x), k) \<in> live bs' \<and> (\<forall>a. in_range a (t_kstack (tasks s x)) k \<longrightarrow> a \<notin> W \<longrightarrow> ram s' a = ram s a)"
    and out: "\<And>a. in_range a (fst B) (snd B) \<Longrightarrow> a \<notin> W \<Longrightarrow> ram s' a = ram s a"
    and new: "\<And>x. x \<in> set xs' \<Longrightarrow> x \<notin> set xs \<Longrightarrow> \<exists>entry. ready_at s' bs' x entry"
  shows "call_frame L B W s xs bs s' xs' bs'"
proof -
  have "in_stack L B s' bs' x p n \<and> ((\<forall>a. in_range a p n \<longrightarrow> a \<notin> W) \<longrightarrow> same_on (ram s) (ram s') p n)"
    if x: "x \<in> insert (running L s) (set xs \<inter> set xs')" "in_stack L B s bs x p n" for x p n
  proof (cases "x = l_init_task L")
    case True
    then show ?thesis using x(2) out by (auto simp: in_stack_def within_def same_on_def in_range_def)
  next
    case False
    have x1: "x = running L s \<or> x \<in> set xs \<inter> set xs'" using x(1) by blast
    obtain k where k: "(t_kstack (tasks s x), k) \<in> live bs" "within (t_kstack (tasks s x)) k p n"
      using x(2) False by (auto simp: in_stack_def)
    note l = lv [OF x1 False k(1)]
    have "in_range a (t_kstack (tasks s x)) k" if "in_range a p n" for a
      using that k(2) by (auto simp: in_range_def within_def)
    then show ?thesis using l k(2) ks [OF x1 False] False by (auto simp: in_stack_def same_on_def)
  qed
  then show ?thesis unfolding call_frame_def using cur regs new by blast
qed

text \<open>The running task and the tasks of the ring own their stacks.\<close>

lemma stack_owner:
  assumes l: "life_inv L s xs zs bs ubs" and x: "x = running L s \<or> x \<in> set xs \<inter> Y" "x \<noteq> l_init_task L"
  shows "x \<in> records L xs zs" "x \<in> fst ` live bs" "t_kstack (tasks s x) \<in> task_blocks L s xs zs"
proof -
  show r: "x \<in> records L xs zs" using x running_task [OF l] by (auto simp: records_def)
  then show "t_kstack (tasks s x) \<in> task_blocks L s xs zs" by (simp add: task_blocks_def)
  have "x \<in> task_blocks L s xs zs" using r by (simp add: task_blocks_def)
  then show "x \<in> fst ` live bs" using life_owned [OF l] by blast
qed

lemma boot_stack_outside:
  assumes "boot_stack_ok L B" "in_range a (fst B) (snd B)"
  shows "unat a < unat (l_heap_start L) \<or> unat (l_heap_end L) \<le> unat a"
    "unat a < unat (l_user_start L) \<or> unat (l_user_end L) \<le> unat a" "\<not> in_range a VGA_BUF 4000"
  using assms by (auto simp: boot_stack_ok_def disjoint_def in_range_def)

text \<open>Calls that only write to memory.\<close>

lemma frame_write:
  assumes "tasks s' = tasks s" "current s' = current s"
    "\<And>q k a. (q, k) \<in> live bs \<Longrightarrow> in_range a q k \<Longrightarrow> a \<notin> W \<Longrightarrow> ram s' a = ram s a"
    "\<And>a. in_range a (fst B) (snd B) \<Longrightarrow> a \<notin> W \<Longrightarrow> ram s' a = ram s a"
  shows "call_frame L B W s xs bs s' xs bs"
  using assms by (intro call_frameI) auto

text \<open>Calls of the allocator.\<close>

lemma frame_heap_call:
  assumes l: "life_inv L s xs zs bs ubs" and B: "boot_stack_ok L B"
    and h: "heap_call L p s bs s' bs'" and p: "p = NULL \<or> p \<in> fst ` live bs - task_blocks L s xs zs"
  shows "call_frame L B {} s xs bs s' xs bs'"
proof -
  obtain k m where s': "s' = s\<lparr>kern_heap := k, ram := m\<rparr>" using h by (auto simp: heap_call_def)
  have wf: "heap_wf (ram s) KERNEL_MAGIC (unat (l_heap_start L)) bs (unat (l_heap_end L))"
    using life_heaps_ok [OF l] by (simp add: heaps_ok_def krep_def)
  show ?thesis
  proof (rule call_frameI)
    fix x k assume x: "x = running L s \<or> x \<in> set xs \<inter> set xs" "x \<noteq> l_init_task L" "(t_kstack (tasks s x), k) \<in> live bs"
    have "t_kstack (tasks s x) \<noteq> p" using stack_owner(3) [OF l x(1,2)] p live_bounds(4) [OF wf x(3)] by auto
    then show "(t_kstack (tasks s x), k) \<in> live bs' \<and> (\<forall>a. in_range a (t_kstack (tasks s x)) k \<longrightarrow> a \<notin> {} \<longrightarrow> ram s' a = ram s a)"
      using h x(3) by (auto simp: heap_call_def same_on_def)
  next
    fix a assume "in_range a (fst B) (snd B)"
    then show "ram s' a = ram s a" using boot_stack_outside(1) [OF B] h by (auto simp: heap_call_def)
  qed (simp_all add: s')
qed

text \<open>Starting a program.\<close>

lemma frame_started:
  assumes l: "life_inv L s xs zs bs ubs" and B: "boot_stack_ok L B" and st: "started L s xs bs s' xs' bs'"
  shows "call_frame L B {} s xs bs s' xs' bs'"
proof (rule call_frameI)
  note s = st [unfolded started_def mem_kept_def]
  show "t_kstack (tasks s' x) = t_kstack (tasks s x)" if "x = running L s \<or> x \<in> set xs \<inter> set xs'" "x \<noteq> l_init_task L" for x
    using stack_owner(2) [OF l that] s by blast
  show "ram s' a = ram s a" if "in_range a (fst B) (snd B)" for a using boot_stack_outside(1,2) [OF B that] s by blast
  show "(t_kstack (tasks s x), k) \<in> live bs' \<and> (\<forall>a. in_range a (t_kstack (tasks s x)) k \<longrightarrow> a \<notin> {} \<longrightarrow> ram s' a = ram s a)"
    if "(t_kstack (tasks s x), k) \<in> live bs" for x k
    using that s unfolding same_on_def by (metis subsetD)
qed (use st in \<open>auto simp: started_def\<close>)

text \<open>Tasks that are reaped or stopped.\<close>

lemma frame_freed:
  assumes l: "life_inv L s xs zs bs ubs" and B: "boot_stack_ok L B"
    and fr: "freed s Z bs ubs bs' ubs'" "mem_kept L s s' bs'" and c: "current s' = current s"
    and Z: "Z \<subseteq> records L xs zs" "Z \<inter> set xs' = {}" "running L s \<notin> Z"
    and xs': "set xs' \<subseteq> set xs"
    and st: "\<And>x. x \<in> set xs' \<Longrightarrow> x \<noteq> running L s \<Longrightarrow> t_regs (tasks s' x) = t_regs (tasks s x)"
      "\<And>x. x \<in> set xs' \<or> x = running L s \<Longrightarrow> t_kstack (tasks s' x) = t_kstack (tasks s x)"
  shows "call_frame L B {} s xs bs s' xs' bs'"
proof (rule call_frameI)
  fix x k assume x: "x = running L s \<or> x \<in> set xs \<inter> set xs'" "x \<noteq> l_init_task L" "(t_kstack (tasks s x), k) \<in> live bs"
  have tm: "task_mem s (records L xs zs) bs ubs" using l by (simp add: life_inv_def sched_inv_def records_def)
  have r: "x \<in> records L xs zs" by (rule stack_owner(1) [OF l x(1,2)])
  have "x \<notin> Z" using x(1) Z(2,3) by blast
  then have "t_kstack (tasks s x) \<notin> Z \<union> (\<lambda>z. t_kstack (tasks s z)) ` Z"
    using tm r Z(1) unfolding task_mem_def inj_on_def by blast
  then have "(t_kstack (tasks s x), k) \<in> live bs'" using fr(1) x(3) by (simp add: freed_def live_without_def)
  then show "(t_kstack (tasks s x), k) \<in> live bs' \<and> (\<forall>a. in_range a (t_kstack (tasks s x)) k \<longrightarrow> a \<notin> {} \<longrightarrow> ram s' a = ram s a)"
    using fr(2) by (auto simp: mem_kept_def same_on_def)
next
  fix a assume "in_range a (fst B) (snd B)"
  then show "ram s' a = ram s a" using boot_stack_outside(1,2) [OF B] fr(2) unfolding mem_kept_def by blast
qed (use c st xs' in auto)

section \<open>Every call keeps the stacks\<close>

lemma sys_ok_at:
  assumes "sys_ok L dev rax rdi rsi rdx M" "life_inv L (mc_sched M) xs zs bs ubs"
  shows "sys_pre L dev rax rdi rsi rdx M xs zs bs ubs"
  using assms(1) life_unique [OF assms(2)] by (auto simp: sys_ok_def)

text \<open>The buffer that a call fills.\<close>

definition call_writes :: "ptr list \<Rightarrow> u64 \<Rightarrow> u64 \<Rightarrow> u64 \<Rightarrow> ptr set" where
  "call_writes xs rax rdi rsi =
     (let nr = (ucast rax :: u32)
      in if nr = SYSCALL_GET_TIME then {a. in_range a rsi 11}
         else if nr = SYSCALL_KMALLOC_STATS then {a. in_range a rdi 56}
         else if nr = SYSCALL_TASK_LIST then {a. in_range a rdi (8 * min (length xs) (nat (sint (ucast rsi :: i32))))}
         else {})"

definition call_safe ::
  "layout \<Rightarrow> ptr \<times> nat \<Rightarrow> image \<Rightarrow> device \<Rightarrow> u64 \<Rightarrow> u64 \<Rightarrow> u64 \<Rightarrow> u64 \<Rightarrow> u64 \<Rightarrow> u64 \<Rightarrow> machine \<Rightarrow> ptr list \<Rightarrow> blk list \<Rightarrow> bool"
where
  "call_safe L B I dev rax rdi rsi rdx r10 r8 M xs bs \<longleftrightarrow>
     (\<exists>r xs' zs' bs' ubs'. syscall_handler L I dev rax rdi rsi rdx r10 r8 M = Some r \<and>
        life_inv L (mc_sched (sys_machine r)) xs' zs' bs' ubs' \<and>
        call_frame L B (call_writes xs rax rdi rsi) (mc_sched M) xs bs (mc_sched (sys_machine r)) xs' bs')"

lemma call_safeI:
  assumes "syscall_handler L I dev rax rdi rsi rdx r10 r8 M = Some r" "mc_sched (sys_machine r) = s'"
    "life_inv L s' xs' zs' bs' ubs'" "call_frame L B (call_writes xs rax rdi rsi) (mc_sched M) xs bs s' xs' bs'"
  shows "call_safe L B I dev rax rdi rsi rdx r10 r8 M xs bs"
  using assms by (auto simp: call_safe_def)

lemma console_safe:
  assumes k: "kernel_inv L M" and v: "video_apart L" and B: "boot_stack_ok L B" and l: "life_inv L (mc_sched M) xs zs bs ubs"
    and ok: "sys_ok L dev rax rdi rsi rdx M"
    and nr: "ucast rax \<in> {SYSCALL_PRINT_CHAR_POSITION, SYSCALL_PRINT_STRING_POSITION, SYSCALL_PRINT_CHAR,
      SYSCALL_PRINT_STRING, SYSCALL_BACKSPACE, SYSCALL_CLEAN_SCREEN}"
  shows "call_safe L B I dev rax rdi rsi rdx r10 r8 M xs bs"
proof -
  obtain w where w: "syscall_handler L I dev rax rdi rsi rdx r10 r8 M = Some (Ret (put_vga w M) 0)"
      "screen_only (ram (mc_sched M)) (vmem w)" by (rule console_result [OF k ok nr])
  let ?s = "(mc_sched M)\<lparr>ram := vmem w\<rparr>"
  have wf: "heap_wf (ram (mc_sched M)) KERNEL_MAGIC (unat (l_heap_start L)) bs (unat (l_heap_end L))"
    using life_heaps_ok [OF l] by (simp add: heaps_ok_def krep_def)
  have "call_frame L B (call_writes xs rax rdi rsi) (mc_sched M) xs bs ?s xs bs"
  proof (rule frame_write)
    fix q k a assume q: "(q, k) \<in> live bs" "in_range a q k"
    then have "\<not> in_range a VGA_BUF 4000"
      using live_bounds(1,2) [OF wf q(1)] v by (auto simp: video_apart_def disjoint_def in_range_def)
    then show "ram ?s a = ram (mc_sched M) a" using w(2) by (simp add: screen_only_def)
  next
    fix a assume "in_range a (fst B) (snd B)"
    then show "ram ?s a = ram (mc_sched M) a" using boot_stack_outside(3) [OF B] w(2) by (simp add: screen_only_def)
  qed simp_all
  then show ?thesis by (intro call_safeI [OF w(1) _ life_screen [OF l v w(2)]]) (simp_all add: put_vga_def)
qed

lemma device_safe:
  assumes ok: "sys_ok L dev rax rdi rsi rdx M" and l: "life_inv L (mc_sched M) xs zs bs ubs"
    and nr: "ucast rax \<in> {SYSCALL_GETCHAR, SYSCALL_SETPOSCURSOR, SYSCALL_REBOOT} \<or> ucast rax \<notin> syscall_numbers"
  shows "call_safe L B I dev rax rdi rsi rdx r10 r8 M xs bs"
proof -
  let ?s = "mc_sched M"
  have same: "call_frame L B W ?s xs bs (?s\<lparr>if_flag := b\<rparr>) xs bs" "call_frame L B W ?s xs bs ?s xs bs" for W b
    by (auto intro: frame_write)
  consider "ucast rax = SYSCALL_GETCHAR" | "ucast rax = SYSCALL_SETPOSCURSOR" | "ucast rax = SYSCALL_REBOOT"
    | "ucast rax \<notin> syscall_numbers" using nr by blast
  then show ?thesis
  proof cases
    case 1
    then have "syscall_handler L I dev rax rdi rsi rdx r10 r8 M =
        Some (Ret (put_kbd (fst (kbd_getchar (kbd_of M))) M) (getchar_value (snd (kbd_getchar (kbd_of M)))))"
      by (simp add: syscall_handler_def case_prod_beta)
    then show ?thesis by (rule call_safeI [OF _ _ _ same(1)]) (use l in \<open>simp_all add: put_kbd_def\<close>)
  next
    case 2
    then have "syscall_handler L I dev rax rdi rsi rdx r10 r8 M =
        Some (Ret (M\<lparr>mc_io := update_hardware_cursor (ucast rdi) (ucast rsi) (mc_io M)\<rparr>) 0)" by (simp add: syscall_handler_def)
    then show ?thesis by (rule call_safeI [OF _ _ l same(2)]) simp
  next
    case 3
    then obtain tr where "reboot_system dev (mc_io M) = Some tr" using ok by (auto simp: sys_ok_def sys_pre_def Let_def)
    then have "syscall_handler L I dev rax rdi rsi rdx r10 r8 M = Some (Stop (M\<lparr>mc_io := tr\<rparr>))" using 3 by (simp add: syscall_handler_def)
    then show ?thesis by (rule call_safeI [OF _ _ l same(2)]) simp
  next
    case 4
    then show ?thesis by (rule call_safeI [OF unknown_call _ l same(2)]) simp
  qed
qed

lemma heap_safe:
  assumes B: "boot_stack_ok L B" and l: "life_inv L (mc_sched M) xs zs bs ubs" and ok: "sys_ok L dev rax rdi rsi rdx M"
    and nr: "ucast rax \<in> {SYSCALL_MALLOC, SYSCALL_FREE, SYSCALL_REALLOC}"
  shows "call_safe L B I dev rax rdi rsi rdx r10 r8 M xs bs"
proof -
  let ?s = "mc_sched M" and ?W = "call_writes xs rax rdi rsi"
  note pre = sys_ok_at [OF ok l, unfolded sys_pre_def Let_def]
  consider "ucast rax = SYSCALL_MALLOC" | "ucast rax = SYSCALL_FREE" | "ucast rax = SYSCALL_REALLOC"
    using nr by blast
  then show ?thesis
  proof cases
    case 1
    then obtain s' p bs' where m: "k_malloc L rdi ?s = Some (s', p)" "life_inv L s' xs zs bs' ubs" "heap_call L NULL ?s bs s' bs'"
      using life_malloc [OF l, of rdi] pre by auto
    have "call_frame L B ?W ?s xs bs s' xs bs'"
      using frame_heap_call [OF l B m(3)] 1 by (simp add: call_writes_def)
    then show ?thesis using 1 m(1,2)
      by (intro call_safeI [where r = "Ret (M\<lparr>mc_sched := s'\<rparr>) p" and s' = s']) (simp_all add: syscall_handler_def)
  next
    case 2
    then have p: "rdi = NULL \<or> rdi \<in> fst ` live bs - task_blocks L ?s xs zs" using pre by simp
    obtain bs' where m: "life_inv L (k_free rdi ?s) xs zs bs' ubs" "heap_call L rdi ?s bs (k_free rdi ?s) bs'"
      using life_free [OF l p] by blast
    have "call_frame L B ?W ?s xs bs (k_free rdi ?s) xs bs'"
      using frame_heap_call [OF l B m(2) p] 2 by (simp add: call_writes_def)
    then show ?thesis using 2 m(1)
      by (intro call_safeI [where r = "Ret (M\<lparr>mc_sched := k_free rdi ?s\<rparr>) 0" and s' = "k_free rdi ?s"]) (simp_all add: syscall_handler_def)
  next
    case 3
    then have p: "rdi = NULL \<or> rdi \<in> fst ` live bs - task_blocks L ?s xs zs" "rsi = 0 \<or> room rsi ?s" using pre by simp_all
    obtain s' q bs' where m: "k_realloc L rdi rsi ?s = Some (s', q)" "life_inv L s' xs zs bs' ubs" "heap_call L rdi ?s bs s' bs'"
      using life_realloc [OF l p] by blast
    have "call_frame L B ?W ?s xs bs s' xs bs'"
      using frame_heap_call [OF l B m(3) p(1)] 3 by (simp add: call_writes_def)
    then show ?thesis using 3 m(1,2)
      by (intro call_safeI [where r = "Ret (M\<lparr>mc_sched := s'\<rparr>) q" and s' = s']) (simp_all add: syscall_handler_def)
  qed
qed

lemma buffer_safe:
  assumes l: "life_inv L (mc_sched M) xs zs bs ubs" and ok: "sys_ok L dev rax rdi rsi rdx M"
    and nr: "ucast rax \<in> {SYSCALL_KMALLOC_STATS, SYSCALL_GET_TIME}"
  shows "call_safe L B I dev rax rdi rsi rdx r10 r8 M xs bs"
proof -
  let ?s = "mc_sched M" and ?W = "call_writes xs rax rdi rsi"
  note pre = sys_ok_at [OF ok l, unfolded sys_pre_def Let_def]
  consider "ucast rax = SYSCALL_KMALLOC_STATS" | "ucast rax = SYSCALL_GET_TIME" using nr by blast
  then show ?thesis
  proof cases
    case 1
    have "krep (l_heap_start L) (l_heap_end L) (kern_heap ?s, ram ?s) bs" using life_heaps_ok [OF l] by (simp add: heaps_ok_def)
    then obtain st where st: "get_kmalloc_stats (kern_heap ?s, ram ?s) = Some st" using stats_walk by blast
    show ?thesis
    proof (cases "rdi = NULL")
      case True
      have "call_frame L B ?W ?s xs bs ?s xs bs" by (rule frame_write) simp_all
      then show ?thesis using 1 True l by (intro call_safeI [where r = "Ret M 0" and s' = ?s]) (simp_all add: syscall_handler_def)
    next
      case False
      then have b: "caller_buf L xs zs bs ubs rdi 56" using pre 1 by simp
      let ?m = "st_qwords (ram ?s) rdi (stats_words st)"
      have "unat rdi + 56 \<le> 2 ^ 64" using caller_buf_top [OF life_heaps_ok [OF l] b] by simp
      then have out: "?m x = ram ?s x" if "\<not> in_range x rdi 56" for x
        using that by (intro st_qwords_outside) (simp_all add: stats_words_def)
      have "call_frame L B ?W ?s xs bs (?s\<lparr>ram := ?m\<rparr>) xs bs" using out 1 by (intro frame_write) (simp_all add: call_writes_def)
      then show ?thesis using 1 False st life_buffer [OF l b out]
        by (intro call_safeI [where r = "Ret (put_ram ?m M) 0" and s' = "?s\<lparr>ram := ?m\<rparr>"]) (simp_all add: syscall_handler_def put_ram_def Let_def)
    qed
  next
    case 2
    then have b: "caller_buf L xs zs bs ubs rsi 11" using pre by simp
    let ?m = "fst (uint_to_str (ram ?s) (ucast rdi) rsi)"
    have top: "unat rsi + 11 \<le> 2 ^ 64" using caller_buf_top [OF life_heaps_ok [OF l] b] by simp
    have out: "?m x = ram ?s x" if "\<not> in_range x rsi 11" for x
      unfolding uint_to_str_text u32_to_dec_text fst_conv using that top dec_text_length [of "ucast rdi"]
      by (intro st_bytes_outside) (auto simp: in_range_def)
    have "call_frame L B ?W ?s xs bs (?s\<lparr>ram := ?m\<rparr>) xs bs" using out 2 by (intro frame_write) (simp_all add: call_writes_def)
    then show ?thesis using 2 life_buffer [OF l b out]
      by (intro call_safeI [where r = "Ret (put_ram ?m M) (snd (uint_to_str (ram ?s) (ucast rdi) rsi))" and s' = "?s\<lparr>ram := ?m\<rparr>"])
        (simp_all add: syscall_handler_def put_ram_def case_prod_beta Let_def)
  qed
qed

lemma list_safe:
  assumes l: "life_inv L (mc_sched M) xs zs bs ubs" and ok: "sys_ok L dev rax rdi rsi rdx M"
    and nr: "ucast rax = SYSCALL_TASK_LIST"
  shows "call_safe L B I dev rax rdi rsi rdx r10 r8 M xs bs"
proof -
  let ?s = "mc_sched M" and ?W = "call_writes xs rax rdi rsi"
  define n where "n = nat (sint (ucast rsi :: i32))"
  define ts where "ts = take n (map (\<lambda>x. (t_pid (tasks ?s x), t_state (tasks ?s x))) xs)"
  define m where "m = st_task_infos (ram ?s) rdi ts"
  let ?s' = "sti (?s\<lparr>ram := m\<rparr>)"
  have "ring (tasks ?s) (task_ring ?s) xs" using l by (simp add: life_inv_def sched_inv_def sched_ok_def)
  then have tl: "task_list rsi ?s = Some (sti (cli ?s), ts)" unfolding ts_def n_def by (rule task_list_ok)
  have len: "length ts = min (length xs) n" by (simp add: ts_def min.commute)
  have b: "caller_buf L xs zs bs ubs rdi (8 * length ts)"
    using sys_ok_at [OF ok l] nr by (simp add: sys_pre_def len n_def)
  have out: "m x = ram ?s x" if x: "\<not> in_range x rdi (8 * length ts)" for x
  proof (cases "ts = []")
    case False
    then have "unat rdi + 8 * length ts \<le> 2 ^ 64" by (intro caller_buf_top [OF life_heaps_ok [OF l] b]) simp
    then show ?thesis unfolding m_def using x by (rule st_task_infos_outside)
  qed (simp add: m_def)
  have fr: "call_frame L B ?W ?s xs bs ?s' xs bs"
    using out nr by (intro frame_write) (simp_all add: call_writes_def len n_def)
  have "life_inv L (?s\<lparr>ram := m\<rparr>) xs zs bs ubs" by (rule life_buffer [OF l b out])
  then have li: "life_inv L ?s' xs zs bs ubs" by (simp only: life_flag)
  have "(sti (cli ?s))\<lparr>ram := m\<rparr> = ?s'" by (simp add: sti_def cli_def)
  then have "syscall_handler L I dev rax rdi rsi rdx r10 r8 M = Some (Ret (M\<lparr>mc_sched := ?s'\<rparr>) (word_of_nat (length ts)))"
    using nr tl by (simp add: syscall_handler_def m_def)
  from call_safeI [OF this _ li fr] show ?thesis by simp
qed

text \<open>The calls that reap: in all of them the caller is alive, so its own stack stays.\<close>

lemma caller_running:
  assumes l: "life_inv L s xs zs bs ubs" and c: "caller_alive s"
  shows "running L s \<in> set xs" "running L s \<notin> set zs"
  using l c life_init(1,2) [OF l] by (auto simp: running_def caller_alive_def life_inv_def book_def)

lemma zombies_recorded: "life_inv L s xs zs bs ubs \<Longrightarrow> set zs \<subseteq> records L xs zs"
  using life_init(2) by (auto simp: records_def)

lemma frame_reaped:
  assumes l: "life_inv L s xs zs bs ubs" and B: "boot_stack_ok L B" and c: "caller_alive s"
    and r: "freed s (set zs) bs ubs bs' ubs'" "mem_kept L s s' bs'" "current s' = current s" "same_tasks s s' (set (survivors zs xs))"
  shows "call_frame L B {} s xs bs s' (survivors zs xs) bs'"
proof -
  note run = caller_running [OF l c]
  show ?thesis
    using r(4) run by (intro frame_freed [OF l B r(1,2,3) zombies_recorded [OF l]]) (auto simp: same_tasks_def)
qed

lemma stop_safe:
  assumes l: "life_inv L s xs zs bs ubs" and B: "boot_stack_ok L B" and c: "caller_alive s"
  shows "\<exists>r xs' zs' bs' ubs'. task_stop L pid s = Some r \<and> life_inv L (stop_state r) xs' zs' bs' ubs' \<and>
    call_frame L B {} s xs bs (stop_state r) xs' bs'"
proof (cases "pid = 0")
  case True
  have "call_frame L B {} s xs bs s xs bs" by (rule frame_write) simp_all
  then show ?thesis using True l by (intro exI [of _ "Returned s (-1)"]) (auto simp: task_stop_def)
next
  case False
  let ?ys = "survivors zs xs"
  note run = caller_running [OF l c] and zr = zombies_recorded [OF l]
  obtain r xs' zs' bs' ubs' where r: "task_stop L pid s = Some r" "stop_post L s xs zs bs ubs pid r"
      "life_inv L (stop_state r) xs' zs' bs' ubs'" using life_stop [OF l c False] by blast
  have si: "sched_inv L (stop_state r) xs' zs' bs' ubs'" using r(3) by (simp add: life_inv_def)
  have "call_frame L B {} s xs bs (stop_state r) xs' bs'"
  proof (cases "with_pid s pid ?ys")
    case None
    then obtain s' bs2 ubs2 where s': "r = Returned s' (-1)" "sched_inv L s' ?ys [] bs2 ubs2" "freed s (set zs) bs ubs bs2 ubs2"
        "current s' = current s" "same_tasks s s' (set ?ys)" "mem_kept L s s' bs2"
      using r(2) by (auto simp: stop_post_def Let_def)
    have e: "xs' = ?ys" "bs' = bs2" using sched_unique [OF s'(2), of xs' zs' bs' ubs'] si s'(1) by simp_all
    show ?thesis unfolding e s'(1) stop_state.simps by (rule frame_reaped [OF l B c s'(3,6,4,5)])
  next
    case (Some t)
    have t: "t \<in> set ?ys" "t_pid (tasks s t) = pid" using find_in_set [OF Some [unfolded with_pid_def]] by simp_all
    have ti: "t \<noteq> l_init_task L" using t(2) False life_init(3) [OF l] by auto
    let ?zs = "filter (\<lambda>x. x \<noteq> t) ?ys"
    show ?thesis
    proof (cases "t = current s")
      case True
      then obtain s' bs2 ubs2 where s': "r = Halted s'" "sched_inv L s' ?zs [t] bs2 ubs2" "freed s (set zs) bs ubs bs2 ubs2"
          "current s' = t" "same_tasks s s' (set ?ys - {t})" "mem_kept L s s' bs2" "t_kstack (tasks s' t) = t_kstack (tasks s t)"
        using r(2) Some by (auto simp: stop_post_def Let_def)
      have e: "xs' = ?zs" "bs' = bs2" using sched_unique [OF s'(2), of xs' zs' bs' ubs'] si s'(1) by simp_all
      have "t \<noteq> NULL" using t(1) life_init(4) [OF l] by auto
      then have "running L s = t" using True by (simp add: running_def)
      then show ?thesis
        unfolding e s'(1) stop_state.simps using run s'(4,5,7) True
        by (intro frame_freed [OF l B s'(3,6) _ zr]) (auto simp: same_tasks_def)
    next
      case no: False
      then obtain s' bs2 ubs2 where s': "r = Returned s' 0" "sched_inv L s' ?zs [] bs2 ubs2"
          "freed s (insert t (set zs)) bs ubs bs2 ubs2" "current s' = current s" "same_tasks s s' (set ?ys - {t})" "mem_kept L s s' bs2"
        using r(2) Some by (auto simp: stop_post_def Let_def)
      have e: "xs' = ?zs" "bs' = bs2" using sched_unique [OF s'(2), of xs' zs' bs' ubs'] si s'(1) by simp_all
      have "running L s \<noteq> t" using no ti by (auto simp: running_def)
      moreover have "insert t (set zs) \<subseteq> records L xs zs" using zr t(1) ti by (auto simp: records_def)
      ultimately show ?thesis
        unfolding e s'(1) stop_state.simps using run s'(4,5)
        by (intro frame_freed [OF l B s'(3,6)]) (auto simp: same_tasks_def)
    qed
  qed
  then show ?thesis using r(1,3) by blast
qed

lemma exit_safe:
  assumes l: "life_inv L s xs zs bs ubs" and B: "boot_stack_ok L B" and c: "caller_alive s"
  shows "\<exists>s' xs' zs' bs' ubs'. task_exit L code s = Some s' \<and> life_inv L s' xs' zs' bs' ubs' \<and>
    call_frame L B {} s xs bs s' xs' bs'"
proof (cases "current s = NULL \<or> current s = l_init_task L")
  case True
  have "life_inv L (cli s) xs zs bs ubs" "caller_alive (cli s)" using l c by (simp_all add: caller_alive_def)
  then obtain s' bs' ubs' where r: "reap_zombies_internal L (cli s) = Some s'" "life_inv L s' (survivors zs xs) [] bs' ubs'"
      "freed (cli s) (set zs) bs ubs bs' ubs'" "current s' = current (cli s)" "same_tasks (cli s) s' (- set zs)" "mem_kept L (cli s) s' bs'"
    using life_reap by blast
  have "call_frame L B {} s xs bs s' (survivors zs xs) bs'"
    using r(3-6) by (intro frame_reaped [OF l B c, of bs' ubs' s']) (simp_all add: freed_def mem_kept_def same_tasks_def)
  moreover have "task_exit L code s = Some s'" using True r(1,4) by (simp add: task_exit_def)
  ultimately show ?thesis using r(2) by blast
next
  case False
  then have n: "current s \<noteq> NULL" "current s \<noteq> l_init_task L" by auto
  obtain s' bs' ubs' where r: "task_exit L code s = Some s'" "life_inv L s' (survivors zs xs) [current s] bs' ubs'"
      "freed s (set zs) bs ubs bs' ubs'" "current s' = current s" "t_kstack (tasks s' (current s)) = t_kstack (tasks s (current s))"
      "same_tasks s s' (- insert (current s) (set zs))" "mem_kept L s s' bs'"
    using life_exit [OF l c n] by blast
  have e: "running L s = current s" using n(1) by (simp add: running_def)
  have "call_frame L B {} s xs bs s' (survivors zs xs) bs'"
  proof (rule frame_freed [OF l B r(3,7,4) zombies_recorded [OF l]])
    show "t_kstack (tasks s' x) = t_kstack (tasks s x)" if "x \<in> set (survivors zs xs) \<or> x = running L s" for x
      using that r(5,6) e by (cases "x = current s") (auto simp: same_tasks_def)
  qed (use r(6) e caller_running [OF l c] in \<open>auto simp: same_tasks_def\<close>)
  then show ?thesis using r(1,2) by blast
qed

lemma alive_safe:
  assumes l: "life_inv L s xs zs bs ubs" and B: "boot_stack_ok L B" and c: "caller_alive s"
  shows "\<exists>s' b xs' zs' bs' ubs'. task_is_alive L pid s = Some (s', b) \<and> life_inv L s' xs' zs' bs' ubs' \<and>
    call_frame L B {} s xs bs s' xs' bs'"
proof (cases "0 < sint pid")
  case True
  then obtain s' b bs' ubs' where r: "task_is_alive L pid s = Some (s', b)" "life_inv L s' (survivors zs xs) [] bs' ubs'"
      "current s' = current s" "same_tasks s s' (set (survivors zs xs))" "freed s (set zs) bs ubs bs' ubs'" "mem_kept L s s' bs'"
    using life_alive [OF l c True] by blast
  then show ?thesis using frame_reaped [OF l B c r(5,6,3,4)] by blast
next
  case False
  then have "task_is_alive L pid s = Some (cli s, pid = 0)" by (simp add: task_is_alive_def)
  moreover have "call_frame L B {} s xs bs (cli s) xs bs" by (rule frame_write) simp_all
  moreover have "life_inv L (cli s) xs zs bs ubs" using l by simp
  ultimately show ?thesis by blast
qed

lemma task_safe:
  assumes k: "kernel_inv L M" and B: "boot_stack_ok L B" and l: "life_inv L (mc_sched M) xs zs bs ubs"
    and ok: "sys_ok L dev rax rdi rsi rdx M"
    and nr: "ucast rax \<in> {SYSCALL_TASK_CREATE, SYSCALL_TASK_STOP, SYSCALL_REAP_ZOMBIES, SYSCALL_TASK_EXIT, SYSCALL_TASK_IS_ALIVE}"
  shows "call_safe L B I dev rax rdi rsi rdx r10 r8 M xs bs"
proof -
  let ?s = "mc_sched M"
  note pre = sys_ok_at [OF ok l, unfolded sys_pre_def Let_def]
  have W: "call_writes xs rax rdi rsi = {}" using nr by (auto simp: call_writes_def)
  consider "ucast rax = SYSCALL_TASK_CREATE" | "ucast rax = SYSCALL_TASK_STOP" | "ucast rax = SYSCALL_REAP_ZOMBIES"
    | "ucast rax = SYSCALL_TASK_EXIT" | "ucast rax = SYSCALL_TASK_IS_ALIVE" using nr by blast
  then show ?thesis
  proof cases
    case 1
    then have p: "room_for_task L 16384 ?s" "unat (next_pid ?s) + 1 < 2 ^ 31" using pre by simp_all
    have "fs_wf (mc_fs M)" "small_files (mc_fs M)" using k by (simp_all add: kernel_inv_def)
    then obtain s' v xs' bs' ubs' where r: "load_and_run_program L I (mc_fs M) rdi ?s = Some (s', v)"
        "life_inv L s' xs' zs bs' ubs'" "started L ?s xs bs s' xs' bs'"
      using life_program [OF l _ _ p] by blast
    then show ?thesis using 1 frame_started [OF l B r(3)] W
      by (intro call_safeI [where r = "Ret (M\<lparr>mc_sched := s'\<rparr>) v" and s' = s']) (simp_all add: syscall_handler_def)
  next
    case 2
    then have c: "caller_alive ?s" using pre by simp
    obtain r xs' zs' bs' ubs' where r: "task_stop L (ucast rdi) ?s = Some r" "life_inv L (stop_state r) xs' zs' bs' ubs'"
        "call_frame L B {} ?s xs bs (stop_state r) xs' bs'" using stop_safe [OF l B c, of "ucast rdi"] by blast
    show ?thesis using 2 r W by (cases r) (auto intro!: call_safeI simp: syscall_handler_def)
  next
    case 3
    then have c: "caller_alive ?s" using pre by simp
    obtain s' bs' ubs' where r: "reap_zombies L ?s = Some s'" "life_inv L s' (survivors zs xs) [] bs' ubs'"
        "freed ?s (set zs) bs ubs bs' ubs'" "current s' = current ?s" "same_tasks ?s s' (- set zs)" "mem_kept L ?s s' bs'"
      using life_reap [OF l c] by (auto simp: reap_zombies_def)
    have "same_tasks ?s s' (set (survivors zs xs))" using r(5) by (simp add: same_tasks_def)
    then have "call_frame L B {} ?s xs bs s' (survivors zs xs) bs'" by (rule frame_reaped [OF l B c r(3,6,4)])
    then show ?thesis using 3 r W
      by (intro call_safeI [where r = "Ret (M\<lparr>mc_sched := s'\<rparr>) 0" and s' = s']) (simp_all add: syscall_handler_def)
  next
    case 4
    then have c: "caller_alive ?s" using pre by simp
    obtain s' xs' zs' bs' ubs' where r: "task_exit L (ucast rdi) ?s = Some s'" "life_inv L s' xs' zs' bs' ubs'"
        "call_frame L B {} ?s xs bs s' xs' bs'" using exit_safe [OF l B c] by blast
    then show ?thesis using 4 W
      by (intro call_safeI [where r = "Ret (M\<lparr>mc_sched := s'\<rparr>) 0" and s' = s']) (simp_all add: syscall_handler_def)
  next
    case 5
    then have c: "caller_alive ?s" using pre by simp
    obtain s' b xs' zs' bs' ubs' where r: "task_is_alive L (ucast rdi) ?s = Some (s', b)" "life_inv L s' xs' zs' bs' ubs'"
        "call_frame L B {} ?s xs bs s' xs' bs'" using alive_safe [OF l B c] by blast
    then show ?thesis using 5 W
      by (intro call_safeI [where r = "Ret (M\<lparr>mc_sched := s'\<rparr>) (if b then 1 else 0)" and s' = s']) (simp_all add: syscall_handler_def)
  qed
qed

text \<open>All system calls.\<close>

lemma every_call_safe:
  assumes "kernel_inv L M" "video_apart L" "boot_stack_ok L B" "life_inv L (mc_sched M) xs zs bs ubs"
    "sys_ok L dev rax rdi rsi rdx M" "ucast rax \<noteq> SYSCALL_POWER_OFF"
  shows "call_safe L B I dev rax rdi rsi rdx r10 r8 M xs bs"
proof -
  consider "ucast rax \<in> {SYSCALL_PRINT_CHAR_POSITION, SYSCALL_PRINT_STRING_POSITION, SYSCALL_PRINT_CHAR,
      SYSCALL_PRINT_STRING, SYSCALL_BACKSPACE, SYSCALL_CLEAN_SCREEN}"
    | "ucast rax \<in> {SYSCALL_MALLOC, SYSCALL_FREE, SYSCALL_REALLOC}" | "ucast rax \<in> {SYSCALL_KMALLOC_STATS, SYSCALL_GET_TIME}"
    | "ucast rax = SYSCALL_TASK_LIST"
    | "ucast rax \<in> {SYSCALL_TASK_CREATE, SYSCALL_TASK_STOP, SYSCALL_REAP_ZOMBIES, SYSCALL_TASK_EXIT, SYSCALL_TASK_IS_ALIVE}"
    | "ucast rax \<in> {SYSCALL_GETCHAR, SYSCALL_SETPOSCURSOR, SYSCALL_REBOOT} \<or> ucast rax \<notin> syscall_numbers"
    using assms(6) unfolding syscall_numbers_def by blast
  then show ?thesis
  proof cases
    case 1
    then show ?thesis by (rule console_safe [OF assms(1-5)])
  next
    case 2
    then show ?thesis by (rule heap_safe [OF assms(3-5)])
  next
    case 3
    then show ?thesis by (rule buffer_safe [OF assms(4,5)])
  next
    case 4
    then show ?thesis by (rule list_safe [OF assms(4,5)])
  next
    case 5
    then show ?thesis by (rule task_safe [OF assms(1,3,4,5)])
  next
    case 6
    then show ?thesis by (rule device_safe [OF assms(5,4)])
  qed
qed

end
