(* ===== verification/Isolation.thy ===== *)
theory Isolation
  imports Kernel_Frame
begin

text \<open>
  Stubs and handlers together: the invariant of the tasks and the processor, and that the
  keyboard interrupt and system calls keep it.  The keyboard interrupt is invisible, and a
  system call changes \<open>rax\<close> only and leaves the saved registers of the other tasks alone.  Exceptions
  come back unchanged if the processor pushes no error code.
\<close>

section \<open>The invariant of tasks and processor\<close>

text \<open>A task that is not running has its registers in a frame on its stack, where its record points to.\<close>

definition parked :: "layout \<Rightarrow> ptr \<times> nat \<Rightarrow> sched \<Rightarrow> blk list \<Rightarrow> ptr \<Rightarrow> cpu \<Rightarrow> bool" where
  "parked L B s bs x c \<longleftrightarrow> frame_holds (ram s) (frame_base c) c \<and> t_regs (tasks s x) = frame_base c \<and>
     in_stack L B s bs x (frame_base c) 176"

definition proc_inv :: "layout \<Rightarrow> ptr \<times> nat \<Rightarrow> cpu \<times> machine \<Rightarrow> (ptr \<Rightarrow> cpu) \<Rightarrow> bool" where
  "proc_inv L B st ctx \<longleftrightarrow> kernel_inv L (snd st) \<and>
     (\<exists>xs zs bs ubs. life_inv L (mc_sched (snd st)) xs zs bs ubs \<and> tasks_see L B xs bs st ctx)"

lemma see_parked:
  "tasks_see L B xs bs (c, M) ctx \<longleftrightarrow>
     ctx (running L (mc_sched M)) = c \<and> in_stack L B (mc_sched M) bs (running L (mc_sched M)) (frame_base c) 176 \<and>
     (\<forall>x \<in> set xs - {running L (mc_sched M)}. parked L B (mc_sched M) bs x (ctx x))"
  unfolding tasks_see_def Let_def fst_conv snd_conv parked_def by metis

lemma in_stack_ram [simp]: "in_stack L B (s\<lparr>ram := m\<rparr>) bs x p n = in_stack L B s bs x p n"
  by (simp add: in_stack_def)

lemma running_cong: "current s' = current s \<Longrightarrow> running L s' = running L s"
  by (simp add: running_def)

text \<open>
  What happens to the parked tasks when memory and scheduler change but for the registers of
  the running task.
\<close>

lemma parked_cong:
  assumes p: "parked L B s bs x c" and h: "heaps_ok L s bs ubs" and B: "boot_stack_ok L B"
    and r: "t_regs (tasks s' x) = t_regs (tasks s x)" and st: "in_stack L B s' bs' x (frame_base c) 176"
    and m: "same_on (ram s) (ram s') (frame_base c) 176"
  shows "parked L B s' bs' x c"
proof -
  have "in_stack L B s bs x (frame_base c) 176" using p by (simp add: parked_def)
  then have "unat (frame_base c) + 176 \<le> 2 ^ 64" by (rule stack_bounds [OF _ h B])
  then have "unat (frame_base c) + 8 * length (frame_words c) \<le> 2 ^ 64" by simp
  moreover have "same_on (ram s) (ram s') (frame_base c) (8 * length (frame_words c))" using m by simp
  ultimately have "frame_holds (ram s') (frame_base c) c" using words_at_cong p unfolding parked_def by blast
  then show ?thesis using p r st by (simp add: parked_def)
qed

text \<open>A write to the stack of one task does not reach the frames of the others.\<close>

lemma parked_write:
  assumes p: "parked L B s bs x c" and l: "life_inv L s xs zs bs ubs" and B: "boot_stack_ok L B"
    and x: "x \<in> set xs \<union> set zs" "r \<in> set xs \<union> set zs" "r \<noteq> x" and r: "in_stack L B s bs r q n"
    and s': "tasks s' = tasks s" and m: "\<And>a. \<not> in_range a q n \<Longrightarrow> ram s' a = ram s a"
  shows "parked L B s' bs x c"
proof (rule parked_cong [OF p life_heaps_ok [OF l] B])
  have st: "in_stack L B s bs x (frame_base c) 176" using p by (simp add: parked_def)
  then show "in_stack L B s' bs x (frame_base c) 176" by (simp add: in_stack_def s')
  have "disjoint q n (frame_base c) 176" by (rule stacks_apart [OF l B x(3,2) r x(1) st])
  then show "same_on (ram s) (ram s') (frame_base c) 176" using m by (auto simp: same_on_def in_range_def disjoint_def)
qed (simp add: s')

lemma see_own_write:
  assumes see: "tasks_see L B xs bs (c, M) ctx" and l: "life_inv L (mc_sched M) xs zs bs ubs" and B: "boot_stack_ok L B"
    and s': "tasks (mc_sched M') = tasks (mc_sched M)" "current (mc_sched M') = current (mc_sched M)"
    and r: "r = running L (mc_sched M)" "in_stack L B (mc_sched M) bs r (frame_base c') 176" "in_stack L B (mc_sched M) bs r q n"
    and m: "\<And>a. \<not> in_range a q n \<Longrightarrow> ram (mc_sched M') a = ram (mc_sched M) a"
  shows "tasks_see L B xs bs (c', M') (ctx(r := c'))"
proof -
  have rn: "running L (mc_sched M') = r" using r(1) s'(2) by (simp add: running_def)
  have "parked L B (mc_sched M') bs x (ctx x)" if x: "x \<in> set xs" "x \<noteq> r" for x
  proof (rule parked_write [OF _ l B])
    show "parked L B (mc_sched M) bs x (ctx x)" using see x r(1) by (simp add: see_parked)
    show "r \<in> set xs \<union> set zs" using running_task [OF l] r(1) by simp
  qed (use x r(3) s'(1) m in auto)
  moreover have "in_stack L B (mc_sched M') bs r (frame_base c') 176" using r(2) s'(1) by (simp add: in_stack_def)
  ultimately show ?thesis by (simp add: see_parked rn)
qed

text \<open>A task that waits for its first turn is parked with the registers it starts with.\<close>

lemma ready_parked:
  assumes "ready_at s bs x entry" "x \<noteq> l_init_task L"
  shows "parked L B s bs x (first_cpu (tasks s x) entry)"
  using assms unfolding ready_at_def Let_def parked_def in_stack_def within_def by auto

lemma see_call:
  assumes see: "tasks_see L B xs bs (c, M) ctx" and l: "life_inv L (mc_sched M) xs zs bs ubs" and B: "boot_stack_ok L B"
    and fr: "call_frame L B W (mc_sched M) xs bs (mc_sched M') xs' bs'"
    and W: "\<forall>x \<in> set xs - {running L (mc_sched M)}. \<forall>a. in_range a (frame_base (ctx x)) 176 \<longrightarrow> a \<notin> W"
  shows "\<exists>ctx'. (\<forall>x \<in> insert (running L (mc_sched M)) (set xs). ctx' x = ctx x) \<and> tasks_see L B xs' bs' (c, M') ctx' \<and>
    (\<forall>x \<in> set xs' - insert (running L (mc_sched M)) (set xs). \<exists>entry. ctx' x = first_cpu (tasks (mc_sched M') x) entry)"
proof -
  let ?s = "mc_sched M" and ?s' = "mc_sched M'" let ?r = "running L ?s"
  have f: "current ?s' = current ?s" "\<And>x. x \<in> set xs \<inter> set xs' - {?r} \<Longrightarrow> t_regs (tasks ?s' x) = t_regs (tasks ?s x)"
    "\<And>x p n. x \<in> insert ?r (set xs \<inter> set xs') \<Longrightarrow> in_stack L B ?s bs x p n \<Longrightarrow> in_stack L B ?s' bs' x p n"
    "\<And>x p n. x \<in> insert ?r (set xs \<inter> set xs') \<Longrightarrow> in_stack L B ?s bs x p n \<Longrightarrow> \<forall>a. in_range a p n \<longrightarrow> a \<notin> W \<Longrightarrow> same_on (ram ?s) (ram ?s') p n"
    "\<forall>x \<in> set xs' - set xs. \<exists>entry. ready_at ?s' bs' x entry"
    using fr unfolding call_frame_def by blast+
  obtain e where e: "\<And>x. x \<in> set xs' - set xs \<Longrightarrow> ready_at ?s' bs' x (e x)" using bchoice [OF f(5)] by blast
  have rn: "running L ?s' = ?r" using f(1) by (simp add: running_def)
  define ctx' where "ctx' x = (if x \<in> insert ?r (set xs) then ctx x else first_cpu (tasks ?s' x) (e x))" for x
  have "parked L B ?s' bs' x (ctx' x)" if x: "x \<in> set xs'" "x \<noteq> ?r" for x
  proof (cases "x \<in> set xs")
    case True
    have p: "parked L B ?s bs x (ctx x)" using see True x(2) by (simp add: see_parked)
    then have "in_stack L B ?s bs x (frame_base (ctx x)) 176" by (simp add: parked_def)
    moreover have "same_on (ram ?s) (ram ?s') (frame_base (ctx x)) 176"
      by (rule f(4) [OF _ calculation]) (use True x W in auto)
    ultimately have "parked L B ?s' bs' x (ctx x)"
      using f(2,3) True x by (intro parked_cong [OF p life_heaps_ok [OF l] B]) auto
    then show ?thesis using True by (simp add: ctx'_def)
  next
    case False
    then have "x \<noteq> l_init_task L" using life_init(1) [OF l] by auto
    then show ?thesis using False x e [of x] ready_parked by (simp add: ctx'_def)
  qed
  moreover have "ctx' ?r = c \<and> in_stack L B ?s' bs' ?r (frame_base c) 176" using see f(3) by (simp add: see_parked ctx'_def)
  ultimately have "tasks_see L B xs' bs' (c, M') ctx'" by (simp add: see_parked rn)
  then show ?thesis by (intro exI [of _ ctx']) (auto simp: ctx'_def)
qed

section \<open>The keyboard interrupt\<close>

lemma handle_code_if [simp]: "kbd_if (handle_code c s) = kbd_if s"
proof -
  have "kbd_if (fold kbd_buffer_push cs t) = kbd_if t" for cs t by (induction cs arbitrary: t) simp_all
  moreover have "kbd_if (set_mods md s) = kbd_if s" for md by (cases md) (simp add: set_mods_def)
  ultimately show ?thesis by (simp only: handle_code_step)
qed

lemma keyboard_sched: "mc_sched (keyboard_interrupt dev M) = mc_sched M"
proof -
  let ?k = "handle_code (ucast (dev (mc_io M) 0x60)) (kbd_of M)"
  have "kbd_if ?k = if_flag (mc_sched M)" by (simp add: kbd_of_def)
  then show ?thesis
    using put_kbd_sched [of ?k M] by (simp add: keyboard_interrupt_def keyboard_handler_def inb_def Let_def put_kbd_def)
qed

text \<open>The state in which a stub with frame \<open>m\<close> calls C code, and the one in which it returns to \<open>c\<close>.\<close>

lemma proc_enter:
  assumes k: "kernel_inv L M" and l: "life_inv L (mc_sched M) xs zs bs ubs" and B: "boot_stack_ok L B"
    and see: "tasks_see L B xs bs (c, M) ctx"
    and mm: "\<forall>a. \<not> in_range a (frame_base c) 176 \<longrightarrow> m a = ram (mc_sched M) a"
  shows "kernel_inv L (put_ram m (cli_machine M))" "life_inv L (mc_sched (put_ram m (cli_machine M))) xs zs bs ubs"
    "tasks_see L B xs bs (c, put_ram m (cli_machine M)) ctx"
proof -
  let ?r = "running L (mc_sched M)"
  have m: "\<And>a. \<not> in_range a (frame_base c) 176 \<Longrightarrow> m a = ram (mc_sched M) a" using mm by blast
  have c: "ctx ?r = c" "in_stack L B (mc_sched M) bs ?r (frame_base c) 176" using see by (simp_all add: see_parked)
  have s: "mc_sched (put_ram m (cli_machine M)) = cli ((mc_sched M)\<lparr>ram := m\<rparr>)" by (simp add: put_ram_def cli_machine_def cli_def)
  have "life_inv L ((mc_sched M)\<lparr>ram := m\<rparr>) xs zs bs ubs" by (rule life_stack_write [OF l B running_task [OF l] c(2) m])
  then show li: "life_inv L (mc_sched (put_ram m (cli_machine M))) xs zs bs ubs" by (simp add: s)
  have "put_ram m (cli_machine M) = M\<lparr>mc_sched := mc_sched (put_ram m (cli_machine M))\<rparr>" by (simp add: put_ram_def cli_machine_def)
  then show "kernel_inv L (put_ram m (cli_machine M))" using kernel_inv_sched [OF k li] by simp
  have "tasks_see L B xs bs (c, put_ram m (cli_machine M)) (ctx(?r := c))"
    using c(2) m by (intro see_own_write [OF see l B, of _ _ _ "frame_base c" 176]) (simp_all add: s)
  moreover have "ctx(?r := c) = ctx" using c(1) by auto
  ultimately show "tasks_see L B xs bs (c, put_ram m (cli_machine M)) ctx" by simp
qed

lemma proc_flag:
  assumes "kernel_inv L M" "life_inv L (mc_sched M) xs zs bs ubs" "tasks_see L B xs bs (c, M) ctx"
  shows "proc_inv L B (c, set_flag d M) ctx"
proof -
  let ?s = "mc_sched (set_flag d M)"
  have s: "?s = (mc_sched M)\<lparr>if_flag := bit (cpu_rflags d) 9\<rparr>" by (simp add: set_flag_def)
  have li: "life_inv L ?s xs zs bs ubs" using assms(2) by (simp add: s)
  have "running L ?s = running L (mc_sched M)" "\<And>x p n. in_stack L B ?s bs x p n = in_stack L B (mc_sched M) bs x p n"
    "\<And>x e. parked L B ?s bs x e = parked L B (mc_sched M) bs x e" by (simp_all add: s running_def in_stack_def parked_def)
  then have "tasks_see L B xs bs (c, set_flag d M) ctx" using assms(3) unfolding see_parked by simp
  moreover have "kernel_inv L (set_flag d M)" using kernel_inv_sched [OF assms(1) li] by (simp add: set_flag_def)
  ultimately show ?thesis using li by (auto simp: proc_inv_def)
qed

lemma isr33_invisible:
  assumes pi: "proc_inv L B (c, M) ctx" and B: "boot_stack_ok L B"
  shows "\<exists>M'. isr33 dev g (c, M) = (c, M') \<and> proc_inv L B (c, M') ctx \<and>
    tasks (mc_sched M') = tasks (mc_sched M) \<and> current (mc_sched M') = current (mc_sched M) \<and>
    mc_kbd M' = mc_kbd (keyboard_interrupt dev (cli_machine M))"
proof -
  obtain xs zs bs ubs where i: "kernel_inv L M" "life_inv L (mc_sched M) xs zs bs ubs" "tasks_see L B xs bs (c, M) ctx"
    using pi by (auto simp: proc_inv_def)
  obtain m sp where f: "fold push64 (map (gpr c) isr33_saved) (irq_entry c (ram (mc_sched M))) = (m, sp)" by force
  have "in_stack L B (mc_sched M) bs (running L (mc_sched M)) (frame_base c) 176" using i(3) by (simp add: see_parked)
  then have top: "unat (frame_base c) + 176 \<le> 2 ^ 64" by (rule stack_bounds [OF _ life_heaps_ok [OF i(2)] B])
  note sf = stub_frame [OF f stub_lengths(2) top]
  let ?M = "put_ram m (cli_machine M)"
  have "\<forall>a. \<not> in_range a (frame_base c) 176 \<longrightarrow> m a = ram (mc_sched M) a" using sf(3) by blast
  note e = proc_enter [OF i(1,2) B i(3) this]
  let ?K = "keyboard_interrupt dev ?M"
  have ks: "mc_sched ?K = mc_sched ?M" by (rule keyboard_sched)
  have rm: "ram (mc_sched ?M) = m" by (simp add: put_ram_def)
  have "iretq m (fold (pop_reg m) isr33_restored (g, sp)) = c"
    using restored [of m sp "gpr c" isr33_restored c g] sf(2) stub_registers(2,5) by simp
  then have "isr33 dev g (c, M) = (c, set_flag c ?K)"
    using f ks rm by (simp add: isr33_def Let_def cli_machine_def)
  moreover have "proc_inv L B (c, set_flag c ?K) ctx"
  proof (rule proc_flag [OF keyboard_good [OF e(1)]])
    show "life_inv L (mc_sched ?K) xs zs bs ubs" using e(2) by (simp only: ks)
    show "tasks_see L B xs bs (c, ?K) ctx" using e(3) unfolding see_parked ks .
  qed
  moreover have "tasks (mc_sched (set_flag c ?K)) = tasks (mc_sched M)" "current (mc_sched (set_flag c ?K)) = current (mc_sched M)"
    by (simp_all add: set_flag_def ks) (simp_all add: put_ram_def cli_machine_def)
  moreover have "mc_kbd (set_flag c ?K) = mc_kbd (keyboard_interrupt dev (cli_machine M))"
    by (simp add: set_flag_def keyboard_interrupt_def keyboard_handler_def inb_def Let_def put_kbd_def put_ram_def kbd_of_def cli_machine_def)
  ultimately show ?thesis by blast
qed

section \<open>System calls\<close>

text \<open>Overwriting one word of a frame.\<close>

lemma words_at_st64:
  assumes w: "words_at m sp (us @ w # vs)" and top: "unat sp + 8 * length (us @ w # vs) \<le> 2 ^ 64"
  shows "words_at (st64 m (sp + 8 * word_of_nat (length us)) v) sp (us @ v # vs)"
proof -
  let ?q = "sp + 8 * word_of_nat (length us)" let ?m = "st64 m ?q v"
  have u: "unat ?q = unat sp + 8 * length us" using top unat_add_of_nat [of sp "8 * length us"] by simp
  have q8: "unat ?q + 8 \<le> 2 ^ 64" using u top by simp
  have wu: "words_at m sp us" "words_at m (?q + 8) vs" using w by (simp_all add: words_at_append)
  have "same_on m ?m sp (8 * length us)" using u by (intro same_on_st64 q8) (simp add: disjoint_def)
  moreover have "unat sp + 8 * length us \<le> 2 ^ 64" using top by simp
  ultimately have "words_at ?m sp us" by (rule words_at_cong [OF wu(1)])
  moreover have "words_at ?m (?q + 8) vs"
  proof (cases "vs = []")
    case False
    then have "8 \<le> 8 * length vs" by (cases vs) auto
    then have n: "unat (?q + 8) = unat ?q + 8" using top u unat_add_small [of ?q 8] by simp
    have "same_on m ?m (?q + 8) (8 * length vs)" unfolding same_on_def in_range_def n
      using same_on_st64 [of ?q "?q + 8" "8 * length vs" m v] q8 n by (auto simp: disjoint_def same_on_def in_range_def)
    moreover have "unat (?q + 8) + 8 * length vs \<le> 2 ^ 64" using top u n by simp
    ultimately show ?thesis by (rule words_at_cong [OF wu(2)])
  qed simp
  moreover have "ld64 ?m ?q = v" by (rule ld64_st64 [OF q8])
  ultimately show ?thesis by (simp add: words_at_append)
qed

lemma rax_slot:
  assumes "words_at m sp (map (gpr c) isr80_restored @ return_words c)" "unat sp + 160 \<le> 2 ^ 64"
  shows "iretq (st64 m (sp + 112) v) (fold (pop_reg (st64 m (sp + 112) v)) isr80_restored (g, sp)) =
    c\<lparr>gpr := (gpr c)(RAX := v)\<rparr>"
proof (rule restored [OF _ stub_registers(6)])
  let ?rs = "[R15, R14, R13, R12, RBP, RBX, R11, R10, R9, R8, RDI, RSI, RDX, RCX]"
  have r: "isr80_restored = ?rs @ [RAX]" by (simp add: isr80_restored_def)
  have "words_at (st64 m (sp + 8 * word_of_nat (length (map (gpr c) ?rs))) v) sp (map (gpr c) ?rs @ v # return_words c)"
    using assms by (intro words_at_st64 [where w = "gpr c RAX"]) (simp_all add: r)
  then show "words_at (st64 m (sp + 112) v) sp (map ((gpr c)(RAX := v)) isr80_restored @ return_words c)" by (simp add: r)
qed

text \<open>
  The machine when \<open>syscall_handler\<close> starts, and the calls that a well-behaved task makes: its
  buffers are its own memory, and neither on the stack of another task nor in the frame of the stub.
\<close>

definition at_handler :: "cpu \<times> machine \<Rightarrow> machine" where
  "at_handler = (\<lambda>(c, M).
     put_ram (fst (isr80_save c (ram (mc_sched M)))) (cli_machine M))"

definition call_ok :: "layout \<Rightarrow> ptr \<times> nat \<Rightarrow> device \<Rightarrow> cpu \<times> machine \<Rightarrow> bool" where
  "call_ok L B dev = (\<lambda>(c, M). let a = gpr c; s = mc_sched M in
     sys_ok L dev (a RAX) (a RDI) (a RSI) (a RDX) (at_handler (c, M)) \<and> ucast (a RAX) \<noteq> SYSCALL_POWER_OFF \<and>
     (\<forall>xs zs bs ubs. life_inv L s xs zs bs ubs \<longrightarrow> (\<forall>p \<in> call_writes xs (a RAX) (a RDI) (a RSI).
        \<not> in_range p (frame_base c) 176 \<and> (\<forall>x \<in> set xs - {running L s}. \<not> in_stack L B s bs x p 1))))"

lemma in_stack_sub: "in_stack L B s bs x p n \<Longrightarrow> unat p \<le> unat q \<Longrightarrow> unat q + k \<le> unat p + n \<Longrightarrow> in_stack L B s bs x q k"
  unfolding in_stack_def within_def by (auto split: if_splits)

lemma frame_base_gpr [simp]: "frame_base (c\<lparr>gpr := h\<rparr>) = frame_base c"
  by (simp add: frame_base_def)

lemma isr80_handler:
  assumes "isr80_save c (ram (mc_sched M)) = (m0, sp)"
    "syscall_handler L I dev (gpr c RAX) (gpr c RDI) (gpr c RSI) (gpr c RDX) (gpr c R10) (gpr c R8) (at_handler (c, M)) = Some r"
  shows "r = Ret H v \<Longrightarrow> m = st64 (ram (mc_sched H)) (sp + 120) v \<Longrightarrow> c' = iretq m (fold (pop_reg m) isr80_restored (g, sp + 8)) \<Longrightarrow>
      isr80 L I dev g (c, M) = Some (Some c', set_flag c' (put_ram m H))"
    "r = Stop H \<Longrightarrow> isr80 L I dev g (c, M) = Some (None, H)"
  using assms by (simp_all add: isr80_def at_handler_def Let_def cli_machine_def add.commute)

text \<open>The stub after the handler has returned \<open>v\<close>: memory has the frame, with \<open>v\<close> in the slot of \<open>rax\<close>.\<close>

lemma isr80_return:
  assumes k: "kernel_inv L H" and l: "life_inv L (mc_sched H) xs zs bs ubs" and B: "boot_stack_ok L B"
    and see: "tasks_see L B xs bs (c, H) ctx" and r: "r = running L (mc_sched H)"
    and f: "words_at (ram (mc_sched H)) sp (map (gpr c) isr80_restored @ return_words c)"
    and sp: "unat sp = unat (frame_base c) + 16" and m: "m = st64 (ram (mc_sched H)) (sp + 112) v"
  defines "c' \<equiv> c\<lparr>gpr := (gpr c)(RAX := v)\<rparr>"
  shows "iretq m (fold (pop_reg m) isr80_restored (g, sp)) = c'" "proc_inv L B (c', set_flag c' (put_ram m H)) (ctx(r := c'))"
    "life_inv L (mc_sched (set_flag c' (put_ram m H))) xs zs bs ubs"
proof -
  let ?s = "mc_sched H"
  have st: "in_stack L B ?s bs r (frame_base c) 176" using see by (simp add: see_parked r)
  then have top: "unat (frame_base c) + 176 \<le> 2 ^ 64" by (rule stack_bounds [OF _ life_heaps_ok [OF l] B])
  then have t: "unat sp + 160 \<le> 2 ^ 64" using sp by simp
  show "iretq m (fold (pop_reg m) isr80_restored (g, sp)) = c'" unfolding m c'_def by (rule rax_slot [OF f t])
  let ?q = "sp + 112"
  have q: "unat ?q = unat (frame_base c) + 128" using t sp unat_add_small [of sp 112] by simp
  have qs: "in_stack L B ?s bs r ?q 8" by (rule in_stack_sub [OF st]) (simp_all add: q)
  have q8: "unat ?q + 8 \<le> 2 ^ 64" using q top by simp
  have out: "m a = ram ?s a" if "\<not> in_range a ?q 8" for a
    unfolding m st64_def using that q8 by (intro st_outside) (auto simp: in_range_def)
  have "r \<in> set xs \<union> set zs" using running_task [OF l] r by simp
  then have l': "life_inv L (?s\<lparr>ram := m\<rparr>) xs zs bs ubs" using out by (intro life_stack_write [OF l B _ qs]) simp_all
  have e: "put_ram m H = H\<lparr>mc_sched := ?s\<lparr>ram := m\<rparr>\<rparr>" by (simp add: put_ram_def)
  then show "life_inv L (mc_sched (set_flag c' (put_ram m H))) xs zs bs ubs" using l' by (simp add: set_flag_def)
  have "tasks_see L B xs bs (c', put_ram m H) (ctx(r := c'))"
    using st out by (intro see_own_write [OF see l B _ _ r _ qs]) (simp_all add: e c'_def)
  moreover have "kernel_inv L (put_ram m H)" unfolding e by (rule kernel_inv_sched [OF k l'])
  ultimately show "proc_inv L B (c', set_flag c' (put_ram m H)) (ctx(r := c'))"
    using l' by (intro proc_flag) (simp_all add: e)
qed

text \<open>
  What a system call leaves of the registers of the tasks: all tasks of the ring but the caller
  keep theirs, and tasks that are new have the registers that they start with.
\<close>

definition in_ring :: "layout \<Rightarrow> machine \<Rightarrow> ptr \<Rightarrow> bool" where
  "in_ring L M x \<longleftrightarrow> (\<exists>xs zs bs ubs. life_inv L (mc_sched M) xs zs bs ubs \<and> x \<in> set xs)"

definition others_kept :: "layout \<Rightarrow> machine \<Rightarrow> (ptr \<Rightarrow> cpu) \<Rightarrow> machine \<Rightarrow> (ptr \<Rightarrow> cpu) \<Rightarrow> bool" where
  "others_kept L M ctx M' ctx' \<longleftrightarrow>
     (\<forall>x. x \<noteq> running L (mc_sched M) \<longrightarrow>
        (in_ring L M x \<longrightarrow> ctx' x = ctx x) \<and>
        (in_ring L M' x \<and> \<not> in_ring L M x \<longrightarrow> (\<exists>entry. ctx' x = first_cpu (tasks (mc_sched M') x) entry)))"

lemma in_ring_set: "life_inv L (mc_sched M) xs zs bs ubs \<Longrightarrow> in_ring L M x \<longleftrightarrow> x \<in> set xs"
  unfolding in_ring_def using life_unique(1) by blast

lemma handler_run:
  assumes i: "kernel_inv L M" "life_inv L (mc_sched M) xs zs bs ubs" "tasks_see L B xs bs (c, M) ctx"
    and B: "boot_stack_ok L B" and v: "video_apart L" and ok: "call_ok L B dev (c, M)"
    and f: "isr80_save c (ram (mc_sched M)) = (m, sp)"
  obtains r ctx' xs' zs' bs' ubs' where
    "syscall_handler L I dev (gpr c RAX) (gpr c RDI) (gpr c RSI) (gpr c RDX) (gpr c R10) (gpr c R8) (at_handler (c, M)) = Some r"
    "kernel_inv L (sys_machine r)" "life_inv L (mc_sched (sys_machine r)) xs' zs' bs' ubs'"
    "tasks_see L B xs' bs' (c, sys_machine r) ctx'" "others_kept L M ctx (sys_machine r) ctx'"
    "running L (mc_sched (sys_machine r)) = running L (mc_sched M)"
    "words_at (ram (mc_sched (sys_machine r))) (sp + 8) (map (gpr c) isr80_restored @ return_words c)"
    "unat (sp + 8) = unat (frame_base c) + 16"
proof -
  let ?r = "running L (mc_sched M)" and ?a = "gpr c" and ?H = "at_handler (c, M)"
  have st: "in_stack L B (mc_sched M) bs ?r (frame_base c) 176" using i(3) by (simp add: see_parked)
  then have top: "unat (frame_base c) + 176 \<le> 2 ^ 64" by (rule stack_bounds [OF _ life_heaps_ok [OF i(2)] B])
  note sf = save80_frame [OF f top]
  have H: "?H = put_ram m (cli_machine M)" by (simp add: at_handler_def f)
  have "\<forall>a. \<not> in_range a (frame_base c) 176 \<longrightarrow> m a = ram (mc_sched M) a" using sf(3) by blast
  note e = proc_enter [OF i(1,2) B i(3) this, folded H]
  have eq: "tasks (mc_sched ?H) = tasks (mc_sched M)" "running L (mc_sched ?H) = ?r" "ram (mc_sched ?H) = m"
    by (simp_all add: H put_ram_def cli_machine_def running_def)
  let ?W = "call_writes xs (?a RAX) (?a RDI) (?a RSI)"
  have o: "sys_ok L dev (?a RAX) (?a RDI) (?a RSI) (?a RDX) ?H" "ucast (?a RAX) \<noteq> SYSCALL_POWER_OFF"
      "\<And>p. p \<in> ?W \<Longrightarrow> \<not> in_range p (frame_base c) 176"
      "\<And>p x. p \<in> ?W \<Longrightarrow> x \<in> set xs \<Longrightarrow> x \<noteq> ?r \<Longrightarrow> \<not> in_stack L B (mc_sched M) bs x p 1"
    using ok i(2) unfolding call_ok_def Let_def by blast+
  have "call_safe L B I dev (?a RAX) (?a RDI) (?a RSI) (?a RDX) (?a R10) (?a R8) ?H xs bs"
    by (rule every_call_safe [OF e(1) v B e(2) o(1,2)])
  then obtain r xs' zs' bs' ubs' where r: "syscall_handler L I dev (?a RAX) (?a RDI) (?a RSI) (?a RDX) (?a R10) (?a R8) ?H = Some r"
      "life_inv L (mc_sched (sys_machine r)) xs' zs' bs' ubs'"
      "call_frame L B ?W (mc_sched ?H) xs bs (mc_sched (sys_machine r)) xs' bs'"
    unfolding call_safe_def by blast
  have k: "kernel_inv L (sys_machine r)" using any_call [OF e(1) v o(1,2), of I "?a R10" "?a R8"] r(1) by (auto simp: call_good_def)
  have out: "a \<notin> ?W" if x: "x \<in> set xs" "x \<noteq> running L (mc_sched ?H)" "in_range a (frame_base (ctx x)) 176" for x a
  proof -
    have "in_stack L B (mc_sched M) bs x (frame_base (ctx x)) 176" using i(3) x(1,2) eq(2) by (simp add: see_parked parked_def)
    then have "in_stack L B (mc_sched M) bs x a 1" by (rule in_stack_sub) (use x(3) in \<open>auto simp: in_range_def\<close>)
    then show ?thesis using o(4) [of a x] x(1,2) eq(2) by auto
  qed
  have out': "\<forall>x \<in> set xs - {running L (mc_sched ?H)}. \<forall>a. in_range a (frame_base (ctx x)) 176 \<longrightarrow> a \<notin> ?W" using out by blast
  obtain ctx' where c': "\<forall>x \<in> insert ?r (set xs). ctx' x = ctx x" "tasks_see L B xs' bs' (c, sys_machine r) ctx'"
      "\<forall>x \<in> set xs' - insert ?r (set xs). \<exists>entry. ctx' x = first_cpu (tasks (mc_sched (sys_machine r)) x) entry"
    using see_call [OF e(3,2) B r(3) out'] unfolding eq(2) by blast
  have kept: "others_kept L M ctx (sys_machine r) ctx'"
    unfolding others_kept_def in_ring_set [OF i(2)] in_ring_set [OF r(2)] using c'(1,3) by blast
  have rn: "running L (mc_sched (sys_machine r)) = ?r" 
  proof -
    have "current (mc_sched (sys_machine r)) = current (mc_sched ?H)" using r(3) by (simp add: call_frame_def)
    then show ?thesis using running_cong eq(2) by metis
  qed
  have "in_stack L B (mc_sched ?H) bs ?r (frame_base c) 176" using st by (simp add: in_stack_def eq(1))
  then have "same_on m (ram (mc_sched (sys_machine r))) (frame_base c) 176"
    using r(3) o(3) unfolding call_frame_def eq(2,3) by blast
  then have "same_on m (ram (mc_sched (sys_machine r))) (sp + 8) (8 * length (map ?a isr80_restored @ return_words c))"
    by (rule same_on_sub) (simp_all add: sf(1) stub_registers(3))
  then have "words_at (ram (mc_sched (sys_machine r))) (sp + 8) (map ?a isr80_restored @ return_words c)"
    by (rule words_at_cong [OF sf(2)]) (use sf(1) top in \<open>simp add: stub_registers(3)\<close>)
  with that [OF r(1) k r(2) c'(2) kept rn] sf(1) show thesis by blast
qed

lemma isr80_call:
  assumes pi: "proc_inv L B (c, M) ctx" and B: "boot_stack_ok L B" and v: "video_apart L" and ok: "call_ok L B dev (c, M)"
  shows "\<exists>r M' ctx'.
    syscall_handler L I dev (gpr c RAX) (gpr c RDI) (gpr c RSI) (gpr c RDX) (gpr c R10) (gpr c R8) (at_handler (c, M)) = Some r \<and>
    others_kept L M ctx M' ctx' \<and> running L (mc_sched M') = running L (mc_sched M) \<and>
    (case r of
       Ret H v \<Rightarrow> isr80 L I dev g (c, M) = Some (Some (c\<lparr>gpr := (gpr c)(RAX := v)\<rparr>), M') \<and>
         proc_inv L B (c\<lparr>gpr := (gpr c)(RAX := v)\<rparr>, M') ctx'
     | Stop H \<Rightarrow> isr80 L I dev g (c, M) = Some (None, M') \<and> proc_inv L B (c, M') ctx')"
proof -
  obtain xs zs bs ubs where i: "kernel_inv L M" "life_inv L (mc_sched M) xs zs bs ubs" "tasks_see L B xs bs (c, M) ctx"
    using pi by (auto simp: proc_inv_def)
  obtain m sp where f: "isr80_save c (ram (mc_sched M)) = (m, sp)" by force
  obtain r ctx' xs' zs' bs' ubs' where h:
    "syscall_handler L I dev (gpr c RAX) (gpr c RDI) (gpr c RSI) (gpr c RDX) (gpr c R10) (gpr c R8) (at_handler (c, M)) = Some r"
    "kernel_inv L (sys_machine r)" "life_inv L (mc_sched (sys_machine r)) xs' zs' bs' ubs'"
    "tasks_see L B xs' bs' (c, sys_machine r) ctx'" "others_kept L M ctx (sys_machine r) ctx'"
    "running L (mc_sched (sys_machine r)) = running L (mc_sched M)"
    "words_at (ram (mc_sched (sys_machine r))) (sp + 8) (map (gpr c) isr80_restored @ return_words c)"
    "unat (sp + 8) = unat (frame_base c) + 16" by (rule handler_run [OF i B v ok f])
  show ?thesis
  proof (cases r)
    case (Stop M')
    have "proc_inv L B (c, M') ctx'" 
      using h(2-4) [unfolded Stop sys_machine.simps] unfolding proc_inv_def fst_conv snd_conv by blast
    then show ?thesis using isr80_handler(2) [OF f h(1) Stop] h(1,5,6) Stop
      by (intro exI [of _ r] exI [of _ M'] exI [of _ ctx']) simp
  next
    case (Ret H v)
    let ?c = "c\<lparr>gpr := (gpr c)(RAX := v)\<rparr>" and ?r = "running L (mc_sched M)"
    define m' where "m' = st64 (ram (mc_sched H)) (sp + 8 + 112) v"
    let ?M = "set_flag ?c (put_ram m' H)"
    note hr = h [unfolded Ret sys_machine.simps]
    note ret = isr80_return [OF hr(2,3) B hr(4) hr(6) [symmetric] hr(7,8) m'_def]
    have i80: "isr80 L I dev g (c, M) = Some (Some ?c, ?M)" 
      by (rule isr80_handler(1) [OF f h(1) Ret _ ret(1) [symmetric]]) (simp add: m'_def add.assoc)
    have "tasks (mc_sched ?M) = tasks (mc_sched H)" "current (mc_sched ?M) = current (mc_sched H)" by (simp_all add: set_flag_def put_ram_def)
    moreover from this have "running L (mc_sched ?M) = ?r" using running_cong hr(6) by metis
    moreover have "others_kept L M ctx ?M (ctx'(?r := ?c))"
      using hr(5) calculation unfolding others_kept_def in_ring_set [OF ret(3)] in_ring_set [OF hr(3)] by simp
    ultimately show ?thesis using i80 ret(2) h(1) Ret
      by (intro exI [of _ r] exI [of _ ?M] exI [of _ "ctx'(?r := ?c)"]) simp
  qed
qed

section \<open>Exceptions\<close>

lemma exception_plain:
  assumes "unat (frame_base c) + 176 \<le> 2 ^ 64"
  shows "fst (isr_stub None (c, m)) = c"
proof -
  obtain m' sp where f: "fold push64 (map (gpr c) isr32_saved) (irq_entry c m) = (m', sp)" by force
  note sf = stub_frame [OF f stub_lengths(1) assms]
  have "iretq m' (fold (pop_reg m') isr32_restored (gpr c, sp)) = c\<lparr>gpr := gpr c\<rparr>"
    using sf(2) by (intro restored stub_registers(4)) (simp add: stub_registers(1))
  then show ?thesis using f by (simp add: isr_stub_def)
qed

text \<open>With an error code every word of the return frame is taken one place too high.\<close>

lemma exception_code:
  assumes top: "unat (frame_base c) + 176 \<le> 2 ^ 64"
  shows "fst (isr_stub (Some e) (c, m)) =
    c\<lparr>cpu_rip := e, cpu_cs := cpu_rip c, cpu_rflags := cpu_cs c, cpu_rsp := cpu_rflags c, cpu_ss := cpu_rsp c\<rparr>" (is "_ = ?d")
proof -
  let ?vs = "rev (return_words c) @ e # map (gpr c) isr32_saved"
  obtain m' sp where f: "fold push64 ?vs (m, cpu_rsp c AND NOT 0xF) = (m', sp)" by force
  have n: "length ?vs = 21" by simp
  have "sp = frame_base c + 8" using push_base [of ?vs m "cpu_rsp c AND NOT 0xF"] f by (simp add: frame_base_def)
  then have "unat sp = unat (frame_base c) + 8" using top unat_add_small [of "frame_base c" 8] by simp
  then have "unat sp + 8 * length ?vs \<le> 2 ^ 64" using top by (simp only: n)
  with f have "pushed m m' sp ?vs" by (rule pushes)
  then have "words_at m' sp ((map (gpr ?d) isr32_restored @ return_words ?d) @ [cpu_ss c])"
    by (simp add: pushed_def return_words_def stub_registers(1) rev_map)
  then have "words_at m' sp (map (gpr ?d) isr32_restored @ return_words ?d)" unfolding words_at_append [of _ _ _ "[cpu_ss c]"] by blast
  from restored [OF this stub_registers(4)] have "iretq m' (fold (pop_reg m') isr32_restored (gpr c, sp)) = ?d" by simp
  then show ?thesis using f by (simp add: isr_stub_def irq_entry_def return_words_def)
qed

end
