(* ===== verification/System_Runs.thy ===== *)
theory System_Runs
  imports Isolation
begin

text \<open>
  Runs of the whole system: interrupts, system calls and computations of the tasks in any
  order.  Whatever happens between the moment in which a task loses the processor and the
  moment in which it gets it back, it goes on with the registers that it had.
\<close>

section \<open>Runs of the whole system\<close>

text \<open>
  The memory that the running task may write: its stack, and memory of its own that it got from
  a heap.  There is no memory protection, so this is left to the programs.
\<close>

definition own_memory :: "layout \<Rightarrow> ptr \<times> nat \<Rightarrow> machine \<Rightarrow> ptr \<Rightarrow> nat \<Rightarrow> bool" where
  "own_memory L B M p n \<longleftrightarrow> (let s = mc_sched M; r = running L s in
     \<exists>xs zs bs ubs. life_inv L s xs zs bs ubs \<and>
       (in_stack L B s bs r p n \<or>
        caller_buf L xs zs bs ubs p n \<and> (\<forall>a. in_range a p n \<longrightarrow> (\<forall>x \<in> set xs - {r}. \<not> in_stack L B s bs x a 1))))"

definition stack_room :: "layout \<Rightarrow> ptr \<times> nat \<Rightarrow> cpu \<times> machine \<Rightarrow> bool" where
  "stack_room L B = (\<lambda>(c, M). let s = mc_sched M in
     \<exists>xs zs bs ubs. life_inv L s xs zs bs ubs \<and> in_stack L B s bs (running L s) (frame_base c) 176)"

text \<open>
  One step: an interrupt, if interrupts are enabled; a system call, after which the task goes on or,
  if it has stopped itself, waits in the kernel for the next interrupt; or an instruction of
  the running task, which changes registers and flags in any way that leaves room for a frame
  on its stack, and writes to memory of its own.
\<close>

inductive proc_step :: "layout \<Rightarrow> ptr \<times> nat \<Rightarrow> image \<Rightarrow> device \<Rightarrow> cpu \<times> machine \<Rightarrow> cpu \<times> machine \<Rightarrow> bool"
  for L B I dev where
  tick: "if_flag (mc_sched M) \<Longrightarrow> isr32 L g (c, M) = Some st \<Longrightarrow> proc_step L B I dev (c, M) st"
| key: "if_flag (mc_sched M) \<Longrightarrow> isr33 dev g (c, M) = st \<Longrightarrow> proc_step L B I dev (c, M) st"
| call: "call_ok L B dev (c, M) \<Longrightarrow> isr80 L I dev g (c, M) = Some (Some c', M') \<Longrightarrow> proc_step L B I dev (c, M) (c', M')"
| halt: "call_ok L B dev (c, M) \<Longrightarrow> isr80 L I dev g (c, M) = Some (None, M') \<Longrightarrow> stack_room L B (c', M') \<Longrightarrow>
    proc_step L B I dev (c, M) (c', M')"
| compute: "stack_room L B (c', M) \<Longrightarrow> own_memory L B M p n \<Longrightarrow> (\<forall>a. \<not> in_range a p n \<longrightarrow> m a = ram (mc_sched M) a) \<Longrightarrow>
    proc_step L B I dev (c, M) (c', set_flag c' (put_ram m M))"

inductive proc_reach :: "layout \<Rightarrow> ptr \<times> nat \<Rightarrow> image \<Rightarrow> device \<Rightarrow> cpu \<times> machine \<Rightarrow> bool" for L B I dev where
  boot: "power_on M \<Longrightarrow> kmain L I dev idt_addr h (d, M) = Some (d', M') \<Longrightarrow> within (fst B) (snd B) (frame_base c) 176 \<Longrightarrow>
    proc_reach L B I dev (c, M')"
| step: "proc_reach L B I dev st \<Longrightarrow> proc_step L B I dev st st' \<Longrightarrow> proc_reach L B I dev st'"

text \<open>The registers of all other tasks survive each step.\<close>

definition same_others :: "layout \<Rightarrow> machine \<Rightarrow> (ptr \<Rightarrow> cpu) \<Rightarrow> (ptr \<Rightarrow> cpu) \<Rightarrow> bool" where
  "same_others L M ctx ctx' \<longleftrightarrow> (\<forall>x. x \<noteq> running L (mc_sched M) \<longrightarrow> in_ring L M x \<longrightarrow> ctx' x = ctx x)"

lemma isr32_proc:
  assumes pi: "proc_inv L B (c, M) ctx" and B: "boot_stack_ok L B"
  shows "\<exists>M'. isr32 L g (c, M) = Some (ctx (current (mc_sched M')), M') \<and> proc_inv L B (ctx (current (mc_sched M')), M') ctx \<and>
    in_ring L M (current (mc_sched M')) \<and> runnable (tasks (mc_sched M) (current (mc_sched M'))) \<and> in_ring L M' = in_ring L M"
proof -
  obtain xs zs bs ubs where i: "kernel_inv L M" "life_inv L (mc_sched M) xs zs bs ubs" "tasks_see L B xs bs (c, M) ctx"
    using pi by (auto simp: proc_inv_def)
  let ?f = "find (\<lambda>t. runnable (tasks (mc_sched M) t)) (rot (t_next (tasks (mc_sched M) (running L (mc_sched M)))) xs)"
  obtain M' where M': "isr32 L g (c, M) = Some (ctx (current (mc_sched M')), M')" "kernel_inv L M'"
      "life_inv L (mc_sched M') xs zs bs ubs" "tasks_see L B xs bs (ctx (current (mc_sched M')), M') ctx"
      "?f = Some (current (mc_sched M'))"
    using isr32_switch [OF i(1,2) B i(3), of g] by blast
  have "current (mc_sched M') \<in> set xs" "runnable (tasks (mc_sched M) (current (mc_sched M')))"
    using find_in_set [OF M'(5)] by simp_all
  moreover have "proc_inv L B (ctx (current (mc_sched M')), M') ctx" using M'(2-4) by (auto simp: proc_inv_def)
  moreover have "in_ring L M' = in_ring L M" by (simp add: fun_eq_iff in_ring_set [OF i(2)] in_ring_set [OF M'(3)])
  ultimately show ?thesis using M'(1) in_ring_set [OF i(2)] by blast
qed

lemma compute_proc:
  assumes pi: "proc_inv L B (c, M) ctx" and B: "boot_stack_ok L B" and st: "stack_room L B (c', M)"
    and own: "own_memory L B M p n" and mm: "\<forall>a. \<not> in_range a p n \<longrightarrow> m a = ram (mc_sched M) a"
  shows "proc_inv L B (c', set_flag c' (put_ram m M)) (ctx(running L (mc_sched M) := c'))"
proof -
  obtain xs zs bs ubs where i: "kernel_inv L M" "life_inv L (mc_sched M) xs zs bs ubs" "tasks_see L B xs bs (c, M) ctx"
    using pi by (auto simp: proc_inv_def)
  let ?s = "mc_sched M" let ?r = "running L ?s"
  have m: "\<And>a. \<not> in_range a p n \<Longrightarrow> m a = ram ?s a" using mm by blast
  have c': "in_stack L B ?s bs ?r (frame_base c') 176" using st life_unique [OF i(2)] by (auto simp: stack_room_def Let_def)
  have e: "put_ram m M = M\<lparr>mc_sched := ?s\<lparr>ram := m\<rparr>\<rparr>" by (simp add: put_ram_def)
  consider "in_stack L B ?s bs ?r p n"
    | "caller_buf L xs zs bs ubs p n" "\<And>a x. in_range a p n \<Longrightarrow> x \<in> set xs \<Longrightarrow> x \<noteq> ?r \<Longrightarrow> \<not> in_stack L B ?s bs x a 1"
  proof -
    obtain xs2 zs2 bs2 ubs2 where o: "life_inv L ?s xs2 zs2 bs2 ubs2" "in_stack L B ?s bs2 ?r p n \<or> caller_buf L xs2 zs2 bs2 ubs2 p n \<and>
        (\<forall>a. in_range a p n \<longrightarrow> (\<forall>x \<in> set xs2 - {?r}. \<not> in_stack L B ?s bs2 x a 1))"
      using own unfolding own_memory_def Let_def by blast
    show thesis using o(2) that unfolding life_unique [OF i(2) o(1)] by blast
  qed
  then have l: "life_inv L (?s\<lparr>ram := m\<rparr>) xs zs bs ubs \<and> tasks_see L B xs bs (c', put_ram m M) (ctx(?r := c'))"
  proof cases
    case 1
    have "life_inv L (?s\<lparr>ram := m\<rparr>) xs zs bs ubs" using m by (intro life_stack_write [OF i(2) B running_task [OF i(2)] 1]) simp_all
    moreover have "tasks_see L B xs bs (c', put_ram m M) (ctx(?r := c'))"
      using m by (intro see_own_write [OF i(3,2) B _ _ refl c' 1]) (simp_all add: e)
    ultimately show ?thesis by blast
  next
    case 2
    have "parked L B (?s\<lparr>ram := m\<rparr>) bs x (ctx x)" if x: "x \<in> set xs" "x \<noteq> ?r" for x
    proof (rule parked_cong [OF _ life_heaps_ok [OF i(2)] B])
      show p: "parked L B ?s bs x (ctx x)" using i(3) x by (simp add: see_parked)
      then have q: "in_stack L B ?s bs x (frame_base (ctx x)) 176" by (simp add: parked_def)
      then show "in_stack L B (?s\<lparr>ram := m\<rparr>) bs x (frame_base (ctx x)) 176" by simp
      have "\<not> in_range a p n" if a: "in_range a (frame_base (ctx x)) 176" for a
      proof -
        have "in_stack L B ?s bs x a 1" using q by (rule in_stack_sub) (use a in \<open>auto simp: in_range_def\<close>)
        then show ?thesis using 2(2) x by blast
      qed
      then show "same_on (ram ?s) (ram (?s\<lparr>ram := m\<rparr>)) (frame_base (ctx x)) 176" using m by (simp add: same_on_def)
    qed simp
    then have "tasks_see L B xs bs (c', put_ram m M) (ctx(?r := c'))"
      using c' running_cong [of "?s\<lparr>ram := m\<rparr>" ?s L] by (simp add: see_parked e)
    then show ?thesis using life_buffer [OF i(2) 2(1) m] by blast
  qed
  then have "kernel_inv L (put_ram m M)" unfolding e using kernel_inv_sched [OF i(1)] by blast
  then show ?thesis by (rule proc_flag [of L _ xs zs bs ubs]) (use l in \<open>simp_all add: e\<close>)
qed

lemma halt_proc:
  assumes pi: "proc_inv L B (c, M) ctx" and st: "stack_room L B (c', M)"
  shows "proc_inv L B (c', M) (ctx(running L (mc_sched M) := c'))"
proof -
  obtain xs zs bs ubs where i: "kernel_inv L M" "life_inv L (mc_sched M) xs zs bs ubs" "tasks_see L B xs bs (c, M) ctx"
    using pi by (auto simp: proc_inv_def)
  have "in_stack L B (mc_sched M) bs (running L (mc_sched M)) (frame_base c') 176"
    using st life_unique [OF i(2)] by (auto simp: stack_room_def Let_def)
  then have "tasks_see L B xs bs (c', M) (ctx(running L (mc_sched M) := c'))" using i(3) by (simp add: see_parked)
  then show ?thesis using i(1,2) by (auto simp: proc_inv_def)
qed

lemma step_proc:
  assumes step: "proc_step L B I dev (c, M) st'" and pi: "proc_inv L B (c, M) ctx"
    and B: "boot_stack_ok L B" and v: "video_apart L"
  shows "\<exists>ctx'. proc_inv L B st' ctx' \<and> same_others L M ctx ctx'"
  using step
proof (cases rule: proc_step.cases)
  case (tick g)
  then show ?thesis using isr32_proc [OF pi B, of g] by (auto simp: same_others_def)
next
  case (key g)
  then show ?thesis using isr33_invisible [OF pi B, of dev g] by (auto simp: same_others_def)
next
  case (call g c' M')
  obtain r M2 ctx' where r: "others_kept L M ctx M2 ctx'" 
      "case r of Ret H v \<Rightarrow> isr80 L I dev g (c, M) = Some (Some (c\<lparr>gpr := (gpr c)(RAX := v)\<rparr>), M2) \<and>
         proc_inv L B (c\<lparr>gpr := (gpr c)(RAX := v)\<rparr>, M2) ctx'
       | Stop H \<Rightarrow> isr80 L I dev g (c, M) = Some (None, M2) \<and> proc_inv L B (c, M2) ctx'"
    using isr80_call [OF pi B v call(2), of I g] by blast
  then have "proc_inv L B st' ctx'" using call by (cases r) auto
  then show ?thesis using r(1) by (auto simp: same_others_def others_kept_def)
next
  case (halt g M' c')
  obtain r M2 ctx' where r: "others_kept L M ctx M2 ctx'" "running L (mc_sched M2) = running L (mc_sched M)"
      "case r of Ret H v \<Rightarrow> isr80 L I dev g (c, M) = Some (Some (c\<lparr>gpr := (gpr c)(RAX := v)\<rparr>), M2) \<and>
         proc_inv L B (c\<lparr>gpr := (gpr c)(RAX := v)\<rparr>, M2) ctx'
       | Stop H \<Rightarrow> isr80 L I dev g (c, M) = Some (None, M2) \<and> proc_inv L B (c, M2) ctx'"
    using isr80_call [OF pi B v halt(2), of I g] by blast
  then have "proc_inv L B (c, M') ctx'" "M2 = M'" using halt(3) by (cases r; auto)+
  then have "proc_inv L B st' (ctx'(running L (mc_sched M) := c'))" using halt_proc [OF _ halt(4)] r(2) halt(1) by simp
  then show ?thesis using r(1) by (intro exI conjI) (auto simp: same_others_def others_kept_def)
next
  case (compute c' p n m)
  then show ?thesis using compute_proc [OF pi B, of c' p n m] by (intro exI conjI) (auto simp: same_others_def)
qed

text \<open>After boot the init task runs on the boot stack, and every other task waits for its first turn.\<close>

lemma boot_proc:
  assumes P: "platform_ok L I" "rtc_valid dev" and on: "power_on M0" and km: "kmain L I dev idt_addr h (d, M0) = Some (d', M)"
    and c: "within (fst B) (snd B) (frame_base c) 176"
  shows "\<exists>ctx xs bs ubs. proc_inv L B (c, M) ctx \<and> life_inv L (mc_sched M) xs [] bs ubs \<and> if_flag (mc_sched M) \<and>
    running L (mc_sched M) = l_init_task L \<and> (\<forall>x \<in> set xs - {l_init_task L}. bit (cpu_rflags (ctx x)) 9)"
proof -
  obtain t1 ts t2 bs ubs where k: "kernel_inv L M" "current (mc_sched M) = NULL"
      "life_inv L (mc_sched M) (l_init_task L # t1 # ts @ [t2]) [] bs ubs" "ready_at (mc_sched M) bs t1 (user_task1 I)"
      "ready_at (mc_sched M) bs t2 (zombie_reaper_task I)" "\<forall>x \<in> set ts. ready_at (mc_sched M) bs x (t_user_mem (tasks (mc_sched M) x))" "if_flag (mc_sched M)"
    using kmain_runs [OF P on, of idt_addr h d] km by auto
  let ?s = "mc_sched M" and ?xs = "l_init_task L # t1 # ts @ [t2]"
  have r: "running L ?s = l_init_task L" using k(2) by (simp add: running_def)
  have "\<exists>e. ready_at ?s bs x e" if "x \<in> set ?xs - {l_init_task L}" for x using that k(4-6) by auto
  then obtain e where e: "\<And>x. x \<in> set ?xs - {l_init_task L} \<Longrightarrow> ready_at ?s bs x (e x)" using bchoice by metis
  let ?ctx = "\<lambda>x. if x = l_init_task L then c else first_cpu (tasks ?s x) (e x)"
  have "tasks_see L B ?xs bs (c, M) ?ctx"
    unfolding see_parked r using c e ready_parked [of ?s bs _ _ L B] by (simp add: in_stack_def)
  then have "proc_inv L B (c, M) ?ctx" using k(1,3) unfolding proc_inv_def fst_conv snd_conv by blast
  moreover have "bit (cpu_rflags (?ctx x)) 9" if "x \<in> set ?xs - {l_init_task L}" for x
    using that by (simp add: initial_cpu_def bit_numeral_word_iff)
  ultimately show ?thesis using k(3,7) r by (intro exI [of _ ?ctx] exI [of _ ?xs] exI [of _ bs] exI [of _ ubs]) blast
qed

lemma reach_proc:
  "proc_reach L B I dev st \<Longrightarrow> platform_ok L I \<Longrightarrow> rtc_valid dev \<Longrightarrow> boot_stack_ok L B \<Longrightarrow> \<exists>ctx. proc_inv L B st ctx"
proof (induction rule: proc_reach.induct)
  case (boot M idt_addr h d d' M' c)
  then show ?case using boot_proc by blast
next
  case (step st st')
  then obtain ctx where "proc_inv L B st ctx" by blast
  then show ?case using step.hyps(2) step.prems step_proc [of L B I dev "fst st" "snd st" st' ctx] by (auto simp: platform_ok_def)
qed

section \<open>Losing the processor and getting it back\<close>

text \<open>
  Successive timer interrupts, and runs in which a task stays in the ring and does not have
  the processor, but perhaps at the end.
\<close>

fun isr32s :: "layout \<Rightarrow> (reg \<Rightarrow> u64) \<Rightarrow> nat \<Rightarrow> cpu \<times> machine \<Rightarrow> (cpu \<times> machine) option" where
  "isr32s L g 0 st = Some st"
| "isr32s L g (Suc n) st = Option.bind (isr32 L g st) (isr32s L g n)"

inductive away :: "layout \<Rightarrow> ptr \<times> nat \<Rightarrow> image \<Rightarrow> device \<Rightarrow> ptr \<Rightarrow> cpu \<times> machine \<Rightarrow> cpu \<times> machine \<Rightarrow> bool"
  for L B I dev t st where
  start: "away L B I dev t st st"
| step: "away L B I dev t st st' \<Longrightarrow> running L (mc_sched (snd st')) \<noteq> t \<Longrightarrow> proc_step L B I dev st' st'' \<Longrightarrow>
    in_ring L (snd st'') t \<Longrightarrow> away L B I dev t st st''"

lemma away_keeps:
  assumes "away L B I dev t st st'" "proc_inv L B st ctx" "in_ring L (snd st) t" "boot_stack_ok L B" "video_apart L"
  shows "\<exists>ctx'. proc_inv L B st' ctx' \<and> ctx' t = ctx t \<and> in_ring L (snd st') t"
  using assms
proof (induction rule: away.induct)
  case start
  then show ?case by blast
next
  case (step st' st'')
  then obtain ctx' where c: "proc_inv L B st' ctx'" "ctx' t = ctx t" "in_ring L (snd st') t" by blast
  then obtain ctx'' where "proc_inv L B st'' ctx''" "same_others L (snd st') ctx' ctx''"
    using step_proc [of L B I dev "fst st'" "snd st'" st'' ctx'] step.hyps(3) step.prems by auto
  then show ?case using c step.hyps(2,4) by (auto simp: same_others_def)
qed

lemma away_first:
  assumes "away L B I dev t st' st''" "proc_step L B I dev st st'" "running L (mc_sched (snd st)) \<noteq> t" "in_ring L (snd st') t"
  shows "away L B I dev t st st''"
  using assms
proof (induction rule: away.induct)
  case start
  then show ?case using away.step [OF away.start] by blast
next
  case (step st1 st2)
  then show ?case using away.step by blast
qed

lemma proc_running: "proc_inv L B (c, M) ctx \<Longrightarrow> ctx (running L (mc_sched M)) = c"
  by (auto simp: proc_inv_def see_parked)

lemma first_before: "us @ t # ws = v1 @ c # v2 \<Longrightarrow> t \<notin> set v1 \<Longrightarrow> t \<noteq> c \<Longrightarrow> \<exists>w. us = v1 @ c # w"
proof (induction v1 arbitrary: us)
  case Nil
  then show ?case by (cases us) auto
next
  case (Cons x v1)
  then show ?case by (cases us) auto
qed

text \<open>
  One round of the timer gives the processor to any task of the ring that can run, as long as
  the tasks before it leave interrupts enabled.
\<close>

lemma timer_round:
  assumes "proc_inv L B (c, M) ctx" "boot_stack_ok L B" "life_inv L (mc_sched M) xs zs bs ubs" "if_flag (mc_sched M)"
    "\<forall>x \<in> set xs. bit (cpu_rflags (ctx x)) 9" "t \<notin> set zs"
    "rot (t_next (tasks (mc_sched M) (running L (mc_sched M)))) xs = us @ t # ws" "t \<notin> set us"
  shows "\<exists>st M' n. isr32 L g (c, M) = Some st \<and> in_ring L (snd st) t \<and> away L B I dev t st (ctx t, M') \<and> current (mc_sched M') = t \<and>
    n \<le> length us \<and> isr32s L g n st = Some (ctx t, M')"
  using assms
proof (induction "length us" arbitrary: us ws c M rule: less_induct)
  case less
  let ?s = "mc_sched M" and ?P = "\<lambda>x. runnable (tasks (mc_sched M) x)"
  note l = less.prems(3)
  have k: "kernel_inv L M" and see: "tasks_see L B xs bs (c, M) ctx"
    using less.prems(1) life_unique [OF l] by (auto simp: proc_inv_def)
  obtain M1 where M1: "isr32 L g (c, M) = Some (ctx (current (mc_sched M1)), M1)" "kernel_inv L M1"
      "life_inv L (mc_sched M1) xs zs bs ubs" "tasks_see L B xs bs (ctx (current (mc_sched M1)), M1) ctx"
      "find ?P (us @ t # ws) = Some (current (mc_sched M1))" "if_flag (mc_sched M1) = bit (cpu_rflags (ctx (current (mc_sched M1)))) 9"
    using isr32_switch [OF k l less.prems(2) see, of g] unfolding less.prems(7) by blast
  let ?c = "current (mc_sched M1)"
  have p1: "proc_inv L B (ctx ?c, M1) ctx" using M1(2-4) by (auto simp: proc_inv_def)
  have txs: "t \<in> set xs" using arg_cong [OF less.prems(7), of set] by auto
  then have r1: "in_ring L M1 t" by (simp add: in_ring_set [OF M1(3)])
  have "?c \<in> set (us @ t # ws)" using find_in_set [OF M1(5)] by blast
  then have cx: "?c \<in> set xs" using arg_cong [OF less.prems(7), of set] by auto
  show ?case
  proof (cases "?c = t")
    case True
    then show ?thesis using M1(1) r1 away.start by (intro exI [of _ "(ctx ?c, M1)"] exI [of _ M1] exI [of _ 0]) auto
  next
    case False
    have Pt: "?P t" using l less.prems(6) txs by (simp add: life_inv_def book_def)
    obtain u1 u2 where us: "us = u1 @ ?c # u2"
    proof -
      obtain v1 v2 where v: "us @ t # ws = v1 @ ?c # v2" "\<forall>x \<in> set v1. \<not> ?P x" using M1(5) by (elim find_split)
      have "t \<notin> set v1" using v(2) Pt by blast
      then obtain w where "us = v1 @ ?c # w" using first_before [OF v(1)] False by metis
      then show thesis using that by blast
    qed
    have ring: "ring (tasks (mc_sched M1)) (task_ring (mc_sched M1)) xs" using M1(3) by (simp add: life_inv_def sched_inv_def sched_ok_def)
    have "t_next (tasks ?s (running L ?s)) \<in> set xs"
      using l ring_next [of "tasks ?s" "task_ring ?s" xs "l_init_task L"] by (auto simp: life_inv_def sched_inv_def sched_ok_def running_def)
    then have "rot (t_next (tasks (mc_sched M1) ?c)) xs = u2 @ t # (ws @ u1 @ [?c])"
      using rot_again [OF ring, of _ u1 ?c "u2 @ t # ws"] less.prems(7) us by simp
    moreover have cn: "?c \<noteq> NULL" using cx ring by (auto simp: ring_def)
    ultimately have rot1: "rot (t_next (tasks (mc_sched M1) (running L (mc_sched M1)))) xs = u2 @ t # (ws @ u1 @ [?c])" by (simp add: running_def)
    have fl: "if_flag (mc_sched M1)" using M1(6) less.prems(5) cx by simp
    have "length u2 < length us" by (simp add: us)
    from less.hyps [OF this p1 less.prems(2) M1(3) fl less.prems(5,6) rot1] less.prems(8) us
    obtain st M' n where st: "isr32 L g (ctx ?c, M1) = Some st" "in_ring L (snd st) t" "away L B I dev t st (ctx t, M')"
        "current (mc_sched M') = t" "n \<le> length u2" "isr32s L g n st = Some (ctx t, M')" by auto
    have "running L (mc_sched M1) \<noteq> t" using False cn by (simp add: running_def)
    then have "away L B I dev t (ctx ?c, M1) (ctx t, M')" using away_first [OF st(3) proc_step.tick [OF fl st(1)]] st(2) by simp
    then show ?thesis using M1(1) r1 st us by (intro exI [of _ "(ctx ?c, M1)"] exI [of _ M'] exI [of _ "Suc n"]) (auto dest: arg_cong [of _ _ length])
  qed
qed

section \<open>A booted machine\<close>

definition idle_cpu :: cpu where
  "idle_cpu = \<lparr>gpr = (\<lambda>_. 0)(RAX := 4), cpu_rip = 0x7000, cpu_cs = 0x08, cpu_rflags = 0x202, cpu_rsp = 0x9000, cpu_ss = 0x10\<rparr>"

abbreviation demo_stack :: "ptr \<times> nat" where
  "demo_stack \<equiv> (0x8000, 0x1000)"

lemma idle_base [simp]: "frame_base idle_cpu = 0x8F50"
  by (simp add: frame_base_def idle_cpu_def)

lemma big_stack: "boot_stack_ok big_L demo_stack"
  by (simp add: boot_stack_ok_def disjoint_def)

lemma big_idle:
  obtains M ctx xs bs ubs where "proc_reach big_L demo_stack big_I demo_dev (idle_cpu, M)" "proc_inv big_L demo_stack (idle_cpu, M) ctx"
    "life_inv big_L (mc_sched M) xs [] bs ubs" "if_flag (mc_sched M)" "running big_L (mc_sched M) = 0x800"
    "\<forall>x \<in> set xs. bit (cpu_rflags (ctx x)) 9" "0x800 \<in> set xs"
proof -
  obtain d' M where km: "kmain big_L big_I demo_dev 0x8000 demo_isrs (demo_idt, big_machine) = Some (d', M)"
    using kmain_runs [OF big_platform demo_rtc big_power_on, of "0x8000" demo_isrs demo_idt] by blast
  have w: "within (fst demo_stack) (snd demo_stack) (frame_base idle_cpu) 176" by (simp add: within_def)
  obtain ctx xs bs ubs where b: "proc_inv big_L demo_stack (idle_cpu, M) ctx" "life_inv big_L (mc_sched M) xs [] bs ubs"
      "if_flag (mc_sched M)" "running big_L (mc_sched M) = 0x800" "\<forall>x \<in> set xs - {0x800}. bit (cpu_rflags (ctx x)) 9"
    using boot_proc [OF big_platform demo_rtc big_power_on km w] by auto
  have "ctx 0x800 = idle_cpu" using proc_running [OF b(1)] b(4) by simp
  then have "\<forall>x \<in> set xs. bit (cpu_rflags (ctx x)) 9" using b(5) by (auto simp: idle_cpu_def bit_numeral_word_iff)
  moreover have "0x800 \<in> set xs" using life_init(1) [OF b(2)] by simp
  ultimately show thesis using that [OF proc_reach.boot [OF big_power_on km w] b(1-4)] by blast
qed

lemma round_split:
  assumes l: "life_inv L (mc_sched M) xs zs bs ubs" and t: "t \<in> set xs"
  obtains us ws where "rot (t_next (tasks (mc_sched M) (running L (mc_sched M)))) xs = us @ t # ws" "t \<notin> set us" "length us < length xs"
proof -
  let ?R = "rot (t_next (tasks (mc_sched M) (running L (mc_sched M)))) xs"
  obtain us ws where us: "?R = us @ t # ws" "t \<notin> set us" using split_list_first [of t ?R] t by auto
  moreover have "length us < length xs" using arg_cong [OF us(1), of length] by simp
  ultimately show thesis using that by blast
qed

lemma frame_flags: "frame_holds m sp c \<Longrightarrow> ld64 m (sp + 152) = cpu_rflags c"
proof -
  assume "frame_holds m sp c"
  then have "ld64 m (sp + 8 * word_of_nat 19) = frame_words c ! 19" unfolding words_at_def by (elim allE [of _ 19]) simp
  moreover have "frame_words c ! 19 = cpu_rflags c" by (simp add: frame_words_def isr32_restored_def return_words_def)
  ultimately show ?thesis by simp
qed

section \<open>Properties of the processor\<close>

text \<open>
  C1: A task that the timer has interrupted gets the processor back with exactly the registers, the
  instruction pointer, the flags and the stack pointer that it had, whatever happened in
  between: any sequence of timer and keyboard interrupts, system calls of other
  tasks that start, stop and reap tasks, allocate and print, and computations of other tasks
  in memory of their own, in any order, from any state that the system reaches after boot.
\<close>

theorem preempted_task_resumes:
  assumes "platform_ok L I" "rtc_valid dev" "boot_stack_ok L B" "proc_reach L B I dev (c, M)"
    "in_ring L M (running L (mc_sched M))" "isr32 L g (c, M) = Some st"
    "away L B I dev (running L (mc_sched M)) st (c', M')" "running L (mc_sched M') = running L (mc_sched M)"
  shows "c' = c"
proof -
  let ?t = "running L (mc_sched M)"
  obtain ctx where pi: "proc_inv L B (c, M) ctx" using reach_proc [OF assms(4,1,2,3)] by blast
  obtain M1 where M1: "st = (ctx (current (mc_sched M1)), M1)" "proc_inv L B st ctx" "in_ring L M1 = in_ring L M"
    using isr32_proc [OF pi assms(3), of g] assms(6) by auto
  have "video_apart L" using assms(1) by (simp add: platform_ok_def)
  then obtain ctx' where "proc_inv L B (c', M') ctx'" "ctx' ?t = ctx ?t"
    using away_keeps [OF assms(7) M1(2) _ assms(3)] assms(5) M1(1,3) by auto
  then show ?thesis using proc_running assms(8) pi by metis
qed

theorem preempted_task_resumes_witness:
  "\<exists>M st c' M'. proc_reach big_L demo_stack big_I demo_dev (idle_cpu, M) \<and> isr32 big_L (\<lambda>_. 0) (idle_cpu, M) = Some st \<and>
     away big_L demo_stack big_I demo_dev 0x800 st (c', M') \<and> current (mc_sched M') = 0x800 \<and> c' = idle_cpu"
proof -
  obtain M ctx xs bs ubs where b: "proc_reach big_L demo_stack big_I demo_dev (idle_cpu, M)" "proc_inv big_L demo_stack (idle_cpu, M) ctx"
    "life_inv big_L (mc_sched M) xs [] bs ubs" "if_flag (mc_sched M)" "running big_L (mc_sched M) = 0x800"
    "\<forall>x \<in> set xs. bit (cpu_rflags (ctx x)) 9" "0x800 \<in> set xs" by (rule big_idle)
  obtain us ws where u: "rot (t_next (tasks (mc_sched M) (running big_L (mc_sched M)))) xs = us @ 0x800 # ws" "0x800 \<notin> set us"
    by (rule round_split [OF b(3,7)])
  obtain st M' where r: "isr32 big_L (\<lambda>_. 0) (idle_cpu, M) = Some st" "away big_L demo_stack big_I demo_dev 0x800 st (ctx 0x800, M')"
      "current (mc_sched M') = 0x800"
    using timer_round [OF b(2) big_stack b(3,4,6) _ u, of "\<lambda>_. 0" big_I demo_dev] by auto
  have "running big_L (mc_sched M') = 0x800" using r(3) by (simp add: running_def)
  then have "ctx 0x800 = idle_cpu"
    using preempted_task_resumes [OF big_platform demo_rtc big_stack b(1) _ r(1)] r(2) b(5,7) in_ring_set [OF b(3)] by simp
  then show ?thesis using b(1) r by metis
qed

text \<open>
  C2: Interrupts are invisible.  In every state that the system reaches, each task of the ring has
  registers of its own: those of the running task are in the processor and those of each
  other task in the frame on its stack.  The timer interrupt puts the registers
  of a task of the ring that can run into the processor, and changes none; the
  keyboard interrupt returns to the registers it came from.
\<close>

theorem interrupts_invisible:
  assumes "platform_ok L I" "rtc_valid dev" "boot_stack_ok L B" "proc_reach L B I dev (c, M)"
  shows "\<exists>ctx. proc_inv L B (c, M) ctx \<and> ctx (running L (mc_sched M)) = c \<and>
    (\<exists>M'. isr32 L g (c, M) = Some (ctx (current (mc_sched M')), M') \<and> proc_inv L B (ctx (current (mc_sched M')), M') ctx \<and>
       in_ring L M (current (mc_sched M')) \<and> runnable (tasks (mc_sched M) (current (mc_sched M'))) \<and> in_ring L M' = in_ring L M) \<and>
    (\<exists>M'. isr33 dev g (c, M) = (c, M') \<and> proc_inv L B (c, M') ctx \<and> tasks (mc_sched M') = tasks (mc_sched M) \<and>
       current (mc_sched M') = current (mc_sched M) \<and> mc_kbd M' = mc_kbd (keyboard_interrupt dev (cli_machine M)))"
proof -
  obtain ctx where pi: "proc_inv L B (c, M) ctx" using reach_proc [OF assms(4,1,2,3)] by blast
  then show ?thesis
    using isr32_proc [OF pi assms(3), of g] isr33_invisible [OF pi assms(3), of dev g] proc_running [OF pi]
    by (intro exI [of _ ctx] conjI)
qed

theorem interrupts_invisible_witness:
  "\<exists>M ctx. proc_inv big_L demo_stack (idle_cpu, M) ctx \<and> ctx (running big_L (mc_sched M)) = idle_cpu"
proof -
  obtain M where "proc_reach big_L demo_stack big_I demo_dev (idle_cpu, M)" by (rule big_idle)
  from interrupts_invisible [OF big_platform demo_rtc big_stack this] show ?thesis by blast
qed

text \<open>
  C5: A system call of a well-behaved task through \<open>isr80\<close> returns to the instruction behind it with
  the result of \<open>syscall_handler\<close> in \<open>rax\<close> and all other registers unchanged, or does not
  return if the handler stops the caller.  The other tasks keep their registers, and a task that
  is new starts with cleared registers at its entry point.
\<close>

theorem call_changes_rax_only:
  assumes "platform_ok L I" "rtc_valid dev" "boot_stack_ok L B" "proc_reach L B I dev (c, M)" "call_ok L B dev (c, M)"
  shows "\<exists>ctx r M' ctx'. proc_inv L B (c, M) ctx \<and>
    syscall_handler L I dev (gpr c RAX) (gpr c RDI) (gpr c RSI) (gpr c RDX) (gpr c R10) (gpr c R8) (at_handler (c, M)) = Some r \<and>
    others_kept L M ctx M' ctx' \<and>
    (case r of
       Ret H v \<Rightarrow> isr80 L I dev g (c, M) = Some (Some (c\<lparr>gpr := (gpr c)(RAX := v)\<rparr>), M') \<and>
         proc_inv L B (c\<lparr>gpr := (gpr c)(RAX := v)\<rparr>, M') ctx'
     | Stop H \<Rightarrow> isr80 L I dev g (c, M) = Some (None, M') \<and> proc_inv L B (c, M') ctx')"
proof -
  obtain ctx where pi: "proc_inv L B (c, M) ctx" using reach_proc [OF assms(4,1,2,3)] by blast
  have "video_apart L" using assms(1) by (simp add: platform_ok_def)
  from isr80_call [OF pi assms(3) this assms(5), of I g] pi show ?thesis by blast
qed

lemma idle_call_ok:
  assumes "proc_inv big_L demo_stack (idle_cpu, M) ctx"
  shows "call_ok big_L demo_stack demo_dev (idle_cpu, M)"
proof -
  obtain xs zs bs ubs where i: "kernel_inv big_L M" "life_inv big_L (mc_sched M) xs zs bs ubs" "tasks_see big_L demo_stack xs bs (idle_cpu, M) ctx"
    using assms by (auto simp: proc_inv_def)
  obtain m sp where f: "isr80_save idle_cpu (ram (mc_sched M)) = (m, sp)" by force
  have "\<forall>a. \<not> in_range a (frame_base idle_cpu) 176 \<longrightarrow> m a = ram (mc_sched M) a" using save80_frame(3) [OF f] by simp
  from proc_enter(2) [OF i(1,2) big_stack i(3) this]
  have "life_inv big_L (mc_sched (at_handler (idle_cpu, M))) xs zs bs ubs" by (simp add: at_handler_def f)
  then show ?thesis by (auto simp: call_ok_def Let_def sys_ok_def sys_pre_def idle_cpu_def call_writes_def)
qed

theorem call_changes_rax_only_witness:
  "\<exists>M r c' M'. isr80 big_L big_I demo_dev (\<lambda>_. 0) (idle_cpu, M) = Some (c', M') \<and> (c' = None \<or> c' = Some (idle_cpu\<lparr>gpr := (gpr idle_cpu)(RAX := r)\<rparr>))"
proof -
  obtain M ctx where M: "proc_reach big_L demo_stack big_I demo_dev (idle_cpu, M)" "proc_inv big_L demo_stack (idle_cpu, M) ctx" by (rule big_idle)
  from call_changes_rax_only [OF big_platform demo_rtc big_stack M(1) idle_call_ok [OF M(2)], of "\<lambda>_. 0"]
  obtain r M' ctx' where "case r of
       Ret H v \<Rightarrow> isr80 big_L big_I demo_dev (\<lambda>_. 0) (idle_cpu, M) = Some (Some (idle_cpu\<lparr>gpr := (gpr idle_cpu)(RAX := v)\<rparr>), M') \<and>
         proc_inv big_L demo_stack (idle_cpu\<lparr>gpr := (gpr idle_cpu)(RAX := v)\<rparr>, M') ctx'
     | Stop H \<Rightarrow> isr80 big_L big_I demo_dev (\<lambda>_. 0) (idle_cpu, M) = Some (None, M') \<and> proc_inv big_L demo_stack (idle_cpu, M') ctx'"
    by blast
  then show ?thesis by (cases r; simp; blast)
qed



text \<open>
  C28: The stub of an exception for which the processor pushes no error code returns to the
  instruction that raised it with all registers unchanged.  The stubs do not remove an error
  code: if there is one, the stub \<open>returns\<close> to the address that is the error code, with the
  instruction pointer as code segment and the flags as stack pointer.
\<close>

theorem exception_stubs_return:
  assumes "unat (frame_base c) + 176 \<le> 2 ^ 64"
  shows "fst (isr_stub None (c, m)) = c \<and>
    fst (isr_stub (Some e) (c, m)) =
      c\<lparr>cpu_rip := e, cpu_cs := cpu_rip c, cpu_rflags := cpu_cs c, cpu_rsp := cpu_rflags c, cpu_ss := cpu_rsp c\<rparr>"
  using exception_plain [OF assms] exception_code [OF assms] by simp_all

theorem exception_stubs_return_witness:
  "fst (isr_stub None (idle_cpu, \<lambda>_. 0)) = idle_cpu \<and> cpu_rip (fst (isr_stub (Some 0) (idle_cpu, \<lambda>_. 0))) = 0"
  using exception_stubs_return [of idle_cpu "\<lambda>_. 0" 0] by simp

end
