(* ===== verification/Reports.thy ===== *)
theory Reports
  imports Kernel_Malloc Vga Decimal "HOL-Library.Monad_Syntax"
begin

text \<open>
  Text at fixed places of the screen: the report on the kernel heap (\<open>print_kmalloc_stats\<close> of
  \<open>malloc/malloc.c\<close>), the panic of the stack protector (\<open>libc/stack_protector.c\<close>) and the debug
  functions of \<open>kernel.c\<close>.  String literals are addresses in the kernel image, given by
  a function \<open>lit\<close>; local buffers are addresses given as parameters.
\<close>

section \<open>The report on the heap\<close>

text \<open>Printing at \<open>x\<close> and moving \<open>x\<close> behind the text, for a string and for a number.\<close>

definition say :: "ptr \<Rightarrow> u32 \<Rightarrow> u32 \<times> vga \<Rightarrow> (u32 \<times> vga) option" where
  "say str y = (\<lambda>(x, v). do {
     v \<leftarrow> print_string_position str x y (color_code WHITE) (color_code BLACK) v;
     n \<leftarrow> kstrlen (vmem v) str;
     Some (x + ucast n, v)
   })"

definition say_num :: "ptr \<Rightarrow> u32 \<Rightarrow> u32 \<Rightarrow> u32 \<times> vga \<Rightarrow> (u32 \<times> vga) option" where
  "say_num nbuf n y = (\<lambda>(x, v). say nbuf y (x, v\<lparr>vmem := fst (u32_to_dec (vmem v) n nbuf)\<rparr>))"

text \<open>The last piece of a line does not move \<open>x\<close>.\<close>

definition end_with :: "ptr \<Rightarrow> u32 \<Rightarrow> u32 \<times> vga \<Rightarrow> vga option" where
  "end_with str y = (\<lambda>(x, v). print_string_position str x y (color_code WHITE) (color_code BLACK) v)"

definition end_with_num :: "ptr \<Rightarrow> u32 \<Rightarrow> u32 \<Rightarrow> u32 \<times> vga \<Rightarrow> vga option" where
  "end_with_num nbuf n y = (\<lambda>(x, v). end_with nbuf y (x, v\<lparr>vmem := fst (u32_to_dec (vmem v) n nbuf)\<rparr>))"

definition print_kmalloc_stats :: "(string \<Rightarrow> ptr) \<Rightarrow> ptr \<Rightarrow> kheap \<Rightarrow> vga \<Rightarrow> vga option" where
  "print_kmalloc_stats lit nbuf k v = do {
     s \<leftarrow> get_kmalloc_stats (k, vmem v);
     let base_x = 20;
     p \<leftarrow> say (lit ''Heap total: '') 10 (base_x, v);
     p \<leftarrow> say_num nbuf (ucast (total_managed s)) 10 p;
     p \<leftarrow> say (lit '' bytes ('') 10 p;
     p \<leftarrow> say_num nbuf (ucast (total_managed s div (1024 * 1024))) 10 p;
     v \<leftarrow> end_with (lit '' MiB)'') 10 p;
     p \<leftarrow> say (lit ''Used: '') 11 (base_x, v);
     v \<leftarrow> end_with_num nbuf (ucast (used_payload s)) 11 p;
     p \<leftarrow> say (lit ''Free: '') 12 (base_x, v);
     v \<leftarrow> end_with_num nbuf (ucast (free_payload s)) 12 p;
     p \<leftarrow> say (lit ''Largest free: '') 13 (base_x, v);
     v \<leftarrow> end_with_num nbuf (ucast (largest_free s)) 13 p;
     p \<leftarrow> say (lit ''Blocks: '') 14 (base_x, v);
     p \<leftarrow> say_num nbuf (ucast (num_blocks s)) 14 p;
     p \<leftarrow> say (lit '' (used='') 14 p;
     p \<leftarrow> say_num nbuf (ucast (num_used s)) 14 p;
     p \<leftarrow> say (lit '', free='') 14 p;
     p \<leftarrow> say_num nbuf (ucast (num_free s)) 14 p;
     end_with (lit '')'') 14 p
   }"

section \<open>The stack protector\<close>

text \<open>The two lines of the panic; after them the processor halts.\<close>

definition kstack_panic :: "(string \<Rightarrow> ptr) \<Rightarrow> ptr \<Rightarrow> vga \<Rightarrow> vga option" where
  "kstack_panic lit msg v = do {
     v \<leftarrow> print_string_position (lit ''STACK SMASHING DETECTED'') 20 2 (color_code WHITE) (color_code RED) v;
     print_string_position msg 20 3 (color_code WHITE) (color_code RED) v
   }"

definition stack_chk_fail :: "(string \<Rightarrow> ptr) \<Rightarrow> vga \<Rightarrow> vga option" where
  "stack_chk_fail lit = kstack_panic lit (lit ''in __stack_chk_fail()'')"

definition stack_chk_fail_local :: "(string \<Rightarrow> ptr) \<Rightarrow> vga \<Rightarrow> vga option" where
  "stack_chk_fail_local lit = kstack_panic lit (lit ''in __stack_chk_fail_local()'')"

section \<open>Text on the screen\<close>

text \<open>A piece of a list replaced by another list.\<close>

definition overlay :: "nat \<Rightarrow> 'a list \<Rightarrow> 'a list \<Rightarrow> 'a list" where
  "overlay i xs cs = take i cs @ xs @ drop (i + length xs) cs"

lemma overlay_Nil [simp]: "overlay i [] cs = cs"
  by (simp add: overlay_def)

lemma overlay_Cons: "i < length cs \<Longrightarrow> overlay i (a # xs) cs = overlay (i + 1) xs (cs[i := a])"
  by (simp add: overlay_def take_Suc_conv_app_nth)

lemma length_overlay [simp]: "i + length xs \<le> length cs \<Longrightarrow> length (overlay i xs cs) = length cs"
  by (simp add: overlay_def)

lemma overlay_overlay:
  assumes "i + length xs \<le> length cs"
  shows "overlay (i + length xs) ys (overlay i xs cs) = overlay i (xs @ ys) cs"
  using assms by (simp add: overlay_def algebra_simps)

lemma cells_same: "(\<And>x. in_range x VGA_BUF 4000 \<Longrightarrow> m' x = m x) \<Longrightarrow> cells_of m' = cells_of m"
proof -
  assume e: "\<And>x. in_range x VGA_BUF 4000 \<Longrightarrow> m' x = m x"
  have "m' (VGA_BUF + word_of_nat k) = m (VGA_BUF + word_of_nat k)" if "k < 4000" for k
    using unat_video [OF that] that by (intro e) (simp add: in_range_def)
  then have "cell m' i = cell m i" if "i < CELLS" for i using that by (simp add: cell_def CELLS_value del: of_nat_mult of_nat_add of_nat_Suc)
  then show ?thesis by (simp add: cells_of_def)
qed

definition paint :: "u8 \<Rightarrow> u8 list \<Rightarrow> (u8 \<times> u8) list" where
  "paint color bs = map (\<lambda>b. (b, color)) bs"

lemma paint_simps [simp]:
  "paint color [] = []" "paint color (b # bs) = (b, color) # paint color bs" "length (paint color bs) = length bs"
  "paint color (bs @ cs) = paint color bs @ paint color cs"
  by (simp_all add: paint_def)

text \<open>
  A string without tabs that fits into its line appears cell by cell.
\<close>

lemma string_position_text:
  assumes y: "y < 25"
  shows "cstr m (str + ucast i) bs \<Longrightarrow> unat i + length bs < 2 ^ 32 \<Longrightarrow> 0x09 \<notin> set bs \<Longrightarrow> unat col + length bs \<le> 80 \<Longrightarrow>
    unat off = 2 * (y * 80 + unat col) \<Longrightarrow> disjoint (str + ucast i) (Suc (length bs)) VGA_BUF 4000 \<Longrightarrow>
    unat (str + ucast i) + Suc (length bs) \<le> 2 ^ 64 \<Longrightarrow>
    \<exists>m'. string_position_loop str i color m off col = Some m' \<and> screen_only m m' \<and>
      cells_of m' = overlay (y * 80 + unat col) (paint color bs) (cells_of m)"
proof (induction bs arbitrary: i m off col)
  case Nil
  then show ?case by (subst string_position_loop.simps) simp
next
  case (Cons b bs)
  let ?p = "str + ucast i" let ?m = "put_cell m off b color" and ?n = "y * 80 + unat col"
  have c: "m ?p = b" "b \<noteq> 0" "cstr m (?p + 1) bs" "b \<noteq> 0x09" using Cons.prems(1,3) by auto
  have n: "?n < CELLS" using y Cons.prems(4) by (simp add: CELLS_value)
  note pc = put_cell_cell(2) [OF Cons.prems(5) n, of m b color]
  have st: "position_step b color (m, off, col) = (?m, off + 2, col + 1)" using c(4) by (simp add: position_step_def)
  have u: "unat (off + 2) = 2 * (y * 80 + unat (col + 1))" "unat (col + 1) = unat col + 1" "unat (i + 1) = unat i + 1"
    using Cons.prems(2,4,5) y unat_add_small [of off 2] unat_add_small [of col 1] unat_add_small [of i 1] by simp_all
  have up: "unat (?p + 1) = unat ?p + 1" using Cons.prems(7) unat_add_small [of ?p 1] by simp
  have ui: "(ucast (i + 1) :: ptr) = ucast i + 1" unfolding ucast_offset [OF u(3)] by simp
  have q: "str + ucast (i + 1) = ?p + 1" by (simp add: ui add.assoc)
  have cells: "cells_of ?m = (cells_of m)[?n := (b, color)]" by (rule put_cell_list [OF Cons.prems(5) n])
  show ?case
  proof (cases "80 \<le> col + 1")
    case True
    then have "length bs = 0" using u(2) Cons.prems(4) by (simp add: word_le_nat_alt del: length_0_conv)
    then have e: "bs = []" by simp
    have "string_position_loop str i color m off col = Some ?m" using True st c(1,2) by (subst string_position_loop.simps) simp
    then show ?thesis using pc cells overlay_Cons [of ?n "cells_of m" "(b, color)" "[]"] n by (simp add: e)
  next
    case False
    have dj: "disjoint (?p + 1) (Suc (length bs)) VGA_BUF 4000" using Cons.prems(6) up by (auto simp: disjoint_def)
    have "same_on m ?m (?p + 1) (Suc (length bs))" using pc dj by (auto simp: screen_only_def same_on_def disjoint_def in_range_def)
    then have cs: "cstr ?m (str + ucast (i + 1)) bs" unfolding q using c(3) cstr_cong [of m ?m "?p + 1" bs] Cons.prems(7) up by simp
    have b: "unat (i + 1) + length bs < 2 ^ 32" "0x09 \<notin> set bs" "unat (col + 1) + length bs \<le> 80"
        "unat (str + ucast (i + 1)) + Suc (length bs) \<le> 2 ^ 64" unfolding q using Cons.prems(2,3,4,7) u(2,3) up by simp_all
    obtain m' where m': "string_position_loop str (i + 1) color ?m (off + 2) (col + 1) = Some m'" "screen_only ?m m'"
        "cells_of m' = overlay (y * 80 + unat (col + 1)) (paint color bs) (cells_of ?m)"
      using Cons.IH [OF cs b(1-3) u(1) dj [folded q] b(4)] by blast
    have "string_position_loop str i color m off col = Some m'" using False st c(1,2) m'(1) by (subst string_position_loop.simps) simp
    moreover have "cells_of m' = overlay ?n (paint color (b # bs)) (cells_of m)"
      using m'(3) cells u(2) overlay_Cons [of ?n "cells_of m"] n by simp
    ultimately show ?thesis using screen_only_trans [OF pc m'(2)] by blast
  qed
qed

lemma print_position_text:
  assumes s: "cstr (vmem v) str bs" "0x09 \<notin> set bs" "disjoint str (Suc (length bs)) VGA_BUF 4000" "unat str + Suc (length bs) \<le> 2 ^ 64"
    and x: "unat x + length bs \<le> 80" "y < 25"
  shows "\<exists>m'. print_string_position str x y fore back v = Some (v\<lparr>vmem := m'\<rparr>) \<and> screen_only (vmem v) m' \<and>
    cells_of m' = overlay (unat y * 80 + unat x) (paint (make_color fore back) bs) (cells_of (vmem v))"
proof -
  have y: "unat y < 25" using x(2) by (simp add: word_less_nat_alt)
  then have "unat (cell_offset x y) = 2 * (unat y * 80 + unat x)" using x(1) by (simp add: cell_offset_def unat_word_ariths)
  from string_position_text [OF y, of "vmem v" str 0 bs x "cell_offset x y" "make_color fore back"] this s x(1)
  show ?thesis by (auto simp: print_string_position_def)
qed

section \<open>A line of the report\<close>

definition text_of :: "string \<Rightarrow> u8 list" where
  "text_of s = map of_char s"

lemma text_of_length [simp]: "length (text_of s) = length s"
  by (simp add: text_of_def)

text \<open>Literals are strings outside of the video memory and of the buffer.\<close>

definition lits_ok :: "(string \<Rightarrow> ptr) \<Rightarrow> ptr \<Rightarrow> string set \<Rightarrow> mem \<Rightarrow> bool" where
  "lits_ok lit nbuf S m \<longleftrightarrow> nbuf \<noteq> NULL \<and> unat nbuf + 11 \<le> 2 ^ 64 \<and> disjoint nbuf 11 VGA_BUF 4000 \<and>
     (\<forall>s \<in> S. lit s \<noteq> NULL \<and> cstr m (lit s) (text_of s) \<and> 0x09 \<notin> set (text_of s) \<and> unat (lit s) + Suc (length s) \<le> 2 ^ 64 \<and>
        disjoint (lit s) (Suc (length s)) VGA_BUF 4000 \<and> disjoint (lit s) (Suc (length s)) nbuf 11)"

lemma lits_ok_keep:
  assumes "lits_ok lit nbuf S m" "\<And>x. \<not> in_range x VGA_BUF 4000 \<Longrightarrow> \<not> in_range x nbuf 11 \<Longrightarrow> m' x = m x"
  shows "lits_ok lit nbuf S m'"
proof -
  have "cstr m' (lit s) (text_of s)" if s: "s \<in> S" for s
  proof -
    have d: "disjoint (lit s) (Suc (length s)) VGA_BUF 4000" "disjoint (lit s) (Suc (length s)) nbuf 11"
        "unat (lit s) + Suc (length s) \<le> 2 ^ 64" "cstr m (lit s) (text_of s)" using assms(1) s by (simp_all add: lits_ok_def)
    have "same_on m m' (lit s) (Suc (length (text_of s)))" unfolding same_on_def
    proof (intro allI impI)
      fix x assume "in_range x (lit s) (Suc (length (text_of s)))"
      then have "\<not> in_range x VGA_BUF 4000" "\<not> in_range x nbuf 11" using d(1,2) by (auto simp: disjoint_def in_range_def)
      then show "m x = m' x" using assms(2) by simp
    qed
    then show ?thesis using d(3,4) cstr_cong [of m m' "lit s" "text_of s"] by simp
  qed
  then show ?thesis using assms(1) by (simp add: lits_ok_def)
qed

text \<open>
  The state while line \<open>y\<close> is being printed: the text \<open>t\<close> is on the screen from column 20 on, and
  the next piece goes behind it.
\<close>

definition typing :: "(string \<Rightarrow> ptr) \<Rightarrow> ptr \<Rightarrow> string set \<Rightarrow> vga \<Rightarrow> u32 \<Rightarrow> u8 list \<Rightarrow> vga \<Rightarrow> bool" where
  "typing lit nbuf S v0 y t v \<longleftrightarrow> lits_ok lit nbuf S (vmem v) \<and> (\<exists>m. v = v0\<lparr>vmem := m\<rparr>) \<and>
     (\<forall>x. \<not> in_range x VGA_BUF 4000 \<longrightarrow> \<not> in_range x nbuf 11 \<longrightarrow> vmem v x = vmem v0 x) \<and>
     cells_of (vmem v) = overlay (unat y * 80 + 20) (paint 0x0F t) (cells_of (vmem v0))"

lemma typing_start: "lits_ok lit nbuf S (vmem v) \<Longrightarrow> typing lit nbuf S v y [] v"
  by (auto simp: typing_def intro: exI [of _ "vmem v"])

lemma typing_text:
  assumes t: "typing lit nbuf S v0 y t v" and y: "y < 25" and x: "unat x = 20 + length t"
    and s: "cstr (vmem v) str bs" "0x09 \<notin> set bs" "disjoint str (Suc (length bs)) VGA_BUF 4000" "unat str + Suc (length bs) \<le> 2 ^ 64"
    and len: "20 + length t + length bs \<le> 80"
  shows "\<exists>v'. print_string_position str x y (color_code WHITE) (color_code BLACK) v = Some v' \<and> typing lit nbuf S v0 y (t @ bs) v'
    \<and> cstr (vmem v') str bs"
proof -
  have c: "make_color (color_code WHITE) (color_code BLACK) = 0x0F" by (simp add: make_color_def)
  have l: "unat x + length bs \<le> 80" using x len by simp
  obtain m' where m': "print_string_position str x y (color_code WHITE) (color_code BLACK) v = Some (v\<lparr>vmem := m'\<rparr>)"
      "screen_only (vmem v) m'" "cells_of m' = overlay (unat y * 80 + unat x) (paint 0x0F bs) (cells_of (vmem v))"
    using print_position_text [OF s l y, of "color_code WHITE" "color_code BLACK"] unfolding c by blast
  have "unat y < 25" using y by (simp add: word_less_nat_alt)
  then have "unat y * 80 + 20 + length (paint 0x0F t) \<le> length (cells_of (vmem v0))" using len by (simp add: CELLS_value)
  from overlay_overlay [OF this, of "paint 0x0F bs"]
  have "cells_of m' = overlay (unat y * 80 + 20) (paint 0x0F (t @ bs)) (cells_of (vmem v0))"
    using m'(3) x t by (simp add: typing_def add.assoc)
  moreover have "lits_ok lit nbuf S m'"
    by (rule lits_ok_keep [of lit nbuf S "vmem v"]) (use t m'(2) in \<open>simp_all add: typing_def screen_only_def\<close>)
  moreover have "cstr m' str bs"
  proof -
    have "same_on (vmem v) m' str (Suc (length bs))" using m'(2) s(3) by (auto simp: screen_only_def same_on_def disjoint_def in_range_def)
    then show ?thesis using s(1,4) cstr_cong by blast
  qed
  moreover have "\<exists>m. v\<lparr>vmem := m'\<rparr> = v0\<lparr>vmem := m\<rparr>" "\<forall>x. \<not> in_range x VGA_BUF 4000 \<longrightarrow> \<not> in_range x nbuf 11 \<longrightarrow> m' x = vmem v0 x"
    using t m'(2) by (auto simp: typing_def screen_only_def)
  ultimately have "typing lit nbuf S v0 y (t @ bs) (v\<lparr>vmem := m'\<rparr>)" "cstr (vmem (v\<lparr>vmem := m'\<rparr>)) str bs"
    by (simp_all add: typing_def)
  then show ?thesis using m'(1) by blast
qed

lemma say_text:
  assumes t: "typing lit nbuf S v0 y t v" and y: "y < 25" and x: "unat x = 20 + length t"
    and s: "cstr (vmem v) str bs" "0x09 \<notin> set bs" "disjoint str (Suc (length bs)) VGA_BUF 4000" "unat str + Suc (length bs) \<le> 2 ^ 64"
    and len: "20 + length t + length bs \<le> 80" and str: "str \<noteq> NULL"
  shows "\<exists>x' v'. say str y (x, v) = Some (x', v') \<and> unat x' = 20 + length (t @ bs) \<and> typing lit nbuf S v0 y (t @ bs) v'"
proof -
  obtain v' where v': "print_string_position str x y (color_code WHITE) (color_code BLACK) v = Some v'"
      "typing lit nbuf S v0 y (t @ bs) v'" "cstr (vmem v') str bs" using typing_text [OF t y x s len] by blast
  have k: "kstrlen (vmem v') str = Some (word_of_nat (length bs))" using kstrlen_cstr [OF v'(3)] str by simp
  have l: "length bs \<le> 60" using len by simp
  have "unat (word_of_nat (length bs) :: u64) = length bs" using l by (simp add: unat_of_nat)
  then have "unat (ucast (word_of_nat (length bs) :: u64) :: u32) = length bs" using l by (simp add: unsigned_ucast_eq take_bit_nat_eq_self)
  then have "unat (x + ucast (word_of_nat (length bs) :: u64)) = unat x + length bs"
    using x len by (subst unat_add_small) simp_all
  then show ?thesis using v'(1,2) k x by (simp add: say_def)
qed

text \<open>The four kinds of pieces.\<close>

lemma typing_num:
  assumes t: "typing lit nbuf S v0 y t v"
  shows "typing lit nbuf S v0 y t (v\<lparr>vmem := fst (u32_to_dec (vmem v) n nbuf)\<rparr>)"
    "cstr (fst (u32_to_dec (vmem v) n nbuf)) nbuf (dec_text n)" "0x09 \<notin> set (dec_text n)"
    "disjoint nbuf (Suc (length (dec_text n))) VGA_BUF 4000" "unat nbuf + Suc (length (dec_text n)) \<le> 2 ^ 64"
proof -
  let ?m = "fst (u32_to_dec (vmem v) n nbuf)"
  have b: "nbuf \<noteq> NULL" "unat nbuf + 11 \<le> 2 ^ 64" "disjoint nbuf 11 VGA_BUF 4000" using t by (simp_all add: typing_def lits_ok_def)
  have out: "?m x = vmem v x" if "\<not> in_range x nbuf 11" for x
    unfolding u32_to_dec_text fst_conv using that b(2) dec_text_length [of n] by (intro st_bytes_outside) (auto simp: in_range_def)
  have "cells_of ?m = cells_of (vmem v)" using b(3) by (intro cells_same out) (auto simp: disjoint_def in_range_def)
  moreover have "lits_ok lit nbuf S ?m" by (rule lits_ok_keep [of lit nbuf S "vmem v"]) (use t out in \<open>simp_all add: typing_def\<close>)
  moreover have "\<exists>m. v\<lparr>vmem := ?m\<rparr> = v0\<lparr>vmem := m\<rparr>" using t by (auto simp: typing_def)
  ultimately show "typing lit nbuf S v0 y t (v\<lparr>vmem := ?m\<rparr>)" using t out by (simp add: typing_def)
  show "cstr ?m nbuf (dec_text n)" by (rule u32_to_dec_cstr [OF b(2)])
  show "0x09 \<notin> set (dec_text n)" using dec_text_digits [of "0x09" n] by auto
  show "disjoint nbuf (Suc (length (dec_text n))) VGA_BUF 4000" "unat nbuf + Suc (length (dec_text n)) \<le> 2 ^ 64"
    using b(2,3) dec_text_length [of n] by (auto simp: disjoint_def)
qed

lemma typing_buf: "typing lit nbuf S v0 y t v \<Longrightarrow> nbuf \<noteq> NULL"
  by (simp add: typing_def lits_ok_def)

lemma typing_lit:
  assumes "typing lit nbuf S v0 y t v" "s \<in> S"
  shows "cstr (vmem v) (lit s) (text_of s)" "0x09 \<notin> set (text_of s)" "disjoint (lit s) (Suc (length (text_of s))) VGA_BUF 4000"
    "unat (lit s) + Suc (length (text_of s)) \<le> 2 ^ 64" "lit s \<noteq> NULL"
  using assms by (simp_all add: typing_def lits_ok_def)

lemma piece_lit:
  assumes t: "typing lit nbuf S v0 y t v" "unat x = 20 + length t" and s: "s \<in> S" "y < 25" "20 + length t + length s \<le> 80"
  obtains x' v' where "say (lit s) y (x, v) = Some (x', v')" "typing lit nbuf S v0 y (t @ text_of s) v'" "unat x' = 20 + length (t @ text_of s)"
proof -
  note l = typing_lit [OF t(1) s(1)]
  have "20 + length t + length (text_of s) \<le> 80" using s(3) by simp
  from say_text [OF t(1) s(2) t(2) l(1-4) this l(5)] show thesis using that by blast
qed

lemma piece_num:
  assumes t: "typing lit nbuf S v0 y t v" "unat x = 20 + length t" and s: "y < 25" "20 + length t + 10 \<le> 80"
  obtains x' v' where "say_num nbuf n y (x, v) = Some (x', v')" "typing lit nbuf S v0 y (t @ dec_text n) v'" "unat x' = 20 + length (t @ dec_text n)"
proof -
  note l = typing_num [OF t(1), of n]
  have "20 + length t + length (dec_text n) \<le> 80" using s(2) dec_text_length [of n] by simp
  from say_text [OF l(1) s(1) t(2) _ l(3-5) this typing_buf [OF t(1)]] l(2) show thesis using that by (auto simp: say_num_def)
qed

lemma end_lit:
  assumes t: "typing lit nbuf S v0 y t v" "unat x = 20 + length t" and s: "s \<in> S" "y < 25" "20 + length t + length s \<le> 80"
  obtains v' where "end_with (lit s) y (x, v) = Some v'" "typing lit nbuf S v0 y (t @ text_of s) v'"
proof -
  note l = typing_lit [OF t(1) s(1)]
  have "20 + length t + length (text_of s) \<le> 80" using s(3) by simp
  from typing_text [OF t(1) s(2) t(2) l(1-4) this] show thesis using that by (auto simp: end_with_def)
qed

lemma end_num:
  assumes t: "typing lit nbuf S v0 y t v" "unat x = 20 + length t" and s: "y < 25" "20 + length t + 10 \<le> 80"
  obtains v' where "end_with_num nbuf n y (x, v) = Some v'" "typing lit nbuf S v0 y (t @ dec_text n) v'"
proof -
  note l = typing_num [OF t(1), of n]
  have "20 + length t + length (dec_text n) \<le> 80" using s(2) dec_text_length [of n] by simp
  from typing_text [OF l(1) s(1) t(2) _ l(3-5) this] l(2) show thesis using that by (auto simp: end_with_num_def end_with_def)
qed

section \<open>The whole report\<close>

definition stats_literals :: "string set" where
  "stats_literals = {''Heap total: '', '' bytes ('', '' MiB)'', ''Used: '', ''Free: '', ''Largest free: '', ''Blocks: '',
     '' (used='', '', free='', '')''}"

text \<open>What the five lines say.\<close>

definition stats_report :: "malloc_stats_t \<Rightarrow> u8 list list" where
  "stats_report s =
     [text_of ''Heap total: '' @ dec_text (ucast (total_managed s)) @ text_of '' bytes ('' @
        dec_text (ucast (total_managed s div (1024 * 1024))) @ text_of '' MiB)'',
      text_of ''Used: '' @ dec_text (ucast (used_payload s)),
      text_of ''Free: '' @ dec_text (ucast (free_payload s)),
      text_of ''Largest free: '' @ dec_text (ucast (largest_free s)),
      text_of ''Blocks: '' @ dec_text (ucast (num_blocks s)) @ text_of '' (used='' @ dec_text (ucast (num_used s)) @
        text_of '', free='' @ dec_text (ucast (num_free s)) @ text_of '')'']"

lemma typing_next: "typing lit nbuf S v0 y t v \<Longrightarrow> typing lit nbuf S v y' [] v"
  by (rule typing_start) (simp add: typing_def)

lemma line_short:
  assumes t: "typing lit nbuf stats_literals v0 y' t v" and s: "s \<in> stats_literals" "y < 25" "length s \<le> 50"
  obtains x' v1 v' where "say (lit s) y (20, v) = Some (x', v1)" "end_with_num nbuf n y (x', v1) = Some v'"
    "typing lit nbuf stats_literals v y (text_of s @ dec_text n) v'"
proof -
  have l: "20 + length ([] :: u8 list) + length s \<le> 80" using s(3) by simp
  obtain x' v1 where a: "say (lit s) y (20, v) = Some (x', v1)" "typing lit nbuf stats_literals v y ([] @ text_of s) v1"
      "unat x' = 20 + length ([] @ text_of s)"
    by (rule piece_lit [OF typing_next [OF t] _ s(1,2) l, of 20]) simp_all
  have "20 + length ([] @ text_of s) + 10 \<le> 80" using s(3) by simp
  then obtain v' where "end_with_num nbuf n y (x', v1) = Some v'" "typing lit nbuf stats_literals v y (([] @ text_of s) @ dec_text n) v'"
    by (rule end_num [OF a(2,3) s(2)])
  with a(1) that show thesis by simp
qed

lemma line_total:
  assumes t: "typing lit nbuf stats_literals v0 y' t v"
  obtains p1 p2 p3 p4 v' where "say (lit ''Heap total: '') 10 (20, v) = Some p1" "say_num nbuf n 10 p1 = Some p2"
    "say (lit '' bytes ('') 10 p2 = Some p3" "say_num nbuf k 10 p3 = Some p4" "end_with (lit '' MiB)'') 10 p4 = Some v'"
    "typing lit nbuf stats_literals v 10 (text_of ''Heap total: '' @ dec_text n @ text_of '' bytes ('' @ dec_text k @ text_of '' MiB)'') v'"
proof -
  have d: "length (dec_text n) \<le> 10" "length (dec_text k) \<le> 10" by (rule dec_text_length)+
  obtain x1 v1 where 1: "say (lit ''Heap total: '') 10 (20, v) = Some (x1, v1)"
      "typing lit nbuf stats_literals v 10 ([] @ text_of ''Heap total: '') v1" "unat x1 = 20 + length ([] @ text_of ''Heap total: '')"
    by (rule piece_lit [OF typing_next [OF t, of 10], of 20 "''Heap total: ''"]) (simp_all add: stats_literals_def)
  obtain x2 v2 where 2: "say_num nbuf n 10 (x1, v1) = Some (x2, v2)" "unat x2 = 20 + length (([] @ text_of ''Heap total: '') @ dec_text n)"
      "typing lit nbuf stats_literals v 10 (([] @ text_of ''Heap total: '') @ dec_text n) v2"
    by (rule piece_num [OF 1(2,3), of n]) simp_all
  obtain x3 v3 where 3: "say (lit '' bytes ('') 10 (x2, v2) = Some (x3, v3)"
      "typing lit nbuf stats_literals v 10 ((([] @ text_of ''Heap total: '') @ dec_text n) @ text_of '' bytes ('') v3"
      "unat x3 = 20 + length ((([] @ text_of ''Heap total: '') @ dec_text n) @ text_of '' bytes ('')"
    by (rule piece_lit [OF 2(3,2), of "'' bytes (''"]) (use d in \<open>simp_all add: stats_literals_def\<close>)
  obtain x4 v4 where 4: "say_num nbuf k 10 (x3, v3) = Some (x4, v4)"
      "typing lit nbuf stats_literals v 10 (((([] @ text_of ''Heap total: '') @ dec_text n) @ text_of '' bytes ('') @ dec_text k) v4"
      "unat x4 = 20 + length (((([] @ text_of ''Heap total: '') @ dec_text n) @ text_of '' bytes ('') @ dec_text k)"
    by (rule piece_num [OF 3(2,3), of k]) (use d in simp_all)
  obtain v5 where 5: "end_with (lit '' MiB)'') 10 (x4, v4) = Some v5"
      "typing lit nbuf stats_literals v 10 ((((([] @ text_of ''Heap total: '') @ dec_text n) @ text_of '' bytes ('') @ dec_text k) @ text_of '' MiB)'') v5"
    by (rule end_lit [OF 4(2,3), of "'' MiB)''"]) (use d in \<open>simp_all add: stats_literals_def\<close>)
  show thesis using that [OF 1(1) 2(1) 3(1) 4(1) 5(1)] 5(2) by simp
qed

lemma line_blocks:
  assumes t: "typing lit nbuf stats_literals v0 y' t v"
  obtains p1 p2 p3 p4 p5 p6 v' where "say (lit ''Blocks: '') 14 (20, v) = Some p1" "say_num nbuf n 14 p1 = Some p2"
    "say (lit '' (used='') 14 p2 = Some p3" "say_num nbuf k 14 p3 = Some p4"
    "say (lit '', free='') 14 p4 = Some p5" "say_num nbuf j 14 p5 = Some p6" "end_with (lit '')'') 14 p6 = Some v'"
    "typing lit nbuf stats_literals v 14
      (text_of ''Blocks: '' @ dec_text n @ text_of '' (used='' @ dec_text k @ text_of '', free='' @ dec_text j @ text_of '')'') v'"
proof -
  have d: "length (dec_text n) \<le> 10" "length (dec_text k) \<le> 10" "length (dec_text j) \<le> 10" by (rule dec_text_length)+
  let ?t = "[] @ text_of ''Blocks: ''"
  obtain x1 v1 where 1: "say (lit ''Blocks: '') 14 (20, v) = Some (x1, v1)"
      "typing lit nbuf stats_literals v 14 ?t v1" "unat x1 = 20 + length ?t"
    by (rule piece_lit [OF typing_next [OF t, of 14], of 20 "''Blocks: ''"]) (simp_all add: stats_literals_def)
  obtain x2 v2 where 2: "say_num nbuf n 14 (x1, v1) = Some (x2, v2)"
      "typing lit nbuf stats_literals v 14 (?t @ dec_text n) v2" "unat x2 = 20 + length (?t @ dec_text n)"
    by (rule piece_num [OF 1(2,3), of n]) simp_all
  let ?u = "(?t @ dec_text n) @ text_of '' (used=''"
  obtain x3 v3 where 3: "say (lit '' (used='') 14 (x2, v2) = Some (x3, v3)" "typing lit nbuf stats_literals v 14 ?u v3" "unat x3 = 20 + length ?u"
    by (rule piece_lit [OF 2(2,3), of "'' (used=''"]) (use d in \<open>simp_all add: stats_literals_def\<close>)
  obtain x4 v4 where 4: "say_num nbuf k 14 (x3, v3) = Some (x4, v4)"
      "typing lit nbuf stats_literals v 14 (?u @ dec_text k) v4" "unat x4 = 20 + length (?u @ dec_text k)"
    by (rule piece_num [OF 3(2,3), of k]) (use d in simp_all)
  let ?w = "(?u @ dec_text k) @ text_of '', free=''"
  obtain x5 v5 where 5: "say (lit '', free='') 14 (x4, v4) = Some (x5, v5)" "typing lit nbuf stats_literals v 14 ?w v5" "unat x5 = 20 + length ?w"
    by (rule piece_lit [OF 4(2,3), of "'', free=''"]) (use d in \<open>simp_all add: stats_literals_def\<close>)
  obtain x6 v6 where 6: "say_num nbuf j 14 (x5, v5) = Some (x6, v6)"
      "typing lit nbuf stats_literals v 14 (?w @ dec_text j) v6" "unat x6 = 20 + length (?w @ dec_text j)"
    by (rule piece_num [OF 5(2,3), of j]) (use d in simp_all)
  obtain v7 where 7: "end_with (lit '')'') 14 (x6, v6) = Some v7" "typing lit nbuf stats_literals v 14 ((?w @ dec_text j) @ text_of '')'') v7"
    by (rule end_lit [OF 6(2,3), of "'')''"]) (use d in \<open>simp_all add: stats_literals_def\<close>)
  show thesis using that [OF 1(1) 2(1) 3(1) 4(1) 5(1) 6(1) 7(1)] 7(2) by simp
qed

text \<open>The screen with the report on it.\<close>

definition with_lines :: "nat \<Rightarrow> u8 list list \<Rightarrow> (u8 \<times> u8) list \<Rightarrow> (u8 \<times> u8) list" where
  "with_lines y ts cs = fold (\<lambda>(i, t). overlay (i * 80 + 20) (paint 0x0F t)) (zip [y..<y + length ts] ts) cs"

lemma print_stats_report:
  assumes ok: "lits_ok lit nbuf stats_literals (vmem v)" and s: "get_kmalloc_stats (k, vmem v) = Some s"
  shows "\<exists>m. print_kmalloc_stats lit nbuf k v = Some (v\<lparr>vmem := m\<rparr>) \<and>
    cells_of m = with_lines 10 (stats_report s) (cells_of (vmem v)) \<and>
    (\<forall>x. \<not> in_range x VGA_BUF 4000 \<longrightarrow> \<not> in_range x nbuf 11 \<longrightarrow> m x = vmem v x)"
proof -
  let ?T = "total_managed s"
  obtain p1 p2 p3 p4 v1 where 1: "say (lit ''Heap total: '') 10 (20, v) = Some p1" "say_num nbuf (ucast ?T) 10 p1 = Some p2"
    "say (lit '' bytes ('') 10 p2 = Some p3" "say_num nbuf (ucast (?T div (1024 * 1024))) 10 p3 = Some p4" "end_with (lit '' MiB)'') 10 p4 = Some v1"
    and t1: "typing lit nbuf stats_literals v 10
      (text_of ''Heap total: '' @ dec_text (ucast ?T) @ text_of '' bytes ('' @ dec_text (ucast (?T div (1024 * 1024))) @ text_of '' MiB)'') v1"
    by (rule line_total [OF typing_start [OF ok, where y = 10]])
  obtain a2 b2 v2 where 2: "say (lit ''Used: '') 11 (20, v1) = Some (a2, b2)" "end_with_num nbuf (ucast (used_payload s)) 11 (a2, b2) = Some v2"
    and t2: "typing lit nbuf stats_literals v1 11 (text_of ''Used: '' @ dec_text (ucast (used_payload s))) v2"
    by (rule line_short [OF t1, of "''Used: ''" 11 "ucast (used_payload s)"]) (simp_all add: stats_literals_def)
  obtain a3 b3 v3 where 3: "say (lit ''Free: '') 12 (20, v2) = Some (a3, b3)" "end_with_num nbuf (ucast (free_payload s)) 12 (a3, b3) = Some v3"
    and t3: "typing lit nbuf stats_literals v2 12 (text_of ''Free: '' @ dec_text (ucast (free_payload s))) v3"
    by (rule line_short [OF t2, of "''Free: ''" 12 "ucast (free_payload s)"]) (simp_all add: stats_literals_def)
  obtain a4 b4 v4 where 4: "say (lit ''Largest free: '') 13 (20, v3) = Some (a4, b4)" "end_with_num nbuf (ucast (largest_free s)) 13 (a4, b4) = Some v4"
    and t4: "typing lit nbuf stats_literals v3 13 (text_of ''Largest free: '' @ dec_text (ucast (largest_free s))) v4"
    by (rule line_short [OF t3, of "''Largest free: ''" 13 "ucast (largest_free s)"]) (simp_all add: stats_literals_def)
  obtain q1 q2 q3 q4 q5 q6 v5 where 5: "say (lit ''Blocks: '') 14 (20, v4) = Some q1" "say_num nbuf (ucast (num_blocks s)) 14 q1 = Some q2"
    "say (lit '' (used='') 14 q2 = Some q3" "say_num nbuf (ucast (num_used s)) 14 q3 = Some q4"
    "say (lit '', free='') 14 q4 = Some q5" "say_num nbuf (ucast (num_free s)) 14 q5 = Some q6" "end_with (lit '')'') 14 q6 = Some v5"
    and t5: "typing lit nbuf stats_literals v4 14
      (text_of ''Blocks: '' @ dec_text (ucast (num_blocks s)) @ text_of '' (used='' @ dec_text (ucast (num_used s)) @
        text_of '', free='' @ dec_text (ucast (num_free s)) @ text_of '')'') v5"
    by (rule line_blocks [OF t4])
  have "print_kmalloc_stats lit nbuf k v = Some v5" by (simp only: print_kmalloc_stats_def Let_def s 1 2 3 4 5 bind.bind_lunit)
  moreover have "\<exists>m. v5 = v\<lparr>vmem := m\<rparr>" using t1 t2 t3 t4 t5 by (auto simp: typing_def)
  moreover have "cells_of (vmem v5) = with_lines 10 (stats_report s) (cells_of (vmem v))"
    using t1 t2 t3 t4 t5 by (simp add: with_lines_def stats_report_def typing_def upt_rec)
  moreover have "\<forall>x. \<not> in_range x VGA_BUF 4000 \<longrightarrow> \<not> in_range x nbuf 11 \<longrightarrow> vmem v5 x = vmem v x"
    using t1 t2 t3 t4 t5 by (simp add: typing_def)
  ultimately show ?thesis by auto
qed

lemma panic_text:
  assumes "lits_ok lit nbuf {''STACK SMASHING DETECTED'', msg} (vmem v)" "length msg \<le> 60"
  shows "\<exists>m. kstack_panic lit (lit msg) v = Some (v\<lparr>vmem := m\<rparr>) \<and> screen_only (vmem v) m \<and>
    cells_of m = overlay 260 (paint 0x4F (text_of msg)) (overlay 180 (paint 0x4F (text_of ''STACK SMASHING DETECTED'')) (cells_of (vmem v)))"
proof -
  have c: "make_color (color_code WHITE) (color_code RED) = 0x4F" by (simp add: make_color_def)
  let ?t = "''STACK SMASHING DETECTED''"
  have l: "cstr (vmem v) (lit s) (text_of s)" "0x09 \<notin> set (text_of s)" "disjoint (lit s) (Suc (length (text_of s))) VGA_BUF 4000"
      "unat (lit s) + Suc (length (text_of s)) \<le> 2 ^ 64" if "s \<in> {?t, msg}" for s
    using assms(1) that unfolding lits_ok_def by (auto simp del: length_map)
  obtain m1 where 1: "print_string_position (lit ?t) 20 2 (color_code WHITE) (color_code RED) v = Some (v\<lparr>vmem := m1\<rparr>)" "screen_only (vmem v) m1"
      "cells_of m1 = overlay 180 (paint 0x4F (text_of ?t)) (cells_of (vmem v))"
    using print_position_text [OF l, of ?t 20 2 "color_code WHITE" "color_code RED"] unfolding c by auto
  have "lits_ok lit nbuf {?t, msg} m1" by (rule lits_ok_keep [OF assms(1)]) (use 1(2) in \<open>simp add: screen_only_def\<close>)
  then have "cstr (vmem (v\<lparr>vmem := m1\<rparr>)) (lit msg) (text_of msg)" by (simp add: lits_ok_def)
  from print_position_text [OF this l(2-4), of 20 3 "color_code WHITE" "color_code RED"] assms(2)
  obtain m2 where 2: "print_string_position (lit msg) 20 3 (color_code WHITE) (color_code RED) (v\<lparr>vmem := m1\<rparr>) = Some (v\<lparr>vmem := m2\<rparr>)"
      "screen_only m1 m2" "cells_of m2 = overlay 260 (paint 0x4F (text_of msg)) (cells_of m1)" unfolding c by auto
  show ?thesis using 1 2 screen_only_trans [OF 1(2) 2(2)] by (auto simp: kstack_panic_def)
qed

section \<open>The report is shown\<close>

text \<open>A memory with the literals in slots of 32 bytes.\<close>

definition demo_lits :: "string list" where
  "demo_lits = [''Heap total: '', '' bytes ('', '' MiB)'', ''Used: '', ''Free: '', ''Largest free: '', ''Blocks: '',
     '' (used='', '', free='', '')'', ''Hello from kernel heap!'']"

definition demo_lit :: "string \<Rightarrow> ptr" where
  "demo_lit s = (case map_of (zip demo_lits (map (\<lambda>i. 0x100 + 32 * word_of_nat i) [0..<11])) s of Some p \<Rightarrow> p | None \<Rightarrow> NULL)"

definition demo_rom :: mem where
  "demo_rom = fold (\<lambda>s m. st_bytes m (demo_lit s) (text_of s @ [0])) demo_lits (\<lambda>_. 0)"

lemma demo_lit_values:
  "demo_lit ''Heap total: '' = 0x100" "demo_lit '' bytes ('' = 0x120" "demo_lit '' MiB)'' = 0x140" "demo_lit ''Used: '' = 0x160"
  "demo_lit ''Free: '' = 0x180" "demo_lit ''Largest free: '' = 0x1A0" "demo_lit ''Blocks: '' = 0x1C0"
  "demo_lit '' (used='' = 0x1E0" "demo_lit '', free='' = 0x200" "demo_lit '')'' = 0x220"
  "demo_lit ''Hello from kernel heap!'' = 0x240"
  by (simp_all add: demo_lit_def demo_lits_def upt_rec)

lemma demo_lits_stored: "\<forall>s \<in> set demo_lits. cstr demo_rom (demo_lit s) (text_of s) \<and> 0x09 \<notin> set (text_of s)"
  by code_simp

lemma demo_lits_ok:
  assumes "\<And>x. unat x < 0x1000 \<Longrightarrow> m x = demo_rom x"
  shows "lits_ok demo_lit 0x3000 (set demo_lits) m"
proof -
  have a: "\<forall>s \<in> set demo_lits. demo_lit s \<noteq> NULL \<and> unat (demo_lit s) + Suc (length s) \<le> 0x300"
    by (simp add: demo_lits_def demo_lit_values)
  have "cstr m (demo_lit s) (text_of s)" if s: "s \<in> set demo_lits" for s
  proof -
    have u: "unat (demo_lit s) + Suc (length s) \<le> 0x300" using a s by blast
    then have "same_on demo_rom m (demo_lit s) (Suc (length (text_of s)))" using assms by (auto simp: same_on_def in_range_def)
    then show ?thesis using demo_lits_stored s u cstr_cong [of demo_rom m "demo_lit s" "text_of s"] by auto
  qed
  then show ?thesis using demo_lits_stored a by (auto simp: lits_ok_def disjoint_def)
qed

lemma malloc_init_outside:
  assumes "0 < unat hs" "40 \<le> unat n" "unat hs + unat n < 2 ^ 63"
  shows "same_outside (unat hs) (unat hs + unat n) m (snd (malloc_init hs n (k, m)))"
proof -
  have at: "hdr_at hs" using assms by (simp add: hdr_at_def)
  have g: "hs \<noteq> NULL" "\<not> n < 40" using assms by (auto simp: word_less_nat_alt)
  have "only_hdrs m (snd (malloc_init hs n (k, m))) {hs}"
    using g by (simp add: malloc_init_def Let_def only_hdrs_set_field [OF at])
  then show ?thesis using assms by (auto simp: only_hdrs_def same_outside_def in_range_def)
qed

text \<open>
  On a kernel heap that is well formed the report prints, from column 20 of line 10 on, exactly the
  five lines of \<^const>\<open>stats_report\<close> for figures that add up: the bytes between the start and
  the end of the region are the payloads in use, the free payloads and the headers.  Every other cell of the screen keeps
  its contents, and besides the video memory only the number buffer is written.
\<close>

lemma heap_report_shown:
  assumes "krep hs he (k, vmem v) bs" "lits_ok lit nbuf stats_literals (vmem v)"
  shows "\<exists>s m. get_kmalloc_stats (k, vmem v) = Some s \<and> total_managed s = he - hs \<and>
    total_managed s = used_payload s + free_payload s + 40 * num_blocks s \<and>
    print_kmalloc_stats lit nbuf k v = Some (v\<lparr>vmem := m\<rparr>) \<and>
    cells_of m = with_lines 10 (stats_report s) (cells_of (vmem v)) \<and>
    (\<forall>x. in_range x VGA_BUF 4000 \<or> in_range x nbuf 11 \<or> m x = vmem v x)"
proof -
  obtain s where s: "get_kmalloc_stats (k, vmem v) = Some s" "total_managed s = he - hs"
      "total_managed s = used_payload s + free_payload s + 40 * num_blocks s"
    using kmalloc_stats_total [OF assms(1)] by blast
  then show ?thesis using print_stats_report [OF assms(2) s(1)] by blast
qed

end
