(* ===== verification/Debug.thy ===== *)
theory Debug
  imports Reports Fat16
begin

text \<open>
  The functions of \<open>kernel.c\<close> that are compiled for debugging: \<open>itoa\<close>, \<open>list_root_dir\<close> and
  \<open>debug_run_tests\<close>.
\<close>

section \<open>Numbers in any base\<close>

definition digit_char :: "u32 \<Rightarrow> u8" where
  "digit_char rem = (if 9 < sint rem then ucast (rem - 10 + 65) else ucast (rem + 48))"

text \<open>The loop does not end for base 1, and base 0 is a division by zero.\<close>

partial_function (option) itoa_loop :: "u32 \<Rightarrow> ptr \<Rightarrow> u32 \<Rightarrow> nat \<Rightarrow> mem \<Rightarrow> (mem \<times> nat) option" where
  "itoa_loop base str num i m =
     (if num = 0 then Some (m, i)
      else if base = 0 then None
      else itoa_loop base str (num div base) (i + 1) (m(str + word_of_nat i := digit_char (num mod base))))"

definition swap_bytes :: "ptr \<Rightarrow> ptr \<Rightarrow> mem \<Rightarrow> mem" where
  "swap_bytes p q m = (m(p := m q))(q := m p)"

definition itoa :: "u32 \<Rightarrow> ptr \<Rightarrow> u32 \<Rightarrow> mem \<Rightarrow> (mem \<times> ptr) option" where
  "itoa num str base m =
     (if num = 0 then Some ((m(str := 0x30))(str + 1 := 0), str)
      else
        map_option (\<lambda>(m, i).
            (fold (\<lambda>j. swap_bytes (str + word_of_nat j) (str + word_of_nat (i - j - 1))) [0..<i div 2]
               (m(str + word_of_nat i := 0)), str))
          (itoa_loop base str num 0 m))"

declare itoa_loop.simps [code]

section \<open>The root directory\<close>

text \<open>An entry of the table as the bytes of its \<open>fs_entry_t\<close>, which takes 140 bytes with padding.\<close>

definition st_entry :: "ptr \<Rightarrow> fs_entry_t \<Rightarrow> mem \<Rightarrow> mem" where
  "st_entry a e m =
     (let m = st_bytes m a (e_name e @ e_ext e);
          m = store_le m (a + 128) 2 (e_parent e);
          m = store_le m (a + 130) 2 (uint (e_first_cluster e));
          m = st32 m (a + 132) (e_size e)
      in st_bytes m (a + 136) [of_bool (e_used e), of_bool (e_is_dir e)])"

abbreviation SIZEOF_ENTRY :: u64 where "SIZEOF_ENTRY \<equiv> 140"

definition list_entry :: "ptr \<Rightarrow> ptr \<Rightarrow> nat \<times> fs_entry_t \<Rightarrow> vga \<Rightarrow> vga option" where
  "list_entry files size_buf = (\<lambda>(i, e) v. do {
     v \<leftarrow> print_string_position (files + SIZEOF_ENTRY * word_of_nat i) 0 (word_of_nat i + 1) (color_code WHITE) (color_code BLACK) v;
     if e_is_dir e then Some v
     else do {
       (m, b) \<leftarrow> itoa (e_size e) size_buf 10 (vmem v);
       print_string_position size_buf 22 (word_of_nat i + 1) (color_code RED) (color_code BLACK) (v\<lparr>vmem := m\<rparr>)
     }
   })"

fun list_entries :: "ptr \<Rightarrow> ptr \<Rightarrow> (nat \<times> fs_entry_t) list \<Rightarrow> vga \<Rightarrow> vga option" where
  "list_entries files size_buf [] v = Some v"
| "list_entries files size_buf (e # es) v = Option.bind (list_entry files size_buf e v) (list_entries files size_buf es)"

definition list_root_dir :: "(string \<Rightarrow> ptr) \<Rightarrow> ptr \<Rightarrow> ptr \<Rightarrow> fs \<Rightarrow> vga \<Rightarrow> vga option" where
  "list_root_dir lit files size_buf s v =
     (let es = fs_get_all_in_dir (int FS_MAX_ENTRIES) (int FS_ROOT_IDX) s;
          ies = zip [0..<length es] es;
          m = fold (\<lambda>(i, e). st_entry (files + SIZEOF_ENTRY * word_of_nat i) e) ies (vmem v)
      in do {
        v \<leftarrow> print_string_position (lit ''Root directory:'') 0 0 (color_code RED) (color_code BLACK) (v\<lparr>vmem := m\<rparr>);
        list_entries files size_buf ies v
      })"

section \<open>The self test\<close>

definition debug_run_tests :: "(string \<Rightarrow> ptr) \<Rightarrow> ptr \<Rightarrow> ptr \<Rightarrow> kheap \<times> vga \<Rightarrow> (kheap \<times> vga) option" where
  "debug_run_tests lit nbuf hs = (\<lambda>(k, v). do {
     let v = print_char_position (of_char CHR ''X'') 5 10 (color_code WHITE) (color_code RED) v;
     ((k, m), p) \<leftarrow> malloc hs (2 * 1024 * 1024) (k, vmem v);
     let v = v\<lparr>vmem := m\<rparr>;
     (k, v) \<leftarrow>
       (if p = NULL then Some (k, v)
        else do {
          m \<leftarrow> strcpy (vmem v) p (lit ''Hello from kernel heap!'');
          v \<leftarrow> print_string_position p 50 15 (color_code WHITE) (color_code RED) (v\<lparr>vmem := m\<rparr>);
          ((k, m), p) \<leftarrow> realloc hs p (3 * 1024 * 1024) (k, vmem v);
          let v = v\<lparr>vmem := m\<rparr>;
          v \<leftarrow> (if p = NULL then Some v else print_string_position p 50 17 (color_code WHITE) (color_code RED) v);
          let (k, m) = free p (k, vmem v);
          Some (k, v\<lparr>vmem := m\<rparr>)
        });
     v \<leftarrow> print_kmalloc_stats lit nbuf k v;
     Some (k, v)
   })"

section \<open>Turning a string around in place\<close>

lemma st_bytes_nth:
  assumes "unat p + length xs \<le> 2 ^ 64" "i < length xs"
  shows "st_bytes m p xs (p + word_of_nat i) = xs ! i"
proof -
  have "ld_bytes (st_bytes m p xs) p (length xs) ! i = xs ! i" by (simp add: ld_st_bytes [OF assms(1)])
  then show ?thesis using assms(2) by (simp add: ld_bytes_nth)
qed

lemma st_bytes_upd:
  assumes u: "unat p + length xs \<le> 2 ^ 64" and i: "i < length xs"
  shows "(st_bytes m p xs)(p + word_of_nat i := b) = st_bytes m p (xs[i := b])"
proof
  fix a
  have ub: "unat p + length (xs[i := b]) \<le> 2 ^ 64" using u by simp
  have pi: "unat (p + word_of_nat i) = unat p + i" using u i unat_add_of_nat [of p i] by simp
  show "((st_bytes m p xs)(p + word_of_nat i := b)) a = st_bytes m p (xs[i := b]) a"
  proof (cases "in_range a p (length xs)")
    case True
    define j where "j = unat a - unat p"
    have j: "j < length xs" "a = p + word_of_nat j" using True u unat_add_of_nat [of p j] by (auto simp: j_def in_range_def word_unat_eq_iff)
    have "unat a = unat p + j" using True by (auto simp: j_def in_range_def)
    then have "a = p + word_of_nat i \<longleftrightarrow> j = i" using pi by (auto simp: word_unat_eq_iff)
    then show ?thesis using st_bytes_nth [OF u j(1), of m] st_bytes_nth [OF ub, of j m] j i by (auto simp: nth_list_update)
  next
    case False
    then have "a \<noteq> p + word_of_nat i" using pi i by (auto simp: in_range_def)
    then show ?thesis using False u ub st_bytes_outside [of a p xs m] st_bytes_outside [of a p "xs[i := b]" m] by simp
  qed
qed

definition swap_at :: "nat \<Rightarrow> nat \<Rightarrow> 'a list \<Rightarrow> 'a list" where
  "swap_at i j xs = xs[i := xs ! j, j := xs ! i]"

lemma length_swap_at [simp]: "length (swap_at i j xs) = length xs"
  by (simp add: swap_at_def)

lemma swap_st_bytes:
  assumes "unat p + length xs \<le> 2 ^ 64" "i < length xs" "j < length xs"
  shows "swap_bytes (p + word_of_nat i) (p + word_of_nat j) (st_bytes m p xs) = st_bytes m p (swap_at i j xs)"
  unfolding swap_bytes_def swap_at_def st_bytes_nth [OF assms(1,2)] st_bytes_nth [OF assms(1,3)] st_bytes_upd [OF assms(1,2)]
  using assms by (subst st_bytes_upd) simp_all

lemma swaps_rev:
  assumes "k \<le> n div 2" "n \<le> length xs"
  shows "length (fold (\<lambda>j. swap_at j (n - j - 1)) [0..<k] xs) = length xs \<and>
    (\<forall>i < length xs. fold (\<lambda>j. swap_at j (n - j - 1)) [0..<k] xs ! i =
       (if i < n \<and> (i < k \<or> n - k \<le> i) then xs ! (n - i - 1) else xs ! i))"
  using assms(1)
proof (induction k)
  case (Suc k)
  let ?f = "fold (\<lambda>j. swap_at j (n - j - 1)) [0..<k] xs"
  have ih: "length ?f = length xs" "\<And>i. i < length xs \<Longrightarrow> ?f ! i = (if i < n \<and> (i < k \<or> n - k \<le> i) then xs ! (n - i - 1) else xs ! i)"
    using Suc by simp_all
  have k: "k < n - k - 1" "n - k - 1 < n" "k < n" using Suc.prems by linarith+
  have v: "?f ! k = xs ! k" "?f ! (n - k - 1) = xs ! (n - k - 1)" using ih(2) k assms(2) by auto
  have "fold (\<lambda>j. swap_at j (n - j - 1)) [0..<Suc k] xs = ?f[k := xs ! (n - k - 1), n - k - 1 := xs ! k]"
    using v by (simp add: swap_at_def)
  moreover have "?f[k := xs ! (n - k - 1), n - k - 1 := xs ! k] ! i =
      (if i < n \<and> (i < Suc k \<or> n - Suc k \<le> i) then xs ! (n - i - 1) else xs ! i)" if i: "i < length xs" for i
  proof -
    consider "i = k" | "i = n - k - 1" "i \<noteq> k" | "i \<noteq> k" "i \<noteq> n - k - 1" by blast
    then show ?thesis
    proof cases
      case 1
      then show ?thesis using k i ih(1) by simp
    next
      case 2
      then have "n - i - 1 = k" using k by simp
      then show ?thesis using 2 k i ih(1) by simp
    next
      case 3
      then have "(i < Suc k \<or> n - Suc k \<le> i) = (i < k \<or> n - k \<le> i)" if "i < n" using k that by auto
      then show ?thesis using 3 ih(1,2) i by (auto simp: nth_list_update)
    qed
  qed
  ultimately show ?case using ih(1) by simp
qed auto

lemma swaps_all: "fold (\<lambda>j. swap_at j (length ds - j - 1)) [0..<length ds div 2] (ds @ zs) = rev ds @ zs"
proof -
  let ?n = "length ds"
  have l: "length (fold (\<lambda>j. swap_at j (?n - j - 1)) [0..<?n div 2] (ds @ zs)) = length (ds @ zs)"
      "\<And>i. i < length (ds @ zs) \<Longrightarrow> fold (\<lambda>j. swap_at j (?n - j - 1)) [0..<?n div 2] (ds @ zs) ! i =
        (if i < ?n \<and> (i < ?n div 2 \<or> ?n - ?n div 2 \<le> i) then (ds @ zs) ! (?n - i - 1) else (ds @ zs) ! i)"
    using swaps_rev [of "?n div 2" ?n "ds @ zs"] by simp_all
  show ?thesis
  proof (rule nth_equalityI)
    fix i assume i: "i < length (fold (\<lambda>j. swap_at j (?n - j - 1)) [0..<?n div 2] (ds @ zs))"
    have "?n - i - 1 = i" if "i < ?n" "\<not> (i < ?n div 2 \<or> ?n - ?n div 2 \<le> i)" using that by linarith
    then show "fold (\<lambda>j. swap_at j (?n - j - 1)) [0..<?n div 2] (ds @ zs) ! i = (rev ds @ zs) ! i"
      using i l by (auto simp: nth_append rev_nth)
  qed (use l(1) in simp)
qed

section \<open>Decimal numbers\<close>

lemma digit_decimal: "digit_char (v mod 10) = 0x30 + ucast (v mod 10)"
proof -
  have l: "unat (v mod 10) < 10" by (simp add: unat_mod)
  then have "uint (v mod 10) < 10" by (simp add: uint_mod)
  moreover have "- (2 ^ 31) \<le> uint (v mod 10)" by (rule order_trans [of _ 0]) simp_all
  ultimately have "sint (v mod 10) = uint (v mod 10)" unfolding sint_uint by (intro signed_take_bit_int_eq_self) simp_all
  then have "sint (v mod 10) \<le> 9" using \<open>uint (v mod 10) < 10\<close> by simp
  moreover have "(ucast (v mod 10 + 48) :: u8) = 0x30 + ucast (v mod 10)"
  proof (rule word_unat_eq_iff [THEN iffD2])
    have "unat (v mod 10 + 48) = unat (v mod 10) + 48" using l by (subst unat_add_small) simp_all
    then show "unat (ucast (v mod 10 + 48) :: u8) = unat (0x30 + ucast (v mod 10) :: u8)"
      using l digit_unat [of v] by (simp add: unsigned_ucast_eq take_bit_nat_eq_self unat_mod)
  qed
  ultimately show ?thesis by (simp add: digit_char_def)
qed

lemma itoa_loop_decimal:
  "itoa_loop 10 str v i m = Some (st_bytes m (str + word_of_nat i) (dec_loop v), i + length (dec_loop v))"
proof (induction v arbitrary: i m rule: dec_loop.induct)
  case (1 v)
  show ?case
  proof (cases "v = 0")
    case True
    then show ?thesis by (subst itoa_loop.simps) simp
  next
    case False
    have e: "dec_loop v = digit_char (v mod 10) # dec_loop (v div 10)" using False by (subst dec_loop.simps) (simp add: digit_decimal)
    have "itoa_loop 10 str v i m = itoa_loop 10 str (v div 10) (i + 1) (m(str + word_of_nat i := digit_char (v mod 10)))"
      using False by (subst itoa_loop.simps) simp
    then show ?thesis using "1" [OF False] unfolding e by (simp add: add.assoc add.commute [of 1] fun_upd_def)
  qed
qed

lemma itoa_decimal:
  assumes "unat str + 11 \<le> 2 ^ 64"
  shows "itoa v str 10 m = Some (u32_to_dec m v str)"
proof (cases "v = 0")
  case True
  then show ?thesis by (simp add: itoa_def u32_to_dec_def)
next
  case False
  let ?ds = "dec_loop v" let ?n = "length ?ds"
  have n: "?n \<le> 10" using dec_text_length [of v] False by (simp add: dec_text_def)
  have b: "unat str + length (?ds @ [0]) \<le> 2 ^ 64" using n assms by simp
  have z: "(st_bytes m str ?ds)(str + word_of_nat ?n := 0) = st_bytes m str (?ds @ [0])" by (simp add: st_bytes_append)
  have "fold (\<lambda>j. swap_bytes (str + word_of_nat j) (str + word_of_nat (?n - j - 1))) ks (st_bytes m str xs) =
      st_bytes m str (fold (\<lambda>j. swap_at j (?n - j - 1)) ks xs)"
    if "\<forall>j \<in> set ks. j < ?n" "length xs = length (?ds @ [0])" for ks xs
    using that
  proof (induction ks arbitrary: xs)
    case (Cons k ks)
    then have "swap_bytes (str + word_of_nat k) (str + word_of_nat (?n - k - 1)) (st_bytes m str xs) = st_bytes m str (swap_at k (?n - k - 1) xs)"
      using b by (intro swap_st_bytes) simp_all
    then show ?case using Cons by simp
  qed simp
  moreover have "\<forall>j \<in> set [0..<?n div 2]. j < ?n" by auto
  ultimately have "fold (\<lambda>j. swap_bytes (str + word_of_nat j) (str + word_of_nat (?n - j - 1))) [0..<?n div 2] (st_bytes m str (?ds @ [0])) =
      st_bytes m str (rev ?ds @ [0])" unfolding swaps_all [symmetric] by blast
  then show ?thesis using False z itoa_loop_decimal [of str v 0 m] by (simp add: itoa_def u32_to_dec_def)
qed

text \<open>In base 1 the loop goes on for ever, since dividing by 1 does not make the number smaller.\<close>

lemma itoa_loop_base_one: "itoa_loop 1 str v i m = Some r \<Longrightarrow> v = 0"
proof -
  assume "itoa_loop 1 str v i m = Some r"
  then have "(1 :: u32) = 1 \<longrightarrow> v = 0"
    by (rule itoa_loop.raw_induct [where P = "\<lambda>base str num i m r. base = 1 \<longrightarrow> num = 0", rotated]) (auto split: if_splits)
  then show ?thesis by simp
qed

lemma itoa_base_one: "v \<noteq> 0 \<Longrightarrow> itoa v str 1 m = None"
  using itoa_loop_base_one [of str v 0 m] by (cases "itoa_loop 1 str v 0 m") (auto simp: itoa_def)

lemma itoa_base_zero: "v \<noteq> 0 \<Longrightarrow> itoa v str 0 m = None"
  by (subst itoa_def, subst itoa_loop.simps) simp

section \<open>The listing of the root\<close>

text \<open>
  Up to 24 entries fit on the screen below the title: then the listing returns and writes, once the table is copied, only
  the screen and the size buffer.  Each further entry is printed behind the video memory.
\<close>

definition outside_of :: "ptr \<Rightarrow> mem \<Rightarrow> mem \<Rightarrow> bool" where
  "outside_of buf m m' \<longleftrightarrow> (\<forall>x. \<not> in_range x VGA_BUF 4000 \<longrightarrow> \<not> in_range x buf 11 \<longrightarrow> m' x = m x)"

lemma outside_of_screen: "screen_only m m' \<Longrightarrow> outside_of buf m m'"
  by (simp add: outside_of_def screen_only_def)

lemma outside_of_trans: "outside_of buf m m' \<Longrightarrow> outside_of buf m' m'' \<Longrightarrow> outside_of buf m m''"
  by (simp add: outside_of_def)

lemma list_entry_ok:
  assumes b: "unat buf + 11 \<le> 2 ^ 64" and i: "i < 24"
  shows "\<exists>v'. list_entry files buf (i, e) v = Some v' \<and> outside_of buf (vmem v) (vmem v')"
proof -
  have y: "(word_of_nat i :: u32) + 1 < 25"
    using i by (simp add: word_less_nat_alt unat_word_ariths unsigned_of_nat take_bit_nat_eq_self)
  obtain v1 where 1: "print_string_position (files + SIZEOF_ENTRY * word_of_nat i) 0 (word_of_nat i + 1) (color_code WHITE) (color_code BLACK) v = Some v1"
      "screen_only (vmem v) (vmem v1)"
    using print_string_position_ok [of 0, OF _ y] by fastforce
  show ?thesis
  proof (cases "e_is_dir e")
    case True
    then show ?thesis using 1 outside_of_screen by (auto simp: list_entry_def)
  next
    case False
    let ?m = "fst (u32_to_dec (vmem v1) (e_size e) buf)"
    have n: "outside_of buf (vmem v1) ?m"
      unfolding u32_to_dec_text fst_conv outside_of_def using b dec_text_length [of "e_size e"] by (auto intro!: st_bytes_outside simp: in_range_def)
    obtain v2 where 2: "print_string_position buf 22 (word_of_nat i + 1) (color_code RED) (color_code BLACK) (v1\<lparr>vmem := ?m\<rparr>) = Some v2"
        "screen_only ?m (vmem v2)"
      using print_string_position_ok [of 22, OF _ y, of buf "color_code RED" "color_code BLACK" "v1\<lparr>vmem := ?m\<rparr>"] by auto
    have it: "itoa (e_size e) buf 10 (vmem v1) = Some (?m, buf)" using itoa_decimal [OF b] by (simp add: u32_to_dec_text)
    show ?thesis
      using False 1 2 it outside_of_trans [OF outside_of_trans [OF outside_of_screen [OF 1(2)] n] outside_of_screen [OF 2(2)]]
      by (simp add: list_entry_def)
  qed
qed

lemma list_entries_ok:
  assumes "unat buf + 11 \<le> 2 ^ 64"
  shows "\<forall>(i, e) \<in> set es. i < 24 \<Longrightarrow> \<exists>v'. list_entries files buf es v = Some v' \<and> outside_of buf (vmem v) (vmem v')"
proof (induction es arbitrary: v)
  case (Cons a es)
  obtain i e where a: "a = (i, e)" by force
  have "i < 24" using Cons.prems a by simp
  from list_entry_ok [OF assms this, of files e v] obtain v1 where 1: "list_entry files buf a v = Some v1" "outside_of buf (vmem v) (vmem v1)"
    unfolding a by blast
  obtain v2 where "list_entries files buf es v1 = Some v2" "outside_of buf (vmem v1) (vmem v2)" using Cons.IH [of v1] Cons.prems by auto
  then show ?case using 1 outside_of_trans by auto
qed (simp add: outside_of_def)

lemma list_root_dir_stays:
  assumes "unat buf + 11 \<le> 2 ^ 64" "length (fs_get_all_in_dir (int FS_MAX_ENTRIES) (int FS_ROOT_IDX) s) \<le> 24"
  shows "\<exists>v'. list_root_dir lit files buf s v = Some v' \<and>
    (let es = fs_get_all_in_dir (int FS_MAX_ENTRIES) (int FS_ROOT_IDX) s
     in outside_of buf (fold (\<lambda>(i, e). st_entry (files + SIZEOF_ENTRY * word_of_nat i) e) (zip [0..<length es] es) (vmem v)) (vmem v'))"
proof -
  define es where "es = fs_get_all_in_dir (int FS_MAX_ENTRIES) (int FS_ROOT_IDX) s"
  define m where "m = fold (\<lambda>(i, e). st_entry (files + SIZEOF_ENTRY * word_of_nat i) e) (zip [0..<length es] es) (vmem v)"
  obtain v1 where 1: "print_string_position (lit ''Root directory:'') 0 0 (color_code RED) (color_code BLACK) (v\<lparr>vmem := m\<rparr>) = Some v1"
      "screen_only m (vmem v1)"
    using print_string_position_ok [of 0 0 "lit ''Root directory:''" "color_code RED" "color_code BLACK" "v\<lparr>vmem := m\<rparr>"] by auto
  have "\<forall>(i, e) \<in> set (zip [0..<length es] es). i < 24" using assms(2) by (auto simp: es_def dest: set_zip_leftD)
  from list_entries_ok [OF assms(1) this, of files v1] obtain v2
    where 2: "list_entries files buf (zip [0..<length es] es) v1 = Some v2" "outside_of buf (vmem v1) (vmem v2)" by blast
  have "list_root_dir lit files buf s v = Some v2" using 1(1) 2(1) by (simp add: list_root_dir_def Let_def flip: es_def m_def)
  then show ?thesis using outside_of_trans [OF outside_of_screen [OF 1(2)] 2(2)] by (simp add: Let_def flip: es_def m_def)
qed

section \<open>The self test step by step\<close>

definition greeting :: string where
  "greeting = ''Hello from kernel heap!''"

text \<open>The heap lies apart from the screen, the number buffer and the literals.\<close>

definition heap_apart :: "(string \<Rightarrow> ptr) \<Rightarrow> ptr \<Rightarrow> string set \<Rightarrow> ptr \<Rightarrow> ptr \<Rightarrow> bool" where
  "heap_apart lit nbuf S hs he \<longleftrightarrow>
     (let n = unat he - unat hs
      in disjoint hs n VGA_BUF 4000 \<and> disjoint hs n nbuf 11 \<and> (\<forall>s \<in> S. disjoint hs n (lit s) (Suc (length s))))"

text \<open>
  What holds between the steps: the blocks \<open>bs\<close>, the cells \<open>cs\<close>, and the payloads of \<open>P\<close>
  with the bytes they had at the start.
\<close>

definition stage ::
  "(string \<Rightarrow> ptr) \<Rightarrow> ptr \<Rightarrow> string set \<Rightarrow> ptr \<Rightarrow> ptr \<Rightarrow> vga \<Rightarrow> (ptr \<times> nat) set \<Rightarrow> blk list \<Rightarrow> (u8 \<times> u8) list \<Rightarrow> kheap \<times> vga \<Rightarrow> bool"
where
  "stage lit nbuf S hs he v0 P bs cs = (\<lambda>(k, v).
     krep hs he (k, vmem v) bs \<and> P \<subseteq> live bs \<and> lits_ok lit nbuf S (vmem v) \<and> heap_apart lit nbuf S hs he \<and> (\<exists>m. v = v0\<lparr>vmem := m\<rparr>) \<and>
     (\<forall>(q, l) \<in> P. same_on (vmem v0) (vmem v) q l) \<and> cells_of (vmem v) = cs)"

lemma stage_outside_heap:
  assumes s: "stage lit nbuf S hs he v0 P bs cs (k, v)"
    and o: "\<And>x. \<not> in_range x VGA_BUF 4000 \<Longrightarrow> \<not> in_range x nbuf 11 \<Longrightarrow> m' x = vmem v x"
  shows "stage lit nbuf S hs he v0 P bs (cells_of m') (k, v\<lparr>vmem := m'\<rparr>)"
proof -
  have ap: "heap_apart lit nbuf S hs he" and rep: "krep hs he (k, vmem v) bs" using s by (simp_all add: stage_def)
  have same: "m' x = vmem v x" if "unat hs \<le> unat x" "unat x < unat he" for x
    using ap that by (intro o) (auto simp: heap_apart_def disjoint_def in_range_def Let_def)
  have wf: "heap_wf (vmem v) KERNEL_MAGIC (unat hs) bs (unat he)" using rep by (simp add: krep_def)
  have "krep hs he (k, m') bs" using heap_wf_region [OF wf same] rep by (simp add: krep_def)
  moreover have "lits_ok lit nbuf S m'" using lits_ok_keep [OF _ o] s by (simp add: stage_def)
  moreover have "same_on (vmem v0) m' q l" if q: "(q, l) \<in> P" for q l
  proof -
    have "(q, l) \<in> live bs" using s q by (auto simp: stage_def)
    then have "same_on (vmem v) m' q l" using live_bounds(1,2) [OF wf] same by (fastforce simp: same_on_def in_range_def)
    then show ?thesis using s q by (auto simp: stage_def intro: same_on_trans)
  qed
  ultimately show ?thesis using s by (auto simp: stage_def)
qed

lemma stage_inside_heap:
  assumes s: "stage lit nbuf S hs he v0 P bs cs (k, v)" and b: "krep hs he (k', m') bs'" "P \<subseteq> live bs'"
    and o: "same_outside (unat hs) (unat he) (vmem v) m'" and p: "\<And>q l. (q, l) \<in> P \<Longrightarrow> same_on (vmem v) m' q l"
  shows "stage lit nbuf S hs he v0 P bs' cs (k', v\<lparr>vmem := m'\<rparr>)"
proof -
  have ap: "heap_apart lit nbuf S hs he" and lk: "lits_ok lit nbuf S (vmem v)" using s by (simp_all add: stage_def)
  have lt: "unat hs < unat he" using b(1) by (simp add: krep_def)
  have "m' x = vmem v x" if "in_range x VGA_BUF 4000" for x
    using that ap lt by (intro o [unfolded same_outside_def, rule_format]) (auto simp: heap_apart_def disjoint_def in_range_def Let_def)
  then have "cells_of m' = cells_of (vmem v)" by (rule cells_same)
  moreover have "cstr m' (lit t) (text_of t)" if t: "t \<in> S" for t
  proof -
    have l: "cstr (vmem v) (lit t) (text_of t)" "unat (lit t) + Suc (length t) \<le> 2 ^ 64" "disjoint hs (unat he - unat hs) (lit t) (Suc (length t))"
      using lk ap t by (simp_all add: lits_ok_def heap_apart_def Let_def)
    have "same_on (vmem v) m' (lit t) (Suc (length (text_of t)))"
      using o l(3) lt by (auto simp: same_on_def same_outside_def disjoint_def in_range_def)
    then show ?thesis using l(1,2) cstr_cong [of "vmem v" m' "lit t" "text_of t"] by simp
  qed
  then have "lits_ok lit nbuf S m'" using lk by (simp add: lits_ok_def)
  moreover have "\<forall>(q, l) \<in> P. same_on (vmem v0) m' q l" using s p by (auto simp: stage_def intro: same_on_trans)
  ultimately show ?thesis using s b by (auto simp: stage_def)
qed

lemma stage_print:
  assumes s: "stage lit nbuf S hs he v0 P bs cs (k, v)" and p: "(p, j) \<in> live bs" "length t < j" "cstr (vmem v) p t" "0x09 \<notin> set t"
    and x: "unat x + length t \<le> 80" "y < 25"
  obtains m' where "print_string_position p x y fore back v = Some (v\<lparr>vmem := m'\<rparr>)"
    "stage lit nbuf S hs he v0 P bs (overlay (unat y * 80 + unat x) (paint (make_color fore back) t) cs) (k, v\<lparr>vmem := m'\<rparr>)"
    "same_on (vmem v) m' p j"
proof -
  have wf: "heap_wf (vmem v) KERNEL_MAGIC (unat hs) bs (unat he)" and ap: "heap_apart lit nbuf S hs he" and cs: "cells_of (vmem v) = cs"
    using s by (simp_all add: stage_def krep_def)
  note lb = live_bounds [OF wf p(1)]
  have dj: "disjoint p j VGA_BUF 4000" using ap lb(1,2) by (auto simp: heap_apart_def disjoint_def Let_def)
  then have d: "disjoint p (Suc (length t)) VGA_BUF 4000" "unat p + Suc (length t) \<le> 2 ^ 64" using lb(3) p(2) by (auto simp: disjoint_def)
  obtain m' where m': "print_string_position p x y fore back v = Some (v\<lparr>vmem := m'\<rparr>)" "screen_only (vmem v) m'"
      "cells_of m' = overlay (unat y * 80 + unat x) (paint (make_color fore back) t) cs"
    using print_position_text [OF p(3,4) d x, of fore "back"] cs by blast
  have "same_on (vmem v) m' p j" using m'(2) dj by (auto simp: screen_only_def same_on_def disjoint_def in_range_def)
  then show thesis using that [OF m'(1)] stage_outside_heap [OF s, of m'] m'(2,3) by (auto simp: screen_only_def)
qed

text \<open>The first part: two megabytes with the greeting in them, shown in line 15.\<close>

lemma greeting_bytes: "length (text_of greeting) = 23" "0 \<notin> set (text_of greeting)" "0x09 \<notin> set (text_of greeting)"
  by (simp_all add: greeting_def text_of_def)

lemma stage_malloc:
  assumes s: "stage lit nbuf S hs he v0 P bs cs (k, v)" and n: "k_admissible bs n" "n \<noteq> 0"
  obtains k' m' p j where "malloc hs n (k, vmem v) = Some ((k', m'), p)" "p \<noteq> NULL"
    "stage lit nbuf S hs he v0 P (fst (a_malloc n bs)) cs (k', v\<lparr>vmem := m'\<rparr>)"
    "live (fst (a_malloc n bs)) = insert (p, j) (live bs)" "unat n \<le> j" "p \<notin> fst ` live bs"
proof -
  have rep: "krep hs he (k, vmem v) bs" using s by (simp add: stage_def)
  obtain k' m' where al: "malloc hs n (k, vmem v) = Some ((k', m'), snd (a_malloc n bs))" "krep hs he (k', m') (fst (a_malloc n bs))"
      "only_hdrs (vmem v) m' (fst ` set (fst (a_malloc n bs)))"
    using malloc_refines [OF rep n(1), of hs] by auto
  have p0: "snd (a_malloc n bs) \<noteq> NULL" using a_malloc_nonnull [OF rep n(2,1)] .
  obtain j where j: "live (fst (a_malloc n bs)) = insert (snd (a_malloc n bs), j) (live bs)" "unat n \<le> j" "snd (a_malloc n bs) \<notin> fst ` live bs"
    using km.alloc_fresh [OF rep n(1) al(1) p0] by blast
  have "same_outside (unat hs) (unat he) (vmem v) m'" using hdrs_outside [OF al(3)] al(2) by (simp add: krep_def heap_wf_def)
  moreover have P: "P \<subseteq> live bs" using s by (simp add: stage_def)
  ultimately have "stage lit nbuf S hs he v0 P (fst (a_malloc n bs)) cs (k', v\<lparr>vmem := m'\<rparr>)"
    using km.alloc_keeps(1) [OF rep n(1) al(1)] j(1) by (intro stage_inside_heap [OF s al(2)]) auto
  then show thesis using that [OF al(1) p0] j by blast
qed

lemma stage_greeting:
  assumes s: "stage lit nbuf S hs he v0 P bs cs (k, v)" and p: "(p, j) \<in> live bs" "24 \<le> j" "p \<notin> fst ` P" and g: "greeting \<in> S"
  obtains m' where "strcpy (vmem v) p (lit greeting) = Some m'" "stage lit nbuf S hs he v0 P bs cs (k, v\<lparr>vmem := m'\<rparr>)"
    "cstr m' p (text_of greeting)"
proof -
  let ?t = "text_of greeting" let ?m = "st_bytes (vmem v) p (?t @ [0])"
  have rep: "krep hs he (k, vmem v) bs" and wf: "heap_wf (vmem v) KERNEL_MAGIC (unat hs) bs (unat he)"
    and ap: "heap_apart lit nbuf S hs he" using s by (simp_all add: stage_def krep_def)
  note lb = live_bounds [OF wf p(1)]
  have l: "cstr (vmem v) (lit greeting) ?t" "unat (lit greeting) + Suc (length ?t) \<le> 2 ^ 64"
      "disjoint hs (unat he - unat hs) (lit greeting) (Suc (length ?t))"
    using s g by (simp_all add: stage_def lits_ok_def heap_apart_def Let_def)
  have b: "unat p + Suc (length ?t) \<le> 2 ^ 64" "length (?t @ [0]) \<le> j" using lb(3) p(2) greeting_bytes(1) by simp_all
  have "disjoint p (Suc (length ?t)) (lit greeting) (Suc (length ?t))" using l(3) lb(1,2) b(2) by (auto simp: disjoint_def)
  then have cp: "strcpy (vmem v) p (lit greeting) = Some ?m" using strcpy_loop_cstr [OF l(1) _ b(1) l(2)] by (simp add: strcpy_def)
  note w = payload_write [OF wf p(1) b(2)]
  have "same_outside (unat hs) (unat he) (vmem v) ?m"
    unfolding same_outside_def using lb b by (auto intro!: st_bytes_outside simp: in_range_def)
  moreover have "same_on (vmem v) ?m q l" if "(q, l) \<in> P" for q l
    using that s p(3) by (intro w(3)) (force simp: stage_def)+
  ultimately have "stage lit nbuf S hs he v0 P bs cs (k, v\<lparr>vmem := ?m\<rparr>)"
    using rep w(1) s by (intro stage_inside_heap [OF s]) (simp_all add: krep_def stage_def)
  then show thesis using that [OF cp] cstr_st_bytes [OF b(1) greeting_bytes(2)] by blast
qed

lemma stage_show:
  assumes s: "stage lit nbuf S hs he v0 P bs cs (k, v\<lparr>vmem := m\<rparr>)" and p: "(p, j) \<in> live bs" "24 \<le> j" "cstr m p (text_of greeting)"
    and y: "y < 25"
  shows "\<exists>m'. print_string_position p 50 y (color_code WHITE) (color_code RED) (v\<lparr>vmem := m\<rparr>) = Some (v\<lparr>vmem := m'\<rparr>) \<and>
    stage lit nbuf S hs he v0 P bs (overlay (unat y * 80 + 50) (paint 0x4F (text_of greeting)) cs) (k, v\<lparr>vmem := m'\<rparr>) \<and> same_on m m' p j"
proof -
  have c: "make_color (color_code WHITE) (color_code RED) = 0x4F" by (simp add: make_color_def)
  have t: "length (text_of greeting) < j" "cstr (vmem (v\<lparr>vmem := m\<rparr>)) p (text_of greeting)" "unat (50 :: u32) + length (text_of greeting) \<le> 80"
    using p(2,3) greeting_bytes(1) by simp_all
  obtain m' where "print_string_position p 50 y (color_code WHITE) (color_code RED) (v\<lparr>vmem := m\<rparr>) = Some (v\<lparr>vmem := m, vmem := m'\<rparr>)"
      "stage lit nbuf S hs he v0 P bs (overlay (unat y * 80 + unat (50 :: u32)) (paint 0x4F (text_of greeting)) cs) (k, v\<lparr>vmem := m, vmem := m'\<rparr>)"
      "same_on (vmem (v\<lparr>vmem := m\<rparr>)) m' p j"
    by (rule stage_print [OF s p(1) t(1,2) greeting_bytes(3) t(3) y, of "color_code WHITE" "color_code RED", unfolded c])
  then show ?thesis by (intro exI [of _ m']) simp
qed

lemma stage_realloc:
  assumes s: "stage lit nbuf S hs he v0 P bs cs (k, v)" and p: "live bs = insert (p, j) P" "p \<notin> fst ` P" "24 \<le> j"
    and n: "k_admissible bs n" "24 \<le> unat n" and t: "cstr (vmem v) p t" "length t < 24"
  obtains k' m' q bs' j' where "realloc hs p n (k, vmem v) = Some ((k', m'), q)" "q \<noteq> NULL"
    "stage lit nbuf S hs he v0 P bs' cs (k', v\<lparr>vmem := m'\<rparr>)"
    "live bs' = insert (q, j') P" "q \<notin> fst ` P" "unat n \<le> j'" "cstr m' q t"
proof -
  have rep: "krep hs he (k, vmem v) bs" and lv: "(p, j) \<in> live bs" using s p(1) by (simp_all add: stage_def)
  have n0: "n \<noteq> 0" "unat n + 7 < 2 ^ 64" using n by (auto simp: k_admissible_def)
  obtain k' m' q where r: "realloc hs p n (k, vmem v) = Some ((k', m'), q)" "q \<noteq> NULL"
      and post: "realloc_post (krep hs he (k', m')) (unat hs) (unat he) (vmem v) m' bs p j q n"
    using realloc_cases [OF rep lv n0 disjI2 [OF n(1)]] by auto
  from post obtain bs' j' where b: "krep hs he (k', m') bs'" "live bs' = insert (q, j') (live bs - {(p, j)})" "q = p \<or> q \<notin> fst ` live bs"
      "unat n \<le> j'" "ld_bytes m' q (min j (unat n)) = ld_bytes (vmem v) p (min j (unat n))"
      "\<And>r l. (r, l) \<in> live bs \<Longrightarrow> r \<noteq> p \<Longrightarrow> same_on (vmem v) m' r l" "same_outside (unat hs) (unat he) (vmem v) m'"
    unfolding realloc_post_def by blast
  have "(p, j) \<notin> P" using p(2) by (metis fst_conv imageI)
  then have l: "live bs' = insert (q, j') P" unfolding b(2) p(1) by simp
  then have sub: "P \<subseteq> live bs'" by blast
  have keep: "same_on (vmem v) m' r l" if "(r, l) \<in> P" for r l
    using that p(2) by (intro b(6)) (simp add: p(1), metis fst_conv imageI)
  note st = stage_inside_heap [OF s b(1) sub b(7) keep]
  have "cstr m' q t"
  proof -
    have i: "Suc (length t) \<le> min j (unat n)" using t(2) p(3) n(2) by simp
    have "ld_bytes m' q (Suc (length t)) = ld_bytes (vmem v) p (Suc (length t))"
      using arg_cong [OF b(5), of "take (Suc (length t))"] i by (simp add: take_ld_bytes min_absorb1)
    then show ?thesis using t(1) by (simp add: cstr_bytes)
  qed
  moreover have "q \<notin> fst ` P" using b(3) p by auto
  ultimately show thesis using that [OF r st l _ b(4)] by blast
qed

lemma stage_free:
  assumes s: "stage lit nbuf S hs he v0 P bs cs (k, v)" and p: "live bs = insert (p, j) P" "p \<notin> fst ` P"
  obtains k' m' bs' where "free p (k, vmem v) = (k', m')" "stage lit nbuf S hs he v0 P bs' cs (k', v\<lparr>vmem := m'\<rparr>)" "live bs' = P"
proof -
  have rep: "krep hs he (k, vmem v) bs" and wf: "heap_wf (vmem v) KERNEL_MAGIC (unat hs) bs (unat he)" using s by (simp_all add: stage_def krep_def)
  obtain k' m' where f: "free p (k, vmem v) = (k', m')" by force
  have "p \<in> fst ` live bs" using p(1) by force
  then obtain z where z: "(payload_to_header p, z, False) \<in> set bs" "(p, unat z) \<in> live bs" by (rule live_blocksE)
  have r: "krep hs he (k', m') (a_free (payload_to_header p) bs)" "only_hdrs (vmem v) m' (fst ` set bs)"
    using free_refines [OF rep z(1)] f by simp_all
  have l: "live (a_free (payload_to_header p) bs) = P"
    using live_free [OF heap_wf_distinct [OF wf] z(1)] live_unique [OF wf z(2), of j] p by (force simp: payload_to_header_def)
  have "same_outside (unat hs) (unat he) (vmem v) m'" using hdrs_outside [OF r(2)] wf by (simp add: heap_wf_def)
  then have "stage lit nbuf S hs he v0 P (a_free (payload_to_header p) bs) cs (k', v\<lparr>vmem := m'\<rparr>)"
    using l p(1) live_kept [OF wf r(2)] by (intro stage_inside_heap [OF s r(1)]) auto
  then show thesis using that [OF f] l by blast
qed

lemma stage_report:
  assumes s: "stage lit nbuf S hs he v0 P bs cs (k, v)" and S: "stats_literals \<subseteq> S"
  obtains m' where "print_kmalloc_stats lit nbuf k v = Some (v\<lparr>vmem := m'\<rparr>)"
    "stage lit nbuf S hs he v0 P bs (with_lines 10 (stats_report (plus_stats zero_stats bs)) cs) (k, v\<lparr>vmem := m'\<rparr>)"
proof -
  have "lits_ok lit nbuf stats_literals (vmem v)" using s S by (auto simp: stage_def lits_ok_def)
  moreover have "get_kmalloc_stats (k, vmem v) = Some (plus_stats zero_stats bs)" using s by (auto simp: stage_def intro: kmalloc_stats_rep)
  ultimately obtain m' where m': "print_kmalloc_stats lit nbuf k v = Some (v\<lparr>vmem := m'\<rparr>)"
      "cells_of m' = with_lines 10 (stats_report (plus_stats zero_stats bs)) (cells_of (vmem v))"
      "\<forall>x. \<not> in_range x VGA_BUF 4000 \<longrightarrow> \<not> in_range x nbuf 11 \<longrightarrow> m' x = vmem v x"
    using print_stats_report by blast
  have "cells_of (vmem v) = cs" using s by (simp add: stage_def)
  then show thesis using that [OF m'(1)] stage_outside_heap [OF s, of m'] m'(2,3) by simp
qed

text \<open>What the test leaves on the screen above the report.\<close>

definition test_screen :: "(u8 \<times> u8) list \<Rightarrow> (u8 \<times> u8) list" where
  "test_screen cs = overlay (17 * 80 + 50) (paint 0x4F (text_of greeting)) (overlay (15 * 80 + 50) (paint 0x4F (text_of greeting))
     (cs[10 * 80 + 5 := (0x58, 0x4F)]))"

definition test_literals :: "string set" where
  "test_literals = insert greeting stats_literals"

abbreviation MIB :: u64 where "MIB \<equiv> 0x100000"

lemma self_test:
  assumes s: "stage lit nbuf test_literals hs he v (live bs) bs (cells_of (vmem v)) (k, v)"
    and adm: "k_admissible bs (2 * MIB)" "k_admissible (fst (a_malloc (2 * MIB) bs)) (3 * MIB)"
  shows "\<exists>k' m bs'. debug_run_tests lit nbuf hs (k, v) = Some (k', v\<lparr>vmem := m\<rparr>) \<and> live bs' = live bs \<and>
    stage lit nbuf test_literals hs he v (live bs) bs' (with_lines 10 (stats_report (plus_stats zero_stats bs')) (test_screen (cells_of (vmem v))))
      (k', v\<lparr>vmem := m\<rparr>)"
proof -
  let ?P = "live bs" let ?st = "stage lit nbuf test_literals hs he v ?P"
  let ?W = "color_code WHITE" and ?R = "color_code RED" let ?g = "text_of greeting"
  have c: "make_color ?W ?R = 0x4F" by (simp add: make_color_def)
  have lits: "greeting \<in> test_literals" "stats_literals \<subseteq> test_literals" by (auto simp: test_literals_def)
  let ?cs1 = "(cells_of (vmem v))[10 * 80 + 5 := (0x58, 0x4F)]"
  define m1 where "m1 = vmem (print_char_position 0x58 5 10 ?W ?R v)"
  have 1: "print_char_position 0x58 5 10 ?W ?R v = v\<lparr>vmem := m1\<rparr>" "cells_of m1 = ?cs1" "screen_only (vmem v) m1"
    using print_char_position_ok(2) [of 5 10 "0x58" ?W ?R v] print_char_position_ok(1) c
    by (simp_all add: m1_def VGA_WIDTH_def) (simp add: print_char_position_def)
  have s1: "?st bs ?cs1 (k, v\<lparr>vmem := m1\<rparr>)"
    using stage_outside_heap [OF s, of m1] 1(2,3) by (simp add: screen_only_def)
  obtain k2 m2 p j where 2: "malloc hs (2 * MIB) (k, m1) = Some ((k2, m2), p)" "p \<noteq> NULL"
      "?st (fst (a_malloc (2 * MIB) bs)) ?cs1 (k2, v\<lparr>vmem := m2\<rparr>)"
      "live (fst (a_malloc (2 * MIB) bs)) = insert (p, j) ?P" "unat (2 * MIB) \<le> j" "p \<notin> fst ` ?P"
    by (rule stage_malloc [OF s1 adm(1)]) simp_all
  let ?b1 = "fst (a_malloc (2 * MIB) bs)"
  have j: "(p, j) \<in> live ?b1" "24 \<le> j" "length ?g < j" using 2(4,5) greeting_bytes(1) by simp_all
  obtain m3 where 3: "strcpy m2 p (lit greeting) = Some m3" "?st ?b1 ?cs1 (k2, v\<lparr>vmem := m3\<rparr>)" "cstr m3 p ?g"
    by (rule stage_greeting [OF 2(3) j(1,2) 2(6) lits(1)]) simp_all
  let ?cs2 = "overlay (15 * 80 + 50) (paint 0x4F ?g) ?cs1" let ?cs3 = "overlay (17 * 80 + 50) (paint 0x4F ?g) ?cs2"
  obtain m4 where 4: "print_string_position p 50 15 ?W ?R (v\<lparr>vmem := m3\<rparr>) = Some (v\<lparr>vmem := m4\<rparr>)" "?st ?b1 ?cs2 (k2, v\<lparr>vmem := m4\<rparr>)" "same_on m3 m4 p j"
    using stage_show [OF 3(2) j(1,2) 3(3), of 15] by auto
  have "unat p + j \<le> 2 ^ 64" using live_bounds(3) [OF _ j(1), of m4 KERNEL_MAGIC "unat hs" "unat he"] 4(2) by (simp add: stage_def krep_def)
  then have "cstr m4 p ?g" using cstr_cong [OF same_on_sub [OF 4(3), of p "Suc (length ?g)"]] 3(3) j(3) by simp
  then have cp: "cstr (vmem (v\<lparr>vmem := m4\<rparr>)) p ?g" by simp
  have n3: "24 \<le> unat (3 * MIB)" "length ?g < 24" using greeting_bytes(1) by simp_all
  obtain k5 m5 q b5 j5 where 5: "realloc hs p (3 * MIB) (k2, m4) = Some ((k5, m5), q)" "q \<noteq> NULL" "?st b5 ?cs2 (k5, v\<lparr>vmem := m5\<rparr>)"
      "live b5 = insert (q, j5) ?P" "q \<notin> fst ` ?P" "unat (3 * MIB) \<le> j5" "cstr m5 q ?g"
    by (rule stage_realloc [OF 4(2) 2(4,6) j(2) adm(2) n3(1) cp n3(2)]) simp_all
  have j5: "(q, j5) \<in> live b5" "24 \<le> j5" using 5(4,6) by simp_all
  obtain m6 where 6: "print_string_position q 50 17 ?W ?R (v\<lparr>vmem := m5\<rparr>) = Some (v\<lparr>vmem := m6\<rparr>)" "?st b5 ?cs3 (k5, v\<lparr>vmem := m6\<rparr>)"
    using stage_show [OF 5(3) j5 5(7), of 17] by auto
  obtain k7 m7 b7 where 7: "free q (k5, m6) = (k7, m7)" "?st b7 ?cs3 (k7, v\<lparr>vmem := m7\<rparr>)" "live b7 = ?P"
    by (rule stage_free [OF 6(2) 5(4,5)]) simp_all
  obtain m8 where 8: "print_kmalloc_stats lit nbuf k7 (v\<lparr>vmem := m7\<rparr>) = Some (v\<lparr>vmem := m8\<rparr>)"
      "?st b7 (with_lines 10 (stats_report (plus_stats zero_stats b7)) ?cs3) (k7, v\<lparr>vmem := m8\<rparr>)"
    by (rule stage_report [OF 7(2) lits(2)]) simp_all
  have "debug_run_tests lit nbuf hs (k, v) = Some (k7, v\<lparr>vmem := m8\<rparr>)"
    using 1(1) 2(1,2) 3(1) 4(1) 5(1,2) 6(1) 7(1) 8(1) by (simp add: debug_run_tests_def Let_def greeting_def)
  then show ?thesis using 7(3) 8(2) by (auto simp: test_screen_def)
qed

section \<open>The self test passes\<close>

definition demo_test :: kstate where
  "demo_test = malloc_init 0x1000000 0x1000000
     (\<lparr>heap_head = NULL, heap_tail = NULL, managed_heap_end = NULL, brk_ptr = NULL\<rparr>, demo_rom)"

definition demo_test_vga :: vga where
  "demo_test_vga = \<lparr>vx = 0, vy = 0, vmem = snd demo_test, vio = []\<rparr>"

lemma demo_test_heap:
  "krep 0x1000000 0x2000000 (fst demo_test, vmem demo_test_vga) [(0x1000000, 0xFFFFD8, True)]"
  "lits_ok demo_lit 0x3000 test_literals (vmem demo_test_vga)" "heap_apart demo_lit 0x3000 test_literals 0x1000000 0x2000000"
proof -
  show "krep 0x1000000 0x2000000 (fst demo_test, vmem demo_test_vga) [(0x1000000, 0xFFFFD8, True)]"
    using krep_init(1) [of "0x1000000" "0x1000000"] by (simp add: demo_test_def demo_test_vga_def)
  have l: "lits_ok demo_lit 0x3000 (set demo_lits) (vmem demo_test_vga)"
    by (rule demo_lits_ok) (use malloc_init_outside [of "0x1000000" "0x1000000"] in \<open>simp add: demo_test_def demo_test_vga_def same_outside_def\<close>)
  have e: "test_literals = set demo_lits" by (auto simp: test_literals_def greeting_def stats_literals_def demo_lits_def)
  show "lits_ok demo_lit 0x3000 test_literals (vmem demo_test_vga)" using l by (simp add: e)
  show "heap_apart demo_lit 0x3000 test_literals 0x1000000 0x2000000"
    unfolding e by (simp add: heap_apart_def disjoint_def demo_lits_def demo_lit_values)
qed

lemma demo_test_room:
  "k_admissible [(0x1000000, 0xFFFFD8, True)] (2 * MIB)" "k_admissible (fst (a_malloc (2 * MIB) [(0x1000000, 0xFFFFD8, True)])) (3 * MIB)"
  by (simp_all add: k_admissible_def a_malloc_def align_up_def cut_def)

text \<open>
  C20: the self test of a debug kernel, on a heap with room for the two blocks that lies apart from
  the screen and the literals, runs to its end: the sign in line 10, the greeting in the lines 15 and 17 (the copy survives
  the resize from two to three megabytes) and the report on the heap are on the screen, with the figures of the heap after the test.
  The heap is well formed with exactly the payloads in use that it had before, and none of their bytes has changed.
\<close>

theorem self_test_passes:
  assumes "krep hs he (k, vmem v) bs" "lits_ok lit nbuf test_literals (vmem v)" "heap_apart lit nbuf test_literals hs he"
    "k_admissible bs (2 * MIB)" "k_admissible (fst (a_malloc (2 * MIB) bs)) (3 * MIB)"
  shows "\<exists>k' m bs' s. debug_run_tests lit nbuf hs (k, v) = Some (k', v\<lparr>vmem := m\<rparr>) \<and>
    krep hs he (k', m) bs' \<and> live bs' = live bs \<and> (\<forall>(q, l) \<in> live bs. same_on (vmem v) m q l) \<and>
    get_kmalloc_stats (k', m) = Some s \<and> cells_of m = with_lines 10 (stats_report s) (test_screen (cells_of (vmem v)))"
proof -
  have "stage lit nbuf test_literals hs he v (live bs) bs (cells_of (vmem v)) (k, v)"
    using assms(1-3) by (auto simp: stage_def intro: exI [of _ "vmem v"])
  from self_test [OF this assms(4,5)] obtain k' m bs' where t: "debug_run_tests lit nbuf hs (k, v) = Some (k', v\<lparr>vmem := m\<rparr>)" "live bs' = live bs"
      "krep hs he (k', m) bs'" "\<forall>(q, l) \<in> live bs. same_on (vmem v) m q l"
      "cells_of m = with_lines 10 (stats_report (plus_stats zero_stats bs')) (test_screen (cells_of (vmem v)))"
    by (auto simp: stage_def)
  then show ?thesis using kmalloc_stats_rep [OF t(3)] by blast
qed

theorem self_test_passes_witness:
  "\<exists>k' m bs' s. debug_run_tests demo_lit 0x3000 0x1000000 (fst demo_test, demo_test_vga) = Some (k', demo_test_vga\<lparr>vmem := m\<rparr>) \<and>
    krep 0x1000000 0x2000000 (k', m) bs' \<and> live bs' = {} \<and> get_kmalloc_stats (k', m) = Some s \<and>
    cells_of m = with_lines 10 (stats_report s) (test_screen (cells_of (vmem demo_test_vga)))"
  using self_test_passes [OF demo_test_heap demo_test_room] by auto

text \<open>
  In base 10 \<open>itoa\<close> of \<open>kernel.c\<close> stores the same text as \<open>u32_to_dec\<close> of
  \<open>malloc/malloc.c\<close> (a digit loop into the buffer itself and a reversal in place, against a loop over a temporary
  buffer that is copied backwards) and changes the same bytes; in base 1, and for base 0, it does not return.
\<close>

lemma itoa_is_u32_to_dec:
  assumes "unat str + 11 \<le> 2 ^ 64"
  shows "itoa v str 10 m = Some (u32_to_dec m v str) \<and> (v \<noteq> 0 \<longrightarrow> itoa v str 1 m = None \<and> itoa v str 0 m = None)"
  using itoa_decimal [OF assms] itoa_base_one itoa_base_zero by blast

end
