(* ===== verification/Kernel_Tasks.thy ===== *)
theory Kernel_Tasks
  imports Reports System_Runs
begin

text \<open>
  The two tasks that the kernel itself runs (\<open>tasks/tasks.c\<close>): the clock in the corner of the screen and the
  reaper.  Each is an endless loop of a round and \<open>hlt\<close>; a definition models one round.  The text buffers
  \<open>time_str\<close> and \<open>time_up\<close> of \<open>vga/vga.c\<close> are addresses.
\<close>

section \<open>Rounds\<close>

definition user_task1 :: "ptr \<Rightarrow> ptr \<Rightarrow> machine \<Rightarrow> machine option" where
  "user_task1 time_str time_up M = do {
     v \<leftarrow> print_time time_str (system_clock (mc_timer M)) (vga_of M);
     v \<leftarrow> print_systemup time_up (seconds (mc_timer M)) v;
     Some (put_vga v M)
   }"

definition zombie_reaper_task :: "layout \<Rightarrow> machine \<Rightarrow> machine option" where
  "zombie_reaper_task L M = map_option (\<lambda>s. M\<lparr>mc_sched := s\<rparr>) (reap_zombies L (mc_sched M))"

section \<open>The text of a time\<close>

definition two_digits :: "nat \<Rightarrow> u8 list" where
  "two_digits n = [0x30 + word_of_nat (n div 10), 0x30 + word_of_nat (n mod 10)]"

definition hms :: "nat \<Rightarrow> nat \<Rightarrow> nat \<Rightarrow> u8 list" where
  "hms h m s = two_digits h @ [0x3A] @ two_digits m @ [0x3A] @ two_digits s"

lemma hms_length [simp]: "length (hms h m s) = 8"
  by (simp add: hms_def two_digits_def)

lemma digit_nonzero: "n < 100 \<Longrightarrow> 0 \<notin> set (two_digits n)"
proof -
  assume n: "n < 100"
  have "(0x30 :: u8) + word_of_nat k \<noteq> 0" if "k < 10" for k
  proof
    assume "(0x30 :: u8) + word_of_nat k = 0"
    then have "unat ((0x30 :: u8) + word_of_nat k) = 0" by simp
    then show False using that by (simp add: unat_word_ariths unsigned_of_nat take_bit_nat_eq_self)
  qed
  moreover have "n div 10 < 10" "n mod 10 < 10" using n by auto
  ultimately show ?thesis by (auto simp: two_digits_def)
qed

lemma hms_nonzero: "h < 100 \<Longrightarrow> m < 100 \<Longrightarrow> s < 100 \<Longrightarrow> 0 \<notin> set (hms h m s)"
  using digit_nonzero [of h] digit_nonzero [of m] digit_nonzero [of s] by (simp add: hms_def)

lemma format_clock_text: "format_clock m buf t = st_bytes m buf (hms (unat (hh t)) (unat (mm t)) (unat (ss t)) @ [0])"
proof -
  have "w div 10 = word_of_nat (unat w div 10)" "w mod 10 = word_of_nat (unat w mod 10)" for w :: u8
    by (simp_all flip: unat_div unat_mod add: unat_div [of w 10, simplified, symmetric] unat_mod [of w 10, simplified, symmetric])
  then show ?thesis by (simp add: format_clock_def hms_def two_digits_def)
qed

lemma format_up_text:
  "format_up m secs buf = st_bytes m buf (hms (unat secs div 3600 mod 100) (unat secs mod 3600 div 60) (unat secs mod 60) @ [0])"
proof -
  have u: "(ucast (w :: u32) :: u8) = word_of_nat (unat w)" for w by simp
  have "unat secs div 3600 div 10 mod 10 = unat secs div 3600 mod 100 div 10" by (simp add: mod_mult2_eq [of _ 10 10, simplified])
  moreover have "unat secs div 3600 mod 10 = unat secs div 3600 mod 100 mod 10" by (simp add: mod_mod_cancel)
  ultimately show ?thesis
    unfolding format_up_def Let_def u by (simp add: unat_div unat_mod hms_def two_digits_def)
qed

section \<open>A line of the clock\<close>

lemma print_time_loop_text:
  "cstr (vmem v) (buf + ucast i) bs \<Longrightarrow> 70 + unat i + length bs \<le> 80 \<Longrightarrow> y < 25 \<Longrightarrow>
    disjoint (buf + ucast i) (Suc (length bs)) VGA_BUF 4000 \<Longrightarrow> unat (buf + ucast i) + Suc (length bs) \<le> 2 ^ 64 \<Longrightarrow>
    \<exists>m. print_time_loop buf i y v = Some (v\<lparr>vmem := m\<rparr>) \<and> screen_only (vmem v) m \<and>
      cells_of m = overlay (unat y * 80 + 70 + unat i) (paint 0x0E bs) (cells_of (vmem v))"
proof (induction bs arbitrary: i v)
  case Nil
  then show ?case by (subst print_time_loop.simps) (simp add: exI [of _ "vmem v"])
next
  case (Cons b bs)
  let ?p = "buf + ucast i" let ?v = "print_char_position b (70 + i) y (color_code YELLOW) (color_code BLACK) v"
  have c: "vmem v ?p = b" "b \<noteq> 0" "cstr (vmem v) (?p + 1) bs" using Cons.prems(1) by auto
  have ui: "unat i < 10" using Cons.prems(2) by simp
  then have u: "unat (i + 1) = unat i + 1" "unat (70 + i) = 70 + unat i"
    using unat_add_small [of i 1] unat_add_small [of 70 i] by simp_all
  have x: "70 + i < 80" using u(2) ui by (simp add: word_less_nat_alt)
  have y: "unat y < 25" using Cons.prems(3) by (simp add: word_less_nat_alt)
  have up: "unat (?p + 1) = unat ?p + 1" using Cons.prems(5) unat_add_small [of ?p 1] by simp
  have q: "buf + ucast (i + 1) = ?p + 1" using ucast_offset [OF u(1)] by (simp add: add.assoc)
  define m1 where "m1 = vmem ?v"
  have v1: "?v = v\<lparr>vmem := m1\<rparr>" by (simp add: m1_def print_char_position_def)
  have so: "screen_only (vmem v) m1" unfolding m1_def by (rule print_char_position_ok(1))
  let ?n = "unat y * 80 + 70 + unat i"
  have "make_color (color_code YELLOW) (color_code BLACK) = 0x0E" by (simp add: make_color_def)
  then have cells: "cells_of m1 = (cells_of (vmem v))[?n := (b, 0x0E)]"
    unfolding m1_def using print_char_position_ok(2) [OF x Cons.prems(3), of b "color_code YELLOW" "color_code BLACK" v] u(2) by (simp add: VGA_WIDTH_def add.assoc)
  have dj: "disjoint (?p + 1) (Suc (length bs)) VGA_BUF 4000" using Cons.prems(4) up by (auto simp: disjoint_def)
  have "same_on (vmem v) m1 (?p + 1) (Suc (length bs))" using so dj by (auto simp: screen_only_def same_on_def disjoint_def in_range_def)
  then have cs: "cstr (vmem (v\<lparr>vmem := m1\<rparr>)) (buf + ucast (i + 1)) bs"
    unfolding q using c(3) cstr_cong [of "vmem v" m1 "?p + 1" bs] Cons.prems(5) up by simp
  have b: "70 + unat (i + 1) + length bs \<le> 80" "unat (buf + ucast (i + 1)) + Suc (length bs) \<le> 2 ^ 64"
    unfolding q using Cons.prems(2,5) u(1) up by simp_all
  obtain m2 where m2: "print_time_loop buf (i + 1) y (v\<lparr>vmem := m1\<rparr>) = Some (v\<lparr>vmem := m2\<rparr>)" "screen_only m1 m2"
      "cells_of m2 = overlay (unat y * 80 + 70 + unat (i + 1)) (paint 0x0E bs) (cells_of m1)"
    using Cons.IH [OF cs b(1) Cons.prems(3) dj [folded q] b(2)] by auto
  have "print_time_loop buf i y v = Some (v\<lparr>vmem := m2\<rparr>)" using c(1,2) m2(1) v1 by (subst print_time_loop.simps) simp
  moreover have "?n < length (cells_of (vmem v))" using y ui by (simp add: CELLS_value)
  then have "cells_of m2 = overlay ?n (paint 0x0E (b # bs)) (cells_of (vmem v))"
    using m2(3) cells u(1) overlay_Cons [of ?n "cells_of (vmem v)" "(b, 0x0E)" "paint 0x0E bs"] by simp
  ultimately show ?case using screen_only_trans [OF so m2(2)] by blast
qed

text \<open>A time in a buffer of nine bytes and on the screen.\<close>

definition buffer_ok :: "ptr \<Rightarrow> bool" where
  "buffer_ok p \<longleftrightarrow> disjoint p 9 VGA_BUF 4000 \<and> unat p + 9 \<le> 2 ^ 64"

lemma print_hms:
  assumes b: "buffer_ok buf" and t: "h < 100" "m < 100" "s < 100" and y: "y < 25"
  shows "\<exists>m'. print_time_loop buf 0 y (v\<lparr>vmem := st_bytes (vmem v) buf (hms h m s @ [0])\<rparr>) = Some (v\<lparr>vmem := m'\<rparr>) \<and>
    (\<forall>x. in_range x VGA_BUF 4000 \<or> in_range x buf 9 \<or> m' x = vmem v x) \<and>
    cells_of m' = overlay (unat y * 80 + 70) (paint 0x0E (hms h m s)) (cells_of (vmem v))"
proof -
  let ?m = "st_bytes (vmem v) buf (hms h m s @ [0])"
  have l: "unat buf + length (hms h m s @ [0]) \<le> 2 ^ 64" "disjoint buf (Suc (length (hms h m s))) VGA_BUF 4000" using b by (simp_all add: buffer_ok_def)
  have out: "?m x = vmem v x" if "\<not> in_range x buf 9" for x using that l(1) by (intro st_bytes_outside) simp_all
  have cs: "cstr ?m buf (hms h m s)" using l(1) hms_nonzero [OF t] by (intro cstr_st_bytes) simp_all
  have "cells_of ?m = cells_of (vmem v)" using b by (intro cells_same out) (auto simp: buffer_ok_def disjoint_def in_range_def)
  with print_time_loop_text [of "v\<lparr>vmem := ?m\<rparr>" buf 0 "hms h m s" y] cs l y
  obtain m' where "print_time_loop buf 0 y (v\<lparr>vmem := ?m\<rparr>) = Some (v\<lparr>vmem := m'\<rparr>)" "screen_only ?m m'"
      "cells_of m' = overlay (unat y * 80 + 70) (paint 0x0E (hms h m s)) (cells_of (vmem v))" by auto
  then show ?thesis using out by (intro exI [of _ m']) (simp add: screen_only_def, metis)
qed

lemma print_time_shows:
  assumes "buffer_ok buf" "clock_ok t"
  shows "\<exists>m'. print_time buf t v = Some (v\<lparr>vmem := m'\<rparr>) \<and> (\<forall>x. in_range x VGA_BUF 4000 \<or> in_range x buf 9 \<or> m' x = vmem v x) \<and>
    cells_of m' = overlay 1990 (paint 0x0E (hms (unat (hh t)) (unat (mm t)) (unat (ss t)))) (cells_of (vmem v))"
  using print_hms [OF assms(1), of "unat (hh t)" "unat (mm t)" "unat (ss t)" 24 v] assms(2)
  by (simp add: print_time_def format_clock_text clock_ok_def)

lemma print_systemup_shows:
  assumes "buffer_ok buf"
  shows "\<exists>m'. print_systemup buf n v = Some (v\<lparr>vmem := m'\<rparr>) \<and> (\<forall>x. in_range x VGA_BUF 4000 \<or> in_range x buf 9 \<or> m' x = vmem v x) \<and>
    cells_of m' = overlay 1910 (paint 0x0E (hms (unat n div 3600 mod 100) (unat n mod 3600 div 60) (unat n mod 60))) (cells_of (vmem v))"
proof -
  have "unat n mod 3600 div 60 < 100" "unat n mod 60 < 100" using mod_less_divisor [of 3600 "unat n"] mod_less_divisor [of 60 "unat n"] by linarith+
  then show ?thesis
    using print_hms [OF assms, of "unat n div 3600 mod 100" "unat n mod 3600 div 60" "unat n mod 60" 23 v]
    by (simp add: print_systemup_def format_up_text)
qed

section \<open>The tasks in the kernel\<close>

text \<open>A static buffer lies in neither heap.\<close>

definition static_buf :: "layout \<Rightarrow> ptr \<Rightarrow> bool" where
  "static_buf L p \<longleftrightarrow> buffer_ok p \<and> disjoint p 9 (l_heap_start L) (unat (l_heap_end L) - unat (l_heap_start L)) \<and>
     disjoint p 9 (l_user_start L) (unat (l_user_end L) - unat (l_user_start L))"

text \<open>
  C21: a round of the clock task returns.  It shows the time of day in line 24 and, in line 23, the hours (modulo 100), minutes and seconds
  since the start, both from column 70 on and as the text \<open>hh:mm:ss\<close> of the counters; the rest of the
  screen is unchanged, nothing else is written but the two text buffers, and all components stay well formed.
\<close>

theorem clock_task_shows_time:
  assumes "kernel_inv L M" "video_apart L" "static_buf L time_str" "static_buf L time_up"
  shows "\<exists>m. user_task1 time_str time_up M = Some (put_ram m M) \<and> kernel_inv L (put_ram m M) \<and>
    (\<forall>x. in_range x VGA_BUF 4000 \<or> in_range x time_str 9 \<or> in_range x time_up 9 \<or> m x = ram (mc_sched M) x) \<and>
    cells_of m =
      (let t = system_clock (mc_timer M); n = unat (seconds (mc_timer M))
       in overlay (23 * 80 + 70) (paint 0x0E (hms (n div 3600 mod 100) (n mod 3600 div 60) (n mod 60)))
            (overlay (24 * 80 + 70) (paint 0x0E (hms (unat (hh t)) (unat (mm t)) (unat (ss t)))) (cells_of (ram (mc_sched M)))))"
proof -
  let ?t = "system_clock (mc_timer M)" let ?n = "seconds (mc_timer M)" let ?m0 = "ram (mc_sched M)"
  have b: "buffer_ok time_str" "buffer_ok time_up" using assms(3,4) by (simp_all add: static_buf_def)
  have ck: "clock_ok ?t" using assms(1) by (simp add: kernel_inv_def)
  obtain m1 where 1: "print_time time_str ?t (vga_of M) = Some ((vga_of M)\<lparr>vmem := m1\<rparr>)"
      "\<forall>x. in_range x VGA_BUF 4000 \<or> in_range x time_str 9 \<or> m1 x = ?m0 x"
      "cells_of m1 = overlay 1990 (paint 0x0E (hms (unat (hh ?t)) (unat (mm ?t)) (unat (ss ?t)))) (cells_of ?m0)"
    using print_time_shows [OF b(1) ck, of "vga_of M"] by (auto simp: vga_of_def)
  obtain m2 where 2: "print_systemup time_up ?n ((vga_of M)\<lparr>vmem := m1\<rparr>) = Some ((vga_of M)\<lparr>vmem := m2\<rparr>)"
      "\<forall>x. in_range x VGA_BUF 4000 \<or> in_range x time_up 9 \<or> m2 x = m1 x"
      "cells_of m2 = overlay 1910 (paint 0x0E (hms (unat ?n div 3600 mod 100) (unat ?n mod 3600 div 60) (unat ?n mod 60))) (cells_of m1)"
    using print_systemup_shows [OF b(2), of ?n "(vga_of M)\<lparr>vmem := m1\<rparr>"] by auto
  have out: "in_range x VGA_BUF 4000 \<or> in_range x time_str 9 \<or> in_range x time_up 9 \<or> m2 x = ?m0 x" for x using 1(2) 2(2) by metis
  have "put_vga ((vga_of M)\<lparr>vmem := m2\<rparr>) M = put_ram m2 M" by (simp add: put_vga_def vga_of_def put_ram_def)
  then have r: "user_task1 time_str time_up M = Some (put_ram m2 M)" using 1(1) 2(1) by (simp add: user_task1_def)
  obtain xs zs bs ubs where l: "life_inv L (mc_sched M) xs zs bs ubs" using assms(1) by (auto simp: kernel_inv_def)
  have heap: "m2 x = ?m0 x" if "unat (l_heap_start L) \<le> unat x \<and> unat x < unat (l_heap_end L) \<or> unat (l_user_start L) \<le> unat x \<and> unat x < unat (l_user_end L)" for x
    using out [of x] that assms(2-4) by (auto simp: video_apart_def static_buf_def disjoint_def in_range_def)
  have "life_inv L ((mc_sched M)\<lparr>ram := m2\<rparr>) xs zs bs ubs" by (rule life_ram [OF l]) (simp_all add: heap)
  then have "kernel_inv L (put_ram m2 M)" unfolding put_ram_def by (rule kernel_inv_sched [OF assms(1)])
  then show ?thesis using r out 1(3) 2(3) by (auto simp: Let_def)
qed

theorem clock_task_shows_time_witness:
  "\<exists>M m. kernel_inv big_L M \<and> user_task1 0x5000 0x5010 M = Some (put_ram m M) \<and> kernel_inv big_L (put_ram m M)"
proof -
  obtain M where "kernel_reach big_L big_I demo_dev M" by (rule big_reach)
  then have k: "kernel_inv big_L M" using kernel_reach_inv big_platform demo_rtc by blast
  have "static_buf big_L 0x5000" "static_buf big_L 0x5010" by (simp_all add: static_buf_def buffer_ok_def disjoint_def big_layout)
  moreover have "video_apart big_L" using big_platform by (simp add: platform_ok_def)
  ultimately show ?thesis using clock_task_shows_time [OF k] k by blast
qed

text \<open>A round of the reaper, which runs as a task that has not ended, frees every task that has.\<close>

lemma reaper_round:
  assumes "kernel_inv L M" "life_inv L (mc_sched M) xs zs bs ubs" "caller_alive (mc_sched M)"
  shows "\<exists>M' bs' ubs'. zombie_reaper_task L M = Some M' \<and> kernel_inv L M' \<and> life_inv L (mc_sched M') (survivors zs xs) [] bs' ubs' \<and>
    zombie_list (mc_sched M') = NULL \<and> freed (mc_sched M) (set zs) bs ubs bs' ubs'"
proof -
  obtain s bs' ubs' where s: "reap_zombies L (mc_sched M) = Some s" "life_inv L s (survivors zs xs) [] bs' ubs'"
      "freed (mc_sched M) (set zs) bs ubs bs' ubs'" "zombie_list s = NULL"
    using life_reap [OF assms(2,3)] by (auto simp: reap_zombies_def)
  then show ?thesis using kernel_inv_sched [OF assms(1) s(2)] by (auto simp: zombie_reaper_task_def)
qed

end
