(* ===== verification/Syscall_Wrappers.thy ===== *)
theory Syscall_Wrappers
  imports System_Runs
begin

text \<open>
  The wrappers of \<open>syscall/syscall.h\<close> around system calls.  Each of them loads the registers and executes the
  instruction \<open>syscall\<close>; the effect of the instruction is a parameter of the wrappers.  Two instances of it are studied: a
  gate that hands the registers to \<open>syscall_handler\<close>, as \<open>isr80\<close> does, and the exception
  that the processor raises on this machine, where the instruction is never enabled.
\<close>

section \<open>The wrappers\<close>

text \<open>
  A system call instruction takes the registers and the machine to the registers behind it, or stops the caller.  A wrapper
  then returns a value.
\<close>

type_synonym trap = "cpu \<times> machine \<Rightarrow> (cpu option \<times> machine) option"
type_synonym 'a outcome = "(('a \<times> cpu) option \<times> machine) option"

definition load_regs :: "(reg \<times> u64) list \<Rightarrow> cpu \<Rightarrow> cpu" where
  "load_regs rs c = c\<lparr>gpr := fold (\<lambda>(r, v) g. g(r := v)) rs (gpr c)\<rparr>"

definition invoke :: "trap \<Rightarrow> (u64 \<Rightarrow> 'a) \<Rightarrow> (reg \<times> u64) list \<Rightarrow> cpu \<times> machine \<Rightarrow> 'a outcome" where
  "invoke trap result rs = (\<lambda>(c, M).
     map_option (\<lambda>(c, M). (map_option (\<lambda>c. (result (gpr c RAX), c)) c, M)) (trap (load_regs rs c, M)))"

text \<open>A \<open>char\<close> and an \<open>int\<close> are widened with their sign, the unsigned types with zeros.\<close>

definition syscall_print_char :: "trap \<Rightarrow> u8 \<Rightarrow> u32 \<Rightarrow> u32 \<Rightarrow> u8 \<Rightarrow> u8 \<Rightarrow> cpu \<times> machine \<Rightarrow> unit outcome" where
  "syscall_print_char trap c x y fg bg = invoke trap (\<lambda>_. ())
     [(RAX, ucast SYSCALL_PRINT_CHAR_POSITION), (RDI, scast c), (RSI, ucast x), (RDX, ucast y), (R10, ucast fg), (R8, ucast bg)]"

definition syscall_print_string :: "trap \<Rightarrow> ptr \<Rightarrow> u32 \<Rightarrow> u32 \<Rightarrow> u8 \<Rightarrow> u8 \<Rightarrow> cpu \<times> machine \<Rightarrow> unit outcome" where
  "syscall_print_string trap str x y fg bg = invoke trap (\<lambda>_. ())
     [(RAX, ucast SYSCALL_PRINT_STRING_POSITION), (RDI, str), (RSI, ucast x), (RDX, ucast y), (R10, ucast fg), (R8, ucast bg)]"

definition syscall_get_time :: "trap \<Rightarrow> ptr \<Rightarrow> cpu \<times> machine \<Rightarrow> ptr outcome" where
  "syscall_get_time trap buf = invoke trap id
     [(RAX, ucast SYSCALL_GET_TIME), (RDI, buf)]"

definition syscall_malloc :: "trap \<Rightarrow> u64 \<Rightarrow> cpu \<times> machine \<Rightarrow> ptr outcome" where
  "syscall_malloc trap sz = invoke trap id
     [(RAX, ucast SYSCALL_MALLOC), (RDI, sz)]"

definition syscall_free :: "trap \<Rightarrow> ptr \<Rightarrow> cpu \<times> machine \<Rightarrow> unit outcome" where
  "syscall_free trap p = invoke trap (\<lambda>_. ())
     [(RAX, ucast SYSCALL_FREE), (RDI, p)]"

definition syscall_realloc :: "trap \<Rightarrow> ptr \<Rightarrow> u64 \<Rightarrow> cpu \<times> machine \<Rightarrow> ptr outcome" where
  "syscall_realloc trap p sz = invoke trap id
     [(RAX, ucast SYSCALL_REALLOC), (RDI, p), (RSI, sz)]"

definition syscall_kmalloc_stats :: "trap \<Rightarrow> ptr \<Rightarrow> cpu \<times> machine \<Rightarrow> unit outcome" where
  "syscall_kmalloc_stats trap stats = invoke trap (\<lambda>_. ())
     [(RAX, ucast SYSCALL_KMALLOC_STATS), (RDI, stats)]"

definition syscall_getchar :: "trap \<Rightarrow> cpu \<times> machine \<Rightarrow> i32 outcome" where
  "syscall_getchar trap = invoke trap ucast
     [(RAX, ucast SYSCALL_GETCHAR)]"

definition syscall_setposcursor :: "trap \<Rightarrow> u8 \<Rightarrow> u8 \<Rightarrow> cpu \<times> machine \<Rightarrow> unit outcome" where
  "syscall_setposcursor trap x y = invoke trap (\<lambda>_. ())
     [(RAX, ucast SYSCALL_SETPOSCURSOR), (RDI, ucast x), (RSI, ucast y)]"

definition syscall_power_off :: "trap \<Rightarrow> cpu \<times> machine \<Rightarrow> unit outcome" where
  "syscall_power_off trap = invoke trap (\<lambda>_. ())
     [(RAX, ucast SYSCALL_POWER_OFF)]"

definition syscall_reboot :: "trap \<Rightarrow> cpu \<times> machine \<Rightarrow> unit outcome" where
  "syscall_reboot trap = invoke trap (\<lambda>_. ())
     [(RAX, ucast SYSCALL_REBOOT)]"

definition syscall_task_create :: "trap \<Rightarrow> ptr \<Rightarrow> u64 \<Rightarrow> cpu \<times> machine \<Rightarrow> unit outcome" where
  "syscall_task_create trap entry stack_size = invoke trap (\<lambda>_. ())
     [(RAX, ucast SYSCALL_TASK_CREATE), (RDI, entry), (RSI, stack_size)]"

definition syscall_task_list :: "trap \<Rightarrow> ptr \<Rightarrow> u64 \<Rightarrow> cpu \<times> machine \<Rightarrow> i32 outcome" where
  "syscall_task_list trap buf max_tasks = invoke trap ucast
     [(RAX, ucast SYSCALL_TASK_LIST), (RDI, buf), (RSI, max_tasks)]"

definition syscall_task_stop :: "trap \<Rightarrow> i32 \<Rightarrow> cpu \<times> machine \<Rightarrow> i32 outcome" where
  "syscall_task_stop trap pid = invoke trap ucast
     [(RAX, ucast SYSCALL_TASK_STOP), (RDI, scast pid)]"

definition syscall_reap_zombies :: "trap \<Rightarrow> cpu \<times> machine \<Rightarrow> unit outcome" where
  "syscall_reap_zombies trap = invoke trap (\<lambda>_. ())
     [(RAX, ucast SYSCALL_REAP_ZOMBIES)]"

definition syscall_task_exit :: "trap \<Rightarrow> i32 \<Rightarrow> cpu \<times> machine \<Rightarrow> unit outcome" where
  "syscall_task_exit trap exit_code = invoke trap (\<lambda>_. ())
     [(RAX, ucast SYSCALL_TASK_EXIT), (RDI, scast exit_code)]"

section \<open>Through a gate to the handler\<close>

text \<open>
  A gate passes the registers to \<open>syscall_handler\<close> and puts the result into \<open>rax\<close>.
\<close>

definition gate :: "layout \<Rightarrow> image \<Rightarrow> device \<Rightarrow> trap" where
  "gate L I dev = (\<lambda>(c, M).
     map_option (\<lambda>r. case r of Ret M v \<Rightarrow> (Some (c\<lparr>gpr := (gpr c)(RAX := v)\<rparr>), M) | Stop M \<Rightarrow> (None, M))
       (syscall_handler L I dev (gpr c RAX) (gpr c RDI) (gpr c RSI) (gpr c RDX) (gpr c R10) (gpr c R8) M))"

text \<open>What the caller of a wrapper sees: the value, unless the caller is stopped, and the machine.\<close>

definition reply :: "'a outcome \<Rightarrow> ('a option \<times> machine) option" where
  "reply = map_option (\<lambda>(a, M). (map_option fst a, M))"

definition answer :: "(u64 \<Rightarrow> 'a) \<Rightarrow> sys_result \<Rightarrow> 'a option \<times> machine" where
  "answer result r = (case r of Ret M v \<Rightarrow> (Some (result v), M) | Stop M \<Rightarrow> (None, M))"

lemma answer_simps [simp]: "answer result (Ret M v) = (Some (result v), M)" "answer result (Stop M) = (None, M)"
  by (simp_all add: answer_def)

lemma reply_gate:
  "reply (invoke (gate L I dev) result rs (c, M)) = map_option (answer result)
     (let a = fold (\<lambda>(r, v) g. g(r := v)) rs (gpr c) in syscall_handler L I dev (a RAX) (a RDI) (a RSI) (a RDX) (a R10) (a R8) M)"
  by (auto simp: reply_def invoke_def gate_def load_regs_def Let_def option.map_comp answer_def
      intro!: option.map_cong0 split: sys_result.splits)

lemma wide_narrow [simp]:
  "(ucast (ucast (x :: u32) :: u64) :: u32) = x" "(ucast (ucast (y :: u8) :: u64) :: u8) = y"
  "(ucast (scast (z :: u8) :: u64) :: u8) = z" "(ucast (scast (i :: i32) :: u64) :: i32) = i"
  "(ucast (scast (z :: u8) :: u64) :: i32) = scast z"
  by (rule bit_word_eqI; auto simp: bit_simps)+

lemma narrow_counts [simp]:
  "(ucast (word_of_nat n :: u64) :: i32) = word_of_nat n" "(ucast (word_of_int k :: u64) :: i32) = word_of_int k"
  by (rule bit_word_eqI; simp add: bit_simps)+

lemma narrow_getchar [simp]: "(ucast (getchar_value b) :: i32) = (if b = -1 then 0 else scast b)"
  by (simp add: getchar_value_def)

lemma stopped_answer:
  "answer (ucast :: u64 \<Rightarrow> i32) (case r of Returned s rc \<Rightarrow> Ret (M\<lparr>mc_sched := s\<rparr>) (word_of_int rc) | Halted s \<Rightarrow> Stop (M\<lparr>mc_sched := s\<rparr>)) =
     (case r of Returned s rc \<Rightarrow> (Some (word_of_int rc), M\<lparr>mc_sched := s\<rparr>) | Halted s \<Rightarrow> (None, M\<lparr>mc_sched := s\<rparr>))"
  by (cases r) simp_all

text \<open>The number of a call selects its branch of the handler.\<close>

lemmas gate_simps = reply_gate syscall_handler_def Let_def option.map_comp comp_def case_prod_unfold


section \<open>The instruction on this machine\<close>

text \<open>
  The boot code sets only the bit LME of the register EFER.  Without its bit SCE the instruction raises the exception 6 (invalid
  opcode, without error code), whose stub goes back to the instruction.  \<open>sce\<close> is the bit, and
  \<open>entry\<close> what the instruction does when it is enabled.
\<close>

definition syscall_insn :: "bool \<Rightarrow> trap \<Rightarrow> trap" where
  "syscall_insn sce entry = (\<lambda>(c, M).
     if sce then entry (c, M)
     else case isr_stub None (c, ram (mc_sched M)) of (c, m) \<Rightarrow> Some (Some c, put_ram m M))"

text \<open>The instruction tried \<open>n\<close> times: each time the stub returns to it.\<close>

fun retry :: "nat \<Rightarrow> trap \<Rightarrow> cpu \<times> machine \<Rightarrow> (cpu option \<times> machine) option" where
  "retry 0 trap (c, M) = Some (Some c, M)"
| "retry (Suc n) trap (c, M) = Option.bind (trap (c, M)) (\<lambda>(c', M'). case c' of None \<Rightarrow> Some (None, M') | Some c' \<Rightarrow> retry n trap (c', M'))"

lemma ud_returns:
  assumes "unat (frame_base c) + 176 \<le> 2 ^ 64"
  shows "\<exists>m. syscall_insn False e (c, M) = Some (Some c, put_ram m M) \<and> (\<forall>x. \<not> in_range x (frame_base c) 176 \<longrightarrow> m x = ram (mc_sched M) x)"
proof -
  let ?m0 = "ram (mc_sched M)"
  obtain m sp where f: "fold push64 (map (gpr c) isr32_saved) (irq_entry c ?m0) = (m, sp)" by force
  have "isr_stub None (c, ?m0) = (c, m)" using exception_plain [OF assms, of ?m0] f by (simp add: isr_stub_def)
  then show ?thesis using stub_frame(3) [OF f stub_lengths(1) assms] by (auto simp: syscall_insn_def)
qed

lemma retry_stuck:
  assumes "unat (frame_base c) + 176 \<le> 2 ^ 64"
  shows "\<exists>m. retry n (syscall_insn False e) (c, M) = Some (Some c, put_ram m M) \<and>
    (\<forall>x. \<not> in_range x (frame_base c) 176 \<longrightarrow> m x = ram (mc_sched M) x)"
proof (induction n arbitrary: M)
  case 0
  then show ?case by (intro exI [of _ "ram (mc_sched M)"]) (simp add: put_ram_def)
next
  case (Suc n)
  obtain m where m: "syscall_insn False e (c, M) = Some (Some c, put_ram m M)" "\<forall>x. \<not> in_range x (frame_base c) 176 \<longrightarrow> m x = ram (mc_sched M) x"
    using ud_returns [OF assms] by blast
  obtain m' where "retry n (syscall_insn False e) (c, put_ram m M) = Some (Some c, put_ram m' (put_ram m M))"
      "\<forall>x. \<not> in_range x (frame_base c) 176 \<longrightarrow> m' x = m x"
    using Suc [of "put_ram m M"] by (auto simp: put_ram_def)
  then show ?case using m by (intro exI [of _ m']) (simp add: put_ram_def)
qed



end
