(* ===== verification/Spec2Isabelle.thy ===== *)
theory Spec2Isabelle
  imports User_Malloc Kernel_Malloc Fat_Space Multitask Keyboard Clock Vga Decimal Idt Poweroff System_Runs
    Debug Kernel_Tasks Syscall_Wrappers
begin

text \<open>
  A verification of the Kernel-C operating system: a 64-bit kernel with two heaps, a FAT-like
  file system on a RAM disk, a preemptive round-robin scheduler, a text console, a keyboard, a
  clock, power control and programs that are loaded from the file system.

  \<^bold>\<open>The parts and how they interact.\<close>  \<open>kmain\<close> (\<open>kernel.c\<close>) sets up the interrupt table and the
  timer, the two heaps and the file system, stores the program images that are linked into
  the kernel under \<open>/bin\<close>, and starts the scheduler with its first tasks.  From then on everything
  is driven by interrupts: the timer counts time and switches tasks, the keyboard fills a
  ring buffer, and system calls print, allocate memory, start and stop tasks.  File system, heaps,
  task stacks, console and ACPI tables all share one byte memory.

  \<^bold>\<open>The model.\<close>  Memory is a function from 64-bit addresses to bytes, and C integers are words of
  their width, so overflow behaves as in the code.  Every C function is a function from states to
  states and results, with one branch per branch of the code.  The state of a component is a record
  with its static variables.  Loops over a range are total functions; walks along
  pointers and up to a terminating zero are partial functions with \<open>None\<close> where the C loop would
  not end, and the theorems show that they return: there is no fuel anywhere.  What the program
  does not contain is a parameter: addresses that the linker chooses (records \<open>layout\<close>, \<open>image\<close>,
  \<open>isr_addrs\<close>), and devices (a function from the trace of port accesses to the value read).

  \<^item> \<open>Kernel_Prelude\<close>, \<open>Memory\<close>: words, index loops, little-endian loads and stores, ranges.
  \<^item> \<open>Libc_String\<close> (\<open>libc/string.c\<close>): every function, on terminated strings in memory.
  \<^item> \<open>Block_Heap\<close>, \<open>Block_List\<close>: block headers in memory, the operations that
    \<open>malloc.c\<close> and \<open>user_malloc.c\<close> have in common, and their meaning on a list of blocks.
  \<^item> \<open>Allocator_Spec\<close>: the abstract first-fit allocator and the contract of an allocator, a
    locale; \<open>Kernel_Malloc\<close> (\<open>malloc/malloc.c\<close>) and \<open>User_Malloc\<close> (\<open>malloc/user_malloc.c\<close>) interpret it.
    Shown: sequences of calls refine the abstract allocator, payloads are fresh, large
    enough and disjoint, \<open>realloc\<close> keeps contents on every branch, statistics add up; and that
    \<open>heap_expand\<close> hands out memory that is in use.
  \<^item> \<open>Fat_Chain\<close>, \<open>Fat16\<close>, \<open>Fat_Space\<close> (\<open>fat16/fs.c\<close>, \<open>ramdisk/ramdisk.c\<close>): the allocation table with the locale
    of families of disjoint chains, clusters in the RAM disk, and the directory interface.  Shown:
    every reachable file system is well formed, writes can be read back and leave other
    files alone, a write succeeds while an entry and enough clusters are free, and the listing
    is the filtered table.
  \<^item> \<open>Scheduler\<close>, \<open>Task_Memory\<close>, \<open>Multitask\<close> (\<open>multitask/multitask.c\<close>): task records, the ring,
    the zombie list, stacks and images in the two heaps; a transition system of ticks, creation,
    exit, stop and reaping.  Shown: the invariant of all reachable states, fairness, what every
    operation does, that all walks end, and that ended tasks give their memory back.
  \<^item> \<open>Portio\<close> (\<open>portio/portio.c\<close>, \<open>pic.c\<close>), \<open>Idt\<close> (\<open>idt.c\<close>): port accesses as a trace, and
    the interrupt table as the processor reads it.
  \<^item> \<open>Keyboard\<close> (\<open>keyboard/keyboard.c\<close>): scan codes and the ring buffer, an interpretation of the
    locale of bounded queues.  Shown: what is typed is read, in order.
  \<^item> \<open>Clock\<close> (\<open>time/timer.c\<close>, \<open>time/clock/clock.c\<close>, \<open>time/clock/rtc.c\<close>): the timer interrupt composed with
    the scheduler, and setting the clock from the real-time clock.
  \<^item> \<open>Vga\<close> (\<open>vga/vga.c\<close>): the console, refining a grid of cells with a cursor.
  \<^item> \<open>Decimal\<close> (parts of \<open>malloc/malloc.c\<close> and \<open>syscall/syscall.c\<close>): decimal text.
  \<^item> \<open>Poweroff\<close> (\<open>power/poweroff.c\<close>, \<open>power/reboot.c\<close>): the search of the ACPI tables against
    their meaning, and what is written to which port.
  \<^item> \<open>Programs\<close> (\<open>load_app_to_fs\<close> of \<open>kernel.c\<close>, \<open>load_and_run_program\<close> of \<open>syscall/syscall.c\<close>,
    \<open>tasks/tasks.c\<close>): file system, heaps and scheduler together, from a linked image to a task
    that starts at a copy of its bytes.

  \<^item> \<open>Reports\<close> (\<open>print_kmalloc_stats\<close> of \<open>malloc/malloc.c\<close>, \<open>libc/stack_protector.c\<close>): text at fixed places of the
    screen.  Shown: exactly the lines of the report appear, with figures that add up, and the rest of the screen is kept.
  \<^item> \<open>Debug\<close> (\<open>debug_run_tests\<close>, \<open>itoa\<close>, \<open>list_root_dir\<close> of \<open>kernel.c\<close>): what a debug kernel does besides.
    Shown: the self test runs to its end and leaves heap and payloads as they were, \<open>itoa\<close> in base 10 is \<open>u32_to_dec\<close>, and
    the listing stays on the screen up to 24 entries.

  The whole kernel is put together from these parts:

  \<^item> \<open>Kernel\<close> (\<open>syscall_handler\<close> of \<open>syscall/syscall.c\<close>, \<open>kmain\<close> of \<open>kernel.c\<close>): one state
    \<open>machine\<close> that joins all components, every system call, the two hardware interrupts, and the boot sequence.
  \<^item> \<open>Kernel_Invariant\<close>, \<open>Kernel_Boot\<close>: the invariant over all components, that every call with sensible arguments
    and every interrupt keeps it, that \<open>kmain\<close> establishes it, and the invariant of all reachable states.
  \<^item> \<open>Stubs\<close> (\<open>interrupt/isr32.asm\<close>, \<open>isr33.asm\<close>, \<open>isr80.asm\<close>, \<open>isr_stubs.asm\<close>): what
    the processor and the assembler stubs push and pop, on the registers and the byte memory.
  \<^item> \<open>Kernel_Frame\<close>, \<open>Context_Switch\<close>, \<open>Isolation\<close>, \<open>System_Runs\<close>: which memory a call may change, the frames of the tasks that
    wait, and whole runs of the processor in which interrupts, system calls and steps of the tasks alternate.
    Shown: the machine refines one processor per task; a task that was interrupted gets exactly its registers
    back; a system call changes \<open>rax\<close> only; the timer brings every task back.
  \<^item> \<open>Kernel_Tasks\<close> (\<open>user_task1\<close>, \<open>zombie_reaper_task\<close> of \<open>tasks/tasks.c\<close>): one round of each of the two
    tasks that belong to the kernel.  Shown: the clock on the screen shows the counters, and the reaper frees what has ended.
  \<^item> \<open>Syscall_Wrappers\<close> (\<open>syscall/syscall.h\<close>): the inline functions around system calls, with the effect of the instruction
    \<open>syscall\<close> as a parameter.  Shown: behind a gate to \<open>syscall_handler\<close> each performs the operation it is named after,
    with two exceptions; and, as the instruction is not enabled, that none of them returns.

  \<^bold>\<open>Bounds.\<close>  The theorems on \<open>malloc\<close> speak about requests that fit into a free block: beyond
  that \<open>heap_expand\<close> breaks the heap, which is itself a theorem.  Pids are assumed to stay
  below \<open>2 ^ 31\<close>, stacks to have at least 192 bytes, files to be shorter than \<open>2 ^ 32\<close> bytes.  Task
  records live in a store of their own beside the byte memory; the blocks that hold them
  are reserved in the kernel heap.  A handler, and likewise the round of a task, is one step of a run: the
  model does not interrupt it, although some functions enable interrupts before they return.

  \<^bold>\<open>Not modelled.\<close>  The boot code (\<open>kernel.asm\<close>, \<open>lidt_load.asm\<close>), which switches the processor to 64-bit mode and sets up page
  tables: its effect is the state in which \<open>kmain\<close> starts.  The user programs, which are assembler: their images are data, and
  in the theorems on runs a task may do anything to its registers and its own memory.  The checks of the
  stack protector, which the compiler inserts, and the loading of segment registers.  The call of the self test in \<open>kmain\<close>, which depends on the
  macro DEBUG: \<open>kmain\<close> is the release variant, the self test a function of its own.
\<close>

end
